(* ===== verification/Prelude.thy ===== *)
theory Prelude
  imports Main "HOL-Library.Word"
begin

text \<open>
  Shared vocabulary of the development: the machine types, the result type of the operations
  that can stop, little-endian encodings of integers in byte arrays (\<open>ltos\<close>, \<open>stol\<close>,
  \<open>bytestoi\<close> of \<open>src/src/include/syn.h\<close>), and arrays and address spaces as functions that are
  updated at a range (\<open>memcpy\<close>).
\<close>

unbundle bit_operations_syntax

named_theorems bytes_simps "reading back what was written into a byte array or the memory"
named_theorems frame "fields that an operation leaves alone"

section \<open>Machine types\<close>

type_synonym u8 = "8 word"
type_synonym u32 = "32 word"
type_synonym u64 = "64 word"
type_synonym addr = "64 word"

section \<open>Results\<close>

text \<open>
  An operation of the program either completes or stops: by \<open>jia_assert\<close> or
  \<open>local_assert\<close> (with the text of the assertion), by an access outside an array, by an access
  to memory that its protection refuses, by the use of a variable that was never assigned, by
  a semaphore or a flag that makes the thread wait, by a loop that repeats without progress, by a
  division by zero, by the overflow of a signed integer, or by \<open>exit\<close>.
\<close>

datatype jerror =
    JiaAssert string
  | LocalAssert string
  | OutOfBounds string
  | MemFault addr
  | Uninitialised string
  | WouldBlock string
  | Diverges string
  | DivZero
  | Overflow string
  | Exit int

type_synonym 'a res = "jerror + 'a"

definition bindE :: "'a res \<Rightarrow> ('a \<Rightarrow> 'b res) \<Rightarrow> 'b res" where
  "bindE m f = (case m of Inl e \<Rightarrow> Inl e | Inr x \<Rightarrow> f x)"

lemma bindE_Inl [simp]: "bindE (Inl e) f = Inl e"
  by (simp add: bindE_def)

lemma bindE_Inr [simp]: "bindE (Inr x) f = f x"
  by (simp add: bindE_def)

lemma bindE_eq_Inr [simp]: "bindE m f = Inr y \<longleftrightarrow> (\<exists>x. m = Inr x \<and> f x = Inr y)"
  by (cases m) auto

lemma bindE_eq_Inl: "bindE m f = Inl e \<longleftrightarrow> m = Inl e \<or> (\<exists>x. m = Inr x \<and> f x = Inl e)"
  by (cases m) auto

lemma bindE_cong [fundef_cong]:
  "m = m' \<Longrightarrow> (\<And>x. m' = Inr x \<Longrightarrow> f x = f' x) \<Longrightarrow> bindE m f = bindE m' f'"
  by (cases m') auto

definition assertE :: "bool \<Rightarrow> jerror \<Rightarrow> unit res" where
  "assertE c e = (if c then Inr () else Inl e)"

lemma assertE_True [simp]: "assertE True e = Inr ()"
  by (simp add: assertE_def)

lemma assertE_False [simp]: "assertE False e = Inl e"
  by (simp add: assertE_def)

lemma assertE_eq_Inr [simp]: "assertE c e = Inr u \<longleftrightarrow> c"
  by (simp add: assertE_def)

lemma assertE_eq_Inl [simp]: "assertE c e = Inl e' \<longleftrightarrow> \<not> c \<and> e' = e"
  by (auto simp add: assertE_def)

text \<open>A loop over a list whose body can stop.\<close>

fun foldE :: "('a \<Rightarrow> 's \<Rightarrow> 's res) \<Rightarrow> 'a list \<Rightarrow> 's \<Rightarrow> 's res" where
  "foldE f [] s = Inr s"
| "foldE f (x # xs) s = bindE (f x s) (foldE f xs)"

lemma foldE_append: "foldE f (xs @ ys) s = bindE (foldE f xs s) (foldE f ys)"
  by (induction xs arbitrary: s) (auto simp: bindE_def split: sum.splits)

lemma foldE_inv:
  assumes "foldE f xs s = Inr t" and "P s"
    and "\<And>x s t. x \<in> set xs \<Longrightarrow> P s \<Longrightarrow> f x s = Inr t \<Longrightarrow> P t"
  shows "P t"
  using assms
proof (induction xs arbitrary: s)
  case Nil
  then show ?case by simp
next
  case (Cons x xs)
  then obtain u where u: "f x s = Inr u" "foldE f xs u = Inr t" by auto
  with Cons.prems have "P u" by auto
  with u Cons show ?case by auto
qed

lemma foldE_Inr: "foldE (\<lambda>x s. Inr (g x s)) xs s = Inr (fold g xs s)"
  by (induction xs arbitrary: s) auto

section \<open>Byte arrays\<close>

text \<open>
  A byte array of the program is a function from indices to bytes, so that what an earlier
  message left in a buffer is still there. \<open>put d k bs\<close> is \<open>memcpy (d + k, bs, length bs)\<close>.
\<close>

definition put :: "(nat \<Rightarrow> u8) \<Rightarrow> nat \<Rightarrow> u8 list \<Rightarrow> (nat \<Rightarrow> u8)" where
  "put d k bs = (\<lambda>i. if k \<le> i \<and> i < k + length bs then bs ! (i - k) else d i)"

definition bslice :: "(nat \<Rightarrow> u8) \<Rightarrow> nat \<Rightarrow> nat \<Rightarrow> u8 list" where
  "bslice d k n = map d [k..<k + n]"

lemma length_bslice [simp]: "length (bslice d k n) = n"
  by (simp add: bslice_def)

lemma nth_bslice [simp]: "i < n \<Longrightarrow> bslice d k n ! i = d (k + i)"
  by (simp add: bslice_def)

lemma put_Nil [simp]: "put d k [] = d"
  by (rule ext) (auto simp: put_def)

lemma put_before [simp]: "i < k \<Longrightarrow> put d k bs i = d i"
  by (simp add: put_def)

lemma put_after [simp]: "k + length bs \<le> i \<Longrightarrow> put d k bs i = d i"
  by (simp add: put_def)

lemma put_inside: "i < length bs \<Longrightarrow> put d k bs (k + i) = bs ! i"
  by (simp add: put_def)

lemma put_append: "put (put d k as) (k + length as) bs = put d k (as @ bs)"
  by (auto simp: put_def fun_eq_iff nth_append)

lemma bslice_put [bytes_simps]: "n = length bs \<Longrightarrow> bslice (put d k bs) k n = bs"
  by (rule nth_equalityI) (simp_all add: put_def)

lemma bslice_put_before [bytes_simps]: "j + n \<le> k \<Longrightarrow> bslice (put d k bs) j n = bslice d j n"
  by (rule nth_equalityI) (simp_all add: put_def)

lemma bslice_append: "bslice d k (m + n) = bslice d k m @ bslice d (k + m) n"
  by (rule nth_equalityI) (auto simp: nth_append)

lemma bslice_Nil [simp]: "bslice d k 0 = []"
  by (simp add: bslice_def)

lemma take_bslice: "m \<le> n \<Longrightarrow> take m (bslice d k n) = bslice d k m"
  by (rule nth_equalityI) auto

lemma bslice_chunk:
  assumes "bslice d k (c * length xs) = concat (map f xs)" "\<And>x. length (f x) = c" "i < length xs"
  shows "bslice d (k + c * i) c = f (xs ! i)"
  using assms(1,3)
proof (induction xs arbitrary: k i)
  case (Cons x xs)
  have "bslice d k c @ bslice d (k + c) (c * length xs) = f x @ concat (map f xs)"
    using Cons.prems(1) bslice_append [of d k c "c * length xs"] by simp
  then have s: "bslice d k c = f x" "bslice d (k + c) (c * length xs) = concat (map f xs)"
    using assms(2) by simp_all
  show ?case
  proof (cases i)
    case (Suc j)
    then show ?thesis using Cons.IH [OF s(2), of j] Cons.prems(2) by (simp add: add.assoc)
  qed (simp add: s)
qed simp

section \<open>Integers in byte arrays\<close>

text \<open>
  \<open>ltos(x)\<close> is the address of an integer, so that appending \<open>Intbytes\<close> or
  \<open>sizeof(unsigned char *)\<close> bytes from it stores the integer little-endian (the byte order of
  the machines the program is built for); \<open>bytestoi\<close> and \<open>stol\<close> read 4 and 8 bytes back.
\<close>

definition itob :: "u32 \<Rightarrow> u8 list" where
  "itob w = [ucast w, ucast (drop_bit 8 w), ucast (drop_bit 16 w), ucast (drop_bit 24 w)]"

definition ltob :: "u64 \<Rightarrow> u8 list" where
  "ltob w = [ucast w, ucast (drop_bit 8 w), ucast (drop_bit 16 w), ucast (drop_bit 24 w),
             ucast (drop_bit 32 w), ucast (drop_bit 40 w), ucast (drop_bit 48 w),
             ucast (drop_bit 56 w)]"

definition bytestoi :: "(nat \<Rightarrow> u8) \<Rightarrow> nat \<Rightarrow> u32" where
  "bytestoi d k = ucast (d k) OR push_bit 8 (ucast (d (k + 1)))
     OR push_bit 16 (ucast (d (k + 2))) OR push_bit 24 (ucast (d (k + 3)))"

definition stol :: "(nat \<Rightarrow> u8) \<Rightarrow> nat \<Rightarrow> u64" where
  "stol d k = ucast (d k) OR push_bit 8 (ucast (d (k + 1)))
     OR push_bit 16 (ucast (d (k + 2))) OR push_bit 24 (ucast (d (k + 3)))
     OR push_bit 32 (ucast (d (k + 4))) OR push_bit 40 (ucast (d (k + 5)))
     OR push_bit 48 (ucast (d (k + 6))) OR push_bit 56 (ucast (d (k + 7)))"

lemma length_itob [simp]: "length (itob w) = 4"
  by (simp add: itob_def)

lemma length_ltob [simp]: "length (ltob w) = 8"
  by (simp add: ltob_def)

lemma itob_join:
  "ucast (ucast w :: u8) OR push_bit 8 (ucast (ucast (drop_bit 8 w) :: u8))
     OR push_bit 16 (ucast (ucast (drop_bit 16 w) :: u8))
     OR push_bit 24 (ucast (ucast (drop_bit 24 w) :: u8)) = (w :: u32)"
proof (rule bit_word_eqI)
  fix n :: nat
  assume n: "n < LENGTH(32)"
  then consider "n < 8" | "8 \<le> n \<and> n < 16" | "16 \<le> n \<and> n < 24" | "24 \<le> n \<and> n < 32"
    by fastforce
  then show "bit (ucast (ucast w :: u8) OR push_bit 8 (ucast (ucast (drop_bit 8 w) :: u8))
     OR push_bit 16 (ucast (ucast (drop_bit 16 w) :: u8))
     OR push_bit 24 (ucast (ucast (drop_bit 24 w) :: u8)) :: u32) n = bit w n"
    by cases (auto simp: bit_simps)
qed

lemma ltob_join:
  "ucast (ucast w :: u8) OR push_bit 8 (ucast (ucast (drop_bit 8 w) :: u8))
     OR push_bit 16 (ucast (ucast (drop_bit 16 w) :: u8))
     OR push_bit 24 (ucast (ucast (drop_bit 24 w) :: u8))
     OR push_bit 32 (ucast (ucast (drop_bit 32 w) :: u8))
     OR push_bit 40 (ucast (ucast (drop_bit 40 w) :: u8))
     OR push_bit 48 (ucast (ucast (drop_bit 48 w) :: u8))
     OR push_bit 56 (ucast (ucast (drop_bit 56 w) :: u8)) = (w :: u64)"
proof (rule bit_word_eqI)
  fix n :: nat
  assume n: "n < LENGTH(64)"
  then consider "n < 8" | "8 \<le> n \<and> n < 16" | "16 \<le> n \<and> n < 24" | "24 \<le> n \<and> n < 32"
    | "32 \<le> n \<and> n < 40" | "40 \<le> n \<and> n < 48" | "48 \<le> n \<and> n < 56" | "56 \<le> n \<and> n < 64"
    by fastforce
  then show "bit (ucast (ucast w :: u8) OR push_bit 8 (ucast (ucast (drop_bit 8 w) :: u8))
     OR push_bit 16 (ucast (ucast (drop_bit 16 w) :: u8))
     OR push_bit 24 (ucast (ucast (drop_bit 24 w) :: u8))
     OR push_bit 32 (ucast (ucast (drop_bit 32 w) :: u8))
     OR push_bit 40 (ucast (ucast (drop_bit 40 w) :: u8))
     OR push_bit 48 (ucast (ucast (drop_bit 48 w) :: u8))
     OR push_bit 56 (ucast (ucast (drop_bit 56 w) :: u8)) :: u64) n = bit w n"
    by cases (auto simp: bit_simps)
qed

lemma bslice_Suc: "bslice d k (Suc n) = d k # bslice d (Suc k) n"
  unfolding bslice_def by (subst upt_conv_Cons) (auto simp del: upt_Suc)

lemma bslice_4: "bslice d k 4 = [d k, d (k + 1), d (k + 2), d (k + 3)]"
  by (simp add: eval_nat_numeral bslice_Suc)

lemma bslice_8: "bslice d k 8 =
    [d k, d (k + 1), d (k + 2), d (k + 3), d (k + 4), d (k + 5), d (k + 6), d (k + 7)]"
  by (simp add: eval_nat_numeral bslice_Suc)

lemma bytestoi_bslice:
  assumes "bslice d k 4 = itob w"
  shows "bytestoi d k = w"
proof -
  have "d k = ucast w" "d (k + 1) = ucast (drop_bit 8 w)" "d (k + 2) = ucast (drop_bit 16 w)"
    "d (k + 3) = ucast (drop_bit 24 w)"
    using assms by (simp_all add: bslice_4 itob_def)
  then show ?thesis using itob_join [of w] by (simp only: bytestoi_def)
qed

lemma stol_bslice:
  assumes "bslice d k 8 = ltob w"
  shows "stol d k = w"
proof -
  have "d k = ucast w" "d (k + 1) = ucast (drop_bit 8 w)" "d (k + 2) = ucast (drop_bit 16 w)"
    "d (k + 3) = ucast (drop_bit 24 w)" "d (k + 4) = ucast (drop_bit 32 w)"
    "d (k + 5) = ucast (drop_bit 40 w)" "d (k + 6) = ucast (drop_bit 48 w)"
    "d (k + 7) = ucast (drop_bit 56 w)"
    using assms by (simp_all add: bslice_8 ltob_def)
  then show ?thesis using ltob_join [of w] by (simp only: stol_def)
qed

lemma put_sub:
  assumes "j \<le> i" "i + n \<le> j + length bs"
  shows "bslice (put d j bs) i n = take n (drop (i - j) bs)"
  using assms by (intro nth_equalityI) (auto simp: put_def)

lemma ucast_stol: "ucast (stol d k) = bytestoi d k"
proof (rule bit_word_eqI)
  fix n :: nat
  assume "n < LENGTH(32)"
  then show "bit (ucast (stol d k) :: u32) n = bit (bytestoi d k) n"
    by (auto simp: stol_def bytestoi_def bit_simps)
qed

section \<open>The address space\<close>

text \<open>
  Memory is a function from addresses to bytes; addresses are 64-bit and wrap around.
  \<open>wr_mem m a bs\<close> is \<open>memcpy (a, bs, length bs)\<close>, \<open>rd_mem m a n\<close> the \<open>n\<close> bytes at \<open>a\<close>.
\<close>

definition wr_mem :: "(addr \<Rightarrow> u8) \<Rightarrow> addr \<Rightarrow> u8 list \<Rightarrow> (addr \<Rightarrow> u8)" where
  "wr_mem m a bs = (\<lambda>x. if unat (x - a) < length bs then bs ! unat (x - a) else m x)"

definition rd_mem :: "(addr \<Rightarrow> u8) \<Rightarrow> addr \<Rightarrow> nat \<Rightarrow> u8 list" where
  "rd_mem m a n = map (\<lambda>i. m (a + word_of_nat i)) [0..<n]"

lemma length_rd_mem [simp]: "length (rd_mem m a n) = n"
  by (simp add: rd_mem_def)

lemma nth_rd_mem [simp]: "i < n \<Longrightarrow> rd_mem m a n ! i = m (a + word_of_nat i)"
  by (simp add: rd_mem_def)

lemma unat_of_small: "i < 2 ^ 64 \<Longrightarrow> unat (word_of_nat i :: addr) = i"
  by (simp add: unat_of_nat)

lemma wr_mem_inside:
  "i < length bs \<Longrightarrow> length bs \<le> 2 ^ 64 \<Longrightarrow> wr_mem m a bs (a + word_of_nat i) = bs ! i"
  by (simp add: wr_mem_def unat_of_nat)

lemma rd_wr_mem [bytes_simps]: "length bs \<le> 2 ^ 64 \<Longrightarrow> rd_mem (wr_mem m a bs) a (length bs) = bs"
  by (rule nth_equalityI) (simp_all add: wr_mem_inside)

lemma wr_mem_Nil [simp]: "wr_mem m a [] = m"
  by (simp add: wr_mem_def)

end
