(* ===== verification/Message.thy ===== *)
theory Message
  imports Prelude
begin

text \<open>
  The messages of \<open>src/src/include/msg.h\<close>: operation codes, the header and data of a message,
  and the operations of \<open>src/src/tools/tools.c\<close> that fill one (\<open>appendmsg\<close>) or name one
  (\<open>op2name\<close>).
\<close>

section \<open>Constants\<close>

definition Maxhosts :: nat where "Maxhosts = 16"
definition Maxlocks :: nat where "Maxlocks = 64"
definition Intbytes :: nat where "Intbytes = 4"
definition Ptrbytes :: nat where "Ptrbytes = 8"
definition Pagesize :: nat where "Pagesize = 4096"
definition Cachepages :: nat where "Cachepages = 1024"
definition Maxmempages :: nat where "Maxmempages = 8388608"
definition Maxsize :: nat where "Maxsize = 40960"
definition Msgheadsize :: nat where "Msgheadsize = 32"
definition Maxmsgsize :: nat where "Maxmsgsize = Maxsize - Msgheadsize"
definition BCAST :: nat where "BCAST = 100"

lemma Maxmsgsize_eq: "Maxmsgsize = 40928"
  by (simp add: Maxmsgsize_def Maxsize_def Msgheadsize_def)

lemmas msg_consts = Intbytes_def Ptrbytes_def Maxmsgsize_eq

section \<open>Operation codes\<close>

datatype msg_op =
    DIFF | DIFFGRANT | GETP | GETPGRANT | ACQ | ACQGRANT | INVLD | BARR | BARRGRANT | REL | WTNT
  | JIAEXIT | WAIT | WAITGRANT | STAT | STATGRANT | ERRMSG | SETCV | RESETCV | WAITCV | CVGRANT
  | MSGBODY | MSGTAIL | LOADREQ | LOADGRANT

text \<open>
  The code adds \<open>BCAST\<close> to the operation of a message that travels down the broadcast tree, so
  the field holds the number of the operation, not a constructor.
\<close>

fun op_num :: "msg_op \<Rightarrow> nat" where
  "op_num DIFF = 0"
| "op_num DIFFGRANT = 1"
| "op_num GETP = 2"
| "op_num GETPGRANT = 3"
| "op_num ACQ = 4"
| "op_num ACQGRANT = 5"
| "op_num INVLD = 6"
| "op_num BARR = 7"
| "op_num BARRGRANT = 8"
| "op_num REL = 9"
| "op_num WTNT = 10"
| "op_num JIAEXIT = 11"
| "op_num WAIT = 12"
| "op_num WAITGRANT = 13"
| "op_num STAT = 14"
| "op_num STATGRANT = 15"
| "op_num ERRMSG = 16"
| "op_num SETCV = 17"
| "op_num RESETCV = 18"
| "op_num WAITCV = 19"
| "op_num CVGRANT = 20"
| "op_num MSGBODY = 21"
| "op_num MSGTAIL = 22"
| "op_num LOADREQ = 23"
| "op_num LOADGRANT = 24"

definition op_table :: "msg_op list" where
  "op_table = [DIFF, DIFFGRANT, GETP, GETPGRANT, ACQ, ACQGRANT, INVLD, BARR, BARRGRANT, REL, WTNT,
     JIAEXIT, WAIT, WAITGRANT, STAT, STATGRANT, ERRMSG, SETCV, RESETCV, WAITCV, CVGRANT, MSGBODY,
     MSGTAIL, LOADREQ, LOADGRANT]"

text \<open>The constructor that a number names, for the \<open>switch\<close> statements of the code.\<close>

definition op_of_num :: "nat \<Rightarrow> msg_op option" where
  "op_of_num n = (if n < length op_table then Some (op_table ! n) else None)"

lemma op_of_num_op_num [simp]: "op_of_num (op_num x) = Some x"
  by (cases x) (simp_all add: op_of_num_def op_table_def)

lemma op_num_less_BCAST: "op_num x < BCAST"
  by (cases x) (simp_all add: BCAST_def)

lemma op_num_inject [simp]: "op_num x = op_num y \<longleftrightarrow> x = y"
  by (metis op_of_num_op_num option.inject)

section \<open>Messages\<close>

record jia_msg =
  op :: nat
  frompid :: nat
  topid :: nat
  temp :: u32
  seqno :: u32
  index :: nat
  scope :: u32
  size :: nat
  data :: "nat \<Rightarrow> u8"

text \<open>The message of a cleared slot: \<open>(jia_msg_t){0}\<close> with \<open>op = ERRMSG\<close>.\<close>

definition clear_msg :: jia_msg where
  "clear_msg = \<lparr>op = op_num ERRMSG, frompid = 0, topid = 0, temp = 0, seqno = 0, index = 0,
     scope = 0, size = 0, data = (\<lambda>_. 0)\<rparr>"

definition is_op :: "jia_msg \<Rightarrow> msg_op \<Rightarrow> bool" where
  "is_op m x \<longleftrightarrow> op m = op_num x"

definition appendmsg :: "jia_msg \<Rightarrow> u8 list \<Rightarrow> jia_msg res" where
  "appendmsg m bs =
     bindE (assertE (size m + length bs \<le> Maxmsgsize) (JiaAssert ''Message too large'')) (\<lambda>_.
       Inr (m\<lparr>data := put (data m) (size m) bs, size := size m + length bs\<rparr>))"

text \<open>The bytes that the message carries, and the integer at the front of many of them.\<close>

definition payload :: "jia_msg \<Rightarrow> u8 list" where
  "payload m = bslice (data m) 0 (size m)"

definition msg_int :: "jia_msg \<Rightarrow> nat \<Rightarrow> u32" where
  "msg_int m k = ucast (stol (data m) k)"

lemma msg_int_bytestoi: "msg_int m k = bytestoi (data m) k"
  by (simp add: msg_int_def ucast_stol)

lemma appendmsg_Inr:
  "appendmsg m bs = Inr m' \<longleftrightarrow>
     size m + length bs \<le> Maxmsgsize \<and>
     m' = m\<lparr>data := put (data m) (size m) bs, size := size m + length bs\<rparr>"
  by (auto simp: appendmsg_def)

lemma appendmsg_payload: "appendmsg m bs = Inr m' \<Longrightarrow> payload m' = payload m @ bs"
  by (auto simp: appendmsg_Inr payload_def bslice_append bytes_simps)

lemma appendmsg_header:
  assumes "appendmsg m bs = Inr m'"
  shows "op m' = op m" "frompid m' = frompid m" "topid m' = topid m" "temp m' = temp m"
    "seqno m' = seqno m" "scope m' = scope m" "size m' = size m + length bs"
  using assms by (auto simp: appendmsg_Inr)

lemma appendmsg_ok:
  assumes "size m + length bs \<le> Maxmsgsize"
  obtains m' where "appendmsg m bs = Inr m'" "payload m' = payload m @ bs"
    "size m' = size m + length bs" "op m' = op m" "frompid m' = frompid m" "topid m' = topid m"
    "temp m' = temp m" "seqno m' = seqno m" "scope m' = scope m"
proof -
  obtain m' where m': "appendmsg m bs = Inr m'" using assms by (auto simp: appendmsg_def)
  show thesis by (rule that [OF m' appendmsg_payload [OF m']]) (simp_all add: appendmsg_header [OF m'])
qed

text \<open>The message \<open>m'\<close> is \<open>m\<close> with \<open>bs\<close> appended.\<close>

definition extends :: "jia_msg \<Rightarrow> u8 list \<Rightarrow> jia_msg \<Rightarrow> bool" where
  "extends m bs m' \<longleftrightarrow> payload m' = payload m @ bs \<and> size m' = size m + length bs \<and>
     op m' = op m \<and> frompid m' = frompid m \<and> topid m' = topid m \<and> scope m' = scope m"

lemma appendmsg_extends:
  "size m + length bs \<le> Maxmsgsize \<Longrightarrow> \<exists>m'. appendmsg m bs = Inr m' \<and> extends m bs m'"
  by (rule appendmsg_ok [of m bs]) (auto simp: extends_def)

lemma extends_trans: "extends m as m1 \<Longrightarrow> extends m1 bs m2 \<Longrightarrow> extends m (as @ bs) m2"
  by (simp add: extends_def)

lemma extends_refl: "extends m [] m"
  by (simp add: extends_def)

lemma extends_size: "extends m bs m' \<Longrightarrow> size m' = size m + length bs"
  by (simp add: extends_def)

section \<open>Names of operations\<close>

definition op2name :: "nat \<Rightarrow> string" where
  "op2name n = (case op_of_num n of
      Some DIFF \<Rightarrow> ''DIFF''
    | Some DIFFGRANT \<Rightarrow> ''DIFFGRANT''
    | Some GETP \<Rightarrow> ''GETP''
    | Some GETPGRANT \<Rightarrow> ''GETPGRANT''
    | Some ACQ \<Rightarrow> ''ACQ''
    | Some ACQGRANT \<Rightarrow> ''ACQGRANT''
    | Some INVLD \<Rightarrow> ''INVALID''
    | Some BARR \<Rightarrow> ''BARR''
    | Some BARRGRANT \<Rightarrow> ''BARRGRANT''
    | Some REL \<Rightarrow> ''REL''
    | Some WTNT \<Rightarrow> ''WTNT''
    | Some JIAEXIT \<Rightarrow> ''JIAEXIT''
    | Some WAIT \<Rightarrow> ''WAIT''
    | Some WAITGRANT \<Rightarrow> ''WAITGRANT''
    | Some STAT \<Rightarrow> ''STAT''
    | Some STATGRANT \<Rightarrow> ''STATGRANT''
    | Some SETCV \<Rightarrow> ''SETCV''
    | Some RESETCV \<Rightarrow> ''RESETCV''
    | Some WAITCV \<Rightarrow> ''WAITCV''
    | Some CVGRANT \<Rightarrow> ''CVGRANT''
    | Some MSGBODY \<Rightarrow> ''MSG''
    | Some MSGTAIL \<Rightarrow> ''MSG''
    | Some LOADREQ \<Rightarrow> ''LOADREQ''
    | Some LOADGRANT \<Rightarrow> ''LOADGRANT''
    | _ \<Rightarrow> ''NULL'')"

end
