(* ===== verification/Ringq.thy ===== *)
theory Ringq
  imports Message
begin

text \<open>
  The message queues of \<open>src/src/comm/comm.c\<close>: a ring of \<open>size\<close> slots with a head, a tail and
  two counting semaphores. Producers take a free slot (\<open>sem_wait (free_count)\<close>), write it under
  the tail lock and post \<open>busy_count\<close>; the consumer thread waits for \<open>busy_count\<close>, calls
  \<open>dequeue\<close>, handles the message in place and then posts \<open>free_count\<close>
  (\<open>src/src/udp/udp_server.c\<close>, \<open>src/src/udp/udp_client.c\<close>).
  The first part is one call at a time, against the interface of a bounded first-in first-out
  queue; the second part interleaves the steps of any number of producers and consumers.
\<close>

section \<open>The queue and its operations\<close>

record 'm msg_queue =
  queue :: "nat \<Rightarrow> 'm"
  qsize :: nat
  head :: u32
  tail :: u32
  busy_count :: nat
  free_count :: nat

text \<open>
  \<open>init_msg_queue\<close>: a size that is not positive stands for the configured one; the slots come
  from the allocator and hold what it left there (\<open>junk\<close>).
\<close>

definition init_msg_queue :: "int \<Rightarrow> int \<Rightarrow> (nat \<Rightarrow> 'm) \<Rightarrow> 'm msg_queue" where
  "init_msg_queue sz dflt junk =
     (let n = nat (if sz \<le> 0 then dflt else sz)
      in \<lparr>queue = junk, qsize = n, head = 0, tail = 0, busy_count = 0, free_count = n\<rparr>)"

text \<open>The index after \<open>i\<close>: \<open>(i + 1) & (size - 1)\<close> on unsigned integers.\<close>

definition next_slot :: "nat \<Rightarrow> u32 \<Rightarrow> u32" where
  "next_slot n i = (i + 1) AND (word_of_nat n - 1)"

definition sem_wait_free :: "'m msg_queue \<Rightarrow> 'm msg_queue res" where
  "sem_wait_free q = (if free_count q = 0 then Inl (WouldBlock ''free_count'')
                      else Inr (q\<lparr>free_count := free_count q - 1\<rparr>))"

definition enqueue_locked :: "'m \<Rightarrow> 'm msg_queue \<Rightarrow> 'm msg_queue" where
  "enqueue_locked m q =
     (let slot_index = tail q
      in q\<lparr>tail := next_slot (qsize q) (tail q), queue := (queue q)(unat slot_index := m)\<rparr>)"

definition sem_post_busy :: "'m msg_queue \<Rightarrow> 'm msg_queue" where
  "sem_post_busy q = q\<lparr>busy_count := busy_count q + 1\<rparr>"

definition enqueue :: "'m \<Rightarrow> 'm msg_queue \<Rightarrow> 'm msg_queue res" where
  "enqueue m q = bindE (sem_wait_free q) (\<lambda>q. Inr (sem_post_busy (enqueue_locked m q)))"

definition dequeue :: "'m msg_queue \<Rightarrow> 'm \<times> 'm msg_queue" where
  "dequeue q = (let slot_index = head q
                in (queue q (unat slot_index), q\<lparr>head := next_slot (qsize q) (head q)\<rparr>))"

definition sem_wait_busy :: "'m msg_queue \<Rightarrow> 'm msg_queue res" where
  "sem_wait_busy q = (if busy_count q = 0 then Inl (WouldBlock ''busy_count'')
                      else Inr (q\<lparr>busy_count := busy_count q - 1\<rparr>))"

definition sem_post_free :: "'m msg_queue \<Rightarrow> 'm msg_queue" where
  "sem_post_free q = q\<lparr>free_count := free_count q + 1\<rparr>"

text \<open>One turn of a consumer thread: wait, dequeue, (handle), post.\<close>

definition take_msg :: "'m msg_queue \<Rightarrow> ('m \<times> 'm msg_queue) res" where
  "take_msg q = bindE (sem_wait_busy q) (\<lambda>q.
     let (m, q) = dequeue q in Inr (m, sem_post_free q))"

lemmas queue_ops = sem_wait_free_def enqueue_locked_def sem_post_busy_def dequeue_def
  sem_wait_busy_def sem_post_free_def

section \<open>A ring of a power of two slots\<close>

definition ring_size :: "nat \<Rightarrow> bool" where
  "ring_size n \<longleftrightarrow> (\<exists>k<32. n = 2 ^ k)"

lemma ring_size_pos: "ring_size n \<Longrightarrow> 0 < n"
  by (auto simp: ring_size_def)

lemma next_slot_mod:
  assumes "ring_size n"
  shows "unat (next_slot n i) = (unat i + 1) mod n"
proof -
  obtain k where k: "k < 32" "n = 2 ^ k" using assms by (auto simp: ring_size_def)
  have "next_slot n i = (i + 1) AND mask k"
    by (simp add: next_slot_def k mask_eq_exp_minus_1)
  also have "\<dots> = take_bit k (i + 1)"
    by (simp only: take_bit_eq_mask)
  finally have "unat (next_slot n i) = unat (i + 1) mod 2 ^ k"
    by (simp only: unsigned_take_bit_eq) (simp only: take_bit_eq_mod)
  also have "unat (i + 1) = (unat i + 1) mod 2 ^ 32"
    by (simp add: unat_word_ariths)
  also have "(unat i + 1) mod 2 ^ 32 mod 2 ^ k = (unat i + 1) mod 2 ^ k"
    using k(1) by (intro mod_mod_cancel le_imp_power_dvd) simp
  finally show ?thesis by (simp add: k)
qed

text \<open>The messages that \<open>n\<close> calls of \<open>dequeue\<close> would return, and the invariant between calls.\<close>

definition ring_list :: "'m msg_queue \<Rightarrow> nat \<Rightarrow> 'm list" where
  "ring_list q n = map (\<lambda>i. queue q ((unat (head q) + i) mod qsize q)) [0..<n]"

definition contents :: "'m msg_queue \<Rightarrow> 'm list" where
  "contents q = ring_list q (busy_count q)"

definition queue_inv :: "'m msg_queue \<Rightarrow> bool" where
  "queue_inv q \<longleftrightarrow> ring_size (qsize q) \<and> unat (head q) < qsize q \<and>
     unat (tail q) = (unat (head q) + busy_count q) mod qsize q \<and>
     busy_count q + free_count q = qsize q"

lemma ring_list_counts [simp]:
  "ring_list (q\<lparr>busy_count := b\<rparr>) n = ring_list q n"
  "ring_list (q\<lparr>free_count := f\<rparr>) n = ring_list q n"
  by (simp_all add: ring_list_def)

lemma mod_shift_inj:
  fixes h n i j :: nat
  assumes "i < n" "j < n" "(h + i) mod n = (h + j) mod n"
  shows "i = j"
proof -
  have "int i mod int n = int j mod int n"
  proof -
    have "(int h + int i) mod int n = (int h + int j) mod int n"
      using assms(3) by (metis of_nat_add zmod_int)
    then have "int n dvd (int h + int i) - (int h + int j)"
      by (simp add: mod_eq_dvd_iff)
    then show ?thesis by (simp add: mod_eq_dvd_iff)
  qed
  then show ?thesis using assms by (simp flip: zmod_int)
qed

lemma ring_list_enqueue:
  assumes "b < qsize q" "unat (tail q) = (unat (head q) + b) mod qsize q"
    and "n \<le> b"
  shows "ring_list (enqueue_locked m q) n = ring_list q n"
proof -
  have "(unat (head q) + i) mod qsize q \<noteq> (unat (head q) + b) mod qsize q" if "i < n" for i
    using mod_shift_inj [of i "qsize q" b "unat (head q)"] that assms by auto
  then show ?thesis
    using assms by (auto simp: ring_list_def enqueue_locked_def Let_def)
qed

lemma ring_list_enqueue_last:
  assumes "b < qsize q" "unat (tail q) = (unat (head q) + b) mod qsize q"
  shows "ring_list (enqueue_locked m q) (Suc b) = ring_list q b @ [m]"
proof -
  have "ring_list (enqueue_locked m q) (Suc b) = ring_list (enqueue_locked m q) b @ [m]"
    using assms by (simp add: ring_list_def enqueue_locked_def Let_def)
  then show ?thesis using ring_list_enqueue [OF assms order_refl] by simp
qed

lemma ring_list_dequeue:
  assumes "ring_size (qsize q)" "unat (head q) < qsize q"
  shows "ring_list q (Suc n) = fst (dequeue q) # ring_list (snd (dequeue q)) n"
proof -
  let ?h = "unat (head q)" and ?n = "qsize q"
  have "((?h + 1) mod ?n + i) mod ?n = (?h + Suc i) mod ?n" for i
    by (simp add: mod_add_left_eq)
  then have "ring_list (snd (dequeue q)) n = map (\<lambda>i. queue q ((?h + Suc i) mod ?n)) [0..<n]"
    using assms by (simp add: ring_list_def dequeue_def Let_def next_slot_mod)
  moreover have "[0..<Suc n] = 0 # map Suc [0..<n]"
    by (simp add: map_Suc_upt upt_conv_Cons del: upt_Suc)
  ultimately show ?thesis
    using assms by (simp add: ring_list_def dequeue_def Let_def o_def del: upt_Suc)
qed

section \<open>The interface of a bounded first-in first-out queue\<close>

locale bounded_fifo =
  fixes enq :: "'m \<Rightarrow> 'q \<Rightarrow> 'q res"
    and deq :: "'q \<Rightarrow> ('m \<times> 'q) res"
    and list :: "'q \<Rightarrow> 'm list"
    and cap :: "'q \<Rightarrow> nat"
    and inv :: "'q \<Rightarrow> bool"
  assumes enq_ok: "inv q \<Longrightarrow> length (list q) < cap q \<Longrightarrow>
      \<exists>q'. enq m q = Inr q' \<and> inv q' \<and> list q' = list q @ [m] \<and> cap q' = cap q"
    and enq_full: "inv q \<Longrightarrow> length (list q) = cap q \<Longrightarrow> \<exists>e. enq m q = Inl (WouldBlock e)"
    and deq_ok: "inv q \<Longrightarrow> list q = m # ms \<Longrightarrow>
      \<exists>q'. deq q = Inr (m, q') \<and> inv q' \<and> list q' = ms \<and> cap q' = cap q"
    and deq_empty: "inv q \<Longrightarrow> list q = [] \<Longrightarrow> \<exists>e. deq q = Inl (WouldBlock e)"
    and length_cap: "inv q \<Longrightarrow> length (list q) \<le> cap q"
begin

fun enq_all :: "'m list \<Rightarrow> 'q \<Rightarrow> 'q res" where
  "enq_all [] q = Inr q"
| "enq_all (m # ms) q = bindE (enq m q) (enq_all ms)"

fun deq_all :: "nat \<Rightarrow> 'q \<Rightarrow> ('m list \<times> 'q) res" where
  "deq_all 0 q = Inr ([], q)"
| "deq_all (Suc n) q = bindE (deq q) (\<lambda>(m, q). bindE (deq_all n q) (\<lambda>(ms, q). Inr (m # ms, q)))"

lemma enq_all_list:
  "inv q \<Longrightarrow> length (list q) + length ms \<le> cap q \<Longrightarrow>
    \<exists>q'. enq_all ms q = Inr q' \<and> inv q' \<and> list q' = list q @ ms \<and> cap q' = cap q"
proof (induction ms arbitrary: q)
  case Nil
  then show ?case by simp
next
  case (Cons m ms)
  then obtain q1 where q1: "enq m q = Inr q1" "inv q1" "list q1 = list q @ [m]" "cap q1 = cap q"
    using enq_ok [of q m] by auto
  with Cons.prems Cons.IH [of q1] show ?case by auto
qed

lemma deq_all_list:
  "inv q \<Longrightarrow> list q = ms @ rest \<Longrightarrow>
    \<exists>q'. deq_all (length ms) q = Inr (ms, q') \<and> inv q' \<and> list q' = rest \<and> cap q' = cap q"
proof (induction ms arbitrary: q)
  case Nil
  then show ?case by simp
next
  case (Cons m ms)
  then obtain q1 where q1: "deq q = Inr (m, q1)" "inv q1" "list q1 = ms @ rest" "cap q1 = cap q"
    using deq_ok [of q m "ms @ rest"] by auto
  with Cons.IH [of q1] show ?case by auto
qed

lemma fifo_order:
  assumes "inv q" "list q = []" "length ms \<le> cap q"
  shows "\<exists>q1 q2. enq_all ms q = Inr q1 \<and> deq_all (length ms) q1 = Inr (ms, q2) \<and> inv q2 \<and>
           list q2 = []"
proof -
  obtain q1 where q1: "enq_all ms q = Inr q1" "inv q1" "list q1 = ms"
    using enq_all_list [of q ms] assms by auto
  then show ?thesis using deq_all_list [of q1 ms "[]"] by auto
qed

end

lemma enqueue_full: "queue_inv q \<Longrightarrow> length (contents q) = qsize q \<Longrightarrow>
    enqueue m q = Inl (WouldBlock ''free_count'')"
  by (auto simp: queue_inv_def contents_def ring_list_def enqueue_def sem_wait_free_def)

lemma enqueue_contents:
  assumes inv: "queue_inv q" and room: "length (contents q) < qsize q"
  shows "\<exists>q'. enqueue m q = Inr q' \<and> queue_inv q' \<and> contents q' = contents q @ [m] \<and>
           qsize q' = qsize q"
proof -
  let ?q = "q\<lparr>free_count := free_count q - 1\<rparr>"
  let ?q' = "sem_post_busy (enqueue_locked m ?q)"
  have b: "busy_count q < qsize q" "free_count q \<noteq> 0"
    using room inv by (simp_all add: contents_def ring_list_def queue_inv_def)
  have t: "unat (tail ?q) = (unat (head ?q) + busy_count q) mod qsize ?q"
    using inv by (simp add: queue_inv_def)
  have "ring_list (enqueue_locked m ?q) (Suc (busy_count q)) = ring_list ?q (busy_count q) @ [m]"
    using b t by (intro ring_list_enqueue_last) simp_all
  then have c: "contents ?q' = contents q @ [m]"
    by (simp add: contents_def sem_post_busy_def enqueue_locked_def ring_list_def Let_def)
  have "queue_inv ?q'"
    using inv b
    by (auto simp: queue_inv_def sem_post_busy_def enqueue_locked_def Let_def next_slot_mod
        mod_Suc_eq)
  then show ?thesis
    using b c by (auto simp: enqueue_def sem_wait_free_def sem_post_busy_def enqueue_locked_def
        Let_def)
qed

lemma take_msg_contents:
  assumes inv: "queue_inv q" and ne: "contents q = m # ms"
  shows "\<exists>q'. take_msg q = Inr (m, q') \<and> queue_inv q' \<and> contents q' = ms \<and> qsize q' = qsize q"
proof -
  obtain b where b: "busy_count q = Suc b"
    using ne by (cases "busy_count q") (auto simp: contents_def ring_list_def)
  let ?q = "q\<lparr>busy_count := b\<rparr>"
  let ?q' = "sem_post_free (snd (dequeue ?q))"
  have "contents q = ring_list ?q (Suc b)"
    by (simp add: contents_def b ring_list_def)
  also have "\<dots> = fst (dequeue ?q) # ring_list (snd (dequeue ?q)) b"
    using inv by (intro ring_list_dequeue) (simp_all add: queue_inv_def)
  finally have c: "fst (dequeue ?q) = m" "contents ?q' = ms"
    using ne by (simp_all add: contents_def ring_list_def sem_post_free_def dequeue_def Let_def)
  have "unat (tail q) = (unat (next_slot (qsize q) (head q)) + b) mod qsize q"
    using inv by (simp add: queue_inv_def next_slot_mod b mod_add_left_eq)
  then have "queue_inv ?q'"
    using inv b
    by (simp add: queue_inv_def sem_post_free_def dequeue_def Let_def next_slot_mod ring_size_pos)
  moreover have "take_msg q = Inr (m, ?q')"
    using b c(1) by (simp add: take_msg_def sem_wait_busy_def split_beta Let_def)
  ultimately show ?thesis
    using c(2) by (auto simp: sem_post_free_def dequeue_def Let_def)
qed

interpretation mq: bounded_fifo enqueue take_msg contents qsize queue_inv
proof
  fix q :: "'a msg_queue" and m
  show "length (contents q) \<le> qsize q" if "queue_inv q"
    using that by (simp add: queue_inv_def contents_def ring_list_def)
  show "\<exists>e. take_msg q = Inl (WouldBlock e)" if "queue_inv q" "contents q = []"
    using that by (auto simp: contents_def ring_list_def take_msg_def sem_wait_busy_def)
  show "\<exists>e. enqueue m q = Inl (WouldBlock e)" if "queue_inv q" "length (contents q) = qsize q"
    using enqueue_full [OF that] by blast
  show "\<exists>q'. enqueue m q = Inr q' \<and> queue_inv q' \<and> contents q' = contents q @ [m] \<and>
      qsize q' = qsize q" if "queue_inv q" "length (contents q) < qsize q"
    by (rule enqueue_contents [OF that])
  show "\<exists>q'. take_msg q = Inr (m, q') \<and> queue_inv q' \<and> contents q' = ms \<and> qsize q' = qsize q"
    if "queue_inv q" "contents q = m # ms" for ms
    by (rule take_msg_contents [OF that])
qed

lemma init_msg_queue_inv:
  assumes "ring_size (nat (if sz \<le> 0 then dflt else sz))"
  shows "queue_inv (init_msg_queue sz dflt junk)" "contents (init_msg_queue sz dflt junk) = []"
  using assms ring_size_pos [OF assms]
  by (auto simp: queue_inv_def init_msg_queue_def Let_def contents_def ring_list_def)

section \<open>Interleaved producers and consumers\<close>

text \<open>
  Any number of threads run \<open>enqueue\<close> and \<open>c\<close> threads run the consumer loop at once. A thread is
  between two of its steps; what matters is how many threads are at each place: \<open>reserved\<close> have
  passed \<open>sem_wait (free_count)\<close> and not yet written, \<open>written\<close> have written and not yet posted
  \<open>busy_count\<close>, \<open>claimed\<close> have passed \<open>sem_wait (busy_count)\<close> and not yet taken the head; and
  \<open>reading\<close> lists the slots whose consumer has not yet posted \<open>free_count\<close>, each with the message
  that was in it when it was taken: that thread handles the message in place. They post in any order.
  The two critical sections are single steps, as the head and tail locks make them. \<open>sent\<close> and
  \<open>received\<close> record the messages in the order of the critical sections.
\<close>

record 'm qsys =
  mq :: "'m msg_queue"
  reserved :: nat
  written :: nat
  claimed :: nat
  reading :: "(nat \<times> 'm) list"
  sent :: "'m list"
  received :: "'m list"

definition start_qsys :: "'m msg_queue \<Rightarrow> 'm qsys" where
  "start_qsys q = \<lparr>mq = q, reserved = 0, written = 0, claimed = 0, reading = [], sent = [],
     received = []\<rparr>"

inductive qstep :: "nat \<Rightarrow> 'm qsys \<Rightarrow> 'm qsys \<Rightarrow> bool" for c where
  q_reserve: "sem_wait_free (mq s) = Inr q \<Longrightarrow>
    qstep c s (s\<lparr>mq := q, reserved := reserved s + 1\<rparr>)"
| q_write: "reserved s = Suc r \<Longrightarrow>
    qstep c s (s\<lparr>mq := enqueue_locked m (mq s), reserved := r, written := written s + 1,
      sent := sent s @ [m]\<rparr>)"
| q_publish: "written s = Suc w \<Longrightarrow>
    qstep c s (s\<lparr>mq := sem_post_busy (mq s), written := w\<rparr>)"
| q_claim: "claimed s + length (reading s) < c \<Longrightarrow> sem_wait_busy (mq s) = Inr q \<Longrightarrow>
    qstep c s (s\<lparr>mq := q, claimed := claimed s + 1\<rparr>)"
| q_take: "claimed s = Suc k \<Longrightarrow> dequeue (mq s) = (m, q) \<Longrightarrow>
    qstep c s (s\<lparr>mq := q, claimed := k, reading := reading s @ [(unat (head (mq s)), m)],
      received := received s @ [m]\<rparr>)"
| q_release: "reading s = us @ (i, m) # vs \<Longrightarrow>
    qstep c s (s\<lparr>mq := sem_post_free (mq s), reading := us @ vs\<rparr>)"

inductive qreach :: "nat \<Rightarrow> 'm msg_queue \<Rightarrow> 'm qsys \<Rightarrow> bool" for c q0 where
  qstart: "qreach c q0 (start_qsys q0)"
| qnext: "qreach c q0 s \<Longrightarrow> qstep c s t \<Longrightarrow> qreach c q0 t"

text \<open>The messages in the ring: written, and not yet taken by a consumer.\<close>

definition pending :: "'m qsys \<Rightarrow> nat" where
  "pending s = written s + busy_count (mq s) + claimed s"

text \<open>What one consumer still reads: at most one slot, the one before the head, as it was.\<close>

definition read_ok :: "'m qsys \<Rightarrow> bool" where
  "read_ok s \<longleftrightarrow> reading s = [] \<and> claimed s \<le> 1 \<or> (\<exists>i m. reading s = [(i, m)] \<and> claimed s = 0 \<and>
     i < qsize (mq s) \<and> unat (head (mq s)) = (i + 1) mod qsize (mq s) \<and> queue (mq s) i = m)"

definition qsys_inv :: "nat \<Rightarrow> 'm qsys \<Rightarrow> bool" where
  "qsys_inv c s \<longleftrightarrow> ring_size (qsize (mq s)) \<and> unat (head (mq s)) < qsize (mq s) \<and>
     unat (tail (mq s)) = (unat (head (mq s)) + pending s) mod qsize (mq s) \<and>
     free_count (mq s) + reserved s + pending s + length (reading s) = qsize (mq s) \<and>
     sent s = received s @ ring_list (mq s) (pending s) \<and> (c = 1 \<longrightarrow> read_ok s)"

lemma qsys_inv_start:
  assumes "queue_inv q" "contents q = []"
  shows "qsys_inv c (start_qsys q)"
  using assms by (auto simp: qsys_inv_def start_qsys_def queue_inv_def contents_def pending_def
      ring_list_def read_ok_def)

text \<open>The slot that is written next is not one of the others around the ring.\<close>

lemma write_slot_other:
  assumes "i < n" "h = (i + 1) mod n" "p + 1 < (n :: nat)"
  shows "(h + p) mod n \<noteq> i"
proof
  assume "(h + p) mod n = i"
  moreover have "((i + 1) mod n + p) mod n = (i + (p + 1)) mod n" by (simp only: mod_add_left_eq) (simp add: add.commute add.left_commute)
  ultimately have "(i + (p + 1)) mod n = (i + 0) mod n" using assms(1,2) by simp
  then show False using mod_shift_inj [of "p + 1" n 0 i] assms(3) by simp
qed

lemma read_ok_write:
  assumes "read_ok s" "\<And>i x. reading s = [(i, x)] \<Longrightarrow> read_ok s \<Longrightarrow> unat (tail (mq s)) \<noteq> i"
  shows "read_ok (s\<lparr>mq := enqueue_locked m (mq s), reserved := r, written := w, sent := z\<rparr>)"
proof (cases "reading s = []")
  case True
  then show ?thesis using assms(1) by (simp add: read_ok_def)
next
  case False
  then obtain i x where r: "reading s = [(i, x)]" using assms(1) by (auto simp: read_ok_def)
  then have "unat (tail (mq s)) \<noteq> i" using assms by blast
  then show ?thesis using assms(1) r by (simp add: read_ok_def enqueue_locked_def Let_def)
qed

lemma qsys_inv_step:
  assumes "qstep c s t" "qsys_inv c s"
  shows "qsys_inv c t"
  using assms
proof (induction rule: qstep.induct)
  case (q_reserve s q)
  then show ?case
    by (auto simp: qsys_inv_def sem_wait_free_def pending_def ring_list_def read_ok_def split: if_splits)
next
  case (q_write s r m)
  let ?q = "mq s"
  have b: "pending s < qsize ?q"
    "unat (tail ?q) = (unat (head ?q) + pending s) mod qsize ?q"
    using q_write by (auto simp: qsys_inv_def)
  from ring_list_enqueue_last [OF b]
  have l: "ring_list (enqueue_locked m ?q) (Suc (pending s)) = ring_list ?q (pending s) @ [m]" .
  have other: "unat (tail ?q) \<noteq> i" if "reading s = [(i, x)]" "read_ok s" for i x
    using write_slot_other [of i "qsize ?q" "unat (head ?q)" "pending s"] that q_write b(2)
    by (simp add: read_ok_def qsys_inv_def)
  have "read_ok (s\<lparr>mq := enqueue_locked m ?q, reserved := r, written := written s + 1, sent := sent s @ [m]\<rparr>)" if "read_ok s"
    by (rule read_ok_write [OF that other])
  then show ?case
    using q_write b l
    by (auto simp: qsys_inv_def pending_def enqueue_locked_def Let_def next_slot_mod mod_Suc_eq)
next
  case (q_publish s w)
  then show ?case
    by (auto simp: qsys_inv_def sem_post_busy_def pending_def ring_list_def read_ok_def append_eq_Cons_conv)
next
  case (q_claim s q)
  then obtain b where b: "busy_count (mq s) = Suc b" "q = mq s\<lparr>busy_count := b\<rparr>"
    by (cases "busy_count (mq s)") (auto simp: sem_wait_busy_def)
  with q_claim show ?case
    by (auto simp: qsys_inv_def pending_def ring_list_def read_ok_def append_eq_Cons_conv)
next
  case (q_take s k m q)
  let ?q = "mq s" and ?p = "written s + busy_count (mq s) + k"
  have p: "pending s = Suc ?p" using q_take by (simp add: pending_def)
  have "ring_list ?q (Suc ?p) = m # ring_list q ?p"
    using ring_list_dequeue [of ?q ?p] q_take by (simp add: qsys_inv_def)
  moreover have "q = ?q\<lparr>head := next_slot (qsize ?q) (head ?q)\<rparr>" "m = queue ?q (unat (head ?q))"
    using q_take by (simp_all add: dequeue_def Let_def)
  moreover have "reading s = [] \<and> k = 0" if "c = 1" using that q_take by (auto simp: qsys_inv_def read_ok_def)
  ultimately show ?case
    using q_take p
    by (auto simp: qsys_inv_def pending_def next_slot_mod ring_size_pos mod_add_left_eq read_ok_def)
next
  case (q_release s us i m vs)
  then show ?case
    by (auto simp: qsys_inv_def sem_post_free_def pending_def ring_list_def read_ok_def append_eq_Cons_conv)
qed

lemma qreach_inv:
  "qreach c q0 s \<Longrightarrow> queue_inv q0 \<Longrightarrow> contents q0 = [] \<Longrightarrow> qsys_inv c s"
  by (induction rule: qreach.induct) (auto intro: qsys_inv_start qsys_inv_step)

definition full_slots :: "'m qsys \<Rightarrow> nat set" where
  "full_slots s = (\<lambda>k. (unat (head (mq s)) + k) mod qsize (mq s)) ` {0..<pending s}"

lemma write_slot_free:
  assumes "qsys_inv c s" "reserved s = Suc r"
  shows "unat (tail (mq s)) \<notin> full_slots s"
proof
  let ?n = "qsize (mq s)" and ?h = "unat (head (mq s))" and ?p = "pending s"
  have t: "unat (tail (mq s)) = (?h + ?p) mod ?n" and sz: "?p < ?n"
    using assms by (auto simp: qsys_inv_def)
  assume "unat (tail (mq s)) \<in> full_slots s"
  then obtain k where k: "k < ?p" "(?h + ?p) mod ?n = (?h + k) mod ?n"
    using t by (auto simp: full_slots_def)
  then show False using mod_shift_inj [of ?p ?n k ?h] sz by simp
qed

section \<open>Correctness of the queue\<close>

text \<open>
  A queue of a power-of-two number of slots is a FIFO: any messages that fit are all
  accepted by \<open>enqueue\<close>, and as many turns of the consumer take exactly them, in order,
  whatever the slots held before and however often the indices have wrapped.
\<close>

lemma msg_queue_fifo:
  assumes "ring_size (nat (if sz \<le> 0 then dflt else sz))"
    and "length ms \<le> nat (if sz \<le> 0 then dflt else sz)"
  shows "\<exists>q1 q2. mq.enq_all ms (init_msg_queue sz dflt junk) = Inr q1 \<and>
    mq.deq_all (length ms) q1 = Inr (ms, q2) \<and> queue_inv q2 \<and> contents q2 = []"
proof (rule mq.fifo_order)
  show "length ms \<le> qsize (init_msg_queue sz dflt junk)"
    using assms(2) by (simp add: init_msg_queue_def Let_def)
qed (simp_all add: init_msg_queue_inv assms(1))

lemma ring_size_8: "ring_size 8"
  unfolding ring_size_def by (rule exI [of _ 3]) simp

lemma msg_queue_fifo_witness:
  "\<exists>q1 q2. mq.enq_all [1, 2, 3 :: nat] (init_msg_queue (-1) 8 (\<lambda>_. 0)) = Inr q1 \<and>
    mq.deq_all 3 q1 = Inr ([1, 2, 3], q2) \<and> queue_inv q2 \<and> contents q2 = []"
  using msg_queue_fifo [of "-1" 8 "[1, 2, 3 :: nat]" "\<lambda>_. 0"] ring_size_8 by (simp add: numeral_3_eq_3)

text \<open>
  C13: However the steps of the producers and of \<open>c\<close> consumer threads interleave, the consumers have
  received the messages in the order they were written and the ring holds exactly the rest; there
  are never more messages, waiting or being read, than slots; and the slot that the next producer
  writes holds no waiting message. With one consumer thread, as each queue of the program has
  (\<open>udp_server.c\<close> for \<open>inqueue\<close>, \<open>udp_client.c\<close> for \<open>outqueue\<close>), the message it is handling is in
  its slot as it was taken until it posts the slot as free. With two it need not be, see
  \<open>two_consumers_overwrite\<close>.
\<close>

theorem msg_queue_interleaved:
  assumes "qreach c (init_msg_queue sz dflt junk) s" "ring_size (nat (if sz \<le> 0 then dflt else sz))"
  shows "sent s = received s @ ring_list (mq s) (pending s) \<and>
    pending s + length (reading s) \<le> qsize (mq s) \<and>
    (reserved s \<noteq> 0 \<longrightarrow> unat (tail (mq s)) \<notin> full_slots s) \<and>
    (c = 1 \<longrightarrow> (\<forall>(i, m)\<in>set (reading s). queue (mq s) i = m))"
proof -
  have i: "qsys_inv c s"
    by (rule qreach_inv [OF assms(1)]) (simp_all add: init_msg_queue_inv assms(2))
  have "\<forall>(i, m)\<in>set (reading s). queue (mq s) i = m" if "c = 1"
    using i that by (auto simp: qsys_inv_def read_ok_def)
  moreover have "reserved s \<noteq> 0 \<longrightarrow> unat (tail (mq s)) \<notin> full_slots s"
    using write_slot_free [OF i] by (cases "reserved s") simp_all
  moreover have "sent s = received s @ ring_list (mq s) (pending s)" "pending s + length (reading s) \<le> qsize (mq s)"
    using i by (simp_all add: qsys_inv_def)
  ultimately show ?thesis by blast
qed

text \<open>Runs of a ring of two slots.\<close>

abbreviation two :: "(nat \<Rightarrow> nat) \<Rightarrow> u32 \<Rightarrow> u32 \<Rightarrow> nat \<Rightarrow> nat \<Rightarrow> nat \<Rightarrow> nat \<Rightarrow> nat \<Rightarrow> (nat \<times> nat) list \<Rightarrow>
    nat list \<Rightarrow> nat list \<Rightarrow> nat qsys" where
  "two q h t b f r w k rd sn rc \<equiv> \<lparr>mq = \<lparr>queue = q, qsize = 2, head = h, tail = t, busy_count = b, free_count = f\<rparr>,
     reserved = r, written = w, claimed = k, reading = rd, sent = sn, received = rc\<rparr>"

lemma two_steps:
  "qstep c (two q h t b (Suc f) r w k rd sn rc) (two q h t b f (Suc r) w k rd sn rc)"
  "qstep c (two q h t b f (Suc r) w k rd sn rc) (two (q(unat t := m)) h (next_slot 2 t) b f r (Suc w) k rd (sn @ [m]) rc)"
  "qstep c (two q h t b f r (Suc w) k rd sn rc) (two q h t (Suc b) f r w k rd sn rc)"
  "k + length rd < c \<Longrightarrow> qstep c (two q h t (Suc b) f r w k rd sn rc) (two q h t b f r w (Suc k) rd sn rc)"
  "qstep c (two q h t b f r w (Suc k) rd sn rc)
     (two q (next_slot 2 h) t b f r w k (rd @ [(unat h, q (unat h))]) sn (rc @ [q (unat h)]))"
  "qstep c (two q h t b f r w k (us @ (i, m) # vs) sn rc) (two q h t b (Suc f) r w k (us @ vs) sn rc)"
proof -
  show "qstep c (two q h t b (Suc f) r w k rd sn rc) (two q h t b f (Suc r) w k rd sn rc)"
    using qstep.q_reserve [of "two q h t b (Suc f) r w k rd sn rc"] by (simp add: queue_ops)
  show "qstep c (two q h t b f (Suc r) w k rd sn rc) (two (q(unat t := m)) h (next_slot 2 t) b f r (Suc w) k rd (sn @ [m]) rc)"
    using qstep.q_write [of "two q h t b f (Suc r) w k rd sn rc" r c m] by (simp add: queue_ops)
  show "qstep c (two q h t b f r (Suc w) k rd sn rc) (two q h t (Suc b) f r w k rd sn rc)"
    using qstep.q_publish [of "two q h t b f r (Suc w) k rd sn rc"] by (simp add: queue_ops)
  show "qstep c (two q h t (Suc b) f r w k rd sn rc) (two q h t b f r w (Suc k) rd sn rc)" if "k + length rd < c"
    using qstep.q_claim [of "two q h t (Suc b) f r w k rd sn rc"] that by (simp add: queue_ops)
  show "qstep c (two q h t b f r w (Suc k) rd sn rc)
     (two q (next_slot 2 h) t b f r w k (rd @ [(unat h, q (unat h))]) sn (rc @ [q (unat h)]))"
    using qstep.q_take [of "two q h t b f r w (Suc k) rd sn rc"] by (simp add: queue_ops)
  show "qstep c (two q h t b f r w k (us @ (i, m) # vs) sn rc) (two q h t b (Suc f) r w k (us @ vs) sn rc)"
    using qstep.q_release [of "two q h t b f r w k (us @ (i, m) # vs) sn rc"] by (simp add: queue_ops)
qed

lemma next_of_two: "next_slot 2 0 = 1" "next_slot 2 1 = 0"
  by (simp_all add: next_slot_def)

definition five_six :: "nat \<Rightarrow> nat" where
  "five_six = (\<lambda>_. 0)(0 := 5, 1 := 6)"

lemma two_written: "qreach c (init_msg_queue 2 2 (\<lambda>_. 0)) (two five_six 0 0 2 0 0 0 0 [] [5, 6] [])"
proof -
  let ?Q = "qreach c (init_msg_queue 2 2 (\<lambda>_. 0))"
  have "?Q (two (\<lambda>_. 0) 0 0 0 (Suc (Suc 0)) 0 0 0 [] [] [])"
    using qreach.qstart [of c "init_msg_queue 2 2 (\<lambda>_. 0)"] by (simp add: start_qsys_def init_msg_queue_def numeral_2_eq_2)
  from qreach.qnext [OF qreach.qnext [OF this two_steps(1)] two_steps(1)] have "?Q (two (\<lambda>_. 0) 0 0 0 0 (Suc (Suc 0)) 0 0 [] [] [])" .
  from qreach.qnext [OF this two_steps(2) [where m = 5]] have "?Q (two ((\<lambda>_. 0)(0 := 5)) 0 1 0 0 (Suc 0) (Suc 0) 0 [] [5] [])"
    by (simp add: next_of_two)
  from qreach.qnext [OF this two_steps(2) [where m = 6]] have "?Q (two five_six 0 0 0 0 0 (Suc (Suc 0)) 0 [] [5, 6] [])"
    by (simp add: next_of_two five_six_def)
  from qreach.qnext [OF qreach.qnext [OF this two_steps(3)] two_steps(3)] show ?thesis by (simp add: numeral_2_eq_2)
qed

lemma two_taken:
  assumes "0 < c"
  shows "qreach c (init_msg_queue 2 2 (\<lambda>_. 0)) (two five_six 1 0 1 0 0 0 0 [(0, 5)] [5, 6] [5])"
proof -
  have "qreach c (init_msg_queue 2 2 (\<lambda>_. 0)) (two five_six 0 0 (Suc 1) 0 0 0 0 [] [5, 6] [])"
    using two_written [of c] by (simp add: numeral_2_eq_2)
  from qreach.qnext [OF this two_steps(4)] have "qreach c (init_msg_queue 2 2 (\<lambda>_. 0)) (two five_six 0 0 1 0 0 0 (Suc 0) [] [5, 6] [])"
    using assms by simp
  from qreach.qnext [OF this two_steps(5)] show ?thesis by (simp add: next_of_two five_six_def)
qed

text \<open>With two consumer threads, the second may be done first; then the slot the first one reads is written.\<close>

lemma two_consumers_overwrite:
  "\<exists>s :: nat qsys. qreach 2 (init_msg_queue 2 2 (\<lambda>_. 0)) s \<and> reading s = [(0, 5)] \<and> queue (mq s) 0 = 7"
proof -
  let ?Q = "qreach 2 (init_msg_queue 2 2 (\<lambda>_. 0))"
  have "?Q (two five_six 1 0 (Suc 0) 0 0 0 0 [(0, 5)] [5, 6] [5])" using two_taken [of 2] by simp
  from qreach.qnext [OF this two_steps(4)] have "?Q (two five_six 1 0 0 0 0 0 (Suc 0) [(0, 5)] [5, 6] [5])" by simp
  from qreach.qnext [OF this two_steps(5)] have "?Q (two five_six 0 0 0 0 0 0 0 ([(0, 5)] @ (1, 6) # []) [5, 6] [5, 6])"
    by (simp add: next_of_two five_six_def)
  from qreach.qnext [OF qreach.qnext [OF qreach.qnext [OF this two_steps(6)] two_steps(1)] two_steps(2) [where m = 7]]
  have "?Q (two (five_six(0 := 7)) 0 1 0 0 0 1 0 [(0, 5)] [5, 6, 7] [5, 6])" by (simp add: next_of_two)
  then show ?thesis by (intro exI [of _ "two (five_six(0 := 7)) 0 1 0 0 0 1 0 [(0, 5)] [5, 6, 7] [5, 6]"]) simp
qed

lemma msg_queue_interleaved_witness:
  "\<exists>s :: nat qsys. qreach 1 (init_msg_queue 2 2 (\<lambda>_. 0)) s \<and> reading s = [(0, 5)] \<and> queue (mq s) 0 = 5 \<and>
     sent s = received s @ ring_list (mq s) (pending s)"
proof -
  have "ring_size 2" unfolding ring_size_def by (rule exI [of _ 1]) simp
  then have r: "ring_size (nat (if 2 \<le> (0 :: int) then 2 else 2))" by simp
  note q = two_taken [of 1, OF zero_less_one]
  from msg_queue_interleaved [OF q r] q show ?thesis by (intro exI [of _ "two five_six 1 0 1 0 0 0 0 [(0, 5)] [5, 6] [5]"]) simp
qed

end
