(* ===== verification/Wtnt.thy ===== *)
theory Wtnt
  imports Message
begin

text \<open>
  Write notices (\<open>wtnt_t\<close> of \<open>src/src/include/syn.h\<close>; \<open>newwtnt\<close>, \<open>freewtntspace\<close> of
  \<open>src/src/tools/tools.c\<close>; \<open>savewtnt\<close> of \<open>src/src/syn/syn.c\<close>): a chain of nodes, each with
  room for \<open>Maxwtnts\<close> entries, that records which pages were written, by whom, and at which
  scope of a lock. The chain implements a map from pages to notices.
\<close>

section \<open>The chain of nodes\<close>

definition Maxwtnts :: nat where "Maxwtnts = 511"

record wtnt_entry =
  wtnt_addr :: addr
  wtnt_from :: nat
  wtnt_scope :: u32
  wtnt_mig :: u32

text \<open>
  A node is its first \<open>wtntc\<close> entries, a \<open>wtnt_t\<close> pointer the chain of nodes reached along
  \<open>more\<close>, and \<open>WNULL\<close> the empty chain.
\<close>

type_synonym wtnt = "wtnt_entry list list"

definition WNULL :: wtnt where "WNULL = []"

definition newwtnt :: wtnt where "newwtnt = [[]]"

definition freewtntspace :: "wtnt \<Rightarrow> wtnt res" where
  "freewtntspace ptr = (case ptr of [] \<Rightarrow> Inl (MemFault 0) | _ \<Rightarrow> Inr [[]])"

definition pageno :: "addr \<Rightarrow> nat" where
  "pageno a = unat a div Pagesize"

text \<open>The inner loop of step 1: the index of the entry for the page of \<open>a\<close>.\<close>

fun find_entry :: "addr \<Rightarrow> wtnt_entry list \<Rightarrow> nat option" where
  "find_entry a [] = None"
| "find_entry a (e # es) =
     (if pageno a \<noteq> pageno (wtnt_addr e) then map_option Suc (find_entry a es) else Some 0)"

text \<open>Step 1 over the chain, and the update of step 2 where the page is there already.\<close>

fun update_wtnt :: "addr \<Rightarrow> (wtnt_entry \<Rightarrow> wtnt_entry) \<Rightarrow> wtnt \<Rightarrow> wtnt option" where
  "update_wtnt a f [] = None"
| "update_wtnt a f (node # rest) =
     (case find_entry a node of
        None \<Rightarrow> map_option (\<lambda>rest. node # rest) (update_wtnt a f rest)
      | Some i \<Rightarrow> Some (node[i := f (node ! i)] # rest))"

text \<open>Step 2 where it is not: the first node with room, a new one at the end of the chain.\<close>

fun add_wtnt :: "wtnt_entry \<Rightarrow> wtnt \<Rightarrow> wtnt res" where
  "add_wtnt e [] = Inl (MemFault 0)"
| "add_wtnt e (node # rest) =
     (if Maxwtnts \<le> length node
      then (case rest of
              [] \<Rightarrow> Inr (node # [hd newwtnt @ [e]])
            | _ \<Rightarrow> bindE (add_wtnt e rest) (\<lambda>rest. Inr (node # rest)))
      else Inr ((node @ [e]) # rest))"

definition savewtnt :: "wtnt \<Rightarrow> addr \<Rightarrow> u32 \<Rightarrow> nat \<Rightarrow> u32 \<Rightarrow> wtnt res" where
  "savewtnt ptr a mig pid sc =
     (case update_wtnt a
        (\<lambda>e. e\<lparr>wtnt_from := Maxhosts, wtnt_scope := sc, wtnt_mig := mig\<rparr>) ptr of
        Some ptr' \<Rightarrow> Inr ptr'
      | None \<Rightarrow> add_wtnt \<lparr>wtnt_addr = a, wtnt_from = pid, wtnt_scope = sc,
                  wtnt_mig = mig\<rparr> ptr)"

section \<open>The invariant of a chain\<close>

text \<open>
  No node holds more than \<open>Maxwtnts\<close> entries, all but the last are full, and no page has two
  entries.
\<close>

definition entries :: "wtnt \<Rightarrow> wtnt_entry list" where
  "entries w = concat w"

fun chain_ok :: "wtnt \<Rightarrow> bool" where
  "chain_ok [] = False"
| "chain_ok [node] = (length node \<le> Maxwtnts)"
| "chain_ok (node # rest) = (length node = Maxwtnts \<and> chain_ok rest)"

definition wtnt_inv :: "wtnt \<Rightarrow> bool" where
  "wtnt_inv w \<longleftrightarrow> chain_ok w \<and> distinct (map (pageno \<circ> wtnt_addr) (entries w))"

lemma newwtnt_inv [simp]: "wtnt_inv newwtnt"
  by (simp add: newwtnt_def wtnt_inv_def entries_def)

lemma entries_newwtnt [simp]: "entries newwtnt = []"
  by (simp add: newwtnt_def entries_def)

lemma freewtntspace_inv: "freewtntspace w = Inr w' \<Longrightarrow> w' = newwtnt"
  by (auto simp: freewtntspace_def newwtnt_def split: list.splits)

lemma find_entry_None: "find_entry a es = None \<longleftrightarrow> (\<forall>e\<in>set es. pageno (wtnt_addr e) \<noteq> pageno a)"
  by (induction es) auto

lemma find_entry_Some:
  "find_entry a es = Some i \<Longrightarrow> i < length es \<and> pageno (wtnt_addr (es ! i)) = pageno a \<and>
     (\<forall>j<i. pageno (wtnt_addr (es ! j)) \<noteq> pageno a)"
proof (induction es arbitrary: i)
  case (Cons e es)
  then show ?case by (auto split: if_splits simp: nth_Cons split: nat.splits)
qed simp

text \<open>The same update on the list of all entries.\<close>

fun update_first :: "addr \<Rightarrow> (wtnt_entry \<Rightarrow> wtnt_entry) \<Rightarrow> wtnt_entry list \<Rightarrow> wtnt_entry list option"
where
  "update_first a f [] = None"
| "update_first a f (e # es) =
     (if pageno (wtnt_addr e) = pageno a then Some (f e # es)
      else map_option (\<lambda>es. e # es) (update_first a f es))"

lemma update_first_find:
  "update_first a f es = (case find_entry a es of None \<Rightarrow> None | Some i \<Rightarrow> Some (es[i := f (es ! i)]))"
  by (induction es) (auto split: option.splits)

lemma update_first_append:
  "update_first a f (xs @ ys) = (case update_first a f xs of
     Some xs' \<Rightarrow> Some (xs' @ ys) | None \<Rightarrow> map_option (\<lambda>ys. xs @ ys) (update_first a f ys))"
proof (induction xs)
  case Nil
  then show ?case by (cases "update_first a f ys") auto
next
  case (Cons x xs)
  then show ?case by (cases "update_first a f ys") (auto split: option.splits)
qed

lemma update_wtnt_entries: "map_option entries (update_wtnt a f w) = update_first a f (entries w)"
proof (induction w)
  case Nil
  then show ?case by (simp add: entries_def)
next
  case (Cons node rest)
  have e: "entries (x # w) = x @ entries w" for x w by (simp add: entries_def)
  have n: "update_first a f node = (case find_entry a node of None \<Rightarrow> None
      | Some i \<Rightarrow> Some (node[i := f (node ! i)]))"
    by (rule update_first_find)
  show ?case
    by (auto simp: e update_first_append n option.map_comp o_def split: option.splits
        simp flip: Cons.IH)
qed

lemma update_wtnt_chain: "update_wtnt a f w = Some w' \<Longrightarrow> chain_ok w \<Longrightarrow> chain_ok w'"
proof (induction w arbitrary: w')
  case (Cons node rest)
  then show ?case
    by (cases rest) (auto split: option.splits list.splits)
qed simp

lemma add_wtnt_chain:
  "chain_ok w \<Longrightarrow> \<exists>w'. add_wtnt e w = Inr w' \<and> chain_ok w' \<and> entries w' = entries w @ [e]"
proof (induction w rule: chain_ok.induct)
  case (2 node)
  then show ?case by (auto simp: newwtnt_def entries_def Maxwtnts_def)
next
  case (3 node rest1 rest)
  then obtain w' where "add_wtnt e (rest1 # rest) = Inr w'" "chain_ok w'"
    "entries w' = entries (rest1 # rest) @ [e]" by auto
  with 3 show ?case by (cases w') (auto simp: entries_def)
qed simp

lemma update_first_pages:
  "update_first a f es = Some es' \<Longrightarrow> (\<And>e. wtnt_addr (f e) = wtnt_addr e) \<Longrightarrow>
     map (pageno \<circ> wtnt_addr) es' = map (pageno \<circ> wtnt_addr) es"
  by (induction es arbitrary: es') (auto split: if_splits)

lemma update_first_None: "update_first a f es = None \<longleftrightarrow> pageno a \<notin> set (map (pageno \<circ> wtnt_addr) es)"
  by (induction es) auto

section \<open>A chain is a map from pages to notices\<close>

record notice =
  n_from :: nat
  n_scope :: u32
  n_mig :: u32

definition notice_of :: "wtnt_entry \<Rightarrow> notice" where
  "notice_of e = \<lparr>n_from = wtnt_from e, n_scope = wtnt_scope e, n_mig = wtnt_mig e\<rparr>"

definition notices :: "wtnt \<Rightarrow> (nat \<rightharpoonup> notice)" where
  "notices w = map_of (map (\<lambda>e. (pageno (wtnt_addr e), notice_of e)) (entries w))"

text \<open>What \<open>savewtnt\<close> promises: a second write of the page is attributed to nobody (\<open>Maxhosts\<close>).\<close>

definition save_notice :: "(nat \<rightharpoonup> notice) \<Rightarrow> nat \<Rightarrow> u32 \<Rightarrow> nat \<Rightarrow> u32 \<Rightarrow> (nat \<rightharpoonup> notice)" where
  "save_notice m p mig pid sc =
     m(p \<mapsto> \<lparr>n_from = (if p \<in> dom m then Maxhosts else pid), n_scope = sc, n_mig = mig\<rparr>)"

lemma notices_newwtnt [simp]: "notices newwtnt = Map.empty"
  by (simp add: notices_def)

lemma dom_notices: "dom (notices w) = set (map (pageno \<circ> wtnt_addr) (entries w))"
  by (auto simp: notices_def dom_map_of_conv_image_fst image_image)

lemma update_first_notices:
  assumes "update_first a f es = Some es'" "\<And>e. wtnt_addr (f e) = wtnt_addr e"
    "\<And>e. notice_of (f e) = n"
  shows "map_of (map (\<lambda>e. (pageno (wtnt_addr e), notice_of e)) es') =
         (map_of (map (\<lambda>e. (pageno (wtnt_addr e), notice_of e)) es))(pageno a \<mapsto> n)"
  using assms
  by (induction es arbitrary: es') (auto split: if_splits simp: fun_upd_twist)

lemma savewtnt_correct:
  assumes inv: "wtnt_inv w"
  shows "\<exists>w'. savewtnt w a mig pid sc = Inr w' \<and> wtnt_inv w' \<and>
     notices w' = save_notice (notices w) (pageno a) mig pid sc"
proof -
  let ?f = "\<lambda>e. e\<lparr>wtnt_from := Maxhosts, wtnt_scope := sc, wtnt_mig := mig\<rparr>"
  let ?e = "\<lparr>wtnt_addr = a, wtnt_from = pid, wtnt_scope = sc, wtnt_mig = mig\<rparr>"
  show ?thesis
  proof (cases "update_wtnt a ?f w")
    case (Some w')
    then have u: "update_first a ?f (entries w) = Some (entries w')"
      using update_wtnt_entries [of a ?f w] by simp
    then have "pageno a \<in> dom (notices w)"
      using update_first_None [of a ?f "entries w"] by (simp add: dom_notices)
    moreover have "notices w' = (notices w)(pageno a \<mapsto>
        \<lparr>n_from = Maxhosts, n_scope = sc, n_mig = mig\<rparr>)"
      unfolding notices_def by (rule update_first_notices [OF u]) (auto simp: notice_of_def)
    moreover have "wtnt_inv w'"
      using inv update_wtnt_chain [OF Some] update_first_pages [OF u] by (simp add: wtnt_inv_def)
    ultimately show ?thesis by (simp add: savewtnt_def Some save_notice_def)
  next
    case None
    then have u: "update_first a ?f (entries w) = None"
      using update_wtnt_entries [of a ?f w] by simp
    then have fresh: "pageno a \<notin> dom (notices w)"
      using update_first_None [of a ?f "entries w"] by (simp add: dom_notices)
    obtain w' where w': "add_wtnt ?e w = Inr w'" "chain_ok w'" "entries w' = entries w @ [?e]"
      using add_wtnt_chain [of w ?e] inv by (auto simp: wtnt_inv_def)
    have "notices w' = (notices w)(pageno a \<mapsto> notice_of ?e)"
    proof -
      have "notices w' = map_of [(pageno a, notice_of ?e)] ++ notices w"
        by (simp add: notices_def w'(3) map_add_def fun_eq_iff split: option.splits)
      also have "\<dots> = (notices w)(pageno a \<mapsto> notice_of ?e)"
        using fresh by (auto simp: fun_eq_iff map_add_def domIff split: option.splits)
      finally show ?thesis .
    qed
    moreover have "wtnt_inv w'"
      using inv w' fresh by (auto simp: wtnt_inv_def dom_notices)
    ultimately show ?thesis
      using fresh w'(1) by (simp add: savewtnt_def None save_notice_def notice_of_def)
  qed
qed

section \<open>The interface of a store of notices\<close>

text \<open>
  The handlers that record notices use two operations of a store: an empty one, and saving a
  notice. Recording the notices of a whole message is proved on this interface.
\<close>

locale notice_store =
  fixes new :: 'w
    and save :: "'w \<Rightarrow> addr \<Rightarrow> u32 \<Rightarrow> nat \<Rightarrow> u32 \<Rightarrow> 'w res"
    and lookup :: "'w \<Rightarrow> (nat \<rightharpoonup> notice)"
    and inv :: "'w \<Rightarrow> bool"
  assumes new_inv: "inv new"
    and new_lookup: "lookup new = Map.empty"
    and save_ok: "inv w \<Longrightarrow> \<exists>w'. save w a mig src sc = Inr w' \<and> inv w' \<and>
      lookup w' = save_notice (lookup w) (pageno a) mig src sc"
begin

lemma save_all:
  assumes "inv w"
  shows "\<exists>w'. foldE (\<lambda>x w. save w (addr x) (mig x) (src x) (scp x)) xs w = Inr w' \<and> inv w' \<and>
    lookup w' = fold (\<lambda>x m. save_notice m (pageno (addr x)) (mig x) (src x) (scp x)) xs (lookup w)"
  using assms
proof (induction xs arbitrary: w)
  case Nil
  then show ?case by simp
next
  case (Cons x xs)
  then obtain w1 where w1: "save w (addr x) (mig x) (src x) (scp x) = Inr w1" "inv w1"
    "lookup w1 = save_notice (lookup w) (pageno (addr x)) (mig x) (src x) (scp x)"
    using save_ok [of w] by blast
  with Cons.IH [of w1] show ?case by auto
qed

lemma save_all_dom:
  assumes "inv w"
    and "foldE (\<lambda>x w. save w (addr x) (mig x) (src x) (scp x)) xs w = Inr w'"
  shows "inv w'" "dom (lookup w') = dom (lookup w) \<union> (pageno \<circ> addr) ` set xs"
proof -
  have "dom (fold (\<lambda>x m. save_notice m (pageno (addr x)) (mig x) (src x) (scp x)) xs m) =
      dom m \<union> (pageno \<circ> addr) ` set xs" for m
    by (induction xs arbitrary: m) (auto simp: save_notice_def)
  then show "inv w'" "dom (lookup w') = dom (lookup w) \<union> (pageno \<circ> addr) ` set xs"
    using save_all [OF assms(1), of addr mig src scp xs] assms(2) by auto
qed

end

interpretation wn: notice_store newwtnt savewtnt notices wtnt_inv
  by unfold_locales (simp_all add: savewtnt_correct)

section \<open>Correctness of recording\<close>

text \<open>
  C14: Recording any sequence of write notices in a fresh chain never fails and implements the
  map from pages to notices: whatever the number of nodes it takes, each page has one entry,
  the first writer of a page is kept as its writer, and a page recorded again is marked as
  having several writers, with the scope and migration tag recorded last.
\<close>

theorem savewtnt_all:
  "\<exists>w. foldE (\<lambda>(a, mig, pid, sc) w. savewtnt w a mig pid sc) xs newwtnt = Inr w \<and> wtnt_inv w \<and>
     notices w = fold (\<lambda>(a, mig, pid, sc) m. save_notice m (pageno a) mig pid sc) xs Map.empty"
  using wn.save_all [where w = newwtnt and addr = fst and mig = "fst \<circ> snd" and
      src = "fst \<circ> snd \<circ> snd" and scp = "snd \<circ> snd \<circ> snd" and xs = xs]
  by (simp add: case_prod_unfold)

end
