(* ===== verification/Host.thy ===== *)
theory Host
  imports Wtnt
begin

text \<open>
  The state of one host process: the tables of \<open>src/src/include/mem.h\<close> and
  \<open>src/src/include/syn.h\<close>, the settings and switches, the shared memory with its page protections,
  the message buffer of \<open>src/src/msg/msg.c\<close> and the output queue; the operations every handler
  uses on them (slots, array accesses, \<open>mprotect\<close>, \<open>mmap\<close>, \<open>memcpy\<close>) and their initialisation.
\<close>

section \<open>Constants\<close>

definition Homepages :: nat where "Homepages = 16384"
definition Setnum :: nat where "Setnum = 1"
definition Setpages :: nat where "Setpages = Cachepages div Setnum"
definition Wvbits :: nat where "Wvbits = 32"
definition WVNULL :: u64 where "WVNULL = 0"
definition WVFULL :: u64 where "WVFULL = 0xffffffff"
definition Blocksize :: nat where "Blocksize = Pagesize div Wvbits"
definition Diffunit :: nat where "Diffunit = 4"
definition SWvalve :: nat where "SWvalve = 1"
definition Maxstacksize :: nat where "Maxstacksize = 8"
definition hidelock :: nat where "hidelock = Maxlocks"
definition Maxcvs :: nat where "Maxcvs = 16"
definition OFF :: int where "OFF = 0"
definition ON :: int where "ON = 1"
definition Maxmemsize :: nat where "Maxmemsize = 0x800000000"

lemma ON_OFF [simp]: "ON \<noteq> OFF" "OFF \<noteq> ON"
  by (simp_all add: ON_def OFF_def)

section \<open>Tables\<close>

datatype pagestate = UNMAP | INV | RO | RW

text \<open>
  Twins are pointers to a page-sized buffer: \<open>None\<close> is \<open>NULL\<close>, \<open>Some\<close> its contents. The
  write vector of a home page is a pointer too.
\<close>

type_synonym twin = "u8 list option"

record jiahome =
  h_wtnt :: u8
  h_rdnt :: u8
  h_addr :: addr
  h_wtvect :: "(nat \<Rightarrow> u64) option"
  h_twin :: twin
  h_wvfull :: bool

record jiacache =
  c_state :: pagestate
  c_addr :: addr
  c_twin :: twin
  c_wtnt :: u8

record jiapage =
  cachei :: nat
  homei :: nat
  homepid :: nat

record jialock =
  acqs :: "nat \<Rightarrow> int"
  acqscope :: "nat \<Rightarrow> u32"
  acqc :: int
  lscope :: u32
  myscope :: u32
  wtntp :: wtnt

record jiastack =
  lockid :: nat
  swtntp :: wtnt

record jiacv =
  waits :: "nat \<Rightarrow> int"
  waitc :: nat
  cvvalue :: int

datatype slot_state = SLOT_FREE | SLOT_BUSY

record slot =
  slot_msg :: jia_msg
  slot_st :: slot_state

text \<open>Page protections of the address space; a page that is not in the map is not mapped.\<close>

datatype prot = PROT_NONE | PROT_READ | PROT_RW

section \<open>The host\<close>

record host =
  jia_pid :: nat
  hostc :: nat
  global_start_addr :: addr
  homesize :: "nat \<Rightarrow> nat"
  globaladdr :: nat
  H_MIG :: int
  AD_WD :: int
  B_CAST :: int
  LOAD_BAL :: int
  W_VEC :: int
  prefetch_flag :: bool
  prefetch_pages :: int
  max_checking_pages :: int
  home :: "nat \<Rightarrow> jiahome"
  cache :: "nat \<Rightarrow> jiacache"
  page :: "nat \<Rightarrow> jiapage"
  vmem :: "addr \<Rightarrow> u8"
  vprot :: "addr \<Rightarrow> prot option"
  getpwait :: int
  diffwait :: int
  diffmsg :: "nat \<Rightarrow> nat option"
  repcnt :: "nat \<Rightarrow> nat"
  locks :: "nat \<Rightarrow> jialock"
  lockstack :: "nat \<Rightarrow> jiastack"
  stackptr :: int
  condvars :: "nat \<Rightarrow> jiacv"
  waitwait :: int
  acqwait :: int
  barrwait :: int
  cvwait :: int
  noclearlocks :: int
  waitcounter :: int
  mbuf :: "slot list"
  mcount :: nat
  outq :: "jia_msg list"

text \<open>The variables of a process before anything has assigned them: C zeroes static storage.\<close>

definition static_host :: host where
  "static_host = \<lparr>jia_pid = 0, hostc = 0, global_start_addr = 0, homesize = (\<lambda>_. 0), globaladdr = 0,
     H_MIG = OFF, AD_WD = OFF, B_CAST = OFF, LOAD_BAL = OFF, W_VEC = OFF, prefetch_flag = False,
     prefetch_pages = 0, max_checking_pages = 0,
     home = (\<lambda>_. \<lparr>h_wtnt = 0, h_rdnt = 0, h_addr = 0, h_wtvect = None, h_twin = None,
       h_wvfull = False\<rparr>),
     cache = (\<lambda>_. \<lparr>c_state = UNMAP, c_addr = 0, c_twin = None, c_wtnt = 0\<rparr>),
     page = (\<lambda>_. \<lparr>cachei = 0, homei = 0, homepid = 0\<rparr>),
     vmem = (\<lambda>_. 0), vprot = Map.empty, getpwait = 0, diffwait = 0, diffmsg = Map.empty,
     repcnt = (\<lambda>_. 0),
     locks = (\<lambda>_. \<lparr>acqs = (\<lambda>_. 0), acqscope = (\<lambda>_. 0), acqc = 0, lscope = 0, myscope = 0,
       wtntp = WNULL\<rparr>),
     lockstack = (\<lambda>_. \<lparr>lockid = 0, swtntp = WNULL\<rparr>), stackptr = 0,
     condvars = (\<lambda>_. \<lparr>waits = (\<lambda>_. 0), waitc = 0, cvvalue = 0\<rparr>),
     waitwait = 0, acqwait = 0, barrwait = 0, cvwait = 0, noclearlocks = 0, waitcounter = 0,
     mbuf = [], mcount = 0, outq = []\<rparr>"

section \<open>Access to the tables\<close>

definition home_at :: "host \<Rightarrow> nat \<Rightarrow> jiahome res" where
  "home_at s i = (if i < Homepages then Inr (home s i) else Inl (OutOfBounds ''home''))"

definition cache_at :: "host \<Rightarrow> nat \<Rightarrow> jiacache res" where
  "cache_at s i = (if i < Cachepages then Inr (cache s i) else Inl (OutOfBounds ''cache''))"

definition upd_home :: "nat \<Rightarrow> (jiahome \<Rightarrow> jiahome) \<Rightarrow> host \<Rightarrow> host" where
  "upd_home i f s = s\<lparr>home := (home s)(i := f (home s i))\<rparr>"

definition upd_cache :: "nat \<Rightarrow> (jiacache \<Rightarrow> jiacache) \<Rightarrow> host \<Rightarrow> host" where
  "upd_cache i f s = s\<lparr>cache := (cache s)(i := f (cache s i))\<rparr>"

definition upd_page :: "nat \<Rightarrow> (jiapage \<Rightarrow> jiapage) \<Rightarrow> host \<Rightarrow> host" where
  "upd_page i f s = s\<lparr>page := (page s)(i := f (page s i))\<rparr>"

definition upd_lock :: "nat \<Rightarrow> (jialock \<Rightarrow> jialock) \<Rightarrow> host \<Rightarrow> host" where
  "upd_lock i f s = s\<lparr>locks := (locks s)(i := f (locks s i))\<rparr>"

text \<open>The index of the page of \<open>a\<close>, and the macros \<open>homehost\<close>, \<open>homepage\<close>, \<open>cachepage\<close>.\<close>

definition pagei :: "host \<Rightarrow> addr \<Rightarrow> nat" where
  "pagei s a = unat ((a - global_start_addr s) div word_of_nat Pagesize)"

definition page_at :: "host \<Rightarrow> addr \<Rightarrow> jiapage res" where
  "page_at s a = (if pagei s a < Maxmempages then Inr (page s (pagei s a))
                  else Inl (OutOfBounds ''page''))"

definition homehost :: "host \<Rightarrow> addr \<Rightarrow> nat res" where
  "homehost s a = bindE (page_at s a) (\<lambda>p. Inr (homepid p))"

definition homepage :: "host \<Rightarrow> addr \<Rightarrow> nat res" where
  "homepage s a = bindE (page_at s a) (\<lambda>p. Inr (homei p))"

definition cachepage :: "host \<Rightarrow> addr \<Rightarrow> nat res" where
  "cachepage s a = bindE (page_at s a) (\<lambda>p. Inr (cachei p))"

definition set_cachepage :: "addr \<Rightarrow> nat \<Rightarrow> host \<Rightarrow> host res" where
  "set_cachepage a i s = bindE (page_at s a) (\<lambda>p.
     Inr (upd_page (pagei s a) (\<lambda>p. p\<lparr>cachei := i\<rparr>) s))"

section \<open>Memory\<close>

text \<open>
  \<open>page_range a n\<close>: the base addresses of the pages of the \<open>n\<close> bytes at \<open>a\<close>, rounded down to
  its page. A copy to or from memory faults unless every page it touches allows it.
\<close>

definition page_base :: "addr \<Rightarrow> addr" where
  "page_base a = a div word_of_nat Pagesize * word_of_nat Pagesize"

definition page_range :: "addr \<Rightarrow> nat \<Rightarrow> addr list" where
  "page_range a n = map (\<lambda>k. page_base a + word_of_nat (k * Pagesize))
     [0..<(if n = 0 then 0 else (unat (a - page_base a) + n + Pagesize - 1) div Pagesize)]"

definition readable :: "host \<Rightarrow> addr \<Rightarrow> bool" where
  "readable s a \<longleftrightarrow> vprot s a = Some PROT_READ \<or> vprot s a = Some PROT_RW"

definition writable :: "host \<Rightarrow> addr \<Rightarrow> bool" where
  "writable s a \<longleftrightarrow> vprot s a = Some PROT_RW"

definition mem_store :: "addr \<Rightarrow> u8 list \<Rightarrow> host \<Rightarrow> host res" where
  "mem_store a bs s = (if list_all (writable s) (page_range a (length bs))
     then Inr (s\<lparr>vmem := wr_mem (vmem s) a bs\<rparr>) else Inl (MemFault a))"

definition mem_load :: "addr \<Rightarrow> nat \<Rightarrow> host \<Rightarrow> u8 list res" where
  "mem_load a n s = (if list_all (readable s) (page_range a n)
     then Inr (rd_mem (vmem s) a n) else Inl (MemFault a))"

text \<open>
  \<open>memprotect\<close>, \<open>memmap\<close>, \<open>memunmap\<close> of \<open>src/src/mem/mem.c\<close> over \<open>mprotect\<close>, \<open>mmap\<close> and
  \<open>munmap\<close>: an address that is not at a page boundary is refused, \<open>mprotect\<close> needs its pages
  mapped, \<open>mmap\<close> of \<open>/dev/zero\<close> gives pages of zeros, and \<open>munmap\<close> of pages that are not
  mapped succeeds.
\<close>

definition memprotect :: "addr \<Rightarrow> nat \<Rightarrow> prot \<Rightarrow> host \<Rightarrow> host res" where
  "memprotect a len p s = bindE
     (assertE (a = page_base a \<and> list_all (\<lambda>b. vprot s b \<noteq> None) (page_range a len))
        (JiaAssert ''mprotect failed!'')) (\<lambda>_.
     Inr (s\<lparr>vprot := (\<lambda>b. if b \<in> set (page_range a len) then Some p else vprot s b)\<rparr>))"

definition memmap :: "addr \<Rightarrow> nat \<Rightarrow> prot \<Rightarrow> host \<Rightarrow> host res" where
  "memmap a len p s = bindE
     (assertE (a = page_base a \<and> 0 < len) (JiaAssert ''mmap failed!'')) (\<lambda>_.
     Inr (s\<lparr>vprot := (\<lambda>b. if b \<in> set (page_range a len) then Some p else vprot s b),
           vmem := (\<lambda>x. if page_base x \<in> set (page_range a len) then 0 else vmem s x)\<rparr>))"

definition memunmap :: "addr \<Rightarrow> nat \<Rightarrow> host \<Rightarrow> host res" where
  "memunmap a len s = bindE
     (assertE (a = page_base a \<and> 0 < len) (JiaAssert ''munmap failed!'')) (\<lambda>_.
     Inr (s\<lparr>vprot := (\<lambda>b. if b \<in> set (page_range a len) then None else vprot s b)\<rparr>))"

text \<open>
  \<open>newtwin\<close> and \<open>freetwin\<close> of \<open>src/src/tools/tools.c\<close>: with \<open>RESERVE_TWIN_SPACE\<close> defined, as
  \<open>mem.h\<close> does, \<open>freetwin\<close> keeps the buffer.
\<close>

definition newtwin :: "twin \<Rightarrow> twin" where
  "newtwin t = (case t of None \<Rightarrow> Some (replicate Pagesize 0) | Some b \<Rightarrow> Some b)"

definition freetwin :: "twin \<Rightarrow> twin" where
  "freetwin t = t"

section \<open>Message slots and the output queue\<close>

fun free_slot :: "slot list \<Rightarrow> nat option" where
  "free_slot [] = None"
| "free_slot (x # xs) = (if slot_st x = SLOT_FREE then Some 0 else map_option Suc (free_slot xs))"

definition freemsg_lock :: "host \<Rightarrow> (nat \<times> host) res" where
  "freemsg_lock s =
     (if mcount s = 0 then Inl (WouldBlock ''msg_buffer.count'')
      else case free_slot (mbuf s) of
          None \<Rightarrow> Inl (MemFault 0)
        | Some k \<Rightarrow> Inr (k, s\<lparr>mcount := mcount s - 1,
            mbuf := (mbuf s)[k := (mbuf s ! k)\<lparr>slot_st := SLOT_BUSY\<rparr>]\<rparr>))"

definition freemsg_unlock :: "nat \<Rightarrow> host \<Rightarrow> host" where
  "freemsg_unlock k s = s\<lparr>mcount := mcount s + 1,
     mbuf := (mbuf s)[k := (mbuf s ! k)\<lparr>slot_st := SLOT_FREE\<rparr>]\<rparr>"

definition set_slot :: "nat \<Rightarrow> jia_msg \<Rightarrow> host \<Rightarrow> host" where
  "set_slot k m s = s\<lparr>mbuf := (mbuf s)[k := (mbuf s ! k)\<lparr>slot_msg := m\<rparr>]\<rparr>"

definition move_msg_to_outqueue :: "nat \<Rightarrow> host \<Rightarrow> host" where
  "move_msg_to_outqueue k s = s\<lparr>outq := outq s @ [slot_msg (mbuf s ! k)]\<rparr>"

text \<open>
  The shape most senders have: take a slot, fill the message that an earlier use left there,
  put it on the output queue, give the slot back.
\<close>

definition with_slot :: "(jia_msg \<Rightarrow> jia_msg res) \<Rightarrow> host \<Rightarrow> host res" where
  "with_slot f s = bindE (freemsg_lock s) (\<lambda>(k, s).
     bindE (f (slot_msg (mbuf s ! k))) (\<lambda>m.
     Inr (freemsg_unlock k (move_msg_to_outqueue k (set_slot k m s)))))"

text \<open>A size that is not positive stands for the configured one.\<close>

definition init_msg_buffer :: "int \<Rightarrow> int \<Rightarrow> host \<Rightarrow> host" where
  "init_msg_buffer sz dflt s =
     (let n = nat (if sz \<le> 0 then dflt else sz)
      in s\<lparr>mbuf := replicate n \<lparr>slot_msg = clear_msg, slot_st = SLOT_FREE\<rparr>, mcount := n\<rparr>)"

text \<open>The semaphore counts the free slots.\<close>

definition free_slots :: "slot list \<Rightarrow> nat" where
  "free_slots xs = length (filter (\<lambda>x. slot_st x = SLOT_FREE) xs)"

definition mbuf_inv :: "host \<Rightarrow> bool" where
  "mbuf_inv s \<longleftrightarrow> mcount s = free_slots (mbuf s)"

lemma free_slot_None: "free_slot xs = None \<longleftrightarrow> free_slots xs = 0"
  by (induction xs) (auto simp: free_slots_def)

lemma free_slot_Some: "free_slot xs = Some k \<Longrightarrow> k < length xs \<and> slot_st (xs ! k) = SLOT_FREE"
  by (induction xs arbitrary: k) (auto split: if_splits)

lemma free_slots_update:
  "k < length xs \<Longrightarrow> free_slots (xs[k := x]) + (if slot_st (xs ! k) = SLOT_FREE then 1 else 0) =
     free_slots xs + (if slot_st x = SLOT_FREE then 1 else 0)"
proof (induction xs arbitrary: k)
  case (Cons y ys)
  then show ?case by (cases k) (auto simp: free_slots_def)
qed simp

lemma freemsg_lock_total: "mbuf_inv s \<Longrightarrow> 0 < mcount s \<Longrightarrow> \<exists>k t. freemsg_lock s = Inr (k, t)"
  using free_slot_None [of "mbuf s"]
  by (auto simp: freemsg_lock_def mbuf_inv_def split: option.splits)

lemma freemsg_lock_inv:
  assumes "freemsg_lock s = Inr (k, t)" "mbuf_inv s"
  shows "mbuf_inv t" "k < length (mbuf t)" "slot_st (mbuf t ! k) = SLOT_BUSY"
    "mcount s = Suc (mcount t)" "length (mbuf t) = length (mbuf s)"
proof -
  from assms(1) obtain fs: "free_slot (mbuf s) = Some k" and c: "mcount s \<noteq> 0"
    and t: "t = s\<lparr>mcount := mcount s - 1,
      mbuf := (mbuf s)[k := (mbuf s ! k)\<lparr>slot_st := SLOT_BUSY\<rparr>]\<rparr>"
    by (auto simp: freemsg_lock_def split: if_splits option.splits)
  note k = free_slot_Some [OF fs]
  show "mbuf_inv t"
    using free_slots_update [of k "mbuf s" "(mbuf s ! k)\<lparr>slot_st := SLOT_BUSY\<rparr>"] k assms(2) c
    by (auto simp: mbuf_inv_def t)
  show "k < length (mbuf t)" "slot_st (mbuf t ! k) = SLOT_BUSY" "mcount s = Suc (mcount t)"
    "length (mbuf t) = length (mbuf s)"
    using k c by (auto simp: t)
qed

lemma freemsg_unlock_inv:
  assumes "mbuf_inv s" "k < length (mbuf s)" "slot_st (mbuf s ! k) = SLOT_BUSY"
  shows "mbuf_inv (freemsg_unlock k s)"
  using free_slots_update [of k "mbuf s" "(mbuf s ! k)\<lparr>slot_st := SLOT_FREE\<rparr>"] assms
  by (auto simp: mbuf_inv_def freemsg_unlock_def)

lemma set_slot_inv: "mbuf_inv s \<Longrightarrow> k < length (mbuf s) \<Longrightarrow> mbuf_inv (set_slot k m s)"
  using free_slots_update [of k "mbuf s" "(mbuf s ! k)\<lparr>slot_msg := m\<rparr>"]
  by (auto simp: mbuf_inv_def set_slot_def)

lemma set_slot_slots [simp]:
  "length (mbuf (set_slot k m s)) = length (mbuf s)"
  "k < length (mbuf s) \<Longrightarrow> slot_st (mbuf (set_slot k m s) ! k) = slot_st (mbuf s ! k)"
  "k < length (mbuf s) \<Longrightarrow> slot_msg (mbuf (set_slot k m s) ! k) = m"
  by (simp_all add: set_slot_def)

lemma move_slots [simp]: "mbuf (move_msg_to_outqueue k s) = mbuf s"
  "mcount (move_msg_to_outqueue k s) = mcount s"
  by (simp_all add: move_msg_to_outqueue_def)

lemma with_slot_Inr:
  assumes "with_slot f s = Inr t" "mbuf_inv s"
  shows "\<exists>old m b. f old = Inr m \<and> mbuf_inv t \<and>
     t = s\<lparr>mbuf := b, outq := outq s @ [m]\<rparr> \<and> length b = length (mbuf s)"
proof -
  from assms(1) obtain k u m where lk: "freemsg_lock s = Inr (k, u)"
    and f: "f (slot_msg (mbuf u ! k)) = Inr m"
    and t: "t = freemsg_unlock k (move_msg_to_outqueue k (set_slot k m u))"
    by (auto simp: with_slot_def)
  note u = freemsg_lock_inv [OF lk assms(2)]
  obtain c b where ub: "u = s\<lparr>mcount := c, mbuf := b\<rparr>"
    using lk by (auto simp: freemsg_lock_def split: if_splits option.splits)
  let ?v = "move_msg_to_outqueue k (set_slot k m u)"
  have "mbuf_inv ?v" using set_slot_inv [OF u(1,2)] by (simp add: mbuf_inv_def)
  then have inv: "mbuf_inv t"
    unfolding t using u by (intro freemsg_unlock_inv) (simp_all)
  have "mbuf t = (b[k := (b ! k)\<lparr>slot_msg := m\<rparr>])[k := (b ! k)\<lparr>slot_msg := m, slot_st := SLOT_FREE\<rparr>]"
    "t = s\<lparr>mcount := mcount s, mbuf := mbuf t, outq := outq s @ [m]\<rparr>"
    using u by (simp_all add: t freemsg_unlock_def move_msg_to_outqueue_def set_slot_def ub)
  then have "t = s\<lparr>mbuf := mbuf t, outq := outq s @ [m]\<rparr>" "length (mbuf t) = length (mbuf s)"
    using u by (simp_all add: ub)
  then show ?thesis using f inv by blast
qed

lemma with_slot_total:
  assumes "mbuf_inv s" "0 < mcount s" "\<And>old. \<exists>m. f old = Inr m"
  shows "\<exists>t. with_slot f s = Inr t"
proof -
  obtain k u where u: "freemsg_lock s = Inr (k, u)" using freemsg_lock_total assms by blast
  moreover obtain m where "f (slot_msg (mbuf u ! k)) = Inr m" using assms(3) by blast
  ultimately show ?thesis by (simp add: with_slot_def)
qed

lemma with_slot_run:
  assumes "mbuf_inv s" "0 < mcount s" "\<And>old. \<exists>m. f old = Inr m \<and> P m"
  shows "\<exists>b m. with_slot f s = Inr (s\<lparr>mbuf := b, outq := outq s @ [m]\<rparr>) \<and> P m \<and>
    length b = length (mbuf s) \<and> free_slots b = mcount s"
proof -
  obtain t where t: "with_slot f s = Inr t"
    using with_slot_total [OF assms(1,2), of f] assms(3) by blast
  then obtain old m b where w: "f old = Inr m" "mbuf_inv t" "t = s\<lparr>mbuf := b, outq := outq s @ [m]\<rparr>"
      "length b = length (mbuf s)"
    using with_slot_Inr [OF t assms(1)] by blast
  moreover have "P m" using assms(3) [of old] w(1) by auto
  ultimately show ?thesis using t by (auto simp: mbuf_inv_def)
qed

section \<open>Arithmetic of pages\<close>

definition aligned :: "addr \<Rightarrow> bool" where
  "aligned a \<longleftrightarrow> unat a mod Pagesize = 0"

lemma unat_Pagesize: "unat (word_of_nat Pagesize :: addr) = 4096"
  by (simp add: Pagesize_def)

lemma unat_addr_bound: "unat (a :: addr) < 2 ^ 64"
proof -
  have "unat a < 2 ^ LENGTH(64)" by (rule unsigned_less)
  then show ?thesis by simp
qed

lemma unat_page_base: "unat (page_base a) = unat a div 4096 * 4096"
proof -
  have d: "unat (a div word_of_nat Pagesize) = unat a div 4096"
    by (simp only: unat_div_distrib unat_Pagesize)
  have "unat a div 4096 * 4096 \<le> unat a" by simp
  then have lt: "unat a div 4096 * 4096 < 2 ^ 64"
    using unat_addr_bound [of a] by simp
  have "unat (page_base a) = (unat a div 4096 * 4096) mod 2 ^ 64"
    unfolding page_base_def unat_word_ariths(2) d unat_Pagesize by simp
  then show ?thesis using lt by simp
qed

lemma aligned_page_base: "aligned a \<longleftrightarrow> page_base a = a"
proof -
  have "page_base a = a \<longleftrightarrow> unat a div 4096 * 4096 = unat a"
    by (simp add: word_unat_eq_iff unat_page_base)
  also have "\<dots> \<longleftrightarrow> unat a mod 4096 = 0"
    by (metis add_cancel_right_right div_mult_mod_eq)
  finally show ?thesis by (simp add: aligned_def Pagesize_def)
qed

lemma aligned_page_base_self [simp]: "aligned (page_base a)"
  by (simp add: aligned_def unat_page_base Pagesize_def)

lemma unat_aligned_plus:
  assumes "aligned a" "k < Pagesize"
  shows "unat (a + word_of_nat k) = unat a + k"
proof -
  have k: "k < 4096" using assms by (simp add: Pagesize_def)
  have "unat a mod 4096 = 0" using assms by (simp add: aligned_def Pagesize_def)
  then obtain q where q: "unat a = 4096 * q" by (metis mod_0_imp_dvd dvdE)
  have "unat a < 2 ^ 64" by (rule unat_addr_bound)
  then have "q < 4503599627370496" using q by simp
  then have "unat a + k < 2 ^ 64" using k q by simp
  moreover have "unat (word_of_nat k :: addr) = k" using k by (simp add: unat_of_nat)
  ultimately show ?thesis by (simp add: unat_word_ariths)
qed

lemma Pagesize_pos [simp]: "0 < Pagesize"
  by (simp add: Pagesize_def)

lemma page_base_plus: "aligned a \<Longrightarrow> k < Pagesize \<Longrightarrow> page_base (a + word_of_nat k) = a"
  by (rule word_unat_eq_iff [THEN iffD2])
    (auto simp: unat_page_base unat_aligned_plus aligned_def Pagesize_def)

lemma plus_minus_offset:
  assumes "k < Pagesize"
  shows "unat (a + word_of_nat k - a :: addr) = k"
  using assms by (simp add: unat_of_nat Pagesize_def)

lemma page_range_within:
  assumes "aligned a" "0 < n" "k + n \<le> Pagesize"
  shows "page_range (a + word_of_nat k) n = [a]"
proof -
  have k: "k < Pagesize" using assms by simp
  have "unat (a + word_of_nat k - a) + n + Pagesize - 1 = k + n + Pagesize - 1"
    using plus_minus_offset [OF k] by simp
  moreover have "(k + n + Pagesize - 1) div Pagesize = 1"
  proof -
    have "Pagesize \<le> k + n + Pagesize - 1" "k + n + Pagesize - 1 < Pagesize + Pagesize"
      using assms by auto
    then show ?thesis by (simp add: div_nat_eqI)
  qed
  ultimately show ?thesis
    using assms(2) by (simp add: page_range_def page_base_plus [OF assms(1) k])
qed

lemma page_range_page: "aligned a \<Longrightarrow> page_range a Pagesize = [a]"
  using page_range_within [of a Pagesize 0] by (simp add: Pagesize_def)

lemma page_base_inj: "page_base x = page_base y \<longleftrightarrow> unat x div 4096 = unat y div 4096"
  by (auto simp: word_unat_eq_iff unat_page_base)

text \<open>The single-page forms the handlers use.\<close>

lemma memprotect_page:
  "memprotect a Pagesize p s = (if aligned a \<and> vprot s a \<noteq> None
     then Inr (s\<lparr>vprot := (vprot s)(a := Some p)\<rparr>) else Inl (JiaAssert ''mprotect failed!''))"
proof (cases "aligned a")
  case True
  then have "(\<lambda>b. if b \<in> set (page_range a Pagesize) then Some p else vprot s b) =
      (vprot s)(a := Some p)"
    by (auto simp: page_range_page)
  then show ?thesis
    using True aligned_page_base [of a] by (simp add: memprotect_def page_range_page assertE_def)
next
  case False
  then have "a \<noteq> page_base a" using aligned_page_base [of a] by metis
  then show ?thesis using False by (simp add: memprotect_def)
qed

lemma memmap_page:
  "memmap a Pagesize p s = (if aligned a
     then Inr (s\<lparr>vprot := (vprot s)(a := Some p),
                 vmem := (\<lambda>x. if page_base x = a then 0 else vmem s x)\<rparr>)
     else Inl (JiaAssert ''mmap failed!''))"
proof (cases "aligned a")
  case True
  then have "(\<lambda>b. if b \<in> set (page_range a Pagesize) then Some p else vprot s b) =
      (vprot s)(a := Some p)"
    by (auto simp: page_range_page)
  then show ?thesis
    using True aligned_page_base [of a]
    by (simp add: memmap_def page_range_page assertE_def)
next
  case False
  then have "a \<noteq> page_base a" using aligned_page_base [of a] by metis
  then show ?thesis using False by (simp add: memmap_def)
qed

lemma memunmap_page:
  "memunmap a Pagesize s = (if aligned a then Inr (s\<lparr>vprot := (vprot s)(a := None)\<rparr>)
     else Inl (JiaAssert ''munmap failed!''))"
proof (cases "aligned a")
  case True
  then have "(\<lambda>b. if b \<in> set (page_range a Pagesize) then None else vprot s b) =
      (vprot s)(a := None)"
    by (auto simp: page_range_page)
  then show ?thesis
    using True aligned_page_base [of a]
    by (simp add: memunmap_def page_range_page assertE_def)
next
  case False
  then have "a \<noteq> page_base a" using aligned_page_base [of a] by metis
  then show ?thesis using False by (simp add: memunmap_def)
qed

lemma mem_store_within:
  "aligned a \<Longrightarrow> 0 < length bs \<Longrightarrow> k + length bs \<le> Pagesize \<Longrightarrow>
     mem_store (a + word_of_nat k) bs s = (if writable s a
       then Inr (s\<lparr>vmem := wr_mem (vmem s) (a + word_of_nat k) bs\<rparr>)
       else Inl (MemFault (a + word_of_nat k)))"
  by (simp add: mem_store_def page_range_within)

lemma mem_store_page:
  "aligned a \<Longrightarrow> length bs = Pagesize \<Longrightarrow> mem_store a bs s = (if writable s a
       then Inr (s\<lparr>vmem := wr_mem (vmem s) a bs\<rparr>) else Inl (MemFault a))"
  by (simp add: mem_store_def page_range_page)

lemma mem_load_page:
  "aligned a \<Longrightarrow> mem_load a Pagesize s = (if readable s a
       then Inr (rd_mem (vmem s) a Pagesize) else Inl (MemFault a))"
  by (simp add: mem_load_def page_range_page)

lemma wr_mem_within:
  assumes "i < Pagesize" "k + length bs \<le> Pagesize"
  shows "wr_mem m (a + word_of_nat k) bs (a + word_of_nat i) =
    (if k \<le> i \<and> i < k + length bs then bs ! (i - k) else m (a + word_of_nat i))"
proof -
  have b: "i < 4096" "k \<le> 4096" using assms by (simp_all add: Pagesize_def)
  show ?thesis
  proof (cases "k \<le> i")
    case True
    then have "word_of_nat i = (word_of_nat k + word_of_nat (i - k) :: addr)"
      by (simp flip: of_nat_add)
    then have "a + word_of_nat i - (a + word_of_nat k) = (word_of_nat (i - k) :: addr)"
      by simp
    moreover have "unat (word_of_nat (i - k) :: addr) = i - k"
      using b by (simp add: unat_of_nat)
    ultimately show ?thesis using True by (auto simp: wr_mem_def)
  next
    case False
    let ?d = "unat (a + word_of_nat i - (a + word_of_nat k))"
    have "\<not> ?d < length bs"
    proof
      assume d: "?d < length bs"
      have "word_of_nat ?d = a + word_of_nat i - (a + word_of_nat k)" by simp
      then have "word_of_nat i = (word_of_nat (k + ?d) :: addr)" by (simp add: algebra_simps)
      moreover have "k + ?d < 2 ^ 64" "i < 2 ^ 64" using d assms b by (simp_all add: Pagesize_def)
      ultimately have "i = k + ?d" by (metis unat_of_small)
      then show False using False by simp
    qed
    then show ?thesis using False by (simp add: wr_mem_def)
  qed
qed

lemma in_page:
  assumes "aligned a"
  shows "page_base x = a \<longleftrightarrow> (\<exists>i<Pagesize. x = a + word_of_nat i)"
proof
  assume "page_base x = a"
  then have "unat a = unat x div 4096 * 4096" using unat_page_base [of x] by simp
  then have x: "unat x = unat a + unat x mod 4096" by (simp add: mult_div_mod_eq mult.commute)
  have "unat x = unat (a + word_of_nat (unat x mod 4096))"
    using x unat_aligned_plus [OF assms, of "unat x mod 4096"] by (simp add: Pagesize_def)
  then have "x = a + word_of_nat (unat x mod 4096)" by (rule word_unat_eq_iff [THEN iffD2])
  moreover have "unat x mod 4096 < Pagesize" by (simp add: Pagesize_def)
  ultimately show "\<exists>i<Pagesize. x = a + word_of_nat i" by blast
next
  assume "\<exists>i<Pagesize. x = a + word_of_nat i"
  then show "page_base x = a" using assms by (auto simp: page_base_plus)
qed

lemma page_offset_less:
  assumes "aligned a" "page_base x = a"
  shows "unat (x - a) < Pagesize"
proof -
  obtain i where "i < Pagesize" "x = a + word_of_nat i" using assms in_page by blast
  then show ?thesis using plus_minus_offset [of i a] by simp
qed

lemma wr_mem_page:
  assumes a: "aligned a" and k: "k + length bs \<le> Pagesize"
  shows "wr_mem m (a + word_of_nat k) bs =
    (\<lambda>x. if page_base x = a \<and> k \<le> unat (x - a) \<and> unat (x - a) < k + length bs
         then bs ! (unat (x - a) - k) else m x)"
proof
  fix x
  show "wr_mem m (a + word_of_nat k) bs x =
    (if page_base x = a \<and> k \<le> unat (x - a) \<and> unat (x - a) < k + length bs
         then bs ! (unat (x - a) - k) else m x)"
  proof (cases "page_base x = a")
    case True
    then obtain i where i: "i < Pagesize" "x = a + word_of_nat i" using in_page [OF a] by blast
    then show ?thesis
      using wr_mem_within [OF i(1) k, of m a] True plus_minus_offset [OF i(1), of a] by simp
  next
    case False
    have "\<not> unat (x - (a + word_of_nat k)) < length bs"
    proof
      let ?d = "unat (x - (a + word_of_nat k))"
      assume d: "?d < length bs"
      have "word_of_nat ?d = x - (a + word_of_nat k)" by simp
      then have "x = a + word_of_nat (k + ?d)" by (simp add: algebra_simps)
      moreover have "k + ?d < Pagesize" using d k by simp
      ultimately show False using False page_base_plus [OF a] by metis
    qed
    then show ?thesis using False by (simp add: wr_mem_def)
  qed
qed

text \<open>Two states whose memories agree on a page have the same page contents.\<close>

lemma rd_mem_page_eq:
  assumes "aligned a" "\<And>x. page_base x = a \<Longrightarrow> m x = m' x"
  shows "rd_mem m a Pagesize = rd_mem m' a Pagesize"
  using assms by (intro nth_equalityI) (simp_all add: page_base_plus)

lemma rd_mem_wr_page:
  "length bs = Pagesize \<Longrightarrow> rd_mem (wr_mem m a bs) a Pagesize = bs"
  using rd_wr_mem [of bs m a] by (simp add: Pagesize_def)

end
