(* ===== verification/Diff.thy ===== *)
theory Diff
  imports Host
begin

text \<open>
  Diffs of the multiple-writer protocol: \<open>encodediff\<close> of \<open>src/src/mem/memsyn.c\<close> encodes the
  words of a cached page that differ from its twin, \<open>diffserver\<close> of \<open>src/src/mem/memserver.c\<close>
  writes them into the home page, and \<open>addwtvect\<close>, \<open>setwtvect\<close> of \<open>src/src/mem/mem.c\<close> keep
  the write vectors.
\<close>

section \<open>Encoding\<close>

text \<open>\<open>memcmp (p + b, t + b, Diffunit) == 0\<close>.\<close>

definition same_unit :: "u8 list \<Rightarrow> u8 list \<Rightarrow> nat \<Rightarrow> bool" where
  "same_unit p t b \<longleftrightarrow> take Diffunit (drop b p) = take Diffunit (drop b t)"

function skip_same :: "u8 list \<Rightarrow> u8 list \<Rightarrow> nat \<Rightarrow> nat" where
  "skip_same p t b = (if b < Pagesize \<and> same_unit p t b then skip_same p t (b + Diffunit) else b)"
  by pat_completeness auto
termination
  by (relation "measure (\<lambda>(p, t, b). Pagesize - b)") (auto simp: Diffunit_def)

function skip_diff :: "u8 list \<Rightarrow> u8 list \<Rightarrow> nat \<Rightarrow> nat" where
  "skip_diff p t b = (if b < Pagesize \<and> \<not> same_unit p t b then skip_diff p t (b + Diffunit) else b)"
  by pat_completeness auto
termination
  by (relation "measure (\<lambda>(p, t, b). Pagesize - b)") (auto simp: Diffunit_def)

declare skip_same.simps [simp del] skip_diff.simps [simp del]

lemma skip_same_ge: "b \<le> skip_same p t b"
proof (induction p t b rule: skip_same.induct)
  case (1 p t b)
  show ?case
  proof (cases "b < Pagesize \<and> same_unit p t b")
    case True
    then have "b + Diffunit \<le> skip_same p t (b + Diffunit)" using 1 by blast
    then show ?thesis using True by (subst skip_same.simps) simp
  next
    case False
    then show ?thesis by (subst skip_same.simps) auto
  qed
qed

lemma skip_diff_ge: "b \<le> skip_diff p t b"
proof (induction p t b rule: skip_diff.induct)
  case (1 p t b)
  show ?case
  proof (cases "b < Pagesize \<and> \<not> same_unit p t b")
    case True
    then have "b + Diffunit \<le> skip_diff p t (b + Diffunit)" using 1 by blast
    then show ?thesis using True by (subst skip_diff.simps) simp
  next
    case False
    then show ?thesis by (subst skip_diff.simps) auto
  qed
qed

lemma skip_same_stop: "skip_same p t b < Pagesize \<Longrightarrow> \<not> same_unit p t (skip_same p t b)"
proof (induction p t b rule: skip_same.induct)
  case (1 p t b)
  show ?case
  proof (cases "b < Pagesize \<and> same_unit p t b")
    case True
    then have "skip_same p t b = skip_same p t (b + Diffunit)" by (subst skip_same.simps) simp
    then show ?thesis using 1 True by simp
  next
    case False
    then have "skip_same p t b = b" by (subst skip_same.simps) auto
    then show ?thesis using False "1.prems" by auto
  qed
qed

lemma skip_diff_progress:
  assumes "b < Pagesize" "\<not> same_unit p t b"
  shows "b < skip_diff p t b"
proof -
  have "skip_diff p t b = skip_diff p t (b + Diffunit)"
    using assms by (subst skip_diff.simps) simp
  then show ?thesis using skip_diff_ge [of "b + Diffunit" p t] by (simp add: Diffunit_def)
qed

text \<open>The header of a run: \<open>((start & 0xffff) << 16) | (cnt & 0xffff)\<close>.\<close>

definition run_header :: "nat \<Rightarrow> nat \<Rightarrow> u32" where
  "run_header start cnt = push_bit 16 (word_of_nat start AND 0xffff) OR (word_of_nat cnt AND 0xffff)"

text \<open>The outer loop of \<open>encodediff\<close>: the bytes it appends to \<open>diff\<close>.\<close>

function encode_runs :: "u8 list \<Rightarrow> u8 list \<Rightarrow> nat \<Rightarrow> u8 list" where
  "encode_runs p t b =
     (if b < Pagesize then
        let start = skip_same p t b
        in if start < Pagesize then
             let stop = skip_diff p t start; cnt = stop - start
             in itob (run_header start cnt) @ take cnt (drop start p) @ encode_runs p t stop
           else []
      else [])"
  by pat_completeness auto
termination
proof (relation "measure (\<lambda>(p, t, b). Pagesize - b)", goal_cases)
  case (2 p t b start stop cnt)
  then have "b \<le> start" "start < stop"
    using skip_same_ge [of b p t] skip_diff_progress [of start p t] skip_same_stop [of p t b] by auto
  then show ?case using 2 by auto
qed simp

declare encode_runs.simps [simp del]

text \<open>
  \<open>encodediff\<close> on a cached page: its address, the size of everything encoded, the runs. The page
  must be readable and the twin allocated.
\<close>

definition encode_page :: "addr \<Rightarrow> u8 list \<Rightarrow> u8 list \<Rightarrow> u8 list" where
  "encode_page a p t =
     (let runs = encode_runs p t 0
      in ltob a @ itob (word_of_nat (Ptrbytes + Intbytes + length runs)) @ runs)"

definition encodediff :: "nat \<Rightarrow> host \<Rightarrow> u8 list res" where
  "encodediff ci s = bindE (cache_at s ci) (\<lambda>c.
     bindE (mem_load (c_addr c) Pagesize s) (\<lambda>p.
     case c_twin c of None \<Rightarrow> Inl (MemFault 0) | Some t \<Rightarrow> Inr (encode_page (c_addr c) p t)))"

section \<open>Write vectors\<close>

text \<open>
  The loops of \<open>addwtvect\<close> and \<open>setwtvect\<close>: one vector per host, with a bit per block of the
  page, and \<open>wvfull\<close> when every vector is full. A write vector that is not allocated (\<open>jia_config\<close>
  allocates them when write vectors are turned on) faults.
\<close>

definition addwtvect :: "nat \<Rightarrow> u64 \<Rightarrow> nat \<Rightarrow> host \<Rightarrow> host res" where
  "addwtvect hi wv pid s =
     (if hostc s = 0 then Inr (upd_home hi (\<lambda>h. h\<lparr>h_wvfull := True\<rparr>) s)
      else case h_wtvect (home s hi) of
        None \<Rightarrow> Inl (MemFault 0)
      | Some v \<Rightarrow>
          let v' = (\<lambda>i. if i < hostc s \<and> i \<noteq> pid then v i OR wv else v i)
          in Inr (upd_home hi (\<lambda>h. h\<lparr>h_wtvect := Some v',
               h_wvfull := list_all (\<lambda>i. v' i = WVFULL) [0..<hostc s]\<rparr>) s))"

definition setwtvect :: "nat \<Rightarrow> u64 \<Rightarrow> host \<Rightarrow> host res" where
  "setwtvect hi wv s =
     (if hostc s = 0 then Inr (upd_home hi (\<lambda>h. h\<lparr>h_wvfull := True\<rparr>) s)
      else case h_wtvect (home s hi) of
        None \<Rightarrow> Inl (MemFault 0)
      | Some v \<Rightarrow> Inr (upd_home hi (\<lambda>h. h\<lparr>
          h_wtvect := Some (\<lambda>i. if i < hostc s then wv else v i), h_wvfull := wv = WVFULL\<rparr>) s))"

text \<open>The blocks that \<open>dsize\<close> bytes at \<open>doffset\<close> touch.\<close>

definition block_bits :: "nat \<Rightarrow> nat \<Rightarrow> u64" where
  "block_bits doffset dsize = fold (\<lambda>k w. w OR push_bit k 1)
     [doffset div Blocksize..<(doffset + dsize + Blocksize - 1) div Blocksize] 0"

section \<open>The server of diffs\<close>

text \<open>The inner loop: the runs between \<open>datai\<close> and \<open>pstop\<close>.\<close>

function copy_runs :: "jia_msg \<Rightarrow> addr \<Rightarrow> nat \<Rightarrow> nat \<Rightarrow> u64 \<Rightarrow> host \<Rightarrow> (nat \<times> u64 \<times> host) res" where
  "copy_runs req paddr datai pstop wv s =
     (if datai < pstop then
        let dsize = unat (bytestoi (data req) datai AND 0xffff);
            doffset = unat (drop_bit 16 (bytestoi (data req) datai) AND 0xffff);
            datai = datai + Intbytes
        in bindE (assertE (datai + dsize \<le> Maxmsgsize) (OutOfBounds ''data'')) (\<lambda>_.
           bindE (mem_store (paddr + word_of_nat doffset) (bslice (data req) datai dsize) s) (\<lambda>s.
           copy_runs req paddr (datai + dsize) pstop
             (if W_VEC s = ON \<and> 0 < dsize then wv OR block_bits doffset dsize else wv) s))
      else Inr (datai, wv, s))"
  by pat_completeness auto
termination
  by (relation "measure (\<lambda>(req, paddr, datai, pstop, wv, s). pstop - datai)")
    (auto simp: Intbytes_def)

declare copy_runs.simps [simp del]

lemma copy_runs_datai: "copy_runs req paddr datai pstop wv s = Inr (k, wv', s') \<Longrightarrow> datai \<le> k"
proof (induction req paddr datai pstop wv s rule: copy_runs.induct)
  case (1 req paddr datai pstop wv s)
  show ?case
  proof (cases "datai < pstop")
    case True
    then show ?thesis
      using 1 by (fastforce simp: copy_runs.simps [of req paddr datai pstop wv s] Let_def)
  next
    case False
    then show ?thesis using "1.prems" by (simp add: copy_runs.simps [of req paddr datai pstop wv s])
  qed
qed

text \<open>
  The outer loop: one cached page after the other. The home page is made writable for the copy
  unless the home host has written it in this interval.
\<close>

definition diff_page :: "jia_msg \<Rightarrow> nat \<Rightarrow> host \<Rightarrow> (nat \<times> host) res" where
  "diff_page req datai s =
     bindE (assertE (datai + Ptrbytes + Intbytes \<le> Maxmsgsize) (OutOfBounds ''data'')) (\<lambda>_.
     let paddr = stol (data req) datai; datai = datai + Ptrbytes
     in bindE (homepage s paddr) (\<lambda>hi.
        bindE (home_at s hi) (\<lambda>h.
        bindE (if h_wtnt h AND 1 \<noteq> 1 then memprotect paddr Pagesize PROT_RW s else Inr s) (\<lambda>s.
        let pstop = unat (scast (bytestoi (data req) datai + word_of_nat datai)
                          - word_of_nat Ptrbytes :: u64);
            datai = datai + Intbytes
        in bindE (copy_runs req paddr datai pstop WVNULL s) (\<lambda>(datai, wv, s).
           bindE (if W_VEC s = ON then addwtvect hi wv (frompid req) s else Inr s) (\<lambda>s.
           bindE (if h_wtnt (home s hi) AND 1 \<noteq> 1 then memprotect paddr Pagesize PROT_READ s
                  else Inr s) (\<lambda>s. Inr (datai, s))))))))"

lemma diff_page_datai: "diff_page req datai s = Inr (k, s') \<Longrightarrow> datai < k"
  unfolding diff_page_def Let_def
  by (clarsimp split del: if_split) (drule copy_runs_datai, simp add: msg_consts)

function diff_pages :: "jia_msg \<Rightarrow> nat \<Rightarrow> host \<Rightarrow> host res" where
  "diff_pages req datai s =
     (if datai < size req
      then bindE (diff_page req datai s) (\<lambda>x. diff_pages req (fst x) (snd x))
      else Inr s)"
  by pat_completeness auto
termination
  by (relation "measure (\<lambda>(req, datai, s). size req - datai)") (auto dest: diff_page_datai)

declare diff_pages.simps [simp del]

definition diffserver :: "jia_msg \<Rightarrow> host \<Rightarrow> host res" where
  "diffserver req s =
     bindE (assertE (is_op req DIFF \<and> topid req = jia_pid s) (JiaAssert ''Incorrect DIFF Message!''))
       (\<lambda>_. bindE (diff_pages req 0 s) (\<lambda>s.
        with_slot (\<lambda>rep. Inr (rep\<lparr>op := op_num DIFFGRANT, frompid := jia_pid s,
          topid := frompid req, size := 0\<rparr>)) s))"

definition diffgrantserver :: "jia_msg \<Rightarrow> host \<Rightarrow> host res" where
  "diffgrantserver rep s =
     bindE (assertE (is_op rep DIFFGRANT \<and> size rep = 0) (JiaAssert ''Incorrect returned message!''))
       (\<lambda>_. Inr (s\<lparr>diffwait := diffwait s - 1\<rparr>))"

section \<open>What a diff carries\<close>

text \<open>A byte is changed when its word differs between page and twin; merging takes those bytes.\<close>

definition changed :: "u8 list \<Rightarrow> u8 list \<Rightarrow> nat \<Rightarrow> bool" where
  "changed p t i \<longleftrightarrow> \<not> same_unit p t (i div Diffunit * Diffunit)"

definition merge_page :: "u8 list \<Rightarrow> u8 list \<Rightarrow> u8 list \<Rightarrow> u8 list" where
  "merge_page p t q = map (\<lambda>i. if changed p t i then p ! i else q ! i) [0..<Pagesize]"

text \<open>The same on memory: the changed bytes of the page at \<open>a\<close>, from offset \<open>b\<close> on.\<close>

definition merge_from :: "nat \<Rightarrow> u8 list \<Rightarrow> u8 list \<Rightarrow> addr \<Rightarrow> (addr \<Rightarrow> u8) \<Rightarrow> (addr \<Rightarrow> u8)" where
  "merge_from b p t a m = (\<lambda>x. if page_base x = a \<and> b \<le> unat (x - a) \<and> changed p t (unat (x - a))
     then p ! unat (x - a) else m x)"

lemma unit_bytes:
  assumes "b mod Diffunit = 0" "b \<le> i" "i < b + Diffunit"
  shows "i div Diffunit * Diffunit = b"
  using assms by (auto simp: Diffunit_def)

lemma Diffunit_step:
  "b mod Diffunit = 0 \<Longrightarrow> b < Pagesize \<Longrightarrow> b + Diffunit \<le> Pagesize \<and> (b + Diffunit) mod Diffunit = 0"
  by (auto simp: Diffunit_def Pagesize_def)

lemma skip_same_spec:
  assumes "b mod Diffunit = 0" "b \<le> Pagesize"
  shows "skip_same p t b mod Diffunit = 0 \<and> skip_same p t b \<le> Pagesize \<and>
    (\<forall>i. b \<le> i \<and> i < skip_same p t b \<longrightarrow> \<not> changed p t i)"
  using assms
proof (induction p t b rule: skip_same.induct)
  case (1 p t b)
  show ?case
  proof (cases "b < Pagesize \<and> same_unit p t b")
    case True
    then have u: "skip_same p t b = skip_same p t (b + Diffunit)" by (subst skip_same.simps) simp
    have "\<not> changed p t i" if "b \<le> i" "i < b + Diffunit" for i
      using True unit_bytes [OF "1.prems"(1) that] by (simp add: changed_def)
    then show ?thesis
      unfolding u using "1.IH" [OF True] Diffunit_step [of b] "1.prems" True
      by (metis leI)
  next
    case False
    then have "skip_same p t b = b" by (subst skip_same.simps) auto
    then show ?thesis using "1.prems" by auto
  qed
qed

lemma skip_diff_spec:
  assumes "b mod Diffunit = 0" "b \<le> Pagesize"
  shows "skip_diff p t b mod Diffunit = 0 \<and> skip_diff p t b \<le> Pagesize \<and>
    (\<forall>i. b \<le> i \<and> i < skip_diff p t b \<longrightarrow> changed p t i) \<and>
    (skip_diff p t b = Pagesize \<or> same_unit p t (skip_diff p t b))"
  using assms
proof (induction p t b rule: skip_diff.induct)
  case (1 p t b)
  show ?case
  proof (cases "b < Pagesize \<and> \<not> same_unit p t b")
    case True
    then have u: "skip_diff p t b = skip_diff p t (b + Diffunit)" by (subst skip_diff.simps) simp
    have "changed p t i" if "b \<le> i" "i < b + Diffunit" for i
      using True unit_bytes [OF "1.prems"(1) that] by (simp add: changed_def)
    then show ?thesis
      unfolding u using "1.IH" [OF True] Diffunit_step [of b] "1.prems" True
      by (metis leI)
  next
    case False
    then have "skip_diff p t b = b" by (subst skip_diff.simps) auto
    then show ?thesis using "1.prems" False by auto
  qed
qed

text \<open>One step of \<open>encode_runs\<close>: nothing left, or a run and the rest.\<close>

lemma encode_runs_cases:
  assumes "b mod Diffunit = 0" "b \<le> Pagesize"
  obtains "encode_runs p t b = []" "\<forall>i. b \<le> i \<and> i < Pagesize \<longrightarrow> \<not> changed p t i"
  | start stop where "b \<le> start" "start < stop" "stop \<le> Pagesize" "start mod Diffunit = 0"
      "stop mod Diffunit = 0" "stop = Pagesize \<or> same_unit p t stop"
      "same_unit p t b \<longrightarrow> b + Diffunit \<le> start"
      "\<forall>i. b \<le> i \<and> i < start \<longrightarrow> \<not> changed p t i" "\<forall>i. start \<le> i \<and> i < stop \<longrightarrow> changed p t i"
      "encode_runs p t b =
        itob (run_header start (stop - start)) @ take (stop - start) (drop start p) @
          encode_runs p t stop"
proof -
  let ?start = "skip_same p t b"
  let ?stop = "skip_diff p t ?start"
  note same = skip_same_spec [OF assms, of p t]
  show ?thesis
  proof (cases "b < Pagesize \<and> ?start < Pagesize")
    case True
    note diff = skip_diff_spec [of ?start p t]
    have "same_unit p t b \<longrightarrow> b + Diffunit \<le> ?start"
      using True skip_same_ge [of "b + Diffunit" p t] by (subst skip_same.simps) simp
    moreover have "?start < ?stop"
      using True skip_same_stop [of p t b] skip_diff_progress [of ?start p t] by simp
    moreover have "encode_runs p t b = itob (run_header ?start (?stop - ?start)) @
        take (?stop - ?start) (drop ?start p) @ encode_runs p t ?stop"
      using True by (subst encode_runs.simps) (simp add: Let_def)
    ultimately show ?thesis
      using that(2) [of ?start ?stop] same diff skip_same_ge [of b p t] by simp
  next
    case False
    then have "encode_runs p t b = []" by (subst encode_runs.simps) (auto simp: Let_def)
    moreover have "\<forall>i. b \<le> i \<and> i < Pagesize \<longrightarrow> \<not> changed p t i" using same False by auto
    ultimately show ?thesis by (rule that(1))
  qed
qed

text \<open>The encoded runs of a page fit into a page and one header, so that a diff fits a message.\<close>

lemma encode_runs_length:
  assumes "length p = Pagesize" "b mod Diffunit = 0" "b \<le> Pagesize"
  shows "length (encode_runs p t b) \<le>
    Pagesize - b + (if b = Pagesize \<or> same_unit p t b then 0 else Diffunit)"
  using assms(2,3)
proof (induction "Pagesize - b" arbitrary: b rule: less_induct)
  case less
  from less.prems show ?case
  proof (cases rule: encode_runs_cases [of b p t])
    case 1
    then show ?thesis by simp
  next
    case (2 start stop)
    have "length (encode_runs p t stop) \<le> Pagesize - stop"
      using less.hyps [of stop] 2 by auto
    then show ?thesis
      using 2 assms(1) by (auto simp: Diffunit_def)
  qed
qed

lemma encode_page_length:
  assumes "length p = Pagesize"
  shows "length (encode_page a p t) \<le> Pagesize + Ptrbytes + Intbytes + Diffunit"
    and "length (encode_page a p t) \<le> Maxmsgsize"
proof -
  have "length (encode_runs p t 0) \<le> Pagesize + Diffunit"
    using encode_runs_length [OF assms, of 0 t] by (auto split: if_splits)
  then show "length (encode_page a p t) \<le> Pagesize + Ptrbytes + Intbytes + Diffunit"
    "length (encode_page a p t) \<le> Maxmsgsize"
    by (simp_all add: encode_page_def Let_def msg_consts Pagesize_def Diffunit_def)
qed

section \<open>Decoding what was encoded\<close>

lemma run_header_fields:
  assumes "start < 65536" "cnt < 65536"
  shows "unat (run_header start cnt AND 0xffff) = cnt"
    and "unat (drop_bit 16 (run_header start cnt) AND 0xffff) = start"
proof -
  have m: "(0xffff :: u32) = mask 16" by (simp add: mask_eq_exp_minus_1)
  have "run_header start cnt AND mask 16 = word_of_nat cnt AND mask 16"
    unfolding run_header_def m by (rule bit_word_eqI) (auto simp: bit_simps)
  moreover have "drop_bit 16 (run_header start cnt) AND mask 16 = word_of_nat start AND mask 16"
    unfolding run_header_def m by (rule bit_word_eqI) (auto simp: bit_simps)
  moreover have "unat (word_of_nat k AND mask 16 :: u32) = k" if "k < 65536" for k
    using that by (simp add: take_bit_eq_mask [symmetric] unsigned_take_bit_eq unat_of_nat)
      (simp add: take_bit_eq_mod)
  ultimately show "unat (run_header start cnt AND 0xffff) = cnt"
    "unat (drop_bit 16 (run_header start cnt) AND 0xffff) = start"
    using assms unfolding m by simp_all
qed

lemma copy_runs_encode:
  assumes p: "length p = Pagesize" and a: "aligned a"
  shows "b mod Diffunit = 0 \<Longrightarrow> b \<le> Pagesize \<Longrightarrow> writable s a \<Longrightarrow>
     bslice (data req) k (length (encode_runs p t b)) = encode_runs p t b \<Longrightarrow>
     k + length (encode_runs p t b) \<le> Maxmsgsize \<Longrightarrow>
     \<exists>wv'. copy_runs req a k (k + length (encode_runs p t b)) wv s =
         Inr (k + length (encode_runs p t b), wv', s\<lparr>vmem := merge_from b p t a (vmem s)\<rparr>)"
proof (induction "Pagesize - b" arbitrary: b k wv s rule: less_induct)
  case less
  from less.prems(1,2) show ?case
  proof (cases rule: encode_runs_cases [of b p t])
    case 1
    then have "copy_runs req a k k wv s = Inr (k, wv, s\<lparr>vmem := vmem s\<rparr>)"
      by (subst copy_runs.simps) simp
    moreover have "merge_from b p t a (vmem s) = vmem s"
      using 1(2) in_page [OF a] plus_minus_offset by (fastforce simp: merge_from_def fun_eq_iff)
    ultimately show ?thesis using 1 by simp
  next
    case (2 start stop)
    let ?cnt = "stop - start" and ?rest = "encode_runs p t stop"
    let ?bs = "take ?cnt (drop start p)"
    let ?fin = "k + length (encode_runs p t b)"
    have lbs: "length ?bs = ?cnt" using 2 p by simp
    have small: "start < 65536" "?cnt < 65536" "0 < ?cnt"
      using 2 by (auto simp: Pagesize_def)
    have len: "length (encode_runs p t b) = 4 + ?cnt + length ?rest"
      using 2(10) lbs by simp
    have sl: "bslice (data req) k 4 = itob (run_header start ?cnt)"
      "bslice (data req) (k + 4) ?cnt = ?bs"
      "bslice (data req) (k + 4 + ?cnt) (length ?rest) = ?rest"
    proof -
      have "bslice (data req) k 4 @ bslice (data req) (k + 4) ?cnt @
          bslice (data req) (k + 4 + ?cnt) (length ?rest) =
          itob (run_header start ?cnt) @ ?bs @ ?rest"
        using less.prems(4) 2(10) len by (simp only: bslice_append append.assoc add.assoc)
      then show "bslice (data req) k 4 = itob (run_header start ?cnt)"
        "bslice (data req) (k + 4) ?cnt = ?bs"
        "bslice (data req) (k + 4 + ?cnt) (length ?rest) = ?rest"
        using lbs by simp_all
    qed
    have h: "bytestoi (data req) k = run_header start ?cnt" using sl(1) by (rule bytestoi_bslice)
    let ?m1 = "wr_mem (vmem s) (a + word_of_nat start) ?bs"
    have store: "mem_store (a + word_of_nat start) ?bs s = Inr (s\<lparr>vmem := ?m1\<rparr>)"
      using mem_store_within [OF a, of ?bs start s] less.prems(3) lbs small 2 by simp
    let ?wv = "if W_VEC s = ON \<and> 0 < ?cnt then wv OR block_bits start ?cnt else wv"
    have step: "copy_runs req a k ?fin wv s =
        copy_runs req a (k + 4 + ?cnt) ?fin ?wv (s\<lparr>vmem := ?m1\<rparr>)"
      using less.prems(5) len store
      by (subst copy_runs.simps)
        (simp add: h run_header_fields [OF small(1,2)] Let_def Intbytes_def sl(2) writable_def)
    have e: "?fin = k + 4 + ?cnt + length ?rest" using len by simp
    have "merge_from stop p t a ?m1 = merge_from b p t a (vmem s)"
    proof
      fix x
      show "merge_from stop p t a ?m1 x = merge_from b p t a (vmem s) x"
      proof (cases "page_base x = a")
        case True
        then have "unat (x - a) < Pagesize" by (rule page_offset_less [OF a])
        moreover have "\<not> stop \<le> i \<Longrightarrow> b \<le> i \<and> changed p t i \<longleftrightarrow> start \<le> i" for i
          using 2 by (meson leI le_trans)
        moreover have "?bs ! (i - start) = p ! i" if "start \<le> i" "i < stop" for i
          using that p 2 by simp
        ultimately show ?thesis
          using True 2 lbs p by (auto simp: merge_from_def wr_mem_page [OF a])
      next
        case False
        then show ?thesis using lbs 2 p by (simp add: merge_from_def wr_mem_page [OF a])
      qed
    qed
    moreover have "\<exists>wv'. copy_runs req a (k + 4 + ?cnt) (k + 4 + ?cnt + length ?rest) ?wv
        (s\<lparr>vmem := ?m1\<rparr>) = Inr (k + 4 + ?cnt + length ?rest, wv',
          (s\<lparr>vmem := ?m1\<rparr>)\<lparr>vmem := merge_from stop p t a (vmem (s\<lparr>vmem := ?m1\<rparr>))\<rparr>)"
    proof (rule less.hyps)
      show "Pagesize - stop < Pagesize - b" "stop mod Diffunit = 0" "stop \<le> Pagesize"
        using 2 by auto
      show "writable (s\<lparr>vmem := ?m1\<rparr>) a" using less.prems(3) by (simp add: writable_def)
      show "bslice (data req) (k + 4 + ?cnt) (length ?rest) = ?rest" by (rule sl(3))
      show "k + 4 + ?cnt + length ?rest \<le> Maxmsgsize" using less.prems(5) len by simp
    qed
    ultimately show ?thesis using step unfolding e by simp
  qed
qed

lemma scast_small:
  assumes "n < 2 ^ 31"
  shows "scast (word_of_nat n :: u32) = (word_of_nat n :: u64)"
proof -
  have "sint (word_of_nat n :: u32) = int n"
    using assms by (simp add: signed_of_nat signed_take_bit_int_eq_self)
  then have "scast (word_of_nat n :: u32) = (word_of_int (int n) :: u64)"
    by (simp add: scast_eq)
  then show ?thesis by simp
qed

text \<open>
  A page that this host serves: in the shared range, at home here, mapped, and writable if the
  home host has written it in this interval.
\<close>

definition home_written :: "host \<Rightarrow> addr \<Rightarrow> bool" where
  "home_written s a \<longleftrightarrow> h_wtnt (home s (homei (page s (pagei s a)))) AND 1 = 1"

definition diff_ready :: "host \<Rightarrow> addr \<Rightarrow> bool" where
  "diff_ready s a \<longleftrightarrow> aligned a \<and> pagei s a < Maxmempages \<and>
     homei (page s (pagei s a)) < Homepages \<and>
     (if home_written s a then vprot s a = Some PROT_RW else vprot s a \<noteq> None) \<and>
     (W_VEC s = ON \<longrightarrow> h_wtvect (home s (homei (page s (pagei s a)))) \<noteq> None)"

text \<open>The home table may change in its write vectors only.\<close>

definition same_wtnt :: "host \<Rightarrow> (nat \<Rightarrow> jiahome) \<Rightarrow> bool" where
  "same_wtnt s h \<longleftrightarrow> (\<forall>i. h_wtnt (h i) = h_wtnt (home s i) \<and>
     (h_wtvect (h i) = None \<longleftrightarrow> h_wtvect (home s i) = None)) \<and> (W_VEC s \<noteq> ON \<longrightarrow> h = home s)"

text \<open>The effect of the diff of one page, and of all the diffs in a message.\<close>

definition diff_prot :: "host \<Rightarrow> addr \<Rightarrow> (addr \<Rightarrow> prot option) \<Rightarrow> (addr \<Rightarrow> prot option)" where
  "diff_prot s a v = (if home_written s a then v else v(a \<mapsto> PROT_READ))"

lemma diff_prot_cong: "home_written s a = home_written s' a \<Longrightarrow> diff_prot s a = diff_prot s' a"
  by (simp add: diff_prot_def fun_eq_iff)

lemma diff_page_encode:
  assumes p: "length p = Pagesize" and ready: "diff_ready s a"
    and sl: "bslice (data req) k (length (encode_page a p t)) = encode_page a p t"
    and fits: "k + length (encode_page a p t) \<le> Maxmsgsize"
  shows "\<exists>h. diff_page req k s = Inr (k + length (encode_page a p t),
      s\<lparr>vmem := merge_from 0 p t a (vmem s), vprot := diff_prot s a (vprot s), home := h\<rparr>) \<and>
    same_wtnt s h"
proof -
  let ?runs = "encode_runs p t 0" and ?hi = "homei (page s (pagei s a))"
  obtain n where n_eq: "n = Ptrbytes + Intbytes + length ?runs" by simp
  let ?w = "home_written s a"
  have al: "aligned a" using ready by (simp add: diff_ready_def)
  have len: "length (encode_page a p t) = n"
    by (simp add: encode_page_def Let_def Ptrbytes_def Intbytes_def n_eq)
  have "bslice (data req) k 8 @ bslice (data req) (k + 8) 4 @
      bslice (data req) (k + 8 + 4) (length ?runs) = ltob a @ itob (word_of_nat n) @ ?runs"
    using sl len unfolding encode_page_def Let_def n_eq Ptrbytes_def Intbytes_def
    by (simp only: bslice_append append.assoc add.assoc)
  then have parts: "bslice (data req) k 8 = ltob a" "bslice (data req) (k + 8) 4 = itob (word_of_nat n)"
    "bslice (data req) (k + 12) (length ?runs) = ?runs"
    by (simp_all add: add.commute [of k 12])
  have ad: "stol (data req) k = a" and sz: "bytestoi (data req) (k + 8) = word_of_nat n"
    using stol_bslice [OF parts(1)] bytestoi_bslice [OF parts(2)] by simp_all
  have bound: "k + 8 + n < 2 ^ 31" using fits len by (simp add: msg_consts)
  obtain k8 k12 where k: "k8 = k + Ptrbytes" "k12 = k8 + Intbytes" by simp
  then have k': "k8 = k + 8" "k12 = k + 12" "k + n = k12 + length ?runs"
    by (simp_all add: Ptrbytes_def Intbytes_def n_eq)
  have "scast (word_of_nat n + word_of_nat k8 :: u32) - word_of_nat Ptrbytes =
      (word_of_nat (k + n) :: u64)"
    using scast_small [of "k + 8 + n"] bound by (simp add: Ptrbytes_def k'(1) algebra_simps)
  then have stop: "unat (scast (bytestoi (data req) k8 + word_of_nat k8) -
      word_of_nat Ptrbytes :: u64) = k + n"
    using bound unat_of_small [of "k + n"] by (simp only: sz k'(1)) simp
  obtain s1 where s1: "s1 = (if ?w then s else s\<lparr>vprot := (vprot s)(a \<mapsto> PROT_RW)\<rparr>)" by simp
  have prot1: "(if h_wtnt (home s ?hi) AND 1 \<noteq> 1 then memprotect a Pagesize PROT_RW s else Inr s) =
      Inr s1"
    using ready by (auto simp: s1 memprotect_page diff_ready_def home_written_def)
  have "writable s1 a" using ready by (auto simp: s1 writable_def diff_ready_def)
  then obtain wv' where cp: "copy_runs req a k12 (k + n) WVNULL s1 =
      Inr (k + n, wv', s1\<lparr>vmem := merge_from 0 p t a (vmem s1)\<rparr>)"
    using copy_runs_encode [OF p al, of 0 s1 req k12 t WVNULL] parts(3) fits len
    by (auto simp: k')
  obtain s2 where s2: "s2 = s1\<lparr>vmem := merge_from 0 p t a (vmem s1)\<rparr>" by simp
  have "\<exists>s3. (if W_VEC s2 = ON then addwtvect ?hi wv' (frompid req) s2 else Inr s2) = Inr s3 \<and>
      s3 = s2\<lparr>home := home s3\<rparr> \<and> same_wtnt s (home s3)"
    using ready by (auto simp: s2 s1 addwtvect_def Let_def upd_home_def diff_ready_def same_wtnt_def
      split: option.splits)
  then obtain s3 h3 where s3: "(if W_VEC s2 = ON then addwtvect ?hi wv' (frompid req) s2
      else Inr s2) = Inr s3" and s3_h3: "s3 = s2\<lparr>home := h3\<rparr>" "h3 = home s3" "same_wtnt s h3"
    by blast
  have s3': "s3 = s1\<lparr>vmem := merge_from 0 p t a (vmem s), home := h3\<rparr>"
    using s3_h3(1) by (simp add: s2 s1)
  have w3: "(h_wtnt (home s3 ?hi) AND 1 \<noteq> 1) = (\<not> ?w)"
    using s3_h3(2,3) by (simp add: home_written_def same_wtnt_def)
  obtain s4 where s4: "s4 = s\<lparr>vmem := merge_from 0 p t a (vmem s),
      vprot := diff_prot s a (vprot s), home := h3\<rparr>" by simp
  have "(if \<not> ?w then memprotect a Pagesize PROT_READ s3 else Inr s3) = Inr s4"
  proof (cases ?w)
    case True
    then show ?thesis
      by (simp only: if_True if_False not_True_eq_False s4 s3' s1 diff_prot_def simp_thms)
        (simp cong: if_cong)
  next
    case False
    then have v3: "vprot s3 = (vprot s)(a \<mapsto> PROT_RW)"
      by (simp only: s3' s1 if_False) simp
    have "memprotect a Pagesize PROT_READ s3 = Inr (s3\<lparr>vprot := (vprot s)(a \<mapsto> PROT_READ)\<rparr>)"
      by (simp only: memprotect_page v3 al) simp
    also have "s3\<lparr>vprot := (vprot s)(a \<mapsto> PROT_READ)\<rparr> = s4"
      using False by (simp only: s4 s3' s1 diff_prot_def if_False) simp
    finally show ?thesis using False by (simp only: if_True simp_thms)
  qed
  then have prot3: "(if h_wtnt (home s3 ?hi) AND 1 \<noteq> 1 then memprotect a Pagesize PROT_READ s3
      else Inr s3) = Inr s4"
    by (simp only: w3)
  have "k12 \<le> Maxmsgsize" using fits len n_eq k by simp
  moreover have "homepage s a = Inr ?hi" "home_at s ?hi = Inr (home s ?hi)"
    using ready by (auto simp: diff_ready_def homepage_def page_at_def home_at_def)
  ultimately have "diff_page req k s = Inr (k + n, s4)"
    using prot1 cp prot3 stop unfolding diff_page_def ad Let_def k [symmetric]
    by (simp add: s2 [symmetric] s3 cong: if_cong split del: if_split)
  then show ?thesis using s3_h3(3) len by (auto simp: s4)
qed

definition encode_pages :: "(addr \<times> u8 list \<times> u8 list) list \<Rightarrow> u8 list" where
  "encode_pages ps = concat (map (\<lambda>(a, p, t). encode_page a p t) ps)"

lemma diff_pages_encode:
  assumes "\<forall>(a, p, t)\<in>set ps. length p = Pagesize \<and> diff_ready s a"
    and "bslice (data req) k (length (encode_pages ps)) = encode_pages ps"
    and "size req = k + length (encode_pages ps)" "size req \<le> Maxmsgsize"
  shows "\<exists>h. diff_pages req k s = Inr (s\<lparr>vmem := fold (\<lambda>(a, p, t). merge_from 0 p t a) ps (vmem s),
      vprot := fold (\<lambda>x. diff_prot s (fst x)) ps (vprot s), home := h\<rparr>) \<and>
    same_wtnt s h"
  using assms
proof (induction ps arbitrary: k s)
  case Nil
  then have "diff_pages req k s = Inr s" by (subst diff_pages.simps) (simp add: encode_pages_def)
  then show ?case by (intro exI [of _ "home s"]) (simp add: same_wtnt_def)
next
  case (Cons x ps)
  obtain a p t where x: "x = (a, p, t)" by (cases x)
  let ?E = "encode_page a p t" and ?rest = "encode_pages ps"
  have e: "encode_pages (x # ps) = ?E @ ?rest" by (simp add: encode_pages_def x)
  have sl: "bslice (data req) k (length ?E) = ?E"
    "bslice (data req) (k + length ?E) (length ?rest) = ?rest"
    using Cons.prems(2) unfolding e length_append bslice_append by simp_all
  obtain h where h: "diff_page req k s = Inr (k + length ?E,
      s\<lparr>vmem := merge_from 0 p t a (vmem s), vprot := diff_prot s a (vprot s), home := h\<rparr>)"
    "same_wtnt s h"
  proof -
    have "k + length ?E \<le> Maxmsgsize" using Cons.prems(3,4) by (simp add: e)
    then show thesis
      using diff_page_encode [of p s a req k t] Cons.prems(1) sl(1) that by (auto simp: x)
  qed
  let ?s = "s\<lparr>vmem := merge_from 0 p t a (vmem s), vprot := diff_prot s a (vprot s), home := h\<rparr>"
  have hw: "home_written ?s b = home_written s b" for b
    using h(2) by (simp add: home_written_def pagei_def same_wtnt_def)
  have dp: "diff_prot ?s b = diff_prot s b" for b
    by (rule diff_prot_cong [OF hw])
  have ready: "diff_ready ?s b" if "diff_ready s b" for b
    using that h(2) unfolding diff_ready_def hw
    by (auto simp: pagei_def diff_prot_def same_wtnt_def split: if_splits)
  have "\<forall>(b, q, u)\<in>set ps. length q = Pagesize \<and> diff_ready ?s b"
    using Cons.prems(1) ready by auto
  moreover have "size req = k + length ?E + length ?rest" using Cons.prems(3) by (simp add: e)
  ultimately obtain h' where h': "diff_pages req (k + length ?E) ?s = Inr (?s\<lparr>
      vmem := fold (\<lambda>(a, p, t). merge_from 0 p t a) ps (vmem ?s),
      vprot := fold (\<lambda>x. diff_prot ?s (fst x)) ps (vprot ?s), home := h'\<rparr>)"
    "same_wtnt ?s h'"
    using Cons.IH [of ?s "k + length ?E"] sl(2) Cons.prems(4) by blast
  have "k < size req" using Cons.prems(3) by (simp add: e encode_page_def Let_def)
  then have "diff_pages req k s = diff_pages req (k + length ?E) ?s"
    by (subst diff_pages.simps) (simp add: h(1))
  moreover have "same_wtnt s h'" using h'(2) h(2) by (auto simp: same_wtnt_def)
  ultimately show ?case using h'(1) by (auto simp: x dp)
qed

section \<open>Merging\<close>

lemma changed_unit_bytes:
  assumes "length p = Pagesize" "length t = Pagesize" "i < Pagesize" "\<not> changed p t i"
  shows "p ! i = t ! i"
proof -
  let ?b = "i div Diffunit * Diffunit"
  have b: "?b \<le> i" "i < ?b + Diffunit" by (auto simp: Diffunit_def)
  have "take Diffunit (drop ?b p) ! (i - ?b) = take Diffunit (drop ?b t) ! (i - ?b)"
    using assms(4) by (simp add: changed_def same_unit_def)
  then show ?thesis using b assms by simp
qed

lemma length_merge_page [simp]: "length (merge_page p t q) = Pagesize"
  by (simp add: merge_page_def)

lemma merge_page_twin:
  "length p = Pagesize \<Longrightarrow> length t = Pagesize \<Longrightarrow> merge_page p t t = p"
  by (rule nth_equalityI) (auto simp: merge_page_def changed_unit_bytes)

lemma merge_page_commute:
  assumes "\<forall>i<Pagesize. \<not> (changed p1 t1 i \<and> changed p2 t2 i)"
  shows "merge_page p1 t1 (merge_page p2 t2 q) = merge_page p2 t2 (merge_page p1 t1 q)"
  using assms by (auto simp: merge_page_def)

lemma rd_merge_from:
  assumes "aligned a"
  shows "rd_mem (merge_from 0 p t a m) a Pagesize = merge_page p t (rd_mem m a Pagesize)"
proof (rule nth_equalityI)
  fix i assume "i < length (rd_mem (merge_from 0 p t a m) a Pagesize)"
  then have i: "i < Pagesize" by simp
  then show "rd_mem (merge_from 0 p t a m) a Pagesize ! i = merge_page p t (rd_mem m a Pagesize) ! i"
    using page_base_plus [OF assms i] plus_minus_offset [OF i, of a]
    by (simp add: merge_from_def merge_page_def)
qed simp

lemma rd_merge_from_other:
  "aligned a \<Longrightarrow> a \<noteq> b \<Longrightarrow> rd_mem (merge_from 0 p t b m) a Pagesize = rd_mem m a Pagesize"
  by (rule rd_mem_page_eq) (auto simp: merge_from_def)

lemma rd_merge_fold_other:
  assumes "aligned a" "a \<notin> fst ` set ps"
  shows "rd_mem (fold (\<lambda>(a, p, t). merge_from 0 p t a) ps m) a Pagesize = rd_mem m a Pagesize"
  using assms by (induction ps arbitrary: m) (auto simp: rd_merge_from_other)

lemma rd_merge_fold:
  assumes "\<forall>(a, p, t)\<in>set ps. aligned a" "distinct (map fst ps)" "(a, p, t) \<in> set ps"
  shows "rd_mem (fold (\<lambda>(a, p, t). merge_from 0 p t a) ps m) a Pagesize =
    merge_page p t (rd_mem m a Pagesize)"
  using assms
proof (induction ps arbitrary: m)
  case (Cons x ps)
  obtain b q u where x: "x = (b, q, u)" by (cases x)
  show ?case
  proof (cases "(a, p, t) = x")
    case True
    then show ?thesis
      using Cons.prems x by (auto simp: rd_merge_fold_other rd_merge_from)
  next
    case False
    then have "(a, p, t) \<in> set ps" using Cons.prems by auto
    moreover from this have "a \<noteq> b" "aligned a" using Cons.prems x by force+
    ultimately show ?thesis
      using Cons.IH Cons.prems x by (simp add: rd_merge_from_other)
  qed
qed simp

section \<open>What the server does\<close>

lemma diffserver_eq:
  assumes "is_op req DIFF" "topid req = jia_pid s" "payload req = encode_pages ps"
    "size req \<le> Maxmsgsize" "\<forall>(a, p, t)\<in>set ps. length p = Pagesize \<and> diff_ready s a"
    "mbuf_inv s" "0 < mcount s"
  shows "\<exists>h b rep. diffserver req s = Inr (s\<lparr>vmem := fold (\<lambda>(a, p, t). merge_from 0 p t a) ps (vmem s),
      vprot := fold (\<lambda>x. diff_prot s (fst x)) ps (vprot s), home := h, mbuf := b,
      outq := outq s @ [rep]\<rparr>) \<and> same_wtnt s h \<and> is_op rep DIFFGRANT \<and>
    frompid rep = jia_pid s \<and> topid rep = frompid req \<and> size rep = 0 \<and>
    length b = length (mbuf s) \<and> free_slots b = mcount s"
proof -
  have "size req = length (encode_pages ps)"
    using arg_cong [OF assms(3), of length] by (simp add: payload_def)
  then obtain h where h: "diff_pages req 0 s =
      Inr (s\<lparr>vmem := fold (\<lambda>(a, p, t). merge_from 0 p t a) ps (vmem s),
      vprot := fold (\<lambda>x. diff_prot s (fst x)) ps (vprot s), home := h\<rparr>)" "same_wtnt s h"
    using diff_pages_encode [OF assms(5), of req 0] assms(3,4) by (auto simp: payload_def)
  obtain u where u: "diff_pages req 0 s = Inr u" "u = s\<lparr>vmem := fold (\<lambda>(a, p, t). merge_from 0 p t a) ps (vmem s),
      vprot := fold (\<lambda>x. diff_prot s (fst x)) ps (vprot s), home := h\<rparr>" using h by blast
  have inv: "mbuf_inv u" "0 < mcount u" using assms(6,7) by (simp_all add: u(2) mbuf_inv_def)
  let ?f = "\<lambda>rep. Inr (rep\<lparr>op := op_num DIFFGRANT, frompid := jia_pid u, topid := frompid req,
    size := 0\<rparr>)"
  obtain v where v: "with_slot ?f u = Inr v"
    using with_slot_total [OF inv, of ?f] by blast
  have d: "diffserver req s = Inr v"
    using assms(1,2) u(1) v by (simp add: diffserver_def)
  obtain old m b where w: "?f old = Inr m" "mbuf_inv v" "v = u\<lparr>mbuf := b, outq := outq u @ [m]\<rparr>"
      "length b = length (mbuf u)"
    using with_slot_Inr [OF v inv(1)] by blast
  have v_eq: "v = s\<lparr>vmem := fold (\<lambda>(a, p, t). merge_from 0 p t a) ps (vmem s),
      vprot := fold (\<lambda>x. diff_prot s (fst x)) ps (vprot s), home := h, mbuf := b,
      outq := outq s @ [m]\<rparr>"
    using w(3) by (simp add: u(2))
  have m: "m = old\<lparr>op := op_num DIFFGRANT, frompid := jia_pid s, topid := frompid req, size := 0\<rparr>"
    using w(1) by (simp add: u(2))
  have b: "length b = length (mbuf s)" "free_slots b = mcount s"
    using w(2,4) by (simp_all add: u(2) v_eq mbuf_inv_def)
  show ?thesis
    by (intro exI conjI, rule d [unfolded v_eq]) (simp_all add: is_op_def h(2) m b)
qed

lemma fold_diff_prot_other:
  "a \<notin> fst ` set ps \<Longrightarrow> fold (\<lambda>x. diff_prot s (fst x)) ps v a = v a"
  by (induction ps arbitrary: v) (auto simp: diff_prot_def)

lemma fold_diff_prot:
  "a \<in> fst ` set ps \<Longrightarrow> \<not> home_written s a \<Longrightarrow>
     fold (\<lambda>x. diff_prot s (fst x)) ps v a = Some PROT_READ"
proof (induction ps arbitrary: v)
  case (Cons y ps)
  show ?case
  proof (cases "a \<in> fst ` set ps")
    case True
    then show ?thesis using Cons by simp
  next
    case False
    then have "fold (\<lambda>x. diff_prot s (fst x)) (y # ps) v a = diff_prot s a v a" "fst y = a"
      using Cons.prems by (auto simp: fold_diff_prot_other)
    then show ?thesis using Cons.prems by (simp only:) (simp add: diff_prot_def)
  qed
qed simp

text \<open>
  C11: A home host that receives a DIFF message holding the diffs of any number of cached pages
  (fitting one message) applies all of them and answers. Each page named in the message ends
  with the writer's bytes in the words the writer changed against its twin and its own bytes
  elsewhere; every other page of its memory is untouched; a page the home host has not written
  itself is readable only afterwards; one DIFFGRANT to the sender is queued.
\<close>

theorem diffserver_merges:
  assumes "is_op req DIFF" "topid req = jia_pid s" "payload req = encode_pages ps"
    "size req \<le> Maxmsgsize" "\<forall>(a, p, t)\<in>set ps. length p = Pagesize \<and> diff_ready s a"
    "distinct (map fst ps)" "mbuf_inv s" "0 < mcount s"
  shows "\<exists>s' rep. diffserver req s = Inr s' \<and>
    (\<forall>(a, p, t)\<in>set ps. rd_mem (vmem s') a Pagesize = merge_page p t (rd_mem (vmem s) a Pagesize) \<and>
       (\<not> home_written s a \<longrightarrow> vprot s' a = Some PROT_READ)) \<and>
    (\<forall>a. aligned a \<and> a \<notin> fst ` set ps \<longrightarrow>
       rd_mem (vmem s') a Pagesize = rd_mem (vmem s) a Pagesize \<and> vprot s' a = vprot s a) \<and>
    outq s' = outq s @ [rep] \<and> is_op rep DIFFGRANT \<and> topid rep = frompid req \<and> size rep = 0"
proof -
  obtain h b rep where d: "diffserver req s = Inr (s\<lparr>
      vmem := fold (\<lambda>(a, p, t). merge_from 0 p t a) ps (vmem s),
      vprot := fold (\<lambda>x. diff_prot s (fst x)) ps (vprot s), home := h, mbuf := b,
      outq := outq s @ [rep]\<rparr>)" "is_op rep DIFFGRANT" "topid rep = frompid req" "size rep = 0"
    using diffserver_eq [OF assms(1-5,7,8)] by blast
  have al: "\<forall>(a, p, t)\<in>set ps. aligned a" using assms(5) by (auto simp: diff_ready_def)
  have "\<forall>(a, p, t)\<in>set ps. rd_mem (fold (\<lambda>(a, p, t). merge_from 0 p t a) ps (vmem s)) a Pagesize =
      merge_page p t (rd_mem (vmem s) a Pagesize)"
    using rd_merge_fold [OF al assms(6)] by blast
  moreover have "\<forall>(a, p, t)\<in>set ps. \<not> home_written s a \<longrightarrow>
      fold (\<lambda>x. diff_prot s (fst x)) ps (vprot s) a = Some PROT_READ"
    using fold_diff_prot [of _ ps s] by (force simp: image_iff)
  ultimately show ?thesis
    using d by (auto simp: rd_merge_fold_other fold_diff_prot_other)
qed

text \<open>One page, one byte changed, on a host that serves it.\<close>

definition demo_host :: host where
  "demo_host = static_host\<lparr>hostc := 2, global_start_addr := 0x10000, vprot := [0x10000 \<mapsto> PROT_READ],
     mbuf := [\<lparr>slot_msg = clear_msg, slot_st = SLOT_FREE\<rparr>], mcount := 1\<rparr>"

definition demo_pages :: "(addr \<times> u8 list \<times> u8 list) list" where
  "demo_pages = [(0x10000, replicate Pagesize 7, replicate Pagesize 0)]"

definition diff_req :: "(addr \<times> u8 list \<times> u8 list) list \<Rightarrow> jia_msg" where
  "diff_req ps = clear_msg\<lparr>op := op_num DIFF, frompid := 1, topid := 0,
     data := put (\<lambda>_. 0) 0 (encode_pages ps), size := length (encode_pages ps)\<rparr>"

lemma diff_req_fields [simp]:
  "is_op (diff_req ps) DIFF" "topid (diff_req ps) = 0" "frompid (diff_req ps) = 1"
  "payload (diff_req ps) = encode_pages ps" "size (diff_req ps) = length (encode_pages ps)"
  by (simp_all add: diff_req_def is_op_def payload_def bytes_simps)

lemma demo_ready: "diff_ready demo_host 0x10000" "mbuf_inv demo_host" "mcount demo_host = 1"
  "jia_pid demo_host = 0"
  by (simp_all add: diff_ready_def demo_host_def static_host_def aligned_def Pagesize_def pagei_def
      Maxmempages_def Homepages_def home_written_def mbuf_inv_def free_slots_def ON_def OFF_def)

lemma demo_size: "size (diff_req demo_pages) \<le> Maxmsgsize"
  using encode_page_length(2) [of "replicate Pagesize 7"] by (simp add: demo_pages_def encode_pages_def)

lemma diffserver_merges_witness:
  "\<exists>s'. diffserver (diff_req demo_pages) demo_host = Inr s' \<and>
     rd_mem (vmem s') 0x10000 Pagesize =
       merge_page (replicate Pagesize 7) (replicate Pagesize 0) (rd_mem (vmem demo_host) 0x10000 Pagesize)"
  using diffserver_merges [of "diff_req demo_pages" demo_host demo_pages] demo_ready demo_size
  by (auto simp: demo_pages_def)

text \<open>
  C12: Encoding a cached page against its twin and serving that diff is a round trip: the home page
  that still holds the twin's bytes ends with exactly the bytes of the writer's page.
\<close>

theorem diff_roundtrip:
  assumes "encodediff ci c = Inr bs" "c_addr (cache c ci) = a" "c_twin (cache c ci) = Some t"
    "length t = Pagesize"
    "is_op req DIFF" "topid req = jia_pid s" "payload req = bs"
    "diff_ready s a" "rd_mem (vmem s) a Pagesize = t" "mbuf_inv s" "0 < mcount s"
  shows "\<exists>s'. diffserver req s = Inr s' \<and> rd_mem (vmem s') a Pagesize = rd_mem (vmem c) a Pagesize"
proof -
  obtain p where p: "mem_load a Pagesize c = Inr p" "bs = encode_page a p t"
    using assms(1-3) by (auto simp: encodediff_def cache_at_def split: if_splits)
  have pl: "p = rd_mem (vmem c) a Pagesize" "length p = Pagesize"
    using p(1) by (auto simp: mem_load_def split: if_splits)
  have sz: "size req \<le> Maxmsgsize"
    using encode_page_length(2) [OF pl(2), of a t] arg_cong [OF assms(7), of length] p(2)
    by (simp add: payload_def)
  have "payload req = encode_pages [(a, p, t)]" using assms(7) p(2) by (simp add: encode_pages_def)
  then obtain h b rep where "diffserver req s = Inr (s\<lparr>vmem := merge_from 0 p t a (vmem s),
      vprot := diff_prot s a (vprot s), home := h, mbuf := b, outq := outq s @ [rep]\<rparr>)"
    using diffserver_eq [of req s "[(a, p, t)]"] assms pl(2) sz by auto
  moreover have "rd_mem (merge_from 0 p t a (vmem s)) a Pagesize = p"
    using rd_merge_from [of a p t "vmem s"] assms(4,8,9) pl(2) merge_page_twin [OF pl(2) assms(4)]
    by (simp add: diff_ready_def)
  ultimately show ?thesis using pl(1) by auto
qed

text \<open>A writer that has overwritten a page of zeros with sevens.\<close>

definition demo_writer :: host where
  "demo_writer = static_host\<lparr>jia_pid := 1, hostc := 2, vmem := (\<lambda>_. 7), vprot := [0x10000 \<mapsto> PROT_RW],
     cache := (\<lambda>_. \<lparr>c_state = RW, c_addr = 0x10000, c_twin = Some (replicate Pagesize 0), c_wtnt = 1\<rparr>)\<rparr>"

lemma demo_encodediff:
  "encodediff 0 demo_writer = Inr (encode_page 0x10000 (replicate Pagesize 7) (replicate Pagesize 0))"
proof -
  have "rd_mem (\<lambda>_. 7) 0x10000 Pagesize = replicate Pagesize 7"
    by (rule nth_equalityI) auto
  then show ?thesis
    using mem_load_page [of "0x10000" demo_writer]
    by (simp add: encodediff_def cache_at_def Cachepages_def demo_writer_def readable_def
        aligned_def Pagesize_def)
qed

lemma diff_roundtrip_witness:
  "\<exists>s'. diffserver (diff_req demo_pages) demo_host = Inr s' \<and>
     rd_mem (vmem s') 0x10000 Pagesize = rd_mem (vmem demo_writer) 0x10000 Pagesize"
proof (rule diff_roundtrip [OF demo_encodediff])
  show "rd_mem (vmem demo_host) 0x10000 Pagesize = replicate Pagesize 0"
    by (rule nth_equalityI) (auto simp: demo_host_def static_host_def)
qed (use demo_ready in \<open>auto simp: demo_writer_def demo_pages_def encode_pages_def\<close>)

end
