(* ===== verification/Mem.thy ===== *)
theory Mem
  imports Diff
begin

text \<open>
  The pages a host holds: their set-up (\<open>initmem\<close> of \<open>src/src/mem/mem.c\<close>), the cache of remote
  pages, the fault handler that fetches them, and the saving and sending of diffs
  (\<open>src/src/mem/memsyn.c\<close>).
\<close>

section \<open>Initialisation\<close>

text \<open>
  \<open>initmem\<close> without the signal handler it installs. The loop that clears \<open>homesize\<close> runs to
  \<open>hostc\<close> inclusive, so it writes past the array of \<open>Maxhosts\<close> hosts when all are used.
\<close>

definition initmem :: "host \<Rightarrow> host res" where
  "initmem s = bindE (assertE (hostc s < Maxhosts) (OutOfBounds ''hosts'')) (\<lambda>_.
     Inr (s\<lparr>diffmsg := (\<lambda>i. if i < Maxhosts then None else diffmsg s i), diffwait := 0, getpwait := 0,
       homesize := (\<lambda>i. if i \<le> hostc s then 0 else homesize s i),
       home := (\<lambda>i. if i < Homepages
          then (home s i)\<lparr>h_wtnt := 0, h_rdnt := 0, h_addr := 0, h_twin := None\<rparr> else home s i),
       page := (\<lambda>i. if i < Maxmempages
          then \<lparr>cachei = Cachepages, homei = Homepages, homepid = Maxhosts\<rparr> else page s i),
       cache := (\<lambda>i. if i < Cachepages
          then \<lparr>c_state = UNMAP, c_addr = 0, c_twin = None, c_wtnt = 0\<rparr> else cache s i),
       globaladdr := 0, repcnt := (\<lambda>i. if i < Setnum then 0 else repcnt s i)\<rparr>))"

section \<open>The cache of remote pages\<close>

text \<open>The first index of the set that the page of \<open>a\<close> maps to.\<close>

definition xor :: "addr \<Rightarrow> host \<Rightarrow> nat" where
  "xor a s = pagei s a mod Setnum * Setpages"

definition flushpage :: "nat \<Rightarrow> host \<Rightarrow> host res" where
  "flushpage ci s = bindE (cache_at s ci) (\<lambda>c.
     bindE (memunmap (c_addr c) Pagesize s) (\<lambda>s.
     bindE (set_cachepage (c_addr c) Cachepages s) (\<lambda>s.
     Inr (upd_cache ci (\<lambda>c. c\<lparr>c_twin := (if c_state c = RW then freetwin (c_twin c) else c_twin c),
       c_state := UNMAP, c_wtnt := 0, c_addr := 0\<rparr>) s))))"

text \<open>
  The replacement scheme is fixed to random replacement; \<open>rnd\<close> is the number \<open>random ()\<close>
  returns.
\<close>

definition REPSCHEME :: nat where "REPSCHEME = 0"

definition replacei :: "nat \<Rightarrow> nat \<Rightarrow> host \<Rightarrow> nat \<times> host" where
  "replacei rnd ci s =
     (if REPSCHEME = 0 then (rnd div 2 ^ 8 mod Setpages, s)
      else let seti = ci div Setpages; r = (repcnt s seti + 1) mod Setpages
           in (r, s\<lparr>repcnt := (repcnt s)(seti := r)\<rparr>))"

text \<open>
  The search of \<open>findposition\<close>, \<open>n\<close> steps before \<open>i\<close> reaches \<open>Setpages\<close>: the index it stops
  at and the first invalid entry it has seen.
\<close>

fun find_slot :: "host \<Rightarrow> nat \<Rightarrow> nat \<Rightarrow> nat \<Rightarrow> nat option \<Rightarrow> nat \<times> nat option" where
  "find_slot s ci 0 seti invi = (seti, invi)"
| "find_slot s ci (Suc n) seti invi =
     (if c_state (cache s (ci + seti)) \<noteq> UNMAP
      then find_slot s ci n ((seti + 1) mod Setpages)
             (if invi = None \<and> c_state (cache s (ci + seti)) = INV then Some seti else invi)
      else (seti, invi))"

text \<open>
  The index that \<open>findposition\<close> returns, \<open>None\<close> for -1: it gives up on a page that is cached for
  writing, the flush that follows in the code is never reached.
\<close>

definition findposition :: "nat \<Rightarrow> addr \<Rightarrow> host \<Rightarrow> (nat option \<times> host) res" where
  "findposition rnd a s =
     (let ci = xor a s; (seti, s) = replacei rnd ci s; (seti, invi) = find_slot s ci Setpages seti None;
          seti = (if c_state (cache s (ci + seti)) \<noteq> UNMAP \<and> invi \<noteq> None then the invi else seti);
          st = c_state (cache s (ci + seti))
      in if st = RW then Inr (None, s)
         else bindE (if st = INV \<or> st = RO then flushpage (ci + seti) s else Inr s) (\<lambda>s.
              bindE (set_cachepage a (ci + seti) s) (\<lambda>s. Inr (Some (ci + seti), s))))"

section \<open>Fetching a page\<close>

definition getpage :: "addr \<Rightarrow> u32 \<Rightarrow> host \<Rightarrow> host res" where
  "getpage a flag s = bindE (homehost s a) (\<lambda>homeid.
     bindE (assertE (homeid \<noteq> jia_pid s) (JiaAssert ''This should not have happened 2!'')) (\<lambda>_.
     with_slot (\<lambda>req. appendmsg (req\<lparr>op := op_num GETP, frompid := jia_pid s, topid := homeid,
         temp := flag, size := 0\<rparr>) (ltob a)) (s\<lparr>getpwait := 1\<rparr>)))"

text \<open>
  The fault handler up to the point where it waits for the page (\<open>getpwait\<close>), and the rest. The
  first half returns the index of the cache entry, or \<open>None\<close> where the handler is finished.
  \<open>si_code\<close> has bit 1 set when the page is mapped and the access not permitted.
\<close>

definition writefault :: "u32 \<Rightarrow> bool" where
  "writefault si_code \<longleftrightarrow> si_code AND 2 \<noteq> 0"

definition fault_page :: "addr \<Rightarrow> addr" where
  "fault_page a = a div word_of_nat Pagesize * word_of_nat Pagesize"

definition home_fault :: "addr \<Rightarrow> host \<Rightarrow> host res" where
  "home_fault a s = bindE (memprotect a Pagesize PROT_RW s) (\<lambda>s.
     bindE (homepage s a) (\<lambda>hi. bindE (home_at s hi) (\<lambda>h.
     let s = upd_home hi (\<lambda>h. h\<lparr>h_wtnt := h_wtnt h OR 3\<rparr>) s
     in if W_VEC s = ON \<and> \<not> h_wvfull h
        then bindE (mem_load (h_addr h) Pagesize s) (\<lambda>bs.
             Inr (upd_home hi (\<lambda>h. h\<lparr>h_twin := Some bs\<rparr>) s))
        else Inr s)))"

definition fault_fetch :: "nat \<Rightarrow> addr \<Rightarrow> bool \<Rightarrow> host \<Rightarrow> (nat option \<times> host) res" where
  "fault_fetch rnd a wr s = bindE (cachepage s a) (\<lambda>ci.
     if ci < Cachepages
     then bindE (memprotect a Pagesize PROT_RW s) (\<lambda>s.
          bindE (if \<not> (wr \<and> c_state (cache s ci) = RO) then getpage a 1 s else Inr s) (\<lambda>s.
          Inr (Some ci, s)))
     else bindE (findposition rnd a s) (\<lambda>(ci, s).
          bindE (memmap a Pagesize PROT_RW s) (\<lambda>s.
          bindE (getpage a 0 s) (\<lambda>s. Inr (ci, s)))))"

definition fault_request :: "nat \<Rightarrow> u32 \<Rightarrow> addr \<Rightarrow> host \<Rightarrow> (nat option \<times> host) res" where
  "fault_request rnd si_code si_addr s =
     (let a = fault_page si_addr; wr = writefault si_code
      in bindE (assertE (a < global_start_addr s + word_of_nat (globaladdr s) \<and>
                         global_start_addr s \<le> a)
           (JiaAssert ''Access shared memory out of range'')) (\<lambda>_.
         bindE (homehost s a) (\<lambda>h.
         if h = jia_pid s then bindE (home_fault a s) (\<lambda>s. Inr (None, s))
         else bindE (fault_fetch rnd a wr s) (\<lambda>(ci, s).
              case ci of None \<Rightarrow> Inl (OutOfBounds ''cache'')
              | Some ci \<Rightarrow>
                Inr (Some ci, upd_cache ci (\<lambda>c. if wr
                  then c\<lparr>c_addr := a, c_state := RW, c_wtnt := 1, c_twin := newtwin (c_twin c)\<rparr>
                  else c\<lparr>c_addr := a, c_state := RO\<rparr>) s)))))"

definition fault_resume :: "u32 \<Rightarrow> addr \<Rightarrow> nat \<Rightarrow> host \<Rightarrow> host res" where
  "fault_resume si_code si_addr ci s =
     (let a = fault_page si_addr
      in bindE (assertE (getpwait s = 0) (WouldBlock ''getpwait'')) (\<lambda>_.
         if writefault si_code
         then bindE (mem_load a Pagesize s) (\<lambda>bs. Inr (upd_cache ci (\<lambda>c. c\<lparr>c_twin := Some bs\<rparr>) s))
         else memprotect a Pagesize PROT_READ s))"

text \<open>The whole handler; \<open>wait\<close> is what the other threads do meanwhile.\<close>

definition sigsegv_handler ::
  "nat \<Rightarrow> (host \<Rightarrow> host res) \<Rightarrow> u32 \<Rightarrow> addr \<Rightarrow> host \<Rightarrow> host res" where
  "sigsegv_handler rnd wait si_code si_addr s =
     bindE (fault_request rnd si_code si_addr s) (\<lambda>(ci, s).
     case ci of None \<Rightarrow> Inr s
     | Some ci \<Rightarrow> bindE (wait s) (fault_resume si_code si_addr ci))"

section \<open>Saving and sending diffs\<close>

text \<open>
  \<open>savediff\<close>: the local variable \<open>slot\<close> is assigned only where the host's message is new. Where a
  diff does not fit the message, the code passes that variable on.
\<close>

definition savediff :: "nat \<Rightarrow> host \<Rightarrow> host res" where
  "savediff ci s = bindE (cache_at s ci) (\<lambda>c.
     bindE (homehost s (c_addr c)) (\<lambda>hosti.
     bindE (assertE (hosti < Maxhosts) (OutOfBounds ''diffmsg'')) (\<lambda>_.
     bindE (case diffmsg s hosti of
         Some k \<Rightarrow> Inr (k, None, s)
       | None \<Rightarrow> bindE (freemsg_lock s) (\<lambda>(k, s).
           Inr (k, Some k, set_slot k ((slot_msg (mbuf s ! k))\<lparr>op := op_num DIFF,
             frompid := jia_pid s, topid := hosti, size := 0\<rparr>)
             (s\<lparr>diffmsg := (diffmsg s)(hosti \<mapsto> k)\<rparr>)))) (\<lambda>(k, slot, s).
     bindE (encodediff ci s) (\<lambda>diff.
     if Maxmsgsize < size (slot_msg (mbuf s ! k)) + length diff
     then (case slot of None \<Rightarrow> Inl (Uninitialised ''slot'')
       | Some k' \<Rightarrow>
         let s = move_msg_to_outqueue k' (s\<lparr>diffwait := diffwait s + 1\<rparr>)
         in bindE (appendmsg ((slot_msg (mbuf s ! k))\<lparr>size := 0\<rparr>) diff) (\<lambda>m.
            bindE (assertE (diffwait s = 0) (WouldBlock ''diffwait'')) (\<lambda>_.
            Inr (set_slot k m s))))
     else bindE (appendmsg (slot_msg (mbuf s ! k)) diff) (\<lambda>m. Inr (set_slot k m s)))))))"

text \<open>\<open>top\<close> is \<open>lockstack[stackptr]\<close>; \<open>save_top\<close> is \<open>savewtnt (top.wtntp, ...)\<close>.\<close>

definition top_at :: "host \<Rightarrow> nat res" where
  "top_at s = (if 0 \<le> stackptr s \<and> stackptr s < int Maxstacksize then Inr (nat (stackptr s))
               else Inl (OutOfBounds ''lockstack''))"

definition set_top_wtnt :: "nat \<Rightarrow> wtnt \<Rightarrow> host \<Rightarrow> host" where
  "set_top_wtnt t w s = s\<lparr>lockstack := (lockstack s)(t := (lockstack s t)\<lparr>swtntp := w\<rparr>)\<rparr>"

definition save_top :: "addr \<Rightarrow> u32 \<Rightarrow> nat \<Rightarrow> u32 \<Rightarrow> host \<Rightarrow> host res" where
  "save_top a mig pid sc s = bindE (top_at s) (\<lambda>t.
     bindE (savewtnt (swtntp (lockstack s t)) a mig pid sc) (\<lambda>w. Inr (set_top_wtnt t w s)))"

definition savepage :: "nat \<Rightarrow> host \<Rightarrow> host res" where
  "savepage ci s = bindE (savediff ci s) (\<lambda>s.
     save_top (c_addr (cache s ci)) 0 (jia_pid s) (word_of_nat Maxhosts) s)"

definition send_diff :: "nat \<Rightarrow> host \<Rightarrow> host" where
  "send_diff hosti s = (case diffmsg s hosti of
       None \<Rightarrow> s
     | Some k \<Rightarrow>
       let s = (if 0 < size (slot_msg (mbuf s ! k))
                then freemsg_unlock k (move_msg_to_outqueue k (s\<lparr>diffwait := diffwait s + 1\<rparr>))
                else s)
       in s\<lparr>diffmsg := (diffmsg s)(hosti := None)\<rparr>)"

definition senddiffs :: "host \<Rightarrow> host" where
  "senddiffs s = fold send_diff [0..<hostc s] s"

section \<open>Serving pages\<close>

lemma pagei_step:
  assumes "pagei s a < Maxmempages"
  shows "pagei s (a + word_of_nat Pagesize) = Suc (pagei s a)"
proof -
  let ?x = "a - global_start_addr s"
  have d: "unat (y div word_of_nat Pagesize) = unat y div 4096" for y :: addr
    by (simp only: unat_div_distrib unat_Pagesize)
  have "unat ?x div 4096 < 8388608"
    using assms by (simp add: pagei_def d Maxmempages_def)
  then have lt: "unat ?x + 4096 < 2 ^ 64" by simp
  have e: "a + word_of_nat Pagesize - global_start_addr s = ?x + word_of_nat Pagesize" by simp
  have "unat (?x + word_of_nat Pagesize) = unat ?x + 4096"
    using lt unat_Pagesize by (subst unat_word_ariths(1)) simp
  then show ?thesis unfolding pagei_def d e by simp
qed

text \<open>
  The loop of \<open>getpserver\<close> over the pages after the requested one: \<open>addrs\<close> are the pages
  collected, \<open>hi\<close> the variable \<open>homei\<close>. The array holds ten addresses.
\<close>

function prefetch_loop :: "addr \<Rightarrow> addr \<Rightarrow> addr list \<Rightarrow> nat \<Rightarrow> host \<Rightarrow> (addr list \<times> nat \<times> host) res" where
  "prefetch_loop paddr endaddr addrs hi s =
     (if paddr < endaddr \<and> int (length addrs) < max_checking_pages s + 1
      then bindE (homehost s paddr) (\<lambda>h.
           if h = jia_pid s
           then bindE (homepage s paddr) (\<lambda>hi. bindE (home_at s hi) (\<lambda>_.
                bindE (assertE (length addrs < 10) (OutOfBounds ''addr'')) (\<lambda>_.
                let s = upd_home hi (\<lambda>h. h\<lparr>h_rdnt := 1\<rparr>) s; addrs = addrs @ [paddr]
                in if int (length addrs) = prefetch_pages s + 1 then Inr (addrs, hi, s)
                   else prefetch_loop (paddr + word_of_nat Pagesize) endaddr addrs hi s)))
           else prefetch_loop (paddr + word_of_nat Pagesize) endaddr addrs hi s)
      else Inr (addrs, hi, s))"
  by pat_completeness auto
termination
proof (relation "measure (\<lambda>(p, e, as, hi, s). Maxmempages - pagei s p)", goal_cases)
  case (2 paddr endaddr addrs hi s h hi' u v t as)
  then have p: "pagei s paddr < Maxmempages" by (auto simp: homehost_def page_at_def split: if_splits)
  have "pagei t = pagei s" using 2 by (simp add: upd_home_def pagei_def fun_eq_iff)
  then show ?case using p pagei_step [OF p] by simp
next
  case (3 paddr endaddr addrs hi s h)
  then have p: "pagei s paddr < Maxmempages" by (auto simp: homehost_def page_at_def split: if_splits)
  then show ?case using pagei_step [OF p] by simp
qed simp

declare prefetch_loop.simps [simp del]

definition getp_pages :: "jia_msg \<Rightarrow> host \<Rightarrow> (addr list \<times> nat option \<times> host) res" where
  "getp_pages req s =
     (let paddr = stol (data req) 0
      in bindE (homehost s paddr) (\<lambda>h.
         if H_MIG s = ON \<and> h \<noteq> jia_pid s then Inr ([], None, s)
         else bindE (assertE (h = jia_pid s) (JiaAssert ''This should have not been happened!''))
           (\<lambda>_. bindE (homepage s paddr) (\<lambda>hi. bindE (home_at s hi) (\<lambda>h.
           bindE (if W_VEC s = ON \<and> h_wvfull h
                  then bindE (mem_load (h_addr h) Pagesize s) (\<lambda>bs.
                       Inr (upd_home hi (\<lambda>h. h\<lparr>h_wvfull := False, h_twin := Some bs\<rparr>) s))
                  else Inr s) (\<lambda>s.
           let s = upd_home hi (\<lambda>h. h\<lparr>h_rdnt := 1\<rparr>) s
           in if prefetch_flag s \<and> prefetch_pages s \<noteq> 0
              then let next = paddr + word_of_nat Pagesize
                   in bindE (prefetch_loop next
                        (next + word_of_int (max_checking_pages s * int Pagesize)) [paddr] hi s)
                        (\<lambda>(addrs, hi, s). Inr (addrs, Some hi, s))
              else Inr ([paddr], Some hi, s)))))))"

text \<open>
  The page data: the blocks of the write vector that the requester lacks, or the whole page.
  \<open>addr[0]\<close> is null when no page was collected.
\<close>

definition append_mem :: "addr \<Rightarrow> nat \<Rightarrow> host \<Rightarrow> jia_msg \<Rightarrow> jia_msg res" where
  "append_mem a n s m = bindE (assertE (size m + n \<le> Maxmsgsize) (JiaAssert ''Message too large''))
     (\<lambda>_. bindE (mem_load a n s) (appendmsg m))"

definition append_blocks :: "u64 \<Rightarrow> addr \<Rightarrow> host \<Rightarrow> jia_msg \<Rightarrow> (nat \<times> jia_msg) res" where
  "append_blocks wv a s m = foldE (\<lambda>i (occupy, m).
     if wv AND push_bit i 1 \<noteq> 0
     then bindE (append_mem (a + word_of_nat (i * Blocksize)) Blocksize s m) (\<lambda>m.
          Inr (occupy + Blocksize, m))
     else Inr (occupy, m)) [0..<Wvbits] (0, m)"

definition getp_reply :: "jia_msg \<Rightarrow> addr list \<Rightarrow> nat option \<Rightarrow> host \<Rightarrow> jia_msg \<Rightarrow> jia_msg res" where
  "getp_reply req addrs hidx s rep =
     (let a0 = (if addrs = [] then 0 else hd addrs)
      in bindE (appendmsg (rep\<lparr>op := op_num GETPGRANT, frompid := jia_pid s, topid := frompid req,
           temp := 0, size := 0\<rparr>) (itob (word_of_nat (length addrs)))) (\<lambda>rep.
         bindE (appendmsg rep (bslice (data req) 0 Ptrbytes)) (\<lambda>rep.
         bindE (if W_VEC s = ON \<and> temp req = 1
                then case hidx of None \<Rightarrow> Inl (Uninitialised ''homei'')
                  | Some hi \<Rightarrow>
                    (case h_wtvect (home s hi) of None \<Rightarrow> Inl (MemFault 0)
                     | Some v \<Rightarrow>
                       let wv = v (frompid req)
                       in bindE (append_blocks wv a0 s rep) (\<lambda>(occupy, rep).
                          Inr (rep\<lparr>temp := ucast wv, size := size rep + (Pagesize - occupy)\<rparr>)))
                else append_mem a0 Pagesize s (rep\<lparr>temp := ucast WVFULL\<rparr>)) (\<lambda>rep.
         foldE (\<lambda>a rep. bindE (appendmsg rep (ltob a)) (append_mem a Pagesize s)) (tl addrs) rep))))"

definition getpserver :: "jia_msg \<Rightarrow> host \<Rightarrow> host res" where
  "getpserver req s = bindE (assertE (is_op req GETP \<and> topid req = jia_pid s)
       (JiaAssert ''Incorrect GETP Message!'')) (\<lambda>_.
     bindE (getp_pages req s) (\<lambda>(addrs, hi, s).
     with_slot (getp_reply req addrs hi s) s))"

section \<open>Receiving pages\<close>

text \<open>\<open>rep->data + k\<close> for \<open>n\<close> bytes, inside the message buffer.\<close>

definition msg_bytes :: "jia_msg \<Rightarrow> nat \<Rightarrow> nat \<Rightarrow> u8 list res" where
  "msg_bytes m k n = (if k + n \<le> Maxmsgsize then Inr (bslice (data m) k n)
                      else Inl (OutOfBounds ''data''))"

definition grant_blocks :: "jia_msg \<Rightarrow> u64 \<Rightarrow> addr \<Rightarrow> nat \<Rightarrow> host \<Rightarrow> (nat \<times> host) res" where
  "grant_blocks rep wv a k s = foldE (\<lambda>i (k, s).
     if wv AND push_bit i 1 \<noteq> 0
     then bindE (msg_bytes rep k Blocksize) (\<lambda>bs.
          bindE (mem_store (a + word_of_nat (i * Blocksize)) bs s) (\<lambda>s. Inr (k + Blocksize, s)))
     else Inr (k, s)) [0..<Wvbits] (k, s)"

definition grant_first :: "jia_msg \<Rightarrow> addr \<Rightarrow> host \<Rightarrow> host res" where
  "grant_first rep a s =
     (let wv = ucast (temp rep) :: u64; k = Intbytes + Ptrbytes
      in if W_VEC s = ON \<and> wv \<noteq> WVFULL
         then bindE (grant_blocks rep wv a k s) (\<lambda>(_, s). Inr s)
         else bindE (msg_bytes rep k Pagesize) (\<lambda>bs. mem_store a bs s))"

text \<open>The \<open>i\<close>-th prefetched page; \<open>rnds i\<close> is the random number its \<open>findposition\<close> draws.\<close>

definition grant_prefetched :: "(nat \<Rightarrow> nat) \<Rightarrow> jia_msg \<Rightarrow> nat \<Rightarrow> host \<Rightarrow> host res" where
  "grant_prefetched rnds rep i s =
     (let k = Intbytes + i * (Ptrbytes + Pagesize)
      in bindE (msg_bytes rep k Ptrbytes) (\<lambda>_.
         let a = stol (data rep) k; k = k + Ptrbytes
         in bindE (cachepage s a) (\<lambda>ci.
            if ci < Cachepages then Inr s
            else bindE (findposition (rnds i) a s) (\<lambda>(ci, s).
              case ci of None \<Rightarrow> Inr s
              | Some ci \<Rightarrow>
                bindE (memmap a Pagesize PROT_RW s) (\<lambda>s.
                bindE (msg_bytes rep k Pagesize) (\<lambda>bs.
                bindE (mem_store a bs s) (\<lambda>s.
                memprotect a Pagesize PROT_READ
                  (upd_cache ci (\<lambda>c. c\<lparr>c_addr := a, c_state := RO\<rparr>) s))))))))"

definition getpgrantserver :: "(nat \<Rightarrow> nat) \<Rightarrow> jia_msg \<Rightarrow> host \<Rightarrow> host res" where
  "getpgrantserver rnds rep s =
     bindE (assertE (is_op rep GETPGRANT) (JiaAssert ''Incorrect returned message!'')) (\<lambda>_.
     let num = nat (sint (bytestoi (data rep) 0)); a = stol (data rep) Intbytes
     in bindE (grant_first rep a s) (\<lambda>s.
        bindE (foldE (grant_prefetched rnds rep) [1..<num] s) (\<lambda>s. Inr (s\<lparr>getpwait := 0\<rparr>))))"

end
