(* ===== verification/Cache.thy ===== *)
theory Cache
  imports Mem
begin

text \<open>
  The cache of remote pages: which entry \<open>findposition\<close> picks, the agreement of the cache with
  the page table, and the fetching of a page across two hosts.
\<close>

section \<open>Choosing a cache entry\<close>

lemma mod_cover:
  assumes "i < (n :: nat)" "k < n"
  shows "\<exists>x<n. i = (k + x) mod n"
proof (cases "k \<le> i")
  case True
  then show ?thesis using assms by (intro exI [of _ "i - k"]) auto
next
  case False
  then show ?thesis using assms by (intro exI [of _ "n - k + i"]) auto
qed

text \<open>The order in which the entries are looked at, from entry \<open>k\<close> on.\<close>

definition scan :: "nat \<Rightarrow> nat \<Rightarrow> nat list" where
  "scan k n = map (\<lambda>x. (k + x) mod Setpages) [0..<n]"

abbreviation first_in :: "pagestate \<Rightarrow> host \<Rightarrow> nat list \<Rightarrow> nat option" where
  "first_in st s \<equiv> find (\<lambda>i. c_state (cache s i) = st)"

lemma Setpages_eq: "Setpages = Cachepages" "0 < Cachepages" "xor a s = 0"
  by (simp_all add: Setpages_def Setnum_def Cachepages_def xor_def)

lemma find_all: "find P xs = Some x \<Longrightarrow> P x \<and> x \<in> set xs"
  by (induction xs) (auto split: if_splits)

lemma find_slot_step:
  assumes "k < Setpages"
  obtains q where "q < Setpages" "\<And>n. (q + n) mod Setpages = (k + Suc n) mod Setpages" "\<And>n. scan k (Suc n) = k # scan q n"
    "\<And>n invi. find_slot s 0 (Suc n) k invi = (if c_state (cache s k) \<noteq> UNMAP
      then find_slot s 0 n q (if invi = None \<and> c_state (cache s k) = INV then Some k else invi) else (k, invi))"
proof (rule that)
  let ?q = "(k + 1) mod Setpages"
  show "?q < Setpages" by (simp add: Setpages_eq)
  show "(?q + n) mod Setpages = (k + Suc n) mod Setpages" for n by (simp add: mod_simps)
  show "scan k (Suc n) = k # scan ?q n" for n
    using assms by (simp add: scan_def map_upt_Suc mod_simps del: upt_Suc)
qed simp

lemma find_slot_scan:
  assumes "k < Setpages"
  shows "fst (find_slot s 0 n k invi) = (case first_in UNMAP s (scan k n) of Some j \<Rightarrow> j | None \<Rightarrow> (k + n) mod Setpages) \<and>
    (first_in UNMAP s (scan k n) = None \<longrightarrow>
       snd (find_slot s 0 n k invi) = (case invi of Some v \<Rightarrow> Some v | None \<Rightarrow> first_in INV s (scan k n)))"
  using assms
proof (induction n arbitrary: k invi)
  case 0
  then show ?case by (simp add: scan_def split: option.split)
next
  case (Suc n)
  obtain q where q: "q < Setpages" "\<And>n. (q + n) mod Setpages = (k + Suc n) mod Setpages" "\<And>n. scan k (Suc n) = k # scan q n"
    "\<And>n invi. find_slot s 0 (Suc n) k invi = (if c_state (cache s k) \<noteq> UNMAP
      then find_slot s 0 n q (if invi = None \<and> c_state (cache s k) = INV then Some k else invi) else (k, invi))"
    using find_slot_step [OF Suc.prems] by blast
  show ?case unfolding q(3,4) using Suc.IH [OF q(1)] q(2) by (simp split: option.split)
qed

lemma scan_all: "k < Cachepages \<Longrightarrow> set (scan k Cachepages) = {..<Cachepages}"
  using mod_cover [of _ Cachepages k] by (fastforce simp: scan_def Setpages_eq)

text \<open>The entry that the search and the choice after it settle on.\<close>

definition victim :: "nat \<Rightarrow> host \<Rightarrow> nat" where
  "victim rnd s = (let (seti, invi) = find_slot s 0 Setpages (rnd div 2 ^ 8 mod Setpages) None
     in if c_state (cache s seti) \<noteq> UNMAP \<and> invi \<noteq> None then the invi else seti)"

lemma victim_is:
  assumes "k = rnd div 2 ^ 8 mod Cachepages"
  shows "victim rnd s = (case first_in UNMAP s (scan k Cachepages) of Some i \<Rightarrow> i
    | None \<Rightarrow> (case first_in INV s (scan k Cachepages) of Some i \<Rightarrow> i | None \<Rightarrow> k))"
proof -
  have k: "k < Setpages" using assms by (simp add: Setpages_eq)
  obtain j r where f: "find_slot s 0 Cachepages k None = (j, r)" by fastforce
  have v: "victim rnd s = (if c_state (cache s j) \<noteq> UNMAP \<and> r \<noteq> None then the r else j)"
    using f by (simp add: victim_def Setpages_eq assms)
  note F = find_slot_scan [OF k, of s Cachepages None, unfolded f fst_conv snd_conv, THEN conjunct1]
    find_slot_scan [OF k, of s Cachepages None, unfolded f fst_conv snd_conv, THEN conjunct2, rule_format]
  show ?thesis
  proof (cases "first_in UNMAP s (scan k Cachepages)")
    case (Some i)
    then have "j = i" "c_state (cache s i) = UNMAP" using F(1) find_all [OF Some] by simp_all
    then show ?thesis using Some v by simp
  next
    case None
    have "j = k" using F(1) None k by (simp add: Setpages_eq)
    moreover have "c_state (cache s k) \<noteq> UNMAP" using None k scan_all [of k] by (auto simp: find_None_iff Setpages_eq)
    ultimately show ?thesis using None F(2) v by (auto split: option.splits)
  qed
qed

lemma victim_spec:
  "victim rnd s < Cachepages \<and>
   (c_state (cache s (victim rnd s)) = UNMAP \<or>
    (\<forall>x<Cachepages. c_state (cache s x) \<noteq> UNMAP) \<and>
    (c_state (cache s (victim rnd s)) = INV \<or>
     (\<forall>x<Cachepages. c_state (cache s x) \<noteq> INV) \<and> victim rnd s = rnd div 2 ^ 8 mod Cachepages))"
proof -
  let ?k = "rnd div 2 ^ 8 mod Cachepages"
  have "?k < Cachepages" by (simp add: Setpages_eq)
  from scan_all [OF this] \<open>?k < Cachepages\<close> show ?thesis
    unfolding victim_is [OF refl] by (auto simp: find_None_iff dest!: find_all split: option.split)
qed

lemma findposition_victim:
  "findposition rnd a s =
     (let ci = victim rnd s; st = c_state (cache s ci)
      in if st = RW then Inr (None, s)
         else bindE (if st = INV \<or> st = RO then flushpage ci s else Inr s) (\<lambda>s.
              bindE (set_cachepage a ci s) (\<lambda>s. Inr (Some ci, s))))"
  by (simp add: findposition_def victim_def replacei_def REPSCHEME_def Setpages_eq Let_def
      split: prod.splits)

section \<open>The cache and the page table agree\<close>

definition entry_ok :: "host \<Rightarrow> nat \<Rightarrow> bool" where
  "entry_ok s i \<longleftrightarrow> aligned (c_addr (cache s i)) \<and> pagei s (c_addr (cache s i)) < Maxmempages \<and>
     cachei (page s (pagei s (c_addr (cache s i)))) = i"

definition cache_inv :: "host \<Rightarrow> bool" where
  "cache_inv s \<longleftrightarrow>
     (\<forall>i<Cachepages. c_state (cache s i) \<noteq> UNMAP \<longrightarrow> entry_ok s i) \<and>
     (\<forall>p<Maxmempages. cachei (page s p) < Cachepages \<longrightarrow>
        c_state (cache s (cachei (page s p))) \<noteq> UNMAP \<and>
        pagei s (c_addr (cache s (cachei (page s p)))) = p)"

text \<open>What \<open>flushpage\<close> does to a valid entry.\<close>

definition flushed :: "nat \<Rightarrow> host \<Rightarrow> host" where
  "flushed ci s = (let a = c_addr (cache s ci) in s\<lparr>vprot := (vprot s)(a := None),
     page := (page s)(pagei s a := (page s (pagei s a))\<lparr>cachei := Cachepages\<rparr>),
     cache := (cache s)(ci := (cache s ci)\<lparr>c_state := UNMAP, c_wtnt := 0, c_addr := 0\<rparr>)\<rparr>)"

lemma flushpage_flushed:
  "ci < Cachepages \<Longrightarrow> entry_ok s ci \<Longrightarrow> flushpage ci s = Inr (flushed ci s)"
  by (simp add: flushpage_def cache_at_def memunmap_page entry_ok_def set_cachepage_def page_at_def
      pagei_def upd_page_def upd_cache_def freetwin_def flushed_def Let_def)

lemma flushed_fields [simp]: "vmem (flushed ci s) = vmem s" "mbuf (flushed ci s) = mbuf s"
  "mcount (flushed ci s) = mcount s" "outq (flushed ci s) = outq s"
  "jia_pid (flushed ci s) = jia_pid s" "home (flushed ci s) = home s"
  "pagei (flushed ci s) b = pagei s b" "W_VEC (flushed ci s) = W_VEC s"
  "homepid (page (flushed ci s) p) = homepid (page s p)"
  "homei (page (flushed ci s) p) = homei (page s p)" "getpwait (flushed ci s) = getpwait s"
  by (simp_all add: flushed_def Let_def pagei_def)

lemma cache_inv_flushed:
  assumes "cache_inv s" "ci < Cachepages" "c_state (cache s ci) \<noteq> UNMAP"
  shows "cache_inv (flushed ci s)"
proof -
  have e: "entry_ok s ci" using assms by (simp add: cache_inv_def)
  let ?p = "pagei s (c_addr (cache s ci))"
  have "entry_ok (flushed ci s) i" if "i < Cachepages" "c_state (cache (flushed ci s) i) \<noteq> UNMAP" for i
  proof -
    have i: "i \<noteq> ci" "c_state (cache s i) \<noteq> UNMAP"
      using that by (auto simp: flushed_def Let_def split: if_splits)
    then have "entry_ok s i" using assms(1) that(1) by (simp add: cache_inv_def)
    moreover from this e i have "pagei s (c_addr (cache s i)) \<noteq> ?p" by (auto simp: entry_ok_def)
    ultimately show ?thesis using i by (simp add: entry_ok_def flushed_def Let_def pagei_def)
  qed
  moreover have "c_state (cache (flushed ci s) (cachei (page (flushed ci s) p))) \<noteq> UNMAP \<and>
      pagei s (c_addr (cache (flushed ci s) (cachei (page (flushed ci s) p)))) = p"
    if "p < Maxmempages" "cachei (page (flushed ci s) p) < Cachepages" for p
  proof -
    have p: "p \<noteq> ?p" "cachei (page (flushed ci s) p) = cachei (page s p)"
      using that by (auto simp: flushed_def Let_def split: if_splits)
    then have "c_state (cache s (cachei (page s p))) \<noteq> UNMAP \<and>
        pagei s (c_addr (cache s (cachei (page s p)))) = p"
      using assms(1) that by (simp add: cache_inv_def)
    moreover from this p have "cachei (page s p) \<noteq> ci" by auto
    ultimately show ?thesis unfolding p(2) by (simp add: flushed_def Let_def)
  qed
  ultimately show ?thesis by (simp add: cache_inv_def)
qed

text \<open>Entering a page at a free entry.\<close>

lemma cache_inv_enter:
  assumes "cache_inv s" "ci < Cachepages" "c_state (cache s ci) = UNMAP" "aligned a"
    "pagei s a < Maxmempages" "\<not> cachei (page s (pagei s a)) < Cachepages"
    and "cache t = (cache s)(ci := c)" "c_addr c = a" "c_state c \<noteq> UNMAP"
    and "page t = (page s)(pagei s a := (page s (pagei s a))\<lparr>cachei := ci\<rparr>)"
    and "global_start_addr t = global_start_addr s"
  shows "cache_inv t"
proof -
  have pi: "pagei t = pagei s" using assms by (simp add: pagei_def fun_eq_iff)
  have "entry_ok t i" if "i < Cachepages" "c_state (cache t i) \<noteq> UNMAP" for i
  proof (cases "i = ci")
    case True
    then show ?thesis using assms pi by (simp add: entry_ok_def)
  next
    case False
    then have "entry_ok s i" using assms that by (simp add: cache_inv_def)
    moreover from this have "pagei s (c_addr (cache s i)) \<noteq> pagei s a"
      using assms(6) that(1) by (auto simp: entry_ok_def)
    ultimately show ?thesis using False assms pi by (simp add: entry_ok_def)
  qed
  moreover have "c_state (cache t (cachei (page t p))) \<noteq> UNMAP \<and>
      pagei t (c_addr (cache t (cachei (page t p)))) = p"
    if "p < Maxmempages" "cachei (page t p) < Cachepages" for p
  proof (cases "p = pagei s a")
    case True
    then show ?thesis using assms pi by simp
  next
    case False
    then have "c_state (cache s (cachei (page s p))) \<noteq> UNMAP \<and>
        pagei s (c_addr (cache s (cachei (page s p)))) = p"
      using assms that by (simp add: cache_inv_def)
    then show ?thesis using False assms pi by auto
  qed
  ultimately show ?thesis by (simp add: cache_inv_def)
qed

lemma victim_entry: "cache_inv s \<Longrightarrow> c_state (cache s (victim rnd s)) \<noteq> UNMAP \<Longrightarrow>
    entry_ok s (victim rnd s)"
  using victim_spec [of rnd s] by (auto simp: cache_inv_def)

text \<open>The state after the choice: the victim flushed if it held a page, the page table updated.\<close>

definition cleared :: "nat \<Rightarrow> host \<Rightarrow> host" where
  "cleared rnd s = (let ci = victim rnd s in if c_state (cache s ci) = UNMAP then s else flushed ci s)"

lemma findposition_run:
  assumes "cache_inv s" "pagei s a < Maxmempages"
  shows "findposition rnd a s =
    (if c_state (cache s (victim rnd s)) = RW then Inr (None, s)
     else Inr (Some (victim rnd s), upd_page (pagei s a) (\<lambda>p. p\<lparr>cachei := victim rnd s\<rparr>) (cleared rnd s)))"
proof -
  have v: "victim rnd s < Cachepages" using victim_spec [of rnd s] by blast
  have pi: "pagei (flushed (victim rnd s) s) a = pagei s a" by simp
  show ?thesis
    using assms(2) victim_entry [OF assms(1), of rnd] flushpage_flushed [OF v] pi
    by (cases "c_state (cache s (victim rnd s))")
      (simp_all add: findposition_victim Let_def cleared_def set_cachepage_def page_at_def)
qed

lemma cleared_inv:
  assumes "cache_inv s"
  shows "cache_inv (cleared rnd s)" "c_state (cache (cleared rnd s) (victim rnd s)) = UNMAP"
    "\<not> cachei (page s p) < Cachepages \<Longrightarrow> \<not> cachei (page (cleared rnd s) p) < Cachepages"
proof -
  have v: "victim rnd s < Cachepages" using victim_spec [of rnd s] by blast
  show "cache_inv (cleared rnd s)"
    using cache_inv_flushed [OF assms v] assms by (simp add: cleared_def Let_def)
  show "c_state (cache (cleared rnd s) (victim rnd s)) = UNMAP"
    by (simp add: cleared_def flushed_def Let_def)
  show "\<not> cachei (page (cleared rnd s) p) < Cachepages" if "\<not> cachei (page s p) < Cachepages"
    using that by (auto simp: cleared_def flushed_def Let_def)
qed

lemma cleared_fields [simp]: "vmem (cleared rnd s) = vmem s" "mbuf (cleared rnd s) = mbuf s"
  "mcount (cleared rnd s) = mcount s" "outq (cleared rnd s) = outq s"
  "jia_pid (cleared rnd s) = jia_pid s" "home (cleared rnd s) = home s"
  "pagei (cleared rnd s) b = pagei s b" "W_VEC (cleared rnd s) = W_VEC s"
  "homepid (page (cleared rnd s) p) = homepid (page s p)"
  "homei (page (cleared rnd s) p) = homei (page s p)"
  "getpwait (cleared rnd s) = getpwait s"
  by (simp_all add: cleared_def Let_def)

lemma cleared_start [simp]: "global_start_addr (cleared rnd s) = global_start_addr s"
  by (simp add: cleared_def flushed_def Let_def)

text \<open>
  C15: Which entry \<open>findposition\<close> takes, exactly, on a cache that agrees with the page table. The
  entries are looked at in turn from the random one on: the first that is free is taken; if none is,
  the first that is invalid, which is flushed; if none is, the random entry itself, which is flushed
  if it is read-only. If that one is dirty, \<open>findposition\<close> gives up and changes nothing, even when
  other entries are read-only: it neither prefers those, as its comment says (UNMAP, INV, RO, RW),
  nor saves the dirty page. A flush unmaps the page, takes it out of the page table and frees the
  entry; the new page is entered in the page table. Nothing else changes.
\<close>

theorem findposition_correct:
  assumes "cache_inv s" "pagei s a < Maxmempages" "k = rnd div 2 ^ 8 mod Cachepages"
    "order = map (\<lambda>x. (k + x) mod Cachepages) [0..<Cachepages]"
  shows "findposition rnd a s =
    (case find (\<lambda>i. c_state (cache s i) = UNMAP) order of
       Some i \<Rightarrow> Inr (Some i, upd_page (pagei s a) (\<lambda>p. p\<lparr>cachei := i\<rparr>) s)
     | None \<Rightarrow>
       (case find (\<lambda>i. c_state (cache s i) = INV) order of
          Some i \<Rightarrow> Inr (Some i, upd_page (pagei s a) (\<lambda>p. p\<lparr>cachei := i\<rparr>) (flushed i s))
        | None \<Rightarrow>
          if c_state (cache s k) = RW then Inr (None, s)
          else Inr (Some k, upd_page (pagei s a) (\<lambda>p. p\<lparr>cachei := k\<rparr>) (flushed k s))))"
proof -
  have k: "k < Cachepages" using assms(3) by (simp add: Setpages_eq)
  have o: "order = scan k Cachepages" by (simp add: assms(4) scan_def Setpages_eq)
  have none: "c_state (cache s k) \<noteq> st" if "first_in st s order = None" for st
    using that k scan_all [OF k] by (auto simp: o find_None_iff)
  note v = victim_is [OF assms(3), of s, folded o]
  note run = findposition_run [OF assms(1,2), of rnd]
  show ?thesis
  proof (cases "first_in UNMAP s order")
    case (Some i)
    then show ?thesis using find_all [OF Some] v unfolding run cleared_def by simp
  next
    case u: None
    show ?thesis
    proof (cases "first_in INV s order")
      case (Some i)
      then show ?thesis using find_all [OF Some] v u unfolding run cleared_def by simp
    next
      case None
      then show ?thesis using v u none [OF u] unfolding run cleared_def by simp
    qed
  qed
qed

lemma static_cache_inv: "cache_inv (static_host\<lparr>page := (\<lambda>_. \<lparr>cachei = Cachepages, homei = 0, homepid = 1\<rparr>)\<rparr>)"
  by (simp add: cache_inv_def static_host_def)

text \<open>The cache is full, and all entries but the one the random number names are read-only.\<close>

definition full_cache :: host where
  "full_cache = static_host\<lparr>
     cache := (\<lambda>i. \<lparr>c_state = (if i = 7 then RW else RO), c_addr = word_of_nat (i * Pagesize), c_twin = None, c_wtnt = 0\<rparr>),
     page := (\<lambda>p. \<lparr>cachei = (if p < Cachepages then p else Cachepages), homei = 0, homepid = 1\<rparr>)\<rparr>"

lemma full_cache_inv: "cache_inv full_cache"
proof -
  have u: "unat (word_of_nat (i * 4096) :: addr) = i * 4096" if "i < Cachepages" for i
  proof -
    have "i * 4096 < 2 ^ LENGTH(64)" using that by (simp add: Cachepages_def)
    then show ?thesis unfolding unat_of_nat by (rule mod_less)
  qed
  have e: "pagei full_cache (word_of_nat (i * 4096)) = i" "aligned (word_of_nat (i * 4096))" if "i < Cachepages" for i
    using u [OF that] by (simp_all add: pagei_def aligned_def full_cache_def static_host_def unat_div Pagesize_def del: of_nat_mult)
  have c: "c_addr (cache full_cache i) = word_of_nat (i * 4096)" "c_state (cache full_cache i) \<noteq> UNMAP"
    "cachei (page full_cache p) = (if p < Cachepages then p else Cachepages)" for i p
    by (simp_all add: full_cache_def Pagesize_def)
  show ?thesis
    using e by (auto simp: cache_inv_def entry_ok_def c Cachepages_def Maxmempages_def simp del: of_nat_mult)
qed

lemma findposition_correct_witness:
  "findposition 1792 0x1000000 full_cache = Inr (None, full_cache) \<and> c_state (cache full_cache 0) = RO"
proof -
  have n: "find (\<lambda>i. c_state (cache full_cache i) = st) xs = None" if "st \<notin> {RO, RW}" for st xs
    using that by (auto simp: find_None_iff full_cache_def)
  have "pagei full_cache 0x1000000 < Maxmempages"
    by (simp add: pagei_def full_cache_def static_host_def Pagesize_def Maxmempages_def)
  from findposition_correct [OF full_cache_inv this refl refl, of 1792] show ?thesis
    by (simp add: n Cachepages_def) (simp add: full_cache_def)
qed

section \<open>Asking for a page\<close>

lemma getpage_run:
  assumes "homehost s a = Inr h" "h \<noteq> jia_pid s" "mbuf_inv s" "0 < mcount s"
  shows "\<exists>b m. getpage a flag s = Inr (s\<lparr>getpwait := 1, mbuf := b, outq := outq s @ [m]\<rparr>) \<and>
    (is_op m GETP \<and> frompid m = jia_pid s \<and> topid m = h \<and> temp m = flag \<and> payload m = ltob a) \<and>
    length b = length (mbuf s) \<and> free_slots b = mcount s"
proof -
  let ?s = "s\<lparr>getpwait := 1\<rparr>"
  let ?f = "\<lambda>req. appendmsg (req\<lparr>op := op_num GETP, frompid := jia_pid ?s, topid := h,
         temp := flag, size := 0\<rparr>) (ltob a)"
  let ?P = "\<lambda>m. is_op m GETP \<and> frompid m = jia_pid s \<and> topid m = h \<and> temp m = flag \<and> payload m = ltob a"
  have f: "\<exists>m. ?f old = Inr m \<and> ?P m" for old
    by (auto simp: appendmsg_def is_op_def payload_def bytes_simps Maxmsgsize_eq)
  have "mbuf_inv ?s" "0 < mcount ?s" using assms(3,4) by (simp_all add: mbuf_inv_def)
  from with_slot_run [OF this, of ?f ?P, OF f] show ?thesis
    using assms(1,2) by (auto simp: getpage_def)
qed

text \<open>A read of a remote page that is not cached.\<close>

definition remote_page :: "addr \<Rightarrow> nat \<Rightarrow> host \<Rightarrow> bool" where
  "remote_page a h s \<longleftrightarrow> aligned a \<and> global_start_addr s \<le> a \<and>
     a < global_start_addr s + word_of_nat (globaladdr s) \<and> pagei s a < Maxmempages \<and>
     homepid (page s (pagei s a)) = h \<and> h \<noteq> jia_pid s \<and> \<not> cachei (page s (pagei s a)) < Cachepages"

lemma fault_page_aligned: "aligned a \<Longrightarrow> fault_page a = a"
  using aligned_page_base [of a] by (simp add: fault_page_def page_base_def)

lemma fault_fetch_run:
  assumes "cache_inv s" "remote_page a h s" "c_state (cache s (victim rnd s)) \<noteq> RW"
    "mbuf_inv s" "0 < mcount s"
  shows "\<exists>s' m. fault_fetch rnd a w s = Inr (Some (victim rnd s), s') \<and>
    cache_inv (upd_cache (victim rnd s) (\<lambda>c. c\<lparr>c_addr := a, c_state := RO\<rparr>) s') \<and>
    outq s' = outq s @ [m] \<and> is_op m GETP \<and> frompid m = jia_pid s \<and> topid m = h \<and>
    payload m = ltob a \<and> temp m = 0 \<and> vprot s' a = Some PROT_RW \<and> mbuf_inv s' \<and> mcount s' = mcount s \<and>
    jia_pid s' = jia_pid s \<and> W_VEC s' = W_VEC s \<and> getpwait s' = 1 \<and> pagei s' = pagei s \<and>
    cachei (page s' (pagei s a)) = victim rnd s \<and>
    (\<forall>x. page_base x \<noteq> a \<longrightarrow> vmem s' x = vmem s x)"
proof -
  let ?v = "victim rnd s"
  let ?s1 = "upd_page (pagei s a) (\<lambda>p. p\<lparr>cachei := ?v\<rparr>) (cleared rnd s)"
  let ?s2 = "?s1\<lparr>vprot := (vprot ?s1)(a := Some PROT_RW),
     vmem := (\<lambda>x. if page_base x = a then 0 else vmem ?s1 x)\<rparr>"
  have r: "aligned a" "pagei s a < Maxmempages" "homepid (page s (pagei s a)) = h" "h \<noteq> jia_pid s"
    "\<not> cachei (page s (pagei s a)) < Cachepages"
    using assms(2) by (auto simp: remote_page_def)
  have fp: "findposition rnd a s = Inr (Some ?v, ?s1)"
    using findposition_run [OF assms(1) r(2), of rnd] assms(3) by simp
  have pi: "pagei ?s2 a = pagei s a" by (simp add: pagei_def upd_page_def)
  have "homehost ?s2 a = Inr h" "h \<noteq> jia_pid ?s2" "mbuf_inv ?s2" "0 < mcount ?s2"
    using r assms(4,5) pi by (simp_all add: homehost_def page_at_def upd_page_def mbuf_inv_def)
  from getpage_run [OF this, of 0] obtain b m where
    g: "getpage a 0 ?s2 = Inr (?s2\<lparr>getpwait := 1, mbuf := b, outq := outq ?s2 @ [m]\<rparr>)"
      "is_op m GETP" "frompid m = jia_pid ?s2" "topid m = h" "temp m = 0" "payload m = ltob a"
      "free_slots b = mcount ?s2"
    by blast
  let ?s3 = "?s2\<lparr>getpwait := 1, mbuf := b, outq := outq ?s2 @ [m]\<rparr>"
  have ff: "fault_fetch rnd a w s = Inr (Some ?v, ?s3)"
    using r fp g(1) by (simp add: fault_fetch_def cachepage_def page_at_def memmap_page)
  have v: "?v < Cachepages" using victim_spec [of rnd s] by blast
  have "cache_inv (upd_cache ?v (\<lambda>c. c\<lparr>c_addr := a, c_state := RO\<rparr>) ?s3)"
    by (rule cache_inv_enter [where s = "cleared rnd s" and a = a and
          c = "(cache (cleared rnd s) ?v)\<lparr>c_addr := a, c_state := RO\<rparr>" and ci = ?v])
      (use r v cleared_inv(3) [OF assms(1)] cleared_inv(1,2) [OF assms(1), of rnd] in \<open>simp_all add: upd_cache_def upd_page_def\<close>)
  then show ?thesis
    using ff g(2-7) by (intro exI conjI) (assumption | simp add: upd_page_def mbuf_inv_def pagei_def fun_eq_iff)+
qed

end
