(* ===== verification/Fetch.thy ===== *)
theory Fetch
  imports Cache
begin

text \<open>
  Fetching a page: \<open>getpserver\<close>, \<open>getpgrantserver\<close> and the two halves of the fault handler
  composed across the faulting host and the page's home, and the first write to a cached page.
\<close>

section \<open>Serving and receiving a page\<close>

lemma payload_size: "payload m = bs \<Longrightarrow> size m = length bs"
  by (auto simp: payload_def)

lemma getp_reply_page:
  assumes "payload req = ltob a" "W_VEC s \<noteq> ON" "aligned a" "readable s a"
  shows "\<exists>m. getp_reply req [a] hidx s old = Inr m \<and> is_op m GETPGRANT \<and> topid m = frompid req \<and>
    payload m = itob 1 @ ltob a @ rd_mem (vmem s) a Pagesize"
proof -
  have a8: "bslice (data req) 0 Ptrbytes = ltob a"
    using assms(1) payload_size [OF assms(1)] by (simp add: payload_def Ptrbytes_def)
  let ?m0 = "old\<lparr>op := op_num GETPGRANT, frompid := jia_pid s, topid := frompid req, temp := 0, size := 0\<rparr>"
  obtain m1 where m1: "appendmsg ?m0 (itob 1) = Inr m1" "payload m1 = itob 1" "size m1 = 4"
    "op m1 = op_num GETPGRANT" "topid m1 = frompid req"
    by (rule appendmsg_ok [of ?m0 "itob 1"]) (simp_all add: Maxmsgsize_eq payload_def)
  obtain m2 where m2: "appendmsg m1 (ltob a) = Inr m2" "payload m2 = itob 1 @ ltob a" "size m2 = 12"
    "op m2 = op_num GETPGRANT" "topid m2 = frompid req"
    by (rule appendmsg_ok [of m1 "ltob a"]) (use m1 in \<open>simp_all add: Maxmsgsize_eq\<close>)
  let ?m2 = "m2\<lparr>temp := ucast WVFULL\<rparr>"
  obtain m3 where m3: "appendmsg ?m2 (rd_mem (vmem s) a Pagesize) = Inr m3"
    "payload m3 = (itob 1 @ ltob a) @ rd_mem (vmem s) a Pagesize"
    "op m3 = op_num GETPGRANT" "topid m3 = frompid req"
    by (rule appendmsg_ok [of ?m2 "rd_mem (vmem s) a Pagesize"])
      (use m2 in \<open>simp_all add: Maxmsgsize_eq Pagesize_def payload_def\<close>)
  have "append_mem a Pagesize s ?m2 = Inr m3"
  proof -
    have "size ?m2 + Pagesize \<le> Maxmsgsize" using m2(3) by (simp add: Maxmsgsize_eq Pagesize_def)
    then show ?thesis using m3(1) assms(3,4) by (simp add: append_mem_def mem_load_page)
  qed
  then show ?thesis
    using m1(1) m2(1) m3 a8 assms(2) by (simp add: getp_reply_def is_op_def)
qed

lemma getpserver_run:
  assumes "is_op req GETP" "topid req = jia_pid s" "payload req = ltob a"
    "homehost s a = Inr (jia_pid s)" "homepage s a = Inr hi" "hi < Homepages"
    "W_VEC s \<noteq> ON" "\<not> prefetch_flag s" "aligned a" "readable s a" "mbuf_inv s" "0 < mcount s"
  shows "\<exists>b m. getpserver req s =
      Inr ((upd_home hi (\<lambda>h. h\<lparr>h_rdnt := 1\<rparr>) s)\<lparr>mbuf := b, outq := outq s @ [m]\<rparr>) \<and>
    (is_op m GETPGRANT \<and> topid m = frompid req \<and>
     payload m = itob 1 @ ltob a @ rd_mem (vmem s) a Pagesize)"
proof -
  let ?s = "upd_home hi (\<lambda>h. h\<lparr>h_rdnt := 1\<rparr>) s"
  have "bslice (data req) 0 8 = ltob a"
    using assms(3) payload_size [OF assms(3)] by (simp add: payload_def)
  then have st: "stol (data req) 0 = a" by (rule stol_bslice)
  have gp: "getp_pages req s = Inr ([a], Some hi, ?s)"
    using assms(4-8) by (simp add: getp_pages_def st home_at_def Let_def upd_home_def)
  have f: "\<exists>m. getp_reply req [a] (Some hi) ?s old = Inr m \<and> is_op m GETPGRANT \<and>
      topid m = frompid req \<and> payload m = itob 1 @ ltob a @ rd_mem (vmem s) a Pagesize" for old
    using getp_reply_page [OF assms(3), of ?s "Some hi" old] assms(7,9,10)
    by (simp add: upd_home_def readable_def)
  have "mbuf_inv ?s" "0 < mcount ?s" using assms(11,12) by (simp_all add: mbuf_inv_def upd_home_def)
  from with_slot_run [OF this, of "getp_reply req [a] (Some hi) ?s" "\<lambda>m. is_op m GETPGRANT \<and>
      topid m = frompid req \<and> payload m = itob 1 @ ltob a @ rd_mem (vmem s) a Pagesize", OF f]
  show ?thesis
    using assms(1,2) gp by (auto simp: getpserver_def upd_home_def)
qed

lemma getpgrantserver_run:
  assumes "is_op rep GETPGRANT" "payload rep = itob 1 @ ltob a @ bs" "length bs = Pagesize"
    "W_VEC s \<noteq> ON" "aligned a" "writable s a"
  shows "getpgrantserver rnds rep s = Inr (s\<lparr>vmem := wr_mem (vmem s) a bs, getpwait := 0\<rparr>)"
proof -
  have sz: "size rep = 4 + (8 + 4096)"
    using payload_size [OF assms(2)] assms(3) by (simp add: Pagesize_def)
  have "bslice (data rep) 0 4 @ bslice (data rep) 4 8 @ bslice (data rep) 12 4096 =
      itob 1 @ ltob a @ bs"
    using assms(2) unfolding payload_def sz bslice_append by simp
  then have p: "bslice (data rep) 0 4 = itob 1" "bslice (data rep) 4 8 = ltob a"
    "bslice (data rep) 12 4096 = bs"
    by simp_all
  have "bytestoi (data rep) 0 = 1" "stol (data rep) 4 = a"
    using bytestoi_bslice [OF p(1)] stol_bslice [OF p(2)] by simp_all
  then show ?thesis
    using assms p(3) by (simp add: getpgrantserver_def grant_first_def Let_def msg_bytes_def
        mem_store_page msg_consts Pagesize_def)
qed

text \<open>
  C10: A read of a page that lives on another host and is not cached, where the entry that
  \<open>findposition\<close> settles on (\<open>victim\<close>) is not dirty (on a dirty one it returns -1, with which the
  handler goes on to index the cache), a message buffer is free, write vectors are off on both hosts
  and prefetching is off at the home. The fault handler sends one GETP to the page's home; the home
  answers with one GETPGRANT and remembers that somebody has a copy; when the answer has been handled the faulting host has exactly the home's bytes at the
  page, mapped for reading only, in a cache entry that the page table points to, and the cache
  still agrees with the page table.
\<close>

theorem read_fault_fetches:
  assumes "cache_inv c" "remote_page (fault_page x) (jia_pid h) c"
    "c_state (cache c (victim rnd c)) \<noteq> RW" "mbuf_inv c" "0 < mcount c" "W_VEC c \<noteq> ON"
    "\<not> writefault si_code"
    and "homehost h (fault_page x) = Inr (jia_pid h)" "homepage h (fault_page x) = Inr hi"
    "hi < Homepages" "readable h (fault_page x)" "W_VEC h \<noteq> ON" "\<not> prefetch_flag h" "mbuf_inv h"
    "0 < mcount h"
  shows "\<exists>ci c1 req h' rep c2 c3.
    fault_request rnd si_code x c = Inr (Some ci, c1) \<and> outq c1 = outq c @ [req] \<and>
    topid req = jia_pid h \<and> getpserver req h = Inr h' \<and> outq h' = outq h @ [rep] \<and>
    topid rep = jia_pid c \<and> h_rdnt (home h' hi) = 1 \<and> vmem h' = vmem h \<and>
    getpgrantserver rnds rep c1 = Inr c2 \<and> fault_resume si_code x ci c2 = Inr c3 \<and>
    rd_mem (vmem c3) (fault_page x) Pagesize = rd_mem (vmem h) (fault_page x) Pagesize \<and>
    vprot c3 (fault_page x) = Some PROT_READ \<and> cachepage c3 (fault_page x) = Inr ci \<and>
    c_state (cache c3 ci) = RO \<and> cache_inv c3"
proof -
  let ?a = "fault_page x" and ?v = "victim rnd c"
  have r: "aligned ?a" "homepid (page c (pagei c ?a)) = jia_pid h" "jia_pid h \<noteq> jia_pid c"
    "pagei c ?a < Maxmempages" "global_start_addr c \<le> ?a"
    "?a < global_start_addr c + word_of_nat (globaladdr c)"
    using assms(2) by (auto simp: remote_page_def)
  obtain s' req where f: "fault_fetch rnd ?a False c = Inr (Some ?v, s')"
    "cache_inv (upd_cache ?v (\<lambda>c. c\<lparr>c_addr := ?a, c_state := RO\<rparr>) s')"
    "outq s' = outq c @ [req]" "is_op req GETP" "frompid req = jia_pid c" "topid req = jia_pid h"
    "payload req = ltob ?a" "vprot s' ?a = Some PROT_RW" "W_VEC s' = W_VEC c" "pagei s' = pagei c"
    "cachei (page s' (pagei c ?a)) = ?v"
    using fault_fetch_run [OF assms(1-5), of False] by blast
  let ?c1 = "upd_cache ?v (\<lambda>c. c\<lparr>c_addr := ?a, c_state := RO\<rparr>) s'"
  have req: "fault_request rnd si_code x c = Inr (Some ?v, ?c1)"
    using f(1) r assms(7) by (simp add: fault_request_def Let_def homehost_def page_at_def)
  obtain b rep where srv: "getpserver req h =
      Inr ((upd_home hi (\<lambda>h. h\<lparr>h_rdnt := 1\<rparr>) h)\<lparr>mbuf := b, outq := outq h @ [rep]\<rparr>)"
    "is_op rep GETPGRANT" "topid rep = jia_pid c"
    "payload rep = itob 1 @ ltob ?a @ rd_mem (vmem h) ?a Pagesize"
    using getpserver_run [OF f(4,6,7) assms(8-10,12,13) r(1) assms(11,14,15)] f(5) by auto
  let ?c2 = "?c1\<lparr>vmem := wr_mem (vmem ?c1) ?a (rd_mem (vmem h) ?a Pagesize), getpwait := 0\<rparr>"
  have grant: "getpgrantserver rnds rep ?c1 = Inr ?c2"
    using getpgrantserver_run [OF srv(2,4), of ?c1 rnds] f(8,9) r(1) assms(6)
    by (simp add: upd_cache_def writable_def)
  let ?c3 = "?c2\<lparr>vprot := (vprot ?c2)(?a := Some PROT_READ)\<rparr>"
  have res: "fault_resume si_code x ?v ?c2 = Inr ?c3"
    using r(1) f(8) assms(7) by (simp add: fault_resume_def Let_def memprotect_page upd_cache_def)
  have "cache_inv ?c3" using f(2) by (simp add: cache_inv_def entry_ok_def pagei_def)
  moreover have "cachepage ?c3 ?a = Inr ?v"
    using f(10,11) r(4) by (simp add: cachepage_def page_at_def upd_cache_def pagei_def fun_eq_iff)
  moreover have "rd_mem (vmem ?c3) ?a Pagesize = rd_mem (vmem h) ?a Pagesize"
    by (simp add: rd_mem_wr_page)
  ultimately show ?thesis
    using req f(3,6) srv(1,3) grant res by (fastforce simp: upd_home_def upd_cache_def)
qed

text \<open>Two hosts with one shared page, at home on host 1 and full of sevens.\<close>

definition demo_reader :: host where
  "demo_reader = static_host\<lparr>hostc := 2, global_start_addr := 0x10000, globaladdr := 4096,
     page := (\<lambda>_. \<lparr>cachei = Cachepages, homei = Homepages, homepid = 1\<rparr>),
     mbuf := [\<lparr>slot_msg = clear_msg, slot_st = SLOT_FREE\<rparr>], mcount := 1\<rparr>"

definition demo_home :: host where
  "demo_home = demo_reader\<lparr>jia_pid := 1, page := (\<lambda>_. \<lparr>cachei = Cachepages, homei = 0, homepid = 1\<rparr>),
     vmem := (\<lambda>_. 7), vprot := [0x10000 \<mapsto> PROT_READ]\<rparr>"

lemmas demo_defs = demo_home_def demo_reader_def static_host_def

lemma demo_fault_page: "fault_page 0x10008 = 0x10000"
  by (simp add: fault_page_def Pagesize_def)

lemma read_fault_fetches_witness:
  "\<exists>ci c1 req h' rep c2 c3. fault_request 0 1 0x10008 demo_reader = Inr (Some ci, c1) \<and>
     getpserver req demo_home = Inr h' \<and> getpgrantserver (\<lambda>_. 0) rep c1 = Inr c2 \<and>
     fault_resume 1 0x10008 ci c2 = Inr c3 \<and>
     rd_mem (vmem c3) 0x10000 Pagesize = rd_mem (vmem demo_home) 0x10000 Pagesize"
proof -
  have "c_state (cache demo_reader i) \<noteq> RW" for i by (simp add: demo_defs)
  moreover have "cache_inv demo_reader" by (simp add: demo_defs cache_inv_def)
  moreover have "remote_page (fault_page 0x10008) (jia_pid demo_home) demo_reader"
    unfolding demo_fault_page
    by (simp add: remote_page_def demo_defs aligned_def Pagesize_def pagei_def Maxmempages_def
        Cachepages_def)
  ultimately show ?thesis
    using read_fault_fetches [of demo_reader "0x10008" demo_home 0 1 0 "\<lambda>_. 0"]
    unfolding demo_fault_page
    by (fastforce simp: demo_defs mbuf_inv_def free_slots_def ON_def OFF_def writefault_def homehost_def
        homepage_def page_at_def pagei_def Maxmempages_def Homepages_def readable_def)
qed

section \<open>The first write to a cached page\<close>

lemma cache_inv_rewrite:
  assumes "cache_inv s" "ci < Cachepages" "c_state (cache s ci) \<noteq> UNMAP"
    and "cache t = (cache s)(ci := c)" "c_state c \<noteq> UNMAP" "aligned (c_addr c)"
    "pagei s (c_addr c) = pagei s (c_addr (cache s ci))"
    "page t = page s" "global_start_addr t = global_start_addr s"
  shows "cache_inv t"
proof -
  have pi: "pagei t = pagei s" using assms(9) by (simp add: pagei_def fun_eq_iff)
  have "entry_ok t i" if "i < Cachepages" "c_state (cache t i) \<noteq> UNMAP" for i
  proof (cases "i = ci")
    case True
    then have "entry_ok s i" using assms(1-3) by (simp add: cache_inv_def)
    then show ?thesis using True assms pi by (simp add: entry_ok_def)
  next
    case False
    then have "entry_ok s i" using assms that by (simp add: cache_inv_def)
    then show ?thesis using False assms pi by (simp add: entry_ok_def)
  qed
  moreover have "c_state (cache t (cachei (page t p))) \<noteq> UNMAP \<and>
      pagei t (c_addr (cache t (cachei (page t p)))) = p"
    if "p < Maxmempages" "cachei (page t p) < Cachepages" for p
  proof -
    have "c_state (cache s (cachei (page s p))) \<noteq> UNMAP \<and>
      pagei s (c_addr (cache s (cachei (page s p)))) = p"
      using assms(1,8) that by (simp add: cache_inv_def)
    then show ?thesis using assms pi by (cases "cachei (page s p) = ci") simp_all
  qed
  ultimately show ?thesis by (simp add: cache_inv_def)
qed

text \<open>
  C16: A write to a page that is cached for reading sends no message and loses nothing: the page
  becomes writable, its twin is a copy of its bytes at that moment, it is marked as written, and
  the bytes of all memory are as before.
\<close>

theorem write_fault_twins:
  assumes "cache_inv s" "a = fault_page x" "global_start_addr s \<le> a"
    "a < global_start_addr s + word_of_nat (globaladdr s)" "homehost s a = Inr h" "h \<noteq> jia_pid s"
    "cachepage s a = Inr ci" "ci < Cachepages" "c_state (cache s ci) = RO" "vprot s a = Some PROT_READ"
    "writefault si_code" "getpwait s = 0"
  shows "\<exists>s'. sigsegv_handler rnd (\<lambda>s. Inr s) si_code x s = Inr s' \<and> vprot s' a = Some PROT_RW \<and>
    cache s' ci = \<lparr>c_state = RW, c_addr = a, c_twin = Some (rd_mem (vmem s) a Pagesize), c_wtnt = 1\<rparr> \<and>
    vmem s' = vmem s \<and> outq s' = outq s \<and> cache_inv s'"
proof -
  have al: "aligned a" using assms(2) by (simp add: fault_page_def page_base_def [symmetric])
  let ?s1 = "s\<lparr>vprot := (vprot s)(a := Some PROT_RW)\<rparr>"
  let ?s2 = "upd_cache ci (\<lambda>c. c\<lparr>c_addr := a, c_state := RW, c_wtnt := 1, c_twin := newtwin (c_twin c)\<rparr>) ?s1"
  let ?s3 = "upd_cache ci (\<lambda>c. c\<lparr>c_twin := Some (rd_mem (vmem s) a Pagesize)\<rparr>) ?s2"
  have "pagei s (c_addr (cache s ci)) = pagei s a" "entry_ok s ci"
    using assms(1,7,8,9) by (auto simp: cache_inv_def cachepage_def page_at_def split: if_splits)
  then have "cache_inv ?s3"
    using cache_inv_rewrite [OF assms(1,8), of ?s3] assms(9) al
    by (simp add: upd_cache_def)
  moreover have "fault_request rnd si_code x s = Inr (Some ci, ?s2)"
    using assms al by (simp add: fault_request_def Let_def fault_fetch_def memprotect_page)
  moreover have "fault_resume si_code x ci ?s2 = Inr ?s3"
    using assms(2,11,12) al by (simp add: fault_resume_def Let_def mem_load_page upd_cache_def readable_def)
  ultimately show ?thesis
    by (intro exI [of _ ?s3]) (simp add: sigsegv_handler_def upd_cache_def)
qed

definition demo_cached :: host where
  "demo_cached = demo_reader\<lparr>page := (\<lambda>i. if i = 0 then \<lparr>cachei = 0, homei = Homepages, homepid = 1\<rparr>
       else \<lparr>cachei = Cachepages, homei = Homepages, homepid = 1\<rparr>),
     cache := (\<lambda>i. if i = 0 then \<lparr>c_state = RO, c_addr = 0x10000, c_twin = None, c_wtnt = 0\<rparr>
       else \<lparr>c_state = UNMAP, c_addr = 0, c_twin = None, c_wtnt = 0\<rparr>),
     vprot := [0x10000 \<mapsto> PROT_READ]\<rparr>"

lemma write_fault_twins_witness:
  "\<exists>s'. sigsegv_handler 0 (\<lambda>s. Inr s) 2 0x10008 demo_cached = Inr s' \<and> vprot s' 0x10000 = Some PROT_RW"
proof -
  have "cache_inv demo_cached"
    by (auto simp: cache_inv_def entry_ok_def demo_cached_def demo_defs aligned_def Pagesize_def pagei_def
        Maxmempages_def split: if_splits)
  moreover have "cachepage demo_cached 0x10000 = Inr 0" "homehost demo_cached 0x10000 = Inr 1"
    by (simp_all add: cachepage_def homehost_def page_at_def pagei_def demo_cached_def demo_defs
        Maxmempages_def)
  ultimately show ?thesis
    using write_fault_twins [of demo_cached "0x10000" "0x10008" 1 0 2 0] demo_fault_page
    by (fastforce simp: demo_cached_def demo_defs writefault_def Cachepages_def)
qed

end
