(* ===== verification/Bcast.thy ===== *)
theory Bcast
  imports Diff
begin

text \<open>
  The broadcast tree: \<open>bsendmsg\<close> of \<open>src/src/msg/msg.c\<close> starts a message at the root,
  \<open>bcastserver\<close> of \<open>src/src/msg/msgserver.c\<close> passes it down, and \<open>broadcast\<close> of
  \<open>src/src/syn/syn.c\<close> chooses between the tree and one message per host.
\<close>

section \<open>Passing a message down\<close>

text \<open>\<open>((root & 0xffff) << 16) | (level & 0xffff)\<close>, the field \<open>temp\<close> of a broadcast message.\<close>

definition bcast_temp :: "nat \<Rightarrow> nat \<Rightarrow> u32" where
  "bcast_temp root level =
     push_bit 16 (word_of_nat root AND 0xffff) OR (word_of_nat level AND 0xffff)"

text \<open>
  \<open>bcastserver\<close> on host \<open>pid\<close> of \<open>n\<close>: the message as it is left in its slot, and the messages
  queued. A level of zero would shift by a negative amount.
\<close>

definition bcast_step :: "nat \<Rightarrow> nat \<Rightarrow> jia_msg \<Rightarrow> (jia_msg \<times> jia_msg list) res" where
  "bcast_step pid n m =
     (let root = unat (drop_bit 16 (temp m) AND 0xffff); level = unat (temp m AND 0xffff)
      in if level = 0 then Inl (OutOfBounds ''level'')
         else let level = level - 1;
                  mypid = (if 0 \<le> int pid - int root then int pid - int root
                           else int pid - int root + int n);
                  child1 = mypid; child2 = mypid + 2 ^ level;
                  m = m\<lparr>op := (if level = 0 then op m - BCAST else op m),
                        temp := bcast_temp root level, frompid := pid\<rparr>;
                  m2 = m\<lparr>topid := nat ((child2 + int root) mod int n)\<rparr>;
                  m1 = m\<lparr>topid := nat ((child1 + int root) mod int n)\<rparr>
              in Inr (m1, (if child2 < int n then [m2] else []) @ [m1]))"

definition bcastserver :: "jia_msg \<Rightarrow> host \<Rightarrow> (jia_msg \<times> host) res" where
  "bcastserver m s = bindE (bcast_step (jia_pid s) (hostc s) m) (\<lambda>(m, ms).
     Inr (m, s\<lparr>outq := outq s @ ms\<rparr>))"

text \<open>The loop of \<open>bsendmsg\<close>: the least level with \<open>hostc \<le> 2 ^ level\<close>.\<close>

function bcast_level :: "nat \<Rightarrow> nat \<Rightarrow> nat" where
  "bcast_level n level = (if 2 ^ level < n then bcast_level n (level + 1) else level)"
  by pat_completeness auto
termination
proof (relation "measure (\<lambda>(n, l). n - 2 ^ l)", goal_cases)
  case (2 n l)
  have "(2 :: nat) ^ l < 2 ^ (l + 1)" by simp
  then have "n - 2 ^ (l + 1) < n - 2 ^ l" using 2 by (simp only: diff_less_mono2)
  then show ?case by (simp only: in_measure prod.case)
qed simp

declare bcast_level.simps [simp del]

definition bsendmsg :: "jia_msg \<Rightarrow> host \<Rightarrow> (jia_msg \<times> host) res" where
  "bsendmsg m s = bcastserver (m\<lparr>op := op m + BCAST,
     temp := bcast_temp (jia_pid s) (if hostc s = 1 then 1 else bcast_level (hostc s) 0)\<rparr>) s"

definition broadcast :: "nat \<Rightarrow> host \<Rightarrow> host res" where
  "broadcast k s =
     (if B_CAST s = OFF
      then Inr (fold (\<lambda>hosti s. let s = set_slot k ((slot_msg (mbuf s ! k))\<lparr>topid := hosti\<rparr>) s
                                in move_msg_to_outqueue k s) [0..<hostc s] s)
      else bindE (bsendmsg (slot_msg (mbuf s ! k)) s) (\<lambda>(m, s). Inr (set_slot k m s)))"

section \<open>The whole tree\<close>

text \<open>
  Rounds of the cluster: every message still on its way is handled by \<open>bcastserver\<close> on the host
  it is addressed to.
\<close>

definition relay :: "nat \<Rightarrow> jia_msg \<Rightarrow> jia_msg list res" where
  "relay n m = (if BCAST \<le> op m then bindE (bcast_step (topid m) n m) (\<lambda>(_, ms). Inr ms) else Inr [m])"

fun relay_all :: "nat \<Rightarrow> jia_msg list \<Rightarrow> jia_msg list res" where
  "relay_all n [] = Inr []"
| "relay_all n (m # ms) = bindE (relay n m) (\<lambda>xs. bindE (relay_all n ms) (\<lambda>ys. Inr (xs @ ys)))"

fun rounds :: "nat \<Rightarrow> nat \<Rightarrow> jia_msg list \<Rightarrow> jia_msg list res" where
  "rounds n 0 ms = Inr ms"
| "rounds n (Suc k) ms = bindE (relay_all n ms) (rounds n k)"

lemma bcast_temp_fields:
  assumes "root < 65536" "level < 65536"
  shows "unat (bcast_temp root level AND 0xffff) = level"
    "unat (drop_bit 16 (bcast_temp root level) AND 0xffff) = root"
  using run_header_fields [OF assms] by (simp_all add: bcast_temp_def run_header_def)

text \<open>The message to position \<open>p\<close> of the tree, \<open>level\<close> levels above the leaves.\<close>

definition tree_msg :: "nat \<Rightarrow> nat \<Rightarrow> nat \<Rightarrow> nat \<Rightarrow> jia_msg \<Rightarrow> jia_msg \<Rightarrow> bool" where
  "tree_msg n root level p m x \<longleftrightarrow> topid x = (p + root) mod n \<and> temp x = bcast_temp root level \<and>
     op x = (if level = 0 then op m else op m + BCAST) \<and> payload x = payload m \<and> scope x = scope m"

lemma position:
  assumes "p < n" "root < n"
  shows "(if 0 \<le> int ((p + root) mod n) - int root then int ((p + root) mod n) - int root
          else int ((p + root) mod n) - int root + int n) = int p"
proof (cases "p + root < n")
  case False
  then have "(p + root) mod n = p + root - n" using assms by (simp add: mod_if)
  then show ?thesis using False assms by simp
qed simp

lemma relay_tree:
  assumes "tree_msg n root (Suc level) p m x" "p < n" "root < n" "n \<le> 16" "Suc level < 65536"
    "op m < BCAST"
  shows "\<exists>ms. relay n x = Inr ms \<and>
    list_all2 (\<lambda>q y. tree_msg n root level q m y)
      ((if p + 2 ^ level < n then [p + 2 ^ level] else []) @ [p]) ms"
proof -
  have f: "unat (temp x AND 0xffff) = Suc level" "unat (drop_bit 16 (temp x) AND 0xffff) = root"
    using bcast_temp_fields [of root "Suc level"] assms by (auto simp: tree_msg_def)
  have t: "topid x = (p + root) mod n" "op x = op m + BCAST" using assms(1) by (auto simp: tree_msg_def)
  have c2: "int p + 2 ^ level < int n \<longleftrightarrow> p + 2 ^ level < n"
    by (metis of_nat_add of_nat_less_iff of_nat_numeral of_nat_power)
  have md: "nat ((int p + 2 ^ level + int root) mod int n) = (p + 2 ^ level + root) mod n"
    "nat ((int p + int root) mod int n) = (p + root) mod n"
  proof -
    have "int p + 2 ^ level + int root = int (p + 2 ^ level + root)" by simp
    then show "nat ((int p + 2 ^ level + int root) mod int n) = (p + 2 ^ level + root) mod n"
      by (simp only: zmod_int [symmetric] nat_int)
    show "nat ((int p + int root) mod int n) = (p + root) mod n"
      by (simp only: of_nat_add [symmetric] zmod_int [symmetric] nat_int)
  qed
  show ?thesis
    using assms(1,6) t unfolding relay_def bcast_step_def Let_def f t(1) position [OF assms(2,3)] diff_Suc_1 c2 md
    by (auto simp: tree_msg_def payload_def)
qed

text \<open>The positions that hold the message one level further down.\<close>

definition next_positions :: "nat \<Rightarrow> nat \<Rightarrow> nat list \<Rightarrow> nat list" where
  "next_positions n level ps =
     concat (map (\<lambda>p. (if p + 2 ^ level < n then [p + 2 ^ level] else []) @ [p]) ps)"

lemma relay_all_tree:
  assumes "list_all2 (\<lambda>p x. tree_msg n root (Suc level) p m x) ps xs" "\<forall>p\<in>set ps. p < n"
    "root < n" "n \<le> 16" "Suc level < 65536" "op m < BCAST"
  shows "\<exists>ms. relay_all n xs = Inr ms \<and>
    list_all2 (\<lambda>q y. tree_msg n root level q m y) (next_positions n level ps) ms"
  using assms(1,2)
proof (induction ps xs rule: list_all2_induct)
  case Nil
  then show ?case by (simp add: next_positions_def)
next
  case (Cons p ps x xs)
  obtain us where us: "relay n x = Inr us" "list_all2 (\<lambda>q y. tree_msg n root level q m y)
      ((if p + 2 ^ level < n then [p + 2 ^ level] else []) @ [p]) us"
    using relay_tree [OF Cons.hyps(1)] Cons.prems assms(3-6) by auto
  obtain vs where vs: "relay_all n xs = Inr vs"
    "list_all2 (\<lambda>q y. tree_msg n root level q m y) (next_positions n level ps) vs"
    using Cons.IH Cons.prems by auto
  have "list_all2 (\<lambda>q y. tree_msg n root level q m y)
      (((if p + 2 ^ level < n then [p + 2 ^ level] else []) @ [p]) @ next_positions n level ps) (us @ vs)"
    using us(2) vs(2) by (rule list_all2_appendI)
  then show ?case using us(1) vs(1) by (simp add: next_positions_def)
qed

definition level_positions :: "nat \<Rightarrow> nat \<Rightarrow> nat list \<Rightarrow> bool" where
  "level_positions n level ps \<longleftrightarrow> distinct ps \<and> set ps = {p. p < n \<and> 2 ^ level dvd p}"

lemma next_positions_level:
  assumes "level_positions n (Suc level) ps"
  shows "level_positions n level (next_positions n level ps)"
proof -
  have mem: "q \<in> set (next_positions n level qs) \<longleftrightarrow>
      q \<in> set qs \<or> (\<exists>p\<in>set qs. q = p + 2 ^ level \<and> q < n)" for q qs
    by (auto simp: next_positions_def split: if_splits)
  have odd: "\<not> 2 ^ Suc level dvd p + 2 ^ level" if "2 ^ Suc level dvd p" for p :: nat
  proof
    assume "2 ^ Suc level dvd p + 2 ^ level"
    then have "(2 :: nat) ^ Suc level dvd 2 ^ level" using that dvd_add_right_iff by blast
    then show False by (simp add: dvd_power_iff_le)
  qed
  have "distinct qs \<Longrightarrow> \<forall>p\<in>set qs. 2 ^ Suc level dvd p \<Longrightarrow> distinct (next_positions n level qs)" for qs
  proof (induction qs)
    case (Cons p qs)
    have "p \<notin> set (next_positions n level qs)" "p + 2 ^ level \<notin> set (next_positions n level qs)"
      using Cons.prems odd by (auto simp: mem)
    then show ?case using Cons by (auto simp: next_positions_def)
  qed (simp add: next_positions_def)
  then have d: "distinct (next_positions n level ps)" using assms by (simp add: level_positions_def)
  have "q \<in> set (next_positions n level ps) \<longleftrightarrow> q < n \<and> 2 ^ level dvd q" for q
  proof
    assume "q < n \<and> 2 ^ level dvd q"
    then obtain r where r: "q = 2 ^ level * r" "q < n" by blast
    show "q \<in> set (next_positions n level ps)"
    proof (cases "even r")
      case True
      then obtain t where "r = 2 * t" by (rule evenE)
      then have "q = 2 ^ Suc level * t" using r(1) by simp
      then have "2 ^ Suc level dvd q" by (rule dvdI)
      then show ?thesis using assms r(2) mem by (simp add: level_positions_def)
    next
      case False
      then obtain t where t: "r = 2 * t + 1" by (rule oddE)
      then have "q = 2 ^ Suc level * t + 2 ^ level" using r(1) by (simp add: algebra_simps)
      moreover from this have "2 ^ Suc level * t \<in> set ps"
        using assms r(2) by (simp add: level_positions_def)
      ultimately show ?thesis using mem r(2) by blast
    qed
  next
    assume q: "q \<in> set (next_positions n level ps)"
    have dv: "2 ^ level dvd p" if "p \<in> set ps" for p
    proof -
      have "2 ^ Suc level dvd p" using that assms by (simp only: level_positions_def mem_Collect_eq)
      then show ?thesis by (rule dvd_trans [OF le_imp_power_dvd [of level "Suc level"], rotated]) simp
    qed
    have lt: "p < n" if "p \<in> set ps" for p using that assms by (simp add: level_positions_def)
    from q [unfolded mem] show "q < n \<and> 2 ^ level dvd q"
      using dv lt by (metis dvd_add_triv_right_iff)
  qed
  then have "set (next_positions n level ps) = {p. p < n \<and> 2 ^ level dvd p}" by blast
  then show ?thesis using d by (simp only: level_positions_def)
qed

lemma rounds_tree:
  assumes "level_positions n level ps" "list_all2 (\<lambda>p x. tree_msg n root level p m x) ps xs"
    "root < n" "n \<le> 16" "level < 65536" "op m < BCAST"
  shows "\<exists>qs ms. rounds n level xs = Inr ms \<and> level_positions n 0 qs \<and>
    list_all2 (\<lambda>p x. tree_msg n root 0 p m x) qs ms"
  using assms
proof (induction level arbitrary: ps xs)
  case 0
  then show ?case by auto
next
  case (Suc level)
  have "\<forall>p\<in>set ps. p < n" using Suc.prems(1) by (simp add: level_positions_def)
  then obtain us where us: "relay_all n xs = Inr us"
    "list_all2 (\<lambda>q y. tree_msg n root level q m y) (next_positions n level ps) us"
    using relay_all_tree [OF Suc.prems(2)] Suc.prems by blast
  show ?case
    using Suc.IH [OF next_positions_level [OF Suc.prems(1)] us(2)] us(1) Suc.prems by simp
qed

lemma bcast_level_bound: "n \<le> 2 ^ bcast_level n l"
proof (induction n l rule: bcast_level.induct)
  case (1 n l)
  then show ?case by (cases "2 ^ l < n") (simp_all add: bcast_level.simps [of n l])
qed

lemma bcast_level_le: "n \<le> 2 ^ k \<Longrightarrow> l \<le> k \<Longrightarrow> bcast_level n l \<le> k"
proof (induction n l rule: bcast_level.induct)
  case (1 n l)
  show ?case
  proof (cases "2 ^ l < n")
    case True
    then have "l \<noteq> k" using 1 by auto
    then show ?thesis using 1 True by (simp add: bcast_level.simps [of n l])
  next
    case False
    then show ?thesis using 1 by (simp add: bcast_level.simps [of n l])
  qed
qed

lemma bcast_step_topid: "bcast_step pid n (m\<lparr>topid := r\<rparr>) = bcast_step pid n m"
  by (cases m) (simp add: bcast_step_def Let_def cong: if_cong split del: if_split)

lemma bsendmsg_start:
  assumes "0 < hostc s" "hostc s \<le> Maxhosts" "jia_pid s < hostc s" "op m < BCAST"
  obtains k m' ms0 where "bsendmsg m s = Inr (m', s\<lparr>outq := outq s @ ms0\<rparr>)"
    "k = bcast_level (hostc s) 0 - 1" "k < 16" "hostc s \<le> 2 ^ Suc k"
    "list_all2 (\<lambda>p x. tree_msg (hostc s) (jia_pid s) k p m x)
       ((if 2 ^ k < hostc s then [2 ^ k] else []) @ [0]) ms0"
proof -
  let ?n = "hostc s" and ?r = "jia_pid s"
  let ?L = "if ?n = 1 then 1 else bcast_level ?n 0"
  obtain k where k: "k = bcast_level ?n 0 - 1" by simp
  have b4: "bcast_level ?n 0 \<le> 4"
    using bcast_level_le [of ?n 4 0] assms(2) by (simp add: Maxhosts_def)
  have b: "?n \<le> 2 ^ bcast_level ?n 0" by (rule bcast_level_bound)
  have L: "?L = Suc k"
  proof (cases "?n = 1")
    case True
    then show ?thesis by (simp add: k bcast_level.simps)
  next
    case False
    then have "bcast_level ?n 0 \<noteq> 0" using b assms(1) by (intro notI) simp
    then show ?thesis using False by (simp add: k)
  qed
  have n: "?n \<le> 2 ^ Suc k"
    using b L assms(1) by (cases "?n = 1") auto
  let ?m = "m\<lparr>op := op m + BCAST, temp := bcast_temp ?r ?L\<rparr>"
  have tm: "tree_msg ?n ?r (Suc k) 0 m (?m\<lparr>topid := ?r\<rparr>)"
    using assms(3) L by (simp add: tree_msg_def payload_def)
  have sz: "?r < ?n" "?n \<le> 16" "Suc k < 65536" using assms b4 k by (simp_all add: Maxhosts_def)
  obtain ms0 where ms0: "relay ?n (?m\<lparr>topid := ?r\<rparr>) = Inr ms0"
    "list_all2 (\<lambda>p x. tree_msg ?n ?r k p m x) ((if 0 + 2 ^ k < ?n then [0 + 2 ^ k] else []) @ [0]) ms0"
    using relay_tree [OF tm assms(1) sz assms(4)] by blast
  have same: "bcast_step ?r ?n (?m\<lparr>topid := ?r\<rparr>) = bcast_step ?r ?n ?m"
    by (rule bcast_step_topid)
  have "relay ?n (?m\<lparr>topid := ?r\<rparr>) =
      bindE (bcast_step ?r ?n (?m\<lparr>topid := ?r\<rparr>)) (\<lambda>(_, ms). Inr ms)"
    by (simp add: relay_def)
  then have "bindE (bcast_step ?r ?n ?m) (\<lambda>(_, ms). Inr ms) = Inr ms0"
    using ms0(1) by (simp only: same)
  then obtain m' where "bcast_step ?r ?n ?m = Inr (m', ms0)" by auto
  then have "bsendmsg m s = Inr (m', s\<lparr>outq := outq s @ ms0\<rparr>)"
    by (simp add: bsendmsg_def bcastserver_def)
  moreover have "k < 16" using b4 k by simp
  moreover have "list_all2 (\<lambda>p x. tree_msg ?n ?r k p m x) ((if 2 ^ k < ?n then [2 ^ k] else []) @ [0]) ms0"
    using ms0(2) by (simp only: add_0)
  ultimately show thesis by (intro that [OF _ k _ n])
qed

text \<open>
  C17: The broadcast tree delivers exactly one copy to every host. With any number of hosts and
  any root, the messages that \<open>bsendmsg\<close> queues and every host's \<open>bcastserver\<close> passes on end,
  after as many rounds as the tree has levels below the root, as one message per host (the root
  included), with the original operation, scope and data.
\<close>

theorem broadcast_reaches_all:
  assumes "0 < hostc s" "hostc s \<le> Maxhosts" "jia_pid s < hostc s" "op m < BCAST"
  shows "\<exists>m' ms0 ms. bsendmsg m s = Inr (m', s\<lparr>outq := outq s @ ms0\<rparr>) \<and>
    rounds (hostc s) (bcast_level (hostc s) 0 - 1) ms0 = Inr ms \<and>
    distinct (map topid ms) \<and> set (map topid ms) = {0..<hostc s} \<and>
    (\<forall>x\<in>set ms. op x = op m \<and> payload x = payload m \<and> scope x = scope m)"
proof -
  let ?n = "hostc s" and ?r = "jia_pid s"
  obtain k m' ms0 where start: "bsendmsg m s = Inr (m', s\<lparr>outq := outq s @ ms0\<rparr>)"
    "k = bcast_level ?n 0 - 1" "k < 16" "?n \<le> 2 ^ Suc k" "list_all2 (\<lambda>p x. tree_msg ?n ?r k p m x)
       ((if 2 ^ k < ?n then [2 ^ k] else []) @ [0]) ms0"
    by (rule bsendmsg_start [OF assms])
  have "level_positions ?n (Suc k) [0]"
  proof -
    have "p = 0" if "p < ?n" "2 ^ Suc k dvd p" for p
    proof (rule ccontr)
      assume "p \<noteq> 0"
      then show False using that start(4) dvd_imp_le [of "2 ^ Suc k" p] by linarith
    qed
    then have "{0} = {p. p < ?n \<and> 2 ^ Suc k dvd p}" using assms(1) by blast
    then show ?thesis by (simp only: level_positions_def distinct_singleton list.set simp_thms)
  qed
  from next_positions_level [OF this]
  have lp: "level_positions ?n k ((if 2 ^ k < ?n then [2 ^ k] else []) @ [0])"
    by (cases "2 ^ k < ?n") (simp_all add: next_positions_def)
  have sz: "?n \<le> 16" "k < 65536" using assms(2) start(3) by (simp_all add: Maxhosts_def)
  obtain qs ms where q: "rounds ?n k ms0 = Inr ms" "level_positions ?n 0 qs"
    "list_all2 (\<lambda>p x. tree_msg ?n ?r 0 p m x) qs ms"
    using rounds_tree [OF lp start(5) assms(3) sz assms(4)] by blast
  have tp: "map topid ms = map (\<lambda>p. (p + ?r) mod ?n) qs"
    using q(3) by (induction qs ms rule: list_all2_induct) (auto simp: tree_msg_def)
  have qs: "distinct qs" "set qs = {0..<?n}"
    using q(2) unfolding level_positions_def power_0 by (simp_all add: atLeast0LessThan lessThan_def)
  have inj: "inj_on (\<lambda>p. (p + ?r) mod ?n) {0..<?n}"
  proof (rule inj_onI)
    have md: "x mod ?n = (if x < ?n then x else x - ?n)" if "x < 2 * ?n" for x
      using that le_mod_geq [of ?n x] by simp
    fix p q assume "p \<in> {0..<?n}" "q \<in> {0..<?n}" "(p + ?r) mod ?n = (q + ?r) mod ?n"
    then show "p = q" using md [of "p + ?r"] md [of "q + ?r"] assms(3) by (simp split: if_splits)
  qed
  have img: "(\<lambda>p. (p + ?r) mod ?n) ` {0..<?n} = {0..<?n}"
  proof (rule endo_inj_surj [OF _ _ inj])
    show "(\<lambda>p. (p + ?r) mod ?n) ` {0..<?n} \<subseteq> {0..<?n}" using assms(1) by (simp add: image_subset_iff)
  qed simp
  have "\<forall>x\<in>set ms. op x = op m \<and> payload x = payload m \<and> scope x = scope m"
    using q(3) by (induction qs ms rule: list_all2_induct) (auto simp: tree_msg_def)
  moreover have "distinct (map topid ms)" "set (map topid ms) = {0..<?n}"
    unfolding tp distinct_map set_map qs(2) using qs(1) inj img by blast+
  ultimately show ?thesis using start(1) q(1) unfolding start(2) by blast
qed

lemma broadcast_reaches_all_witness:
  "\<exists>m' ms0 ms. bsendmsg clear_msg (static_host\<lparr>jia_pid := 3, hostc := 5\<rparr>) =
       Inr (m', static_host\<lparr>jia_pid := 3, hostc := 5, outq := ms0\<rparr>) \<and>
     rounds 5 (bcast_level 5 0 - 1) ms0 = Inr ms \<and> set (map topid ms) = {0..<5}"
  using broadcast_reaches_all [of "static_host\<lparr>jia_pid := 3, hostc := 5\<rparr>" clear_msg]
  by (simp add: static_host_def Maxhosts_def clear_msg_def BCAST_def) blast

end
