(* ===== verification/Syn.thy ===== *)
theory Syn
  imports Fetch Bcast
begin

text \<open>
  Synchronisation, the operations of \<open>src/src/syn/syn.c\<close>: the start and end of an interval, the
  stack of held locks, and the messages that carry write notices.
\<close>

section \<open>Initialisation\<close>

definition initsyn :: "host \<Rightarrow> host" where
  "initsyn s = s\<lparr>
     locks := (\<lambda>i. if i \<le> Maxlocks then (locks s i)\<lparr>acqc := 0, lscope := 0, myscope := - 1,
         acqs := (\<lambda>j. if j < Maxhosts then -1 else acqs (locks s i) j),
         acqscope := (\<lambda>j. if j < Maxhosts then - 1 else acqscope (locks s i) j),
         wtntp := (if i mod hostc s = jia_pid s then newwtnt else WNULL)\<rparr> else locks s i),
     lockstack := (\<lambda>i. if i < Maxstacksize
         then \<lparr>lockid = (if i = 0 then hidelock else 0), swtntp = newwtnt\<rparr> else lockstack s i),
     stackptr := 0, noclearlocks := 0,
     condvars := (\<lambda>i. if i < Maxcvs then (condvars s i)\<lparr>waitc := 0,
         waits := (\<lambda>j. if j < Maxhosts then -1 else waits (condvars s i) j)\<rparr> else condvars s i),
     cvwait := 0, waitcounter := 0\<rparr>"

section \<open>Intervals\<close>

definition home_pages :: "host \<Rightarrow> nat" where
  "home_pages s = homesize s (jia_pid s) div Pagesize"

text \<open>The blocks of a home page that differ from its twin.\<close>

definition home_diff_blocks :: "jiahome \<Rightarrow> host \<Rightarrow> u64 res" where
  "home_diff_blocks h s = (case h_twin h of
       None \<Rightarrow> Inl (MemFault 0)
     | Some t \<Rightarrow> bindE (mem_load (h_addr h) Pagesize s) (\<lambda>p.
         Inr (fold (\<lambda>k wv. if take Blocksize (drop (k * Blocksize) p) \<noteq>
                              take Blocksize (drop (k * Blocksize) t)
                           then wv OR push_bit k 1 else wv) [0..<Pagesize div Blocksize] WVNULL)))"

definition save_home :: "msg_op \<Rightarrow> nat \<Rightarrow> host \<Rightarrow> host res" where
  "save_home synop i s = bindE (home_at s i) (\<lambda>h.
     if h_wtnt h AND 1 \<noteq> 0
     then bindE (if h_rdnt h \<noteq> 0
            then bindE (save_top (h_addr h) 0 (jia_pid s) (word_of_nat Maxhosts) s) (\<lambda>s.
                 Inr (if synop = BARR then upd_home i (\<lambda>h. h\<lparr>h_rdnt := 0\<rparr>) s else s))
            else Inr s) (\<lambda>s.
          if W_VEC s = ON \<and> \<not> h_wvfull h
          then bindE (home_diff_blocks h s) (\<lambda>wv. addwtvect i wv (jia_pid s) s)
          else Inr s)
     else Inr s)"

text \<open>\<open>endinterval\<close> up to its wait for the diffs to be granted, and the whole.\<close>

definition endinterval_send :: "msg_op \<Rightarrow> host \<Rightarrow> host res" where
  "endinterval_send synop s =
     bindE (foldE (\<lambda>ci s. if c_wtnt (cache s ci) = 1 then savepage ci s else Inr s)
              [0..<Cachepages] s) (\<lambda>s.
     let s = senddiffs s
     in foldE (save_home synop) [0..<home_pages s] s)"

definition wait_until :: "(host \<Rightarrow> bool) \<Rightarrow> (host \<Rightarrow> host res) \<Rightarrow> string \<Rightarrow> host \<Rightarrow> host res" where
  "wait_until p wait name s =
     bindE (wait s) (\<lambda>s. if p s then Inr s else Inl (WouldBlock name))"

definition endinterval :: "(host \<Rightarrow> host res) \<Rightarrow> msg_op \<Rightarrow> host \<Rightarrow> host res" where
  "endinterval wait synop s = bindE (endinterval_send synop s)
     (wait_until (\<lambda>s. diffwait s = 0) wait ''diffwait'')"

definition clean_cache :: "nat \<Rightarrow> host \<Rightarrow> host res" where
  "clean_cache ci s =
     (if c_wtnt (cache s ci) = 1
      then bindE (memprotect (c_addr (cache s ci)) Pagesize PROT_READ s) (\<lambda>s.
           Inr (upd_cache ci (\<lambda>c. c\<lparr>c_wtnt := 0, c_state := RO, c_twin := freetwin (c_twin c)\<rparr>) s))
      else Inr s)"

definition clean_home :: "nat \<Rightarrow> host \<Rightarrow> host res" where
  "clean_home i s = bindE (home_at s i) (\<lambda>h.
     if h_wtnt h AND 1 \<noteq> 0
     then memprotect (h_addr h) Pagesize PROT_READ (upd_home i (\<lambda>h. h\<lparr>h_wtnt := h_wtnt h AND 0xfe\<rparr>) s)
     else Inr s)"

text \<open>
  The write detection of \<open>AD_WD\<close>: what a page that only its home has written stays writable for;
  bits 4 to 7 count the barrier intervals.
\<close>

definition home_twin :: "nat \<Rightarrow> host \<Rightarrow> host res" where
  "home_twin i s = (let h = home s i in
     if W_VEC s = ON \<and> \<not> h_wvfull h
     then bindE (mem_load (h_addr h) Pagesize s) (\<lambda>bs. Inr (upd_home i (\<lambda>h. h\<lparr>h_twin := Some bs\<rparr>) s))
     else Inr s)"

definition detect_home :: "nat \<Rightarrow> host \<Rightarrow> host res" where
  "detect_home i s = bindE (home_at s i) (\<lambda>h.
     let w = unat (h_wtnt h AND 7); swcnt = (drop_bit 4 (h_wtnt h) AND 0xf) + 1;
         counted = upd_home i (\<lambda>h. h\<lparr>h_wtnt := push_bit 4 swcnt AND 0xf0\<rparr>) s
     in if w = 0 then Inr s
        else if w = 1 \<or> w = 5 then Inl (JiaAssert ''This should not have happened! WTDT'')
        else if w = 2
          then if SWvalve \<le> unat swcnt
               then bindE (memprotect (h_addr h) Pagesize PROT_RW s) (\<lambda>s.
                    home_twin i (upd_home i (\<lambda>h. h\<lparr>h_wtnt := h_wtnt h OR 3\<rparr>) s))
               else Inr counted
        else if w = 3
          then if SWvalve \<le> unat swcnt then home_twin i s
               else memprotect (h_addr h) Pagesize PROT_READ counted
        else if w = 4 \<or> w = 6 then Inr (upd_home i (\<lambda>h. h\<lparr>h_wtnt := 0\<rparr>) s)
        else memprotect (h_addr h) Pagesize PROT_READ (upd_home i (\<lambda>h. h\<lparr>h_wtnt := 0\<rparr>) s))"

definition startinterval :: "msg_op \<Rightarrow> host \<Rightarrow> host res" where
  "startinterval synop s = bindE (foldE clean_cache [0..<Cachepages] s) (\<lambda>s.
     foldE (if synop \<noteq> BARR \<or> AD_WD s \<noteq> ON then clean_home else detect_home) [0..<home_pages s] s)"

section \<open>Locks held\<close>

definition clearlocks :: "host \<Rightarrow> host res" where
  "clearlocks s = foldE (\<lambda>i s. bindE (freewtntspace (wtntp (locks s i))) (\<lambda>w.
       Inr (upd_lock i (\<lambda>l. l\<lparr>wtntp := w\<rparr>) s)))
     (filter (\<lambda>i. jia_pid s \<le> i \<and> (i - jia_pid s) mod hostc s = 0) [0..<Maxlocks]) s"

definition acquire :: "nat \<Rightarrow> host \<Rightarrow> host res" where
  "acquire lock s = with_slot (\<lambda>req. appendmsg (req\<lparr>op := op_num ACQ, frompid := jia_pid s,
     topid := lock mod hostc s, scope := myscope (locks s lock), size := 0\<rparr>)
     (itob (word_of_nat lock))) s"

definition pushstack :: "nat \<Rightarrow> host \<Rightarrow> host res" where
  "pushstack lock s = (let s = s\<lparr>stackptr := stackptr s + 1\<rparr>
     in bindE (assertE (stackptr s < int Maxstacksize) (JiaAssert ''Too many continuous ACQUIRES!''))
       (\<lambda>_. bindE (top_at s) (\<lambda>t.
        Inr (s\<lparr>lockstack := (lockstack s)(t := (lockstack s t)\<lparr>lockid := lock\<rparr>)\<rparr>))))"

text \<open>All notices of a chain, in the order the nested loops over nodes and entries visit them.\<close>

definition merge_notices :: "wtnt \<Rightarrow> host \<Rightarrow> host res" where
  "merge_notices w = foldE (\<lambda>e. save_top (wtnt_addr e) (wtnt_mig e) (wtnt_from e) (wtnt_scope e))
     (concat w)"

definition popstack :: "host \<Rightarrow> host res" where
  "popstack s = (let s = s\<lparr>stackptr := stackptr s - 1\<rparr>; p = nat (stackptr s + 1)
     in bindE (assertE (stackptr s \<ge> -1) (JiaAssert ''More unlocks than locks!'')) (\<lambda>_.
        bindE (if 0 \<le> stackptr s then merge_notices (swtntp (lockstack s p)) s else Inr s) (\<lambda>s.
        bindE (freewtntspace (swtntp (lockstack s p))) (\<lambda>w. Inr (set_top_wtnt p w s)))))"

section \<open>Messages with write notices\<close>

definition lock_at :: "host \<Rightarrow> int \<Rightarrow> nat res" where
  "lock_at s l = (if 0 \<le> l \<and> l \<le> int Maxlocks then Inr (nat l) else Inl (OutOfBounds ''locks''))"

text \<open>One entry of each of the three kinds of messages.\<close>

definition append_notice :: "wtnt_entry \<Rightarrow> jia_msg \<Rightarrow> jia_msg res" where
  "append_notice e m = bindE (appendmsg m (ltob (wtnt_addr e))) (\<lambda>m.
     bindE (appendmsg m (itob (word_of_nat (wtnt_from e)))) (\<lambda>m.
     appendmsg m (itob (wtnt_mig e))))"

definition append_lock_notice :: "host \<Rightarrow> u32 \<Rightarrow> wtnt_entry \<Rightarrow> jia_msg \<Rightarrow> jia_msg res" where
  "append_lock_notice s acqsc e m =
     (if sint acqsc < sint (wtnt_scope e)
      then bindE (homehost s (wtnt_addr e)) (\<lambda>h. if h \<noteq> topid m then append_notice e m else Inr m)
      else Inr m)"

definition append_stack_notice :: "wtnt_entry \<Rightarrow> jia_msg \<Rightarrow> jia_msg res" where
  "append_stack_notice e m = bindE (appendmsg m (ltob (wtnt_addr e))) (\<lambda>m.
     appendmsg m (itob (wtnt_mig e)))"

text \<open>
  The loops over the nodes: a node goes in while the message has room, by the check of each
  function; the rest of the chain is returned.
\<close>

fun append_nodes ::
  "(jia_msg \<Rightarrow> nat \<Rightarrow> bool) \<Rightarrow> (wtnt_entry \<Rightarrow> jia_msg \<Rightarrow> jia_msg res) \<Rightarrow> jia_msg \<Rightarrow> wtnt \<Rightarrow>
     (jia_msg \<times> wtnt) res" where
  "append_nodes room app m [] = Inr (m, [])"
| "append_nodes room app m (node # rest) =
     (if room m (length node)
      then bindE (foldE app node m) (\<lambda>m. append_nodes room app m rest)
      else Inr (m, node # rest))"

definition appendlockwtnts :: "host \<Rightarrow> u32 \<Rightarrow> jia_msg \<Rightarrow> wtnt \<Rightarrow> (jia_msg \<times> wtnt) res" where
  "appendlockwtnts s acqsc = append_nodes
     (\<lambda>m n. size m + (2 * Intbytes + n * Ptrbytes) < Maxmsgsize) (append_lock_notice s acqsc)"

definition appendbarrwtnts :: "jia_msg \<Rightarrow> wtnt \<Rightarrow> (jia_msg \<times> wtnt) res" where
  "appendbarrwtnts = append_nodes
     (\<lambda>m n. size m + n * (2 * Intbytes + Ptrbytes) < Maxmsgsize) append_notice"

definition appendstackwtnts :: "jia_msg \<Rightarrow> wtnt \<Rightarrow> (jia_msg \<times> wtnt) res" where
  "appendstackwtnts = append_nodes
     (\<lambda>m n. size m + n * (Intbytes + Ptrbytes) < Maxmsgsize) append_stack_notice"

text \<open>
  The loop that \<open>grantlock\<close>, \<open>grantbarr\<close> and \<open>sendwtnts\<close> share: while a rest of the chain is
  left, send what there is as \<open>more_op\<close> and start over after the lock number. A rest that does not
  shrink would be sent for ever.
\<close>

function send_rest :: "(jia_msg \<Rightarrow> wtnt \<Rightarrow> (jia_msg \<times> wtnt) res) \<Rightarrow> (nat \<Rightarrow> host \<Rightarrow> host res) \<Rightarrow>
    msg_op \<Rightarrow> nat \<Rightarrow> wtnt \<Rightarrow> host \<Rightarrow> host res" where
  "send_rest app send more_op k w s =
     (if w = WNULL then Inr s
      else bindE (send k (set_slot k ((slot_msg (mbuf s ! k))\<lparr>op := op_num more_op\<rparr>) s)) (\<lambda>s.
           bindE (app ((slot_msg (mbuf s ! k))\<lparr>size := Intbytes\<rparr>) w) (\<lambda>(m, w').
           if length w' < length w then send_rest app send more_op k w' (set_slot k m s)
           else Inl (Diverges ''write notices''))))"
  by pat_completeness auto
termination by (relation "measure (\<lambda>(app, send, mo, k, w, s). length w)") auto

declare send_rest.simps [simp del]

definition send_slot :: "nat \<Rightarrow> host \<Rightarrow> host res" where
  "send_slot k s = Inr (move_msg_to_outqueue k s)"

text \<open>The sequence of a notice message: the lock number, the notices, and the last message.\<close>

definition send_notices :: "(jia_msg \<Rightarrow> wtnt \<Rightarrow> (jia_msg \<times> wtnt) res) \<Rightarrow> (nat \<Rightarrow> host \<Rightarrow> host res) \<Rightarrow>
    msg_op \<Rightarrow> msg_op \<Rightarrow> (jia_msg \<Rightarrow> jia_msg) \<Rightarrow> nat \<Rightarrow> wtnt \<Rightarrow> host \<Rightarrow> host res" where
  "send_notices app send more_op last_op hdr lock w s = bindE (freemsg_lock s) (\<lambda>(k, s).
     bindE (appendmsg ((hdr (slot_msg (mbuf s ! k)))\<lparr>size := 0\<rparr>) (itob (word_of_nat lock))) (\<lambda>m.
     bindE (app m w) (\<lambda>(m, w).
     bindE (send_rest app send more_op k w (set_slot k m s)) (\<lambda>s.
     bindE (send k (set_slot k ((slot_msg (mbuf s ! k))\<lparr>op := op_num last_op\<rparr>) s)) (\<lambda>s.
     Inr (freemsg_unlock k s))))))"

definition grantlock :: "nat \<Rightarrow> nat \<Rightarrow> u32 \<Rightarrow> host \<Rightarrow> host res" where
  "grantlock lock toproc acqsc s = send_notices (appendlockwtnts s acqsc) send_slot INVLD ACQGRANT
     (\<lambda>m. m\<lparr>frompid := jia_pid s, topid := toproc, scope := lscope (locks s lock)\<rparr>)
     lock (wtntp (locks s lock)) s"

definition grantbarr :: "nat \<Rightarrow> host \<Rightarrow> host res" where
  "grantbarr lock s = send_notices appendbarrwtnts broadcast INVLD BARRGRANT
     (\<lambda>m. m\<lparr>frompid := jia_pid s, topid := jia_pid s, scope := lscope (locks s lock)\<rparr>)
     lock (wtntp (locks s lock)) s"

definition sendwtnts :: "msg_op \<Rightarrow> host \<Rightarrow> host res" where
  "sendwtnts operation s = bindE (top_at s) (\<lambda>t.
     let lock = lockid (lockstack s t)
     in send_notices appendstackwtnts send_slot WTNT operation
          (\<lambda>m. m\<lparr>frompid := jia_pid s, topid := lock mod hostc s,
             scope := myscope (locks s (if operation = BARR then hidelock else lock))\<rparr>)
          lock (swtntp (lockstack s t)) s)"

definition grantcondv :: "nat \<Rightarrow> nat \<Rightarrow> host \<Rightarrow> host res" where
  "grantcondv condv toproc s = with_slot (\<lambda>m. appendmsg (m\<lparr>op := op_num CVGRANT,
     frompid := jia_pid s, topid := toproc, size := 0\<rparr>) (itob (word_of_nat condv))) s"

text \<open>
  \<open>recordwtnts\<close>: both the address and the migration tag are read at the offset of the address.
\<close>

definition record_offsets :: "jia_msg \<Rightarrow> nat list" where
  "record_offsets req = map (\<lambda>i. Intbytes + i * (Ptrbytes + Intbytes))
     [0..<(size req - Intbytes + (Ptrbytes + Intbytes) - 1) div (Ptrbytes + Intbytes)]"

definition recordwtnts :: "jia_msg \<Rightarrow> host \<Rightarrow> host res" where
  "recordwtnts req s = bindE (lock_at s (sint (msg_int req 0))) (\<lambda>lock.
     foldE (\<lambda>datai s. bindE (savewtnt (wtntp (locks s lock)) (stol (data req) datai)
         (ucast (stol (data req) datai)) (frompid req) (lscope (locks s lock))) (\<lambda>w.
       Inr (upd_lock lock (\<lambda>l. l\<lparr>wtntp := w\<rparr>) s))) (record_offsets req) s)"

end
