(* ===== verification/Mig.thy ===== *)
theory Mig
  imports Syn
begin

text \<open>Home migration, \<open>src/src/syn/mig.c\<close>.\<close>

text \<open>
  \<open>migcheckcache\<close> reads the cache entry of every page in the notices of the top of the stack; a
  page that is not cached has the index \<open>Cachepages\<close>, past the array.
\<close>

definition mig_entry :: "host \<Rightarrow> wtnt_entry \<Rightarrow> wtnt_entry res" where
  "mig_entry s e = bindE (cachepage s (wtnt_addr e)) (\<lambda>ci. bindE (cache_at s ci) (\<lambda>c.
     Inr (if c_state c = RO \<or> c_state c = RW then e\<lparr>wtnt_mig := 1\<rparr> else e)))"

fun mapE :: "('a \<Rightarrow> 'b res) \<Rightarrow> 'a list \<Rightarrow> 'b list res" where
  "mapE f [] = Inr []"
| "mapE f (x # xs) = bindE (f x) (\<lambda>y. bindE (mapE f xs) (\<lambda>ys. Inr (y # ys)))"

definition migcheckcache :: "host \<Rightarrow> host res" where
  "migcheckcache s = bindE (top_at s) (\<lambda>t.
     bindE (mapE (mapE (mig_entry s)) (swtntp (lockstack s t))) (\<lambda>w. Inr (set_top_wtnt t w s)))"

text \<open>The inner loop of \<open>migarrangehome\<close>: the first used home entry from \<open>i\<close> on, \<open>n\<close> to look at.\<close>

fun next_home :: "host \<Rightarrow> nat \<Rightarrow> nat \<Rightarrow> nat option" where
  "next_home s i 0 = None"
| "next_home s i (Suc n) = (if h_addr (home s i) = 0 then next_home s (Suc i) n else Some i)"

definition move_home :: "nat \<Rightarrow> nat \<Rightarrow> host \<Rightarrow> host res" where
  "move_home i j s = bindE (page_at s (h_addr (home s j))) (\<lambda>_.
     let h = home s j; h' = home s i
     in Inr (s\<lparr>page := (page s)(pagei s (h_addr h) := (page s (pagei s (h_addr h)))\<lparr>homei := i\<rparr>),
       home := (home s)(
         i := h'\<lparr>h_addr := h_addr h, h_wtnt := h_wtnt h, h_rdnt := h_rdnt h,
           h_wtvect := (if W_VEC s = ON then h_wtvect h else h_wtvect h'),
           h_wvfull := (if W_VEC s = ON then h_wvfull h else h_wvfull h')\<rparr>,
         j := h\<lparr>h_addr := 0,
           h_wtvect := (if W_VEC s = ON then h_wtvect h' else h_wtvect h)\<rparr>)\<rparr>))"

text \<open>The outer loop, \<open>n\<close> entries before the end of the table; the value of \<open>i\<close> when it stops.\<close>

fun arrange_loop :: "nat \<Rightarrow> nat \<Rightarrow> host \<Rightarrow> (nat \<times> host) res" where
  "arrange_loop i 0 s = Inr (i, s)"
| "arrange_loop i (Suc n) s =
     (if h_addr (home s i) = 0
      then (case next_home s (Suc i) n of
              None \<Rightarrow> Inr (Suc i, s)
            | Some j \<Rightarrow> bindE (move_home i j s) (arrange_loop (Suc i) n))
      else arrange_loop (Suc i) n s)"

definition migarrangehome :: "host \<Rightarrow> host res" where
  "migarrangehome s = bindE (arrange_loop 0 Homepages s) (\<lambda>(i, s).
     Inr (s\<lparr>homesize := (homesize s)(jia_pid s := (i - 1) * Pagesize)\<rparr>))"

text \<open>\<open>migpage\<close>: the new home of a page, its old home, and the other hosts.\<close>

definition mig_new_home :: "nat \<Rightarrow> addr \<Rightarrow> host \<Rightarrow> host res" where
  "mig_new_home p a s =
     (let ci = cachei (page s p)
      in bindE (assertE (ci < Cachepages \<and> c_addr (cache s ci) = a)
           (JiaAssert ''cache is not right for this addr'')) (\<lambda>_.
         case find (\<lambda>i. h_addr (home s i) = 0) [0..<Homepages] of
           None \<Rightarrow> Inl (JiaAssert ''MIG ERROR -- Home exceed in home migration'')
         | Some hi \<Rightarrow>
           let s = upd_home hi (\<lambda>h. h\<lparr>h_addr := a, h_wtnt := (if c_wtnt (cache s ci) = 0 then 2 else 3),
                     h_rdnt := 1\<rparr>) s
           in bindE (if W_VEC s = ON then setwtvect hi WVFULL s else Inr s) (\<lambda>s.
              Inr (upd_cache ci (\<lambda>c. c\<lparr>c_twin := (if c_state c = RW then freetwin (c_twin c) else c_twin c),
                  c_state := UNMAP, c_wtnt := 0, c_addr := 0\<rparr>)
                (upd_page p (\<lambda>q. q\<lparr>homei := hi, cachei := Cachepages\<rparr>) s)))))"

definition mig_old_home :: "nat \<Rightarrow> addr \<Rightarrow> host \<Rightarrow> host res" where
  "mig_old_home p a s =
     (let hi = homei (page s p)
      in bindE (assertE (hi < Homepages \<and> h_addr (home s hi) = a)
           (JiaAssert ''MIG ERROR -- home is not right for this addr'')) (\<lambda>_.
         bindE (case find (\<lambda>i. c_state (cache s i) = UNMAP \<or> c_state (cache s i) = INV) [0..<Cachepages] of
             None \<Rightarrow> memunmap a Pagesize s
           | Some ci \<Rightarrow>
             bindE (if c_state (cache s ci) = INV then flushpage ci s else Inr s) (\<lambda>s.
             Inr (upd_page p (\<lambda>q. q\<lparr>cachei := ci\<rparr>) (upd_cache ci (\<lambda>c. c\<lparr>c_state := RO,
               c_wtnt := h_wtnt (home s hi) AND 1, c_addr := a\<rparr>) s)))) (\<lambda>s.
         let s = upd_home hi (\<lambda>h. h\<lparr>h_wtnt := 0, h_rdnt := 0, h_addr := 0\<rparr>)
                   (upd_page p (\<lambda>q. q\<lparr>homei := Homepages\<rparr>) s)
         in if W_VEC s = ON then setwtvect hi WVFULL s else Inr s)))"

definition migpage :: "addr \<Rightarrow> nat \<Rightarrow> nat \<Rightarrow> host \<Rightarrow> host res" where
  "migpage a homep modifyp s = bindE (page_at s a) (\<lambda>_.
     let p = pagei s a
     in bindE (if modifyp = jia_pid s \<and> homep \<noteq> jia_pid s then mig_new_home p a s
               else if modifyp \<noteq> jia_pid s \<and> homep = jia_pid s then mig_old_home p a s
               else Inr s) (\<lambda>s.
        Inr (upd_page p (\<lambda>q. q\<lparr>homepid := modifyp\<rparr>) s)))"

end
