(* ===== verification/Synserver.thy ===== *)
theory Synserver
  imports Mig
begin

text \<open>
  The synchronisation servers of \<open>src/src/syn/synserver.c\<close>: condition variables, \<open>jia_wait\<close>,
  locks, barriers, and the invalidation of cached pages.
\<close>

section \<open>Condition variables\<close>

definition cv_at :: "int \<Rightarrow> nat res" where
  "cv_at c = (if 0 \<le> c \<and> c < int Maxcvs then Inr (nat c) else Inl (OutOfBounds ''condvars''))"

definition msg_lock :: "jia_msg \<Rightarrow> int" where
  "msg_lock req = sint (msg_int req 0)"

text \<open>The check \<open>l % hostc == jia_pid\<close>, with the remainder of C.\<close>

definition home_of :: "host \<Rightarrow> int \<Rightarrow> bool" where
  "home_of s l \<longleftrightarrow> (if 0 \<le> l then nat l mod hostc s = jia_pid s
                    else nat (- l) mod hostc s = 0 \<and> jia_pid s = 0)"

definition upd_cv :: "nat \<Rightarrow> (jiacv \<Rightarrow> jiacv) \<Rightarrow> host \<Rightarrow> host" where
  "upd_cv i f s = s\<lparr>condvars := (condvars s)(i := f (condvars s i))\<rparr>"

definition grant_waiters :: "nat \<Rightarrow> host \<Rightarrow> host res" where
  "grant_waiters cv s = bindE (foldE (\<lambda>i. grantcondv cv (nat (waits (condvars s cv) i)))
       [0..<waitc (condvars s cv)] s) (\<lambda>s. Inr (upd_cv cv (\<lambda>c. c\<lparr>waitc := 0\<rparr>) s))"

definition setcvserver :: "jia_msg \<Rightarrow> host \<Rightarrow> host res" where
  "setcvserver req s = bindE (assertE (is_op req SETCV \<and> topid req = jia_pid s)
       (JiaAssert ''Incorrect SETCV Message!'')) (\<lambda>_.
     bindE (assertE (home_of s (msg_lock req)) (JiaAssert ''Incorrect home of condv!'')) (\<lambda>_.
     bindE (cv_at (msg_lock req)) (\<lambda>cv.
     let s = upd_cv cv (\<lambda>c. c\<lparr>cvvalue := 1\<rparr>) s
     in if 0 < waitc (condvars s cv) then grant_waiters cv s else Inr s)))"

definition resetcvserver :: "jia_msg \<Rightarrow> host \<Rightarrow> host res" where
  "resetcvserver req s = bindE (assertE (is_op req RESETCV \<and> topid req = jia_pid s)
       (JiaAssert ''Incorrect RESETCV Message!'')) (\<lambda>_.
     bindE (cv_at (msg_lock req)) (\<lambda>cv. Inr (upd_cv cv (\<lambda>c. c\<lparr>cvvalue := 0\<rparr>) s)))"

definition waitcvserver :: "jia_msg \<Rightarrow> host \<Rightarrow> host res" where
  "waitcvserver req s = bindE (assertE (is_op req WAITCV \<and> topid req = jia_pid s)
       (JiaAssert ''Incorrect WAITCV Message!'')) (\<lambda>_.
     bindE (cv_at (msg_lock req)) (\<lambda>cv.
     bindE (assertE (waitc (condvars s cv) < Maxhosts) (OutOfBounds ''waits'')) (\<lambda>_.
     let s = upd_cv cv (\<lambda>c. c\<lparr>waits := (waits c)(waitc c := int (frompid req)),
               waitc := waitc c + 1\<rparr>) s
     in if cvvalue (condvars s cv) = 1 then grant_waiters cv s else Inr s)))"

definition cvgrantserver :: "jia_msg \<Rightarrow> host \<Rightarrow> host res" where
  "cvgrantserver req s = bindE (assertE (is_op req CVGRANT \<and> topid req = jia_pid s)
     (JiaAssert ''Incorrect CVGRANT Message!'')) (\<lambda>_. Inr (s\<lparr>cvwait := 0\<rparr>))"

section \<open>Waiting for all hosts\<close>

definition waitserver :: "jia_msg \<Rightarrow> host \<Rightarrow> host res" where
  "waitserver req s = bindE (assertE (is_op req WAIT \<and> topid req = jia_pid s)
       (JiaAssert ''Incorrect WAIT Message!'')) (\<lambda>_.
     let s = s\<lparr>waitcounter := waitcounter s + 1\<rparr>
     in if waitcounter s = int (hostc s)
        then bindE (freemsg_lock s) (\<lambda>(k, s).
             bindE (broadcast k (set_slot k ((slot_msg (mbuf s ! k))\<lparr>frompid := jia_pid s, size := 0,
               op := op_num WAITGRANT\<rparr>) (s\<lparr>waitcounter := 0\<rparr>))) (\<lambda>s.
             Inr (freemsg_unlock k s)))
        else Inr s)"

definition waitgrantserver :: "jia_msg \<Rightarrow> host \<Rightarrow> host res" where
  "waitgrantserver req s = bindE (assertE (is_op req WAITGRANT \<and> topid req = jia_pid s)
     (JiaAssert ''Incorrect WAITGRANT Message!'')) (\<lambda>_. Inr (s\<lparr>waitwait := 0\<rparr>))"

section \<open>Invalidation\<close>

definition inv_page :: "nat \<Rightarrow> host \<Rightarrow> host res" where
  "inv_page ci s =
     (if c_state (cache s ci) \<noteq> INV
      then memprotect (c_addr (cache s ci)) Pagesize PROT_NONE
        (upd_cache ci (\<lambda>c. c\<lparr>c_twin := (if c_state c = RW then freetwin (c_twin c) else c_twin c),
           c_wtnt := 0, c_state := INV\<rparr>) s)
      else Inr s)"

text \<open>One notice: the page, the host that wrote it, the migration tag.\<close>

definition inv_notice :: "int \<Rightarrow> addr \<Rightarrow> nat \<Rightarrow> u32 \<Rightarrow> host \<Rightarrow> host res" where
  "inv_notice lock a modifyp migtag s = bindE (homehost s a) (\<lambda>homep.
     bindE (if modifyp \<noteq> jia_pid s \<and> homep \<noteq> jia_pid s
            then bindE (cachepage s a) (\<lambda>ci. if ci < Cachepages then inv_page ci s else Inr s)
            else Inr s) (\<lambda>s.
     bindE (if H_MIG s = ON \<and> lock = int hidelock \<and> modifyp \<noteq> Maxhosts \<and> migtag \<noteq> 0
            then bindE (homehost s a) (\<lambda>h. migpage a h modifyp s) else Inr s) (\<lambda>s.
     if AD_WD s = ON \<and> lock = int hidelock \<and> homep = jia_pid s \<and> modifyp \<noteq> jia_pid s
     then bindE (homepage s a) (\<lambda>hi. bindE (home_at s hi) (\<lambda>_.
          Inr (upd_home hi (\<lambda>h. h\<lparr>h_wtnt := h_wtnt h OR 4\<rparr>) s)))
     else Inr s)))"

definition inv_offsets :: "jia_msg \<Rightarrow> nat list" where
  "inv_offsets req = map (\<lambda>i. Intbytes + i * (Ptrbytes + 2 * Intbytes))
     [0..<(size req - Intbytes + (Ptrbytes + 2 * Intbytes) - 1) div (Ptrbytes + 2 * Intbytes)]"

definition invalidate :: "jia_msg \<Rightarrow> host \<Rightarrow> host res" where
  "invalidate req s = foldE (\<lambda>k. inv_notice (msg_lock req) (stol (data req) k)
       (unat (msg_int req (k + Ptrbytes))) (msg_int req (k + Ptrbytes + Intbytes)))
     (inv_offsets req) s"

definition invserver :: "jia_msg \<Rightarrow> host \<Rightarrow> host res" where
  "invserver req s = bindE (assertE (is_op req INVLD \<and> topid req = jia_pid s)
     (JiaAssert ''Incorrect INVLD Message!'')) (\<lambda>_. invalidate req s)"

section \<open>Locks\<close>

definition grant_first_acq :: "nat \<Rightarrow> host \<Rightarrow> host res" where
  "grant_first_acq l s = grantlock l (nat (acqs (locks s l) 0)) (acqscope (locks s l) 0) s"

definition acqserver :: "jia_msg \<Rightarrow> host \<Rightarrow> host res" where
  "acqserver req s = bindE (assertE (is_op req ACQ \<and> topid req = jia_pid s)
       (JiaAssert ''Incorrect ACQ message!'')) (\<lambda>_.
     bindE (assertE (home_of s (msg_lock req)) (JiaAssert ''Incorrect home of lock!'')) (\<lambda>_.
     bindE (lock_at s (msg_lock req)) (\<lambda>l.
     bindE (assertE (0 \<le> acqc (locks s l) \<and> acqc (locks s l) < int Maxhosts) (OutOfBounds ''acqs''))
       (\<lambda>_.
     let n = nat (acqc (locks s l));
         s = upd_lock l (\<lambda>k. k\<lparr>acqs := (acqs k)(n := int (frompid req)),
               acqscope := (acqscope k)(n := scope req), acqc := acqc k + 1\<rparr>) s
     in if acqc (locks s l) = 1 then grant_first_acq l s else Inr s))))"

definition relserver :: "jia_msg \<Rightarrow> host \<Rightarrow> host res" where
  "relserver req s = bindE (assertE (is_op req REL \<and> topid req = jia_pid s)
       (JiaAssert ''Incorrect REL Message!'')) (\<lambda>_.
     bindE (assertE (home_of s (msg_lock req)) (JiaAssert ''Incorrect home of lock!'')) (\<lambda>_.
     bindE (lock_at s (msg_lock req)) (\<lambda>l.
     bindE (assertE (int (frompid req) = acqs (locks s l) 0) (JiaAssert ''This should not have happened!''))
       (\<lambda>_.
     let s = (if scope req > myscope (locks s hidelock) then s\<lparr>noclearlocks := 1\<rparr> else s)
     in bindE (recordwtnts req s) (\<lambda>s.
        let s = upd_lock l (\<lambda>k. k\<lparr>lscope := lscope k + 1,
                  acqs := (\<lambda>i. if int i < acqc k - 1 then acqs k (i + 1) else acqs k i),
                  acqscope := (\<lambda>i. if int i < acqc k - 1 then acqscope k (i + 1) else acqscope k i),
                  acqc := acqc k - 1\<rparr>) s
        in if 0 < acqc (locks s l) then grant_first_acq l s else Inr s)))))"

definition acqgrantserver :: "jia_msg \<Rightarrow> host \<Rightarrow> host res" where
  "acqgrantserver req s = bindE (assertE (is_op req ACQGRANT \<and> topid req = jia_pid s)
       (JiaAssert ''Incorrect ACQGRANT Message!'')) (\<lambda>_.
     bindE (invalidate req s) (\<lambda>s.
     bindE (lock_at s (msg_lock req)) (\<lambda>l.
     Inr (upd_lock l (\<lambda>k. k\<lparr>myscope := scope req\<rparr>) s\<lparr>acqwait := 0\<rparr>))))"

section \<open>Barriers\<close>

definition barrserver :: "jia_msg \<Rightarrow> host \<Rightarrow> host res" where
  "barrserver req s = bindE (assertE (is_op req BARR \<and> topid req = jia_pid s)
       (JiaAssert ''Incorrect BARR Message!'')) (\<lambda>_.
     bindE (assertE (home_of s (msg_lock req)) (JiaAssert ''Incorrect home of lock!'')) (\<lambda>_.
     bindE (assertE (msg_lock req = int hidelock) (JiaAssert ''This should not have happened! 8''))
       (\<lambda>_.
     bindE (recordwtnts req s) (\<lambda>s.
     let s = upd_lock hidelock (\<lambda>k. k\<lparr>acqc := acqc k + 1\<rparr>) s
     in if acqc (locks s hidelock) = int (hostc s)
        then bindE (grantbarr hidelock (upd_lock hidelock (\<lambda>k. k\<lparr>lscope := lscope k + 1\<rparr>) s)) (\<lambda>s.
             bindE (freewtntspace (wtntp (locks s hidelock))) (\<lambda>w.
             Inr (upd_lock hidelock (\<lambda>k. k\<lparr>acqc := 0, wtntp := w\<rparr>) s)))
        else Inr s))))"

definition barrgrantserver :: "jia_msg \<Rightarrow> host \<Rightarrow> host res" where
  "barrgrantserver req s = bindE (assertE (is_op req BARRGRANT \<and> topid req = jia_pid s)
       (JiaAssert ''Incorrect BARRGRANT Message!'')) (\<lambda>_.
     bindE (if noclearlocks s = 0 then clearlocks s else Inr s) (\<lambda>s.
     bindE (invalidate req s) (\<lambda>s.
     bindE (if H_MIG s = ON then migarrangehome s else Inr s) (\<lambda>s.
     bindE (lock_at s (msg_lock req)) (\<lambda>l.
     Inr (upd_lock l (\<lambda>k. k\<lparr>myscope := scope req\<rparr>) s\<lparr>barrwait := 0, noclearlocks := 0\<rparr>))))))"

definition wtntserver :: "jia_msg \<Rightarrow> host \<Rightarrow> host res" where
  "wtntserver req s = bindE (assertE (is_op req WTNT \<and> topid req = jia_pid s)
       (JiaAssert ''Incorrect WTNT Message!'')) (\<lambda>_.
     bindE (assertE (home_of s (msg_lock req)) (JiaAssert ''Incorrect home of lock!'')) (\<lambda>_.
     recordwtnts req s))"

end
