(* ===== verification/Synuser.thy ===== *)
theory Synuser
  imports Synserver
begin

text \<open>
  The synchronisation calls of a program, \<open>src/src/syn/synuser.c\<close>. A call that waits for other
  threads takes what they do meanwhile as an argument; the accounting of computing time for load
  balancing is left out, as nothing here reads it.
\<close>

definition jia_lock :: "(host \<Rightarrow> host res) \<Rightarrow> (host \<Rightarrow> host res) \<Rightarrow> int \<Rightarrow> host \<Rightarrow> host res" where
  "jia_lock waitd waita lock s =
     (if hostc s = 1 then Inr s
      else bindE (assertE (0 \<le> lock \<and> lock < int Maxlocks) (JiaAssert ''lock out of range'')) (\<lambda>_.
           bindE (assertE (list_all (\<lambda>i. int (lockid (lockstack s i)) \<noteq> lock) [0..<nat (stackptr s + 1)])
             (JiaAssert ''Embeding of the same lock is not allowed!'')) (\<lambda>_.
           bindE (endinterval waitd ACQ s) (\<lambda>s.
           bindE (acquire (nat lock) (s\<lparr>acqwait := 1\<rparr>)) (\<lambda>s.
           bindE (wait_until (\<lambda>s. acqwait s = 0) waita ''acqwait'' s) (\<lambda>s.
           bindE (startinterval ACQ s) (pushstack (nat lock))))))))"

definition jia_unlock :: "(host \<Rightarrow> host res) \<Rightarrow> int \<Rightarrow> host \<Rightarrow> host res" where
  "jia_unlock waitd lock s =
     (if hostc s = 1 then Inr s
      else bindE (assertE (0 \<le> lock \<and> lock < int Maxlocks) (JiaAssert ''lock out of range'')) (\<lambda>_.
           bindE (top_at s) (\<lambda>t.
           bindE (assertE (lock = int (lockid (lockstack s t)))
             (JiaAssert ''lock and unlock should be used in pair!'')) (\<lambda>_.
           bindE (endinterval waitd REL s) (\<lambda>s.
           bindE (sendwtnts REL s) (\<lambda>s.
           bindE (startinterval REL s) popstack))))))"

definition wait_send :: "host \<Rightarrow> host res" where
  "wait_send s = with_slot (\<lambda>req. Inr (req\<lparr>frompid := jia_pid s, topid := 0, op := op_num WAIT,
     size := 0\<rparr>)) (s\<lparr>waitwait := 1\<rparr>)"

definition jia_wait :: "(host \<Rightarrow> host res) \<Rightarrow> host \<Rightarrow> host res" where
  "jia_wait waitw s =
     (if hostc s = 1 then Inr s
      else bindE (wait_send s) (wait_until (\<lambda>s. waitwait s = 0) waitw ''waitwait''))"

definition jia_barrier ::
  "(host \<Rightarrow> host res) \<Rightarrow> (host \<Rightarrow> host res) \<Rightarrow> (host \<Rightarrow> host res) \<Rightarrow> host \<Rightarrow> host res" where
  "jia_barrier waitd waitb waitw s =
     (if hostc s = 1 then Inr s
      else bindE (assertE (stackptr s = 0) (JiaAssert ''barrier can not be used in CS!'')) (\<lambda>_.
           bindE (endinterval waitd BARR s) (\<lambda>s.
           bindE (if H_MIG s = ON then migcheckcache s else Inr s) (\<lambda>s.
           bindE (sendwtnts BARR (s\<lparr>barrwait := 1\<rparr>)) (\<lambda>s.
           bindE (top_at s) (\<lambda>t.
           bindE (freewtntspace (swtntp (lockstack s t))) (\<lambda>w.
           bindE (wait_until (\<lambda>s. barrwait s = 0) waitb ''barrwait'' (set_top_wtnt t w s)) (\<lambda>s.
           bindE (if H_MIG s = ON \<and> W_VEC s = ON then jia_wait waitw s else Inr s)
             (startinterval BARR)))))))))"

text \<open>The messages of \<open>jia_setcv\<close>, \<open>jia_resetcv\<close> and \<open>jia_waitcv\<close>.\<close>

definition cv_send :: "msg_op \<Rightarrow> int \<Rightarrow> host \<Rightarrow> host res" where
  "cv_send x cvnum s = bindE (assertE (0 \<le> cvnum \<and> cvnum < int Maxcvs) (JiaAssert ''condv out of range''))
     (\<lambda>_. with_slot (\<lambda>req. appendmsg (req\<lparr>op := op_num x, frompid := jia_pid s,
        topid := nat cvnum mod hostc s, size := 0\<rparr>) (itob (word_of_int cvnum))) s)"

definition jia_setcv :: "int \<Rightarrow> host \<Rightarrow> host res" where
  "jia_setcv cvnum s = (if hostc s = 1 then Inr s else cv_send SETCV cvnum s)"

definition jia_resetcv :: "int \<Rightarrow> host \<Rightarrow> host res" where
  "jia_resetcv cvnum s = (if hostc s = 1 then Inr s else cv_send RESETCV cvnum s)"

definition jia_waitcv :: "(host \<Rightarrow> host res) \<Rightarrow> int \<Rightarrow> host \<Rightarrow> host res" where
  "jia_waitcv waitv cvnum s =
     (if hostc s = 1 then Inr s
      else bindE (cv_send WAITCV cvnum (s\<lparr>cvwait := 1\<rparr>)) (wait_until (\<lambda>s. cvwait s = 0) waitv ''cvwait''))"

end
