(* ===== verification/Notices.thy ===== *)
theory Notices
  imports Synuser
begin

text \<open>
  What the messages of notices carry: the grant of a lock holds the lock number and the notices
  that are newer than the acquirer's scope and not of pages at its home; a release records its
  notices in the chain of the lock.
\<close>

section \<open>What a message of notices carries\<close>

definition notice_bytes :: "wtnt_entry \<Rightarrow> u8 list" where
  "notice_bytes e = ltob (wtnt_addr e) @ itob (word_of_nat (wtnt_from e)) @ itob (wtnt_mig e)"

lemma length_notice_bytes [simp]: "length (notice_bytes e) = 16"
  by (simp add: notice_bytes_def)

lemma append_notice_ok:
  assumes "size m + 16 \<le> Maxmsgsize"
  shows "\<exists>m'. append_notice e m = Inr m' \<and> extends m (notice_bytes e) m'"
proof -
  obtain m1 where m1: "appendmsg m (ltob (wtnt_addr e)) = Inr m1" "extends m (ltob (wtnt_addr e)) m1"
    using appendmsg_extends [of m "ltob (wtnt_addr e)"] assms by auto
  obtain m2 where m2: "appendmsg m1 (itob (word_of_nat (wtnt_from e))) = Inr m2"
    "extends m1 (itob (word_of_nat (wtnt_from e))) m2"
    using appendmsg_extends [of m1 "itob (word_of_nat (wtnt_from e))"] assms extends_size [OF m1(2)] by auto
  obtain m3 where m3: "appendmsg m2 (itob (wtnt_mig e)) = Inr m3" "extends m2 (itob (wtnt_mig e)) m3"
    using appendmsg_extends [of m2 "itob (wtnt_mig e)"] assms extends_size [OF m1(2)]
      extends_size [OF m2(2)] by auto
  have "extends m (ltob (wtnt_addr e) @ itob (word_of_nat (wtnt_from e)) @ itob (wtnt_mig e)) m3"
    by (rule extends_trans [OF m1(2) extends_trans [OF m2(2) m3(2)]])
  then show ?thesis using m1(1) m2(1) m3(1) by (simp add: append_notice_def notice_bytes_def)
qed

text \<open>The notices that go to \<open>p\<close>, whose last scope of the lock is \<open>sc\<close>.\<close>

definition wanted :: "host \<Rightarrow> u32 \<Rightarrow> nat \<Rightarrow> wtnt_entry \<Rightarrow> bool" where
  "wanted s sc p e \<longleftrightarrow> sint sc < sint (wtnt_scope e) \<and> homepid (page s (pagei s (wtnt_addr e))) \<noteq> p"

lemma append_lock_notices:
  assumes "\<forall>e\<in>set es. pagei s (wtnt_addr e) < Maxmempages" "size m + 16 * length es \<le> Maxmsgsize"
  shows "\<exists>m'. foldE (append_lock_notice s sc) es m = Inr m' \<and>
    extends m (concat (map notice_bytes (filter (wanted s sc (topid m)) es))) m'"
  using assms
proof (induction es arbitrary: m)
  case Nil
  then show ?case by (simp add: extends_refl)
next
  case (Cons e es)
  have h: "homehost s (wtnt_addr e) = Inr (homepid (page s (pagei s (wtnt_addr e))))"
    using Cons.prems(1) by (simp add: homehost_def page_at_def)
  obtain m1 where m1: "append_lock_notice s sc e m = Inr m1"
    "extends m (if wanted s sc (topid m) e then notice_bytes e else []) m1"
    using append_notice_ok [of m e] Cons.prems(2) h
    by (cases "wanted s sc (topid m) e") (auto simp: append_lock_notice_def wanted_def extends_refl)
  have sz: "size m1 + 16 * length es \<le> Maxmsgsize" "topid m1 = topid m"
    using Cons.prems(2) m1(2) by (auto simp: extends_def split: if_splits)
  obtain m2 where m2: "foldE (append_lock_notice s sc) es m1 = Inr m2"
    "extends m1 (concat (map notice_bytes (filter (wanted s sc (topid m)) es))) m2"
    using Cons.IH [of m1] Cons.prems(1) sz by auto
  show ?case using m1 m2 extends_trans [OF m1(2) m2(2)] by (auto split: if_splits)
qed

lemma appendlockwtnts_all:
  assumes "\<forall>e\<in>set (concat w). pagei s (wtnt_addr e) < Maxmempages"
    "size m + 16 * length (concat w) + 16 \<le> Maxmsgsize"
  shows "\<exists>m'. appendlockwtnts s sc m w = Inr (m', []) \<and>
    extends m (concat (map notice_bytes (filter (wanted s sc (topid m)) (concat w)))) m'"
  using assms
proof (induction w arbitrary: m)
  case Nil
  then show ?case by (simp add: appendlockwtnts_def extends_refl)
next
  case (Cons node w)
  let ?b = "\<lambda>es. concat (map notice_bytes (filter (wanted s sc (topid m)) es))"
  obtain m1 where m1: "foldE (append_lock_notice s sc) node m = Inr m1" "extends m (?b node) m1"
    using append_lock_notices [of node s m sc] Cons.prems by auto
  have bl: "length (?b es) \<le> 16 * length es" for es by (induction es) auto
  have "size m1 + 16 * length (concat w) + 16 \<le> Maxmsgsize" "topid m1 = topid m"
    using Cons.prems(2) m1(2) bl [of node] by (auto simp: extends_def)
  then obtain m2 where m2: "appendlockwtnts s sc m1 w = Inr (m2, [])" "extends m1 (?b (concat w)) m2"
    using Cons.IH [of m1] Cons.prems(1) by auto
  have "size m + (2 * Intbytes + length node * Ptrbytes) < Maxmsgsize"
    using Cons.prems(2) by (simp add: msg_consts)
  then have "appendlockwtnts s sc m (node # w) = Inr (m2, [])"
    using m1(1) m2(1) by (simp add: appendlockwtnts_def)
  then show ?case using extends_trans [OF m1(2) m2(2)] by simp
qed

section \<open>Granting a lock\<close>

lemma sint_small: "l < 2 ^ 31 \<Longrightarrow> sint (word_of_nat l :: u32) = int l"
  by (simp add: signed_of_nat signed_take_bit_int_eq_self)

lemma msg_lock_payload:
  assumes "payload m = itob (word_of_nat l) @ bs" "l < 2 ^ 31"
  shows "msg_lock m = int l"
proof -
  have "size m = 4 + length bs" using payload_size [OF assms(1)] by simp
  then have "bslice (data m) 0 4 @ bslice (data m) 4 (length bs) = itob (word_of_nat l) @ bs"
    using assms(1) unfolding payload_def by (simp only: bslice_append add_0)
  then have "bslice (data m) 0 4 = itob (word_of_nat l)" by simp
  then have "bytestoi (data m) 0 = word_of_nat l" by (rule bytestoi_bslice)
  then show ?thesis using sint_small [OF assms(2)] by (simp add: msg_lock_def msg_int_bytestoi)
qed

lemma grantlock_run:
  assumes "mbuf_inv s" "0 < mcount s" "l < 2 ^ 31"
    "\<forall>e\<in>set (concat (wtntp (locks s l))). pagei s (wtnt_addr e) < Maxmempages"
    "length (concat (wtntp (locks s l))) \<le> 2555"
  shows "\<exists>m b. grantlock l p sc s = Inr (s\<lparr>mbuf := b, outq := outq s @ [m]\<rparr>) \<and>
    is_op m ACQGRANT \<and> frompid m = jia_pid s \<and> topid m = p \<and> scope m = lscope (locks s l) \<and>
    payload m = itob (word_of_nat l) @
      concat (map notice_bytes (filter (wanted s sc p) (concat (wtntp (locks s l))))) \<and>
    msg_lock m = int l \<and> length b = length (mbuf s) \<and> free_slots b = mcount s"
proof -
  let ?w = "wtntp (locks s l)"
  obtain k s1 where lk: "freemsg_lock s = Inr (k, s1)" using freemsg_lock_total assms(1,2) by blast
  note u = freemsg_lock_inv [OF lk assms(1)]
  obtain c b where s1: "s1 = s\<lparr>mcount := c, mbuf := b\<rparr>"
    using lk by (auto simp: freemsg_lock_def split: if_splits option.splits)
  let ?m0 = "(slot_msg (mbuf s1 ! k))\<lparr>frompid := jia_pid s, topid := p, scope := lscope (locks s l),
    size := 0\<rparr>"
  obtain m1 where m1: "appendmsg ?m0 (itob (word_of_nat l)) = Inr m1" "extends ?m0 (itob (word_of_nat l)) m1"
    using appendmsg_extends [of ?m0 "itob (word_of_nat l)"] by (auto simp: Maxmsgsize_eq)
  have sz: "size m1 = 4" "topid m1 = p" using m1(2) by (simp_all add: extends_def)
  obtain m2 where m2: "appendlockwtnts s sc m1 ?w = Inr (m2, [])"
    "extends m1 (concat (map notice_bytes (filter (wanted s sc p) (concat ?w)))) m2"
    using appendlockwtnts_all [OF assms(4), of m1 sc] assms(5) sz by (auto simp: Maxmsgsize_eq)
  let ?m = "m2\<lparr>op := op_num ACQGRANT\<rparr>"
  let ?s2 = "move_msg_to_outqueue k (set_slot k ?m (set_slot k m2 s1))"
  let ?s3 = "freemsg_unlock k ?s2"
  have k: "k < length (mbuf s1)" by (rule u(2))
  have run: "grantlock l p sc s = Inr ?s3"
    using lk m1(1) m2(1) k
    by (simp add: grantlock_def send_notices_def send_rest.simps WNULL_def send_slot_def)
  have "mbuf_inv ?s2" using set_slot_inv [OF set_slot_inv [OF u(1) k], of k] k by (simp add: mbuf_inv_def)
  then have inv: "mbuf_inv ?s3" by (rule freemsg_unlock_inv) (use u in simp_all)
  have eq: "?s3 = s\<lparr>mbuf := mbuf ?s3, outq := outq s @ [?m]\<rparr>"
    using u(4) k by (simp add: freemsg_unlock_def move_msg_to_outqueue_def set_slot_def s1)
  have len: "length (mbuf ?s3) = length (mbuf s)" "mcount ?s3 = mcount s"
    using u(4,5) by (simp_all add: freemsg_unlock_def move_msg_to_outqueue_def set_slot_def)
  have pay: "payload ?m = itob (word_of_nat l) @
      concat (map notice_bytes (filter (wanted s sc p) (concat ?w)))"
  proof -
    have "payload (m\<lparr>size := 0\<rparr>) = []" for m by (simp add: payload_def)
    then have "payload m2 = itob (word_of_nat l) @
        concat (map notice_bytes (filter (wanted s sc p) (concat ?w)))"
      using extends_trans [OF m1(2) m2(2)] by (simp only: extends_def append_Nil)
    then show ?thesis by (simp add: payload_def)
  qed
  have "frompid ?m = jia_pid s \<and> topid ?m = p \<and> scope ?m = lscope (locks s l)"
    using extends_trans [OF m1(2) m2(2)] by (simp add: extends_def)
  then show ?thesis
    using run eq pay msg_lock_payload [OF pay assms(3)] len inv
    by (intro exI [of _ ?m] exI [of _ "mbuf ?s3"]) (simp add: is_op_def mbuf_inv_def)
qed

section \<open>Recording the notices of a release\<close>

definition set_lock_wtnt :: "nat \<Rightarrow> wtnt \<Rightarrow> host \<Rightarrow> host" where
  "set_lock_wtnt l w s = upd_lock l (\<lambda>k. k\<lparr>wtntp := w\<rparr>) s"

lemma record_loop:
  "foldE (\<lambda>x s. bindE (savewtnt (wtntp (locks s l)) (f x) (g x) pid (lscope (locks s l))) (\<lambda>w.
      Inr (upd_lock l (\<lambda>l. l\<lparr>wtntp := w\<rparr>) s))) xs s =
   bindE (foldE (\<lambda>x w. savewtnt w (f x) (g x) pid (lscope (locks s l))) xs (wtntp (locks s l)))
     (\<lambda>w. Inr (if xs = [] then s else set_lock_wtnt l w s))"
proof (induction xs arbitrary: s)
  case (Cons x xs)
  show ?case
  proof (cases "savewtnt (wtntp (locks s l)) (f x) (g x) pid (lscope (locks s l))")
    case (Inr w)
    have "set_lock_wtnt l v (set_lock_wtnt l w s) = set_lock_wtnt l v s" for v
      by (simp add: set_lock_wtnt_def upd_lock_def)
    then show ?thesis
      using Inr Cons.IH [of "set_lock_wtnt l w s"]
      by (cases xs) (simp_all add: set_lock_wtnt_def upd_lock_def)
  qed simp
qed simp

lemma recordwtnts_run:
  assumes "msg_lock req = int l" "l \<le> Maxlocks" "wtnt_inv (wtntp (locks s l))"
  shows "\<exists>w. recordwtnts req s = Inr (set_lock_wtnt l w s) \<and> wtnt_inv w \<and>
    dom (notices w) = dom (notices (wtntp (locks s l))) \<union>
      (\<lambda>k. pageno (stol (data req) k)) ` set (record_offsets req)"
proof -
  let ?f = "\<lambda>k. stol (data req) k" and ?w0 = "wtntp (locks s l)"
  have lk: "lock_at s (sint (msg_int req 0)) = Inr l"
    using assms(1,2) by (simp add: lock_at_def msg_lock_def)
  obtain w where w: "foldE (\<lambda>x w. savewtnt w (?f x) (ucast (?f x)) (frompid req) (lscope (locks s l)))
      (record_offsets req) ?w0 = Inr w"
    using wn.save_all [OF assms(3), where addr = ?f and mig = "\<lambda>x. ucast (?f x)" and
        src = "\<lambda>_. frompid req" and scp = "\<lambda>_. lscope (locks s l)" and xs = "record_offsets req"]
    by blast
  note d = wn.save_all_dom [OF assms(3) w]
  have "set_lock_wtnt l ?w0 s = s" by (simp add: set_lock_wtnt_def upd_lock_def)
  then have "recordwtnts req s = Inr (set_lock_wtnt l w s)"
    using w unfolding recordwtnts_def lk record_loop by auto
  then show ?thesis using d by (auto simp: comp_def)
qed

lemma entries_count: "wtnt_inv w \<Longrightarrow> length (concat w) = card (dom (notices w))"
  using distinct_card [of "map (pageno \<circ> wtnt_addr) (entries w)"]
  unfolding dom_notices wtnt_inv_def by (simp only: length_map entries_def)

end
