(* ===== verification/Lockq.thy ===== *)
theory Lockq
  imports Notices
begin

text \<open>
  The queue of a lock: \<open>acqserver\<close> and \<open>relserver\<close> at the host that manages a lock implement a
  FIFO queue of hosts whose first is the holder. The interface \<open>lock_server\<close> states what the two
  handlers promise; mutual exclusion and the order of grants are proved on it once.
\<close>

section \<open>The interface of a lock\<close>

datatype 'm lock_event = Acq 'm | Rel 'm

text \<open>The manager's handler of each of the two requests.\<close>

fun handle :: "('m \<Rightarrow> 's \<Rightarrow> 's res) \<Rightarrow> ('m \<Rightarrow> 's \<Rightarrow> 's res) \<Rightarrow> 'm lock_event \<Rightarrow> 's \<Rightarrow> 's res" where
  "handle acq rel (Acq m) s = acq m s"
| "handle acq rel (Rel m) s = rel m s"

text \<open>
  What clients do: a host asks for the lock only while it neither waits for it nor holds it, and
  only the holder, the first in the queue, releases it.
\<close>

fun client_ok :: "('m \<Rightarrow> bool) \<Rightarrow> ('m \<Rightarrow> bool) \<Rightarrow> ('m \<Rightarrow> nat) \<Rightarrow> 'm lock_event \<Rightarrow> nat list \<Rightarrow> bool" where
  "client_ok acq_msg rel_msg sender (Acq m) q \<longleftrightarrow> acq_msg m \<and> sender m \<notin> set q"
| "client_ok acq_msg rel_msg sender (Rel m) q \<longleftrightarrow> rel_msg m \<and> q \<noteq> [] \<and> hd q = sender m"

fun after :: "('m \<Rightarrow> nat) \<Rightarrow> 'm lock_event \<Rightarrow> nat list \<Rightarrow> nat list" where
  "after sender (Acq m) q = q @ [sender m]"
| "after sender (Rel m) q = tl q"

fun clients_ok :: "('m \<Rightarrow> bool) \<Rightarrow> ('m \<Rightarrow> bool) \<Rightarrow> ('m \<Rightarrow> nat) \<Rightarrow> 'm lock_event list \<Rightarrow> nat list \<Rightarrow> bool" where
  "clients_ok am rm sender [] q \<longleftrightarrow> True"
| "clients_ok am rm sender (e # es) q \<longleftrightarrow>
     client_ok am rm sender e q \<and> clients_ok am rm sender es (after sender e q)"

text \<open>The hosts that ask and the hosts that release, in order.\<close>

definition requested :: "('m \<Rightarrow> nat) \<Rightarrow> 'm lock_event list \<Rightarrow> nat list" where
  "requested sender es = concat (map (\<lambda>e. case e of Acq m \<Rightarrow> [sender m] | Rel m \<Rightarrow> []) es)"

definition released :: "('m \<Rightarrow> nat) \<Rightarrow> 'm lock_event list \<Rightarrow> nat list" where
  "released sender es = concat (map (\<lambda>e. case e of Acq m \<Rightarrow> [] | Rel m \<Rightarrow> [sender m]) es)"

locale lock_server =
  fixes queue :: "'s \<Rightarrow> nat list"
    and grants :: "'s \<Rightarrow> nat list"
    and inv :: "'s \<Rightarrow> bool"
    and acq :: "'m \<Rightarrow> 's \<Rightarrow> 's res"
    and rel :: "'m \<Rightarrow> 's \<Rightarrow> 's res"
    and acq_msg :: "'m \<Rightarrow> bool"
    and rel_msg :: "'m \<Rightarrow> bool"
    and sender :: "'m \<Rightarrow> nat"
  assumes acq_ok: "inv s \<Longrightarrow> acq_msg m \<Longrightarrow> sender m \<notin> set (queue s) \<Longrightarrow>
      \<exists>s'. acq m s = Inr s' \<and> inv s' \<and> queue s' = queue s @ [sender m] \<and>
        grants s' = grants s @ (if queue s = [] then [sender m] else [])"
    and rel_ok: "inv s \<Longrightarrow> rel_msg m \<Longrightarrow> queue s = sender m # ps \<Longrightarrow>
      \<exists>s'. rel m s = Inr s' \<and> inv s' \<and> queue s' = ps \<and> grants s' = grants s @ take 1 ps"
begin

lemma handle_ok:
  assumes "inv s" "client_ok acq_msg rel_msg sender e (queue s)"
  shows "\<exists>s'. handle acq rel e s = Inr s' \<and> inv s' \<and> queue s' = after sender e (queue s) \<and>
    grants s' = grants s @ (case e of Acq m \<Rightarrow> if queue s = [] then [sender m] else []
                            | Rel m \<Rightarrow> take 1 (tl (queue s)))"
proof (cases e)
  case (Acq m)
  then show ?thesis using acq_ok [of s m] assms by simp
next
  case (Rel m)
  then have "queue s = sender m # tl (queue s)" using assms(2) by (cases "queue s") auto
  then show ?thesis using rel_ok [of s m "tl (queue s)"] assms Rel by simp
qed

text \<open>
  No request fails, grants follow the order of the requests, and at any time the hosts granted
  are those that have released and at most one more, the head of the queue.
\<close>

lemma fifo_mutex:
  assumes "inv s" "clients_ok acq_msg rel_msg sender es (queue s)"
  shows "\<exists>s'. foldE (handle acq rel) es s = Inr s' \<and> inv s' \<and>
    (\<exists>g. grants s' = grants s @ g \<and> queue s @ requested sender es = take 1 (queue s) @ g @ tl (queue s') \<and>
       take 1 (queue s) @ g = released sender es @ take 1 (queue s'))"
  using assms
proof (induction es arbitrary: s)
  case Nil
  have "queue s = take 1 (queue s) @ tl (queue s)" by (cases "queue s") simp_all
  then show ?case using Nil by (simp add: requested_def released_def)
next
  case (Cons e es)
  obtain s1 where s1: "handle acq rel e s = Inr s1" "inv s1" "queue s1 = after sender e (queue s)"
    "grants s1 = grants s @ (case e of Acq m \<Rightarrow> if queue s = [] then [sender m] else []
                            | Rel m \<Rightarrow> take 1 (tl (queue s)))"
    using handle_ok [of s e] Cons.prems by auto
  obtain s' g where s': "foldE (handle acq rel) es s1 = Inr s'" "inv s'" "grants s' = grants s1 @ g"
    "queue s1 @ requested sender es = take 1 (queue s1) @ g @ tl (queue s')"
    "take 1 (queue s1) @ g = released sender es @ take 1 (queue s')"
    using Cons.IH [of s1] s1 Cons.prems by auto
  have "\<exists>g. grants s' = grants s @ g \<and>
      queue s @ requested sender (e # es) = take 1 (queue s) @ g @ tl (queue s') \<and>
      take 1 (queue s) @ g = released sender (e # es) @ take 1 (queue s')"
  proof (cases e)
    case (Acq m)
    then show ?thesis
      using s1(3,4) s'(3-5) by (cases "queue s") (auto simp: requested_def released_def)
  next
    case (Rel m)
    then obtain ps where "queue s = sender m # ps" using Cons.prems(2) by (cases "queue s") auto
    then show ?thesis
      using Rel s1(3,4) s'(3-5)
      by (intro exI [of _ "take 1 ps @ g"]) (auto simp: requested_def released_def)
  qed
  then show ?case using s1(1) s'(1,2) by auto
qed

end

section \<open>The lock managers of the program\<close>

definition lock_queue :: "nat \<Rightarrow> host \<Rightarrow> nat list" where
  "lock_queue l s = map (\<lambda>i. nat (acqs (locks s l) i)) [0..<nat (acqc (locks s l))]"

text \<open>The hosts that were sent the grant of lock \<open>l\<close>, in order.\<close>

definition lock_grants :: "nat \<Rightarrow> host \<Rightarrow> nat list" where
  "lock_grants l s = map topid (filter (\<lambda>m. is_op m ACQGRANT \<and> msg_lock m = int l) (outq s))"

text \<open>
  The invariant of the manager of lock \<open>l\<close>: it is the lock's home, the queue is within the array,
  no host is in it twice, the notices of the lock are of the shared pages \<open>P\<close> and fit one message,
  and there is a free message slot.
\<close>

definition lock_inv :: "nat \<Rightarrow> nat set \<Rightarrow> host \<Rightarrow> bool" where
  "lock_inv l P s \<longleftrightarrow> l < Maxlocks \<and> l mod hostc s = jia_pid s \<and>
     0 \<le> acqc (locks s l) \<and> (\<forall>i<nat (acqc (locks s l)). 0 \<le> acqs (locks s l) i) \<and>
     distinct (lock_queue l s) \<and> set (lock_queue l s) \<subseteq> {..<Maxhosts} \<and>
     wtnt_inv (wtntp (locks s l)) \<and> dom (notices (wtntp (locks s l))) \<subseteq> P \<and> finite P \<and> card P \<le> 2555 \<and>
     (\<forall>a. pageno a \<in> P \<longrightarrow> pagei s a < Maxmempages) \<and> mbuf_inv s \<and> 0 < mcount s"

definition acq_msg_ok :: "nat \<Rightarrow> nat \<Rightarrow> jia_msg \<Rightarrow> bool" where
  "acq_msg_ok l pid m \<longleftrightarrow> is_op m ACQ \<and> topid m = pid \<and> msg_lock m = int l \<and> frompid m < Maxhosts"

definition rel_msg_ok :: "nat \<Rightarrow> nat \<Rightarrow> nat set \<Rightarrow> jia_msg \<Rightarrow> bool" where
  "rel_msg_ok l pid P m \<longleftrightarrow> is_op m REL \<and> topid m = pid \<and> msg_lock m = int l \<and>
     (\<forall>k\<in>set (record_offsets m). pageno (stol (data m) k) \<in> P)"

lemma lock_home: "lock_inv l P s \<Longrightarrow> home_of s (int l) \<and> lock_at s (int l) = Inr l"
  by (simp add: lock_inv_def home_of_def lock_at_def)

lemma lock_notices_ok:
  assumes "lock_inv l P s"
  shows "\<forall>e\<in>set (concat (wtntp (locks s l))). pagei s (wtnt_addr e) < Maxmempages"
    "length (concat (wtntp (locks s l))) \<le> 2555"
proof -
  have d: "dom (notices (wtntp (locks s l))) \<subseteq> P" "finite P" "card P \<le> 2555" "wtnt_inv (wtntp (locks s l))"
    "\<forall>a. pageno a \<in> P \<longrightarrow> pagei s a < Maxmempages"
    using assms by (auto simp: lock_inv_def)
  show "length (concat (wtntp (locks s l))) \<le> 2555"
    using entries_count [OF d(4)] card_mono [OF d(2,1)] d(3) by simp
  have "pageno (wtnt_addr e) \<in> P" if "e \<in> set (concat (wtntp (locks s l)))" for e
    using that d(1) unfolding dom_notices entries_def by auto
  then show "\<forall>e\<in>set (concat (wtntp (locks s l))). pagei s (wtnt_addr e) < Maxmempages"
    using d(5) by blast
qed

lemma grant_first_run:
  assumes "lock_inv l P s" "lock_queue l s = p # ps"
  shows "\<exists>m b. grant_first_acq l s = Inr (s\<lparr>mbuf := b, outq := outq s @ [m]\<rparr>) \<and>
    lock_inv l P (s\<lparr>mbuf := b, outq := outq s @ [m]\<rparr>) \<and> is_op m ACQGRANT \<and> topid m = p \<and>
    msg_lock m = int l"
proof -
  have p: "nat (acqs (locks s l) 0) = p"
    using assms(2) by (cases "nat (acqc (locks s l))")
      (auto simp: lock_queue_def map_upt_Suc simp del: upt_Suc)
  have "mbuf_inv s" "0 < mcount s" "l < 2 ^ 31"
    using assms(1) by (auto simp: lock_inv_def Maxlocks_def)
  from grantlock_run [OF this lock_notices_ok [OF assms(1)], of p "acqscope (locks s l) 0"]
  obtain m b where g: "grant_first_acq l s = Inr (s\<lparr>mbuf := b, outq := outq s @ [m]\<rparr>)"
    "is_op m ACQGRANT" "topid m = p" "msg_lock m = int l" "length b = length (mbuf s)"
    "free_slots b = mcount s"
    unfolding grant_first_acq_def p by blast
  then have "lock_inv l P (s\<lparr>mbuf := b, outq := outq s @ [m]\<rparr>)"
    using assms(1) by (simp add: lock_inv_def lock_queue_def mbuf_inv_def pagei_def)
  then show ?thesis using g by blast
qed

lemma lock_queue_length: "length (lock_queue l s) = nat (acqc (locks s l))"
  by (simp add: lock_queue_def)

lemma acqserver_run:
  assumes "lock_inv l P s" "acq_msg_ok l (jia_pid s) m" "frompid m \<notin> set (lock_queue l s)"
  shows "\<exists>s'. acqserver m s = Inr s' \<and> lock_inv l P s' \<and> jia_pid s' = jia_pid s \<and>
    lock_queue l s' = lock_queue l s @ [frompid m] \<and>
    lock_grants l s' = lock_grants l s @ (if lock_queue l s = [] then [frompid m] else [])"
proof -
  let ?n = "nat (acqc (locks s l))"
  let ?s = "upd_lock l (\<lambda>k. k\<lparr>acqs := (acqs k)(?n := int (frompid m)),
     acqscope := (acqscope k)(?n := scope m), acqc := acqc k + 1\<rparr>) s"
  have i: "0 \<le> acqc (locks s l)" "distinct (lock_queue l s)" "set (lock_queue l s) \<subseteq> {..<Maxhosts}"
    using assms(1) by (auto simp: lock_inv_def)
  have "frompid m \<in> {..<Maxhosts}" using assms(2) by (simp add: acq_msg_ok_def)
  then have "set (frompid m # lock_queue l s) \<subseteq> {..<Maxhosts}" using i(3) by simp
  then have "card (set (frompid m # lock_queue l s)) \<le> Maxhosts" by (metis card_lessThan card_mono finite_lessThan)
  then have room: "acqc (locks s l) < int Maxhosts"
    using distinct_card [of "frompid m # lock_queue l s"] i(2) assms(3) i(1) lock_queue_length [of l s] by simp
  have q: "lock_queue l ?s = lock_queue l s @ [frompid m]"
    using i(1) by (simp add: lock_queue_def upd_lock_def nat_add_distrib)
  have inv: "lock_inv l P ?s"
    using assms i(1) q unfolding lock_inv_def q
    by (auto simp: upd_lock_def mbuf_inv_def pagei_def acq_msg_ok_def nat_add_distrib less_Suc_eq)
  have one: "acqc (locks ?s l) = 1 \<longleftrightarrow> lock_queue l s = []"
    using i(1) lock_queue_length [of l s] by (auto simp: upd_lock_def)
  have run: "acqserver m s = (if acqc (locks ?s l) = 1 then grant_first_acq l ?s else Inr ?s)"
    using assms(2) lock_home [OF assms(1)] room i(1) by (simp add: acqserver_def acq_msg_ok_def Let_def)
  show ?thesis
  proof (cases "lock_queue l s = []")
    case True
    then obtain x b where g: "grant_first_acq l ?s = Inr (?s\<lparr>mbuf := b, outq := outq ?s @ [x]\<rparr>)"
      "lock_inv l P (?s\<lparr>mbuf := b, outq := outq ?s @ [x]\<rparr>)" "is_op x ACQGRANT" "topid x = frompid m"
      "msg_lock x = int l"
      using grant_first_run [OF inv, of "frompid m" "[]"] q by auto
    then have "acqserver m s = Inr (?s\<lparr>mbuf := b, outq := outq ?s @ [x]\<rparr>)" using run one True by simp
    moreover have "lock_queue l (?s\<lparr>mbuf := b, outq := outq ?s @ [x]\<rparr>) = lock_queue l ?s"
      by (simp add: lock_queue_def)
    ultimately show ?thesis using g q True by (auto simp: lock_grants_def upd_lock_def)
  next
    case False
    then show ?thesis using run one inv q by (auto simp: lock_grants_def upd_lock_def)
  qed
qed

lemma relserver_run:
  assumes "lock_inv l P s" "rel_msg_ok l (jia_pid s) P m" "lock_queue l s = frompid m # ps"
  shows "\<exists>s'. relserver m s = Inr s' \<and> lock_inv l P s' \<and> jia_pid s' = jia_pid s \<and>
    lock_queue l s' = ps \<and> lock_grants l s' = lock_grants l s @ take 1 ps"
proof -
  obtain s0 where s0: "s0 = (if scope m > myscope (locks s hidelock) then s\<lparr>noclearlocks := 1\<rparr> else s)"
    by simp
  then have k0: "locks s0 = locks s" "jia_pid s0 = jia_pid s" "hostc s0 = hostc s" "mbuf s0 = mbuf s"
    "mcount s0 = mcount s" "global_start_addr s0 = global_start_addr s" "outq s0 = outq s"
    by simp_all
  have i: "0 \<le> acqc (locks s l)" "wtnt_inv (wtntp (locks s l))" "l \<le> Maxlocks"
    "\<forall>i<nat (acqc (locks s l)). 0 \<le> acqs (locks s l) i" "distinct (frompid m # ps)"
    "set (frompid m # ps) \<subseteq> {..<Maxhosts}" "dom (notices (wtntp (locks s l))) \<subseteq> P"
    using assms(1) unfolding lock_inv_def assms(3) by auto
  obtain w where w: "recordwtnts m s0 = Inr (set_lock_wtnt l w s0)" "wtnt_inv w"
    "dom (notices w) = dom (notices (wtntp (locks s l))) \<union>
      (\<lambda>k. pageno (stol (data m) k)) ` set (record_offsets m)"
    using recordwtnts_run [of m l s0] assms(2) i(2,3) by (auto simp: rel_msg_ok_def k0)
  let ?shift = "\<lambda>k. k\<lparr>lscope := lscope k + 1,
     acqs := (\<lambda>i. if int i < acqc k - 1 then acqs k (i + 1) else acqs k i),
     acqscope := (\<lambda>i. if int i < acqc k - 1 then acqscope k (i + 1) else acqscope k i),
     acqc := acqc k - 1\<rparr>"
  let ?s = "upd_lock l ?shift (set_lock_wtnt l w s0)"
  obtain n where n: "nat (acqc (locks s l)) = Suc n"
    using assms(3) lock_queue_length [of l s] by (cases "nat (acqc (locks s l))") auto
  then have c: "acqc (locks s l) = int (Suc n)" by simp
  have hd: "nat (acqs (locks s l) 0) = frompid m" "map (\<lambda>i. nat (acqs (locks s l) (Suc i))) [0..<n] = ps"
    using assms(3) n by (simp_all add: lock_queue_def map_upt_Suc del: upt_Suc)
  then have hd0: "acqs (locks s l) 0 = int (frompid m)" using i(4) n by force
  have q: "lock_queue l ?s = ps"
    using hd(2) c by (auto simp: lock_queue_def upd_lock_def set_lock_wtnt_def k0)
  have "dom (notices w) \<subseteq> P" using w(3) i(7) assms(2) by (auto simp: rel_msg_ok_def)
  then have inv: "lock_inv l P ?s"
    using assms(1) w(2) i(4-6) c unfolding lock_inv_def q
    by (auto simp: upd_lock_def set_lock_wtnt_def mbuf_inv_def pagei_def k0)
  have run: "relserver m s = (if 0 < acqc (locks ?s l) then grant_first_acq l ?s else Inr ?s)"
    using assms(2) lock_home [OF assms(1)] hd0 w(1) by (simp add: relserver_def rel_msg_ok_def Let_def s0 [symmetric])
  have pos: "0 < acqc (locks ?s l) \<longleftrightarrow> ps \<noteq> []"
    using hd(2) c by (auto simp: upd_lock_def set_lock_wtnt_def k0)
  show ?thesis
  proof (cases ps)
    case (Cons p qs)
    then obtain x b where g: "grant_first_acq l ?s = Inr (?s\<lparr>mbuf := b, outq := outq ?s @ [x]\<rparr>)"
      "lock_inv l P (?s\<lparr>mbuf := b, outq := outq ?s @ [x]\<rparr>)" "is_op x ACQGRANT" "topid x = p"
      "msg_lock x = int l"
      using grant_first_run [OF inv, of p qs] q by auto
    then have "relserver m s = Inr (?s\<lparr>mbuf := b, outq := outq ?s @ [x]\<rparr>)" using run pos Cons by simp
    moreover have "lock_queue l (?s\<lparr>mbuf := b, outq := outq ?s @ [x]\<rparr>) = lock_queue l ?s"
      by (simp add: lock_queue_def)
    ultimately show ?thesis
      using g q Cons by (auto simp: lock_grants_def upd_lock_def set_lock_wtnt_def k0)
  next
    case Nil
    then show ?thesis using run pos inv q by (auto simp: lock_grants_def upd_lock_def set_lock_wtnt_def k0)
  qed
qed

interpretation lk: lock_server "lock_queue l" "lock_grants l"
  "\<lambda>s. lock_inv l P s \<and> jia_pid s = pid" acqserver relserver "acq_msg_ok l pid"
  "rel_msg_ok l pid P" frompid for l P pid
proof
  fix s m
  assume s: "lock_inv l P s \<and> jia_pid s = pid"
  show "\<exists>s'. acqserver m s = Inr s' \<and> (lock_inv l P s' \<and> jia_pid s' = pid) \<and>
      lock_queue l s' = lock_queue l s @ [frompid m] \<and>
      lock_grants l s' = lock_grants l s @ (if lock_queue l s = [] then [frompid m] else [])"
    if "acq_msg_ok l pid m" "frompid m \<notin> set (lock_queue l s)"
    using acqserver_run [of l P s m] s that by auto
  show "\<exists>s'. relserver m s = Inr s' \<and> (lock_inv l P s' \<and> jia_pid s' = pid) \<and>
      lock_queue l s' = ps \<and> lock_grants l s' = lock_grants l s @ take 1 ps"
    if "rel_msg_ok l pid P m" "lock_queue l s = frompid m # ps" for ps
    using relserver_run [of l P s m ps] s that by auto
qed

section \<open>Mutual exclusion\<close>

text \<open>
  C7: Mutual exclusion and fairness of locks. Whatever sequence of ACQ and REL messages the hosts
  send to a lock's manager, as long as a host asks only when it is not queued and only the holder
  releases, no message makes the manager stop; the grants it sends go to the hosts in the order
  of their requests; and at every moment the hosts granted so far are exactly those that have
  released, in order, followed by at most one more, the holder.
\<close>

theorem lock_mutual_exclusion:
  assumes "lock_inv l P s" "lock_queue l s = []"
    "clients_ok (acq_msg_ok l (jia_pid s)) (rel_msg_ok l (jia_pid s) P) frompid es []"
  shows "\<exists>s' g. foldE (handle acqserver relserver) es s = Inr s' \<and> lock_inv l P s' \<and>
    lock_grants l s' = lock_grants l s @ g \<and>
    requested frompid es = g @ tl (lock_queue l s') \<and>
    g = released frompid es @ take 1 (lock_queue l s')"
  using lk.fifo_mutex [where l = l and P = P and pid = "jia_pid s" and s = s and es = es] assms by auto

definition lock_msg :: "msg_op \<Rightarrow> nat \<Rightarrow> nat \<Rightarrow> nat \<Rightarrow> jia_msg" where
  "lock_msg x p pid l = clear_msg\<lparr>op := op_num x, frompid := p, topid := pid, size := 4,
     data := put (\<lambda>_. 0) 0 (itob (word_of_nat l))\<rparr>"

lemma lock_msg_ok:
  assumes "l < Maxlocks" "p < Maxhosts"
  shows "acq_msg_ok l pid (lock_msg ACQ p pid l)" "rel_msg_ok l pid P (lock_msg REL p pid l)"
    "frompid (lock_msg x p pid l) = p"
proof -
  have "payload (lock_msg x p pid l) = itob (word_of_nat l) @ []" for x
    by (simp add: lock_msg_def payload_def bytes_simps)
  then have l: "msg_lock (lock_msg x p pid l) = int l" for x
    by (rule msg_lock_payload) (use assms in \<open>simp add: Maxlocks_def\<close>)
  have f: "op (lock_msg x p pid l) = op_num x" "topid (lock_msg x p pid l) = pid"
    "frompid (lock_msg x p pid l) = p" "size (lock_msg x p pid l) = 4" for x
    by (simp_all add: lock_msg_def)
  show "acq_msg_ok l pid (lock_msg ACQ p pid l)" "rel_msg_ok l pid P (lock_msg REL p pid l)"
    "frompid (lock_msg x p pid l) = p"
    using assms by (simp_all add: acq_msg_ok_def rel_msg_ok_def is_op_def record_offsets_def l f
        msg_consts)
qed

definition demo_manager :: host where
  "demo_manager = (initsyn (static_host\<lparr>jia_pid := 1, hostc := 3\<rparr>))
     \<lparr>mbuf := [\<lparr>slot_msg = clear_msg, slot_st = SLOT_FREE\<rparr>], mcount := 1\<rparr>"

lemma demo_manager_inv: "lock_inv 4 {} demo_manager" "lock_queue 4 demo_manager = []"
  "jia_pid demo_manager = 1" "lock_grants 4 demo_manager = []"
  by (simp_all add: lock_inv_def lock_queue_def lock_grants_def demo_manager_def initsyn_def
      static_host_def Maxlocks_def mbuf_inv_def free_slots_def)

lemma lock_mutual_exclusion_witness:
  "\<exists>s'. foldE (handle acqserver relserver)
       [Acq (lock_msg ACQ 2 1 4), Acq (lock_msg ACQ 0 1 4), Rel (lock_msg REL 2 1 4)]
       demo_manager = Inr s' \<and> lock_grants 4 s' = [2, 0]"
proof -
  let ?es = "[Acq (lock_msg ACQ 2 1 4), Acq (lock_msg ACQ 0 1 4), Rel (lock_msg REL 2 1 4)]"
  have ok: "clients_ok (acq_msg_ok 4 1) (rel_msg_ok 4 1 {}) frompid ?es []"
    using lock_msg_ok [of 4] by (simp add: Maxlocks_def Maxhosts_def)
  have r: "requested frompid ?es = [2, 0]" "released frompid ?es = [2]"
    using lock_msg_ok(3) [of 4] by (simp_all add: requested_def released_def Maxlocks_def Maxhosts_def)
  obtain s' g where s': "foldE (handle acqserver relserver) ?es demo_manager = Inr s'"
    "lock_grants 4 s' = lock_grants 4 demo_manager @ g" "[2, 0] = g @ tl (lock_queue 4 s')"
    "g = [2] @ take 1 (lock_queue 4 s')"
    using lock_mutual_exclusion [OF demo_manager_inv(1,2)] ok unfolding demo_manager_inv(3)
    by (metis r)
  then have "lock_grants 4 s' = [2, 0]"
    using demo_manager_inv(4) by (cases "lock_queue 4 s'") auto
  then show ?thesis using s'(1) by blast
qed

end
