(* ===== verification/Coherence.thy ===== *)
theory Coherence
  imports Notices
begin

text \<open>
  Coherence across a lock: the invalidations that the grant of a lock carries out at the new
  holder.
\<close>

section \<open>Reading a message of notices\<close>

lemma notice_decode:
  assumes "payload m = itob w @ concat (map notice_bytes es)"
  shows "size m = 4 + 16 * length es"
    "i < length es \<Longrightarrow> stol (data m) (4 + 16 * i) = wtnt_addr (es ! i)"
    "i < length es \<Longrightarrow> msg_int m (4 + 16 * i + 8) = word_of_nat (wtnt_from (es ! i))"
    "i < length es \<Longrightarrow> msg_int m (4 + 16 * i + 12) = wtnt_mig (es ! i)"
proof -
  have "length (concat (map notice_bytes es)) = 16 * length es" by (induction es) auto
  then show sz: "size m = 4 + 16 * length es" using payload_size [OF assms] by simp
  have "bslice (data m) 0 4 @ bslice (data m) 4 (16 * length es) = itob w @ concat (map notice_bytes es)"
    using assms unfolding payload_def sz by (simp only: bslice_append add_0)
  then have "bslice (data m) 4 (16 * length es) = concat (map notice_bytes es)" by simp
  note ch = bslice_chunk [OF this length_notice_bytes]
  have parts: "bslice (data m) (4 + 16 * i) 8 = ltob (wtnt_addr (es ! i)) \<and>
      bslice (data m) (4 + 16 * i + 8) 4 = itob (word_of_nat (wtnt_from (es ! i))) \<and>
      bslice (data m) (4 + 16 * i + 8 + 4) 4 = itob (wtnt_mig (es ! i))" if "i < length es"
  proof -
    have "bslice (data m) (4 + 16 * i) (8 + (4 + 4)) = notice_bytes (es ! i)"
      using ch [OF that] by simp
    then have "bslice (data m) (4 + 16 * i) 8 @ bslice (data m) (4 + 16 * i + 8) 4 @
        bslice (data m) (4 + 16 * i + 8 + 4) 4 = notice_bytes (es ! i)"
      by (simp only: bslice_append)
    then show ?thesis by (simp add: notice_bytes_def)
  qed
  show "i < length es \<Longrightarrow> stol (data m) (4 + 16 * i) = wtnt_addr (es ! i)"
    using parts stol_bslice by blast
  show "i < length es \<Longrightarrow> msg_int m (4 + 16 * i + 8) = word_of_nat (wtnt_from (es ! i))"
    using parts bytestoi_bslice msg_int_bytestoi by metis
  show "i < length es \<Longrightarrow> msg_int m (4 + 16 * i + 12) = wtnt_mig (es ! i)"
  proof -
    assume i: "i < length es"
    have "msg_int m (4 + 16 * i + 8 + 4) = wtnt_mig (es ! i)"
      using parts [OF i] bytestoi_bslice msg_int_bytestoi by metis
    then show ?thesis by (simp add: add.assoc)
  qed
qed

lemma invalidate_entries:
  assumes "payload m = itob w @ concat (map notice_bytes es)" "\<forall>e\<in>set es. wtnt_from e < 2 ^ 32"
  shows "invalidate m s = foldE (\<lambda>e. inv_notice (msg_lock m) (wtnt_addr e) (wtnt_from e) (wtnt_mig e)) es s"
proof -
  note d = notice_decode [OF assms(1)]
  have "(16 * length es + 15) div 16 = length es" by simp
  then have o: "inv_offsets m = map (\<lambda>i. 4 + 16 * i) [0..<length es]"
    by (simp add: inv_offsets_def d(1) msg_consts mult.commute)
  have f: "foldE g (map h [0..<length es]) s = foldE g' es s"
    if "\<And>i s. i < length es \<Longrightarrow> g (h i) s = g' (es ! i) s" for g :: "nat \<Rightarrow> host \<Rightarrow> host res" and g' h
  proof -
    have "foldE g (map h xs) s = foldE g' (map ((!) es) xs) s" if "\<forall>i\<in>set xs. i < length es" for xs s
      using that by (induction xs arbitrary: s) (auto simp: \<open>\<And>i s. i < length es \<Longrightarrow> g (h i) s = g' (es ! i) s\<close>
          intro!: bindE_cong)
    from this [of "[0..<length es]"] show ?thesis by (simp add: map_nth)
  qed
  have u: "unat (word_of_nat (wtnt_from (es ! i)) :: u32) = wtnt_from (es ! i)" if "i < length es" for i
    using assms(2) that by (simp add: unat_of_nat)
  show ?thesis
    unfolding invalidate_def o
    by (rule f) (use d(2-4) u in \<open>simp add: msg_consts add.assoc\<close>)
qed

section \<open>One notice\<close>

text \<open>Valid cache entries are mapped, and invalid ones not accessible.\<close>

definition mapped_inv :: "host \<Rightarrow> bool" where
  "mapped_inv s \<longleftrightarrow> (\<forall>i<Cachepages. c_state (cache s i) \<noteq> UNMAP \<longrightarrow>
     vprot s (c_addr (cache s i)) \<noteq> None \<and>
     (c_state (cache s i) = INV \<longrightarrow> vprot s (c_addr (cache s i)) = Some PROT_NONE))"

text \<open>The entry that a notice invalidates at host \<open>s\<close>.\<close>

definition hit :: "host \<Rightarrow> wtnt_entry \<Rightarrow> nat \<Rightarrow> bool" where
  "hit s e i \<longleftrightarrow> i < Cachepages \<and> wtnt_from e \<noteq> jia_pid s \<and>
     homepid (page s (pagei s (wtnt_addr e))) \<noteq> jia_pid s \<and>
     cachei (page s (pagei s (wtnt_addr e))) = i"

definition invalidated :: "nat \<Rightarrow> host \<Rightarrow> host" where
  "invalidated i s = s\<lparr>cache := (cache s)(i := (cache s i)\<lparr>c_wtnt := 0, c_state := INV\<rparr>),
     vprot := (vprot s)(c_addr (cache s i) := Some PROT_NONE)\<rparr>"

lemma inv_page_run:
  assumes "cache_inv s" "mapped_inv s" "i < Cachepages" "c_state (cache s i) \<noteq> UNMAP"
  shows "inv_page i s = Inr (if c_state (cache s i) = INV then s else invalidated i s)"
    "c_state (cache s i) \<noteq> INV \<Longrightarrow> cache_inv (invalidated i s)"
    "c_state (cache s i) \<noteq> INV \<Longrightarrow> mapped_inv (invalidated i s)"
proof -
  let ?a = "c_addr (cache s i)"
  have a: "aligned ?a" "vprot s ?a \<noteq> None" "entry_ok s i"
    using assms by (auto simp: cache_inv_def entry_ok_def mapped_inv_def)
  show "inv_page i s = Inr (if c_state (cache s i) = INV then s else invalidated i s)"
    using a(1,2) by (simp add: inv_page_def memprotect_page upd_cache_def invalidated_def freetwin_def)
  assume st: "c_state (cache s i) \<noteq> INV"
  show "cache_inv (invalidated i s)"
    by (rule cache_inv_rewrite [OF assms(1,3,4), where c = "(cache s i)\<lparr>c_wtnt := 0, c_state := INV\<rparr>"])
      (simp_all add: invalidated_def a)
  have "c_addr (cache s j) \<noteq> ?a" if "j < Cachepages" "c_state (cache s j) \<noteq> UNMAP" "j \<noteq> i" for j
    using that a(3) assms(1) by (auto simp: cache_inv_def entry_ok_def)
  then show "mapped_inv (invalidated i s)"
    using assms(2) by (auto simp: mapped_inv_def invalidated_def)
qed

definition apply_notice :: "wtnt_entry \<Rightarrow> host \<Rightarrow> host" where
  "apply_notice e s = (let i = cachei (page s (pagei s (wtnt_addr e)))
     in if hit s e i \<and> c_state (cache s i) \<noteq> INV then invalidated i s else s)"

text \<open>The grant is not of a barrier, or neither migration nor write detection is on.\<close>

definition no_tracking :: "int \<Rightarrow> host \<Rightarrow> bool" where
  "no_tracking l s \<longleftrightarrow> l \<noteq> int hidelock \<or> H_MIG s \<noteq> ON \<and> AD_WD s \<noteq> ON"

lemma invalidated_switches [simp]: "H_MIG (invalidated i s) = H_MIG s" "AD_WD (invalidated i s) = AD_WD s"
  by (simp_all add: invalidated_def)

lemma inv_notice_run:
  assumes "cache_inv s" "mapped_inv s" "pagei s (wtnt_addr e) < Maxmempages" "no_tracking l s"
  shows "inv_notice l (wtnt_addr e) (wtnt_from e) (wtnt_mig e) s = Inr (apply_notice e s)"
    "cache_inv (apply_notice e s)" "mapped_inv (apply_notice e s)"
proof -
  let ?i = "cachei (page s (pagei s (wtnt_addr e)))"
  have st: "c_state (cache s ?i) \<noteq> UNMAP" if "?i < Cachepages"
    using that assms(1,3) by (auto simp: cache_inv_def)
  note r = inv_page_run [OF assms(1,2)]
  show "inv_notice l (wtnt_addr e) (wtnt_from e) (wtnt_mig e) s = Inr (apply_notice e s)"
    using assms(4) unfolding no_tracking_def
  proof (elim disjE conjE)
    assume "l \<noteq> int hidelock"
    then show ?thesis using r(1) [of ?i] st assms(3)
      by (auto simp: inv_notice_def homehost_def cachepage_def page_at_def apply_notice_def hit_def Let_def)
  next
    assume "H_MIG s \<noteq> ON" "AD_WD s \<noteq> ON"
    then show ?thesis using r(1) [of ?i] st assms(3)
      by (auto simp: inv_notice_def homehost_def cachepage_def page_at_def apply_notice_def hit_def Let_def)
  qed
  show "cache_inv (apply_notice e s)" "mapped_inv (apply_notice e s)"
    using r(2,3) [of ?i] st assms(1,2) by (auto simp: apply_notice_def hit_def Let_def)
qed

lemma apply_notice_fields [simp]: "page (apply_notice e s) = page s" "vmem (apply_notice e s) = vmem s"
  "jia_pid (apply_notice e s) = jia_pid s" "global_start_addr (apply_notice e s) = global_start_addr s"
  "locks (apply_notice e s) = locks s" "outq (apply_notice e s) = outq s" "home (apply_notice e s) = home s"
  "H_MIG (apply_notice e s) = H_MIG s" "AD_WD (apply_notice e s) = AD_WD s" "hostc (apply_notice e s) = hostc s"
  "mbuf (apply_notice e s) = mbuf s" "mcount (apply_notice e s) = mcount s"
  "c_addr (cache (apply_notice e s) i) = c_addr (cache s i)"
  by (auto simp: apply_notice_def invalidated_def Let_def)

lemma hit_cong: "page s = page t \<Longrightarrow> jia_pid s = jia_pid t \<Longrightarrow> global_start_addr s = global_start_addr t \<Longrightarrow>
    hit s e i = hit t e i"
  by (simp add: hit_def pagei_def)

lemma invalidate_fold:
  assumes "cache_inv s" "mapped_inv s" "\<forall>e\<in>set es. pagei s (wtnt_addr e) < Maxmempages" "no_tracking l s"
  shows "\<exists>s'. foldE (\<lambda>e. inv_notice l (wtnt_addr e) (wtnt_from e) (wtnt_mig e)) es s = Inr s' \<and>
    cache_inv s' \<and> mapped_inv s' \<and> page s' = page s \<and> vmem s' = vmem s \<and> locks s' = locks s \<and>
    jia_pid s' = jia_pid s \<and> global_start_addr s' = global_start_addr s \<and> outq s' = outq s \<and>
    H_MIG s' = H_MIG s \<and> AD_WD s' = AD_WD s \<and> hostc s' = hostc s \<and>
    (\<forall>i<Cachepages. c_addr (cache s' i) = c_addr (cache s i) \<and>
      ((\<exists>e\<in>set es. hit s e i) \<longrightarrow> c_state (cache s' i) = INV) \<and>
      (\<not> (\<exists>e\<in>set es. hit s e i) \<longrightarrow> cache s' i = cache s i \<and>
         (c_state (cache s i) \<noteq> UNMAP \<longrightarrow> vprot s' (c_addr (cache s i)) = vprot s (c_addr (cache s i)))))"
  using assms
proof (induction es arbitrary: s)
  case Nil
  then show ?case by simp
next
  case (Cons e es)
  let ?s = "apply_notice e s"
  note r = inv_notice_run [OF Cons.prems(1,2) _ Cons.prems(4), of e]
  have p: "pagei ?s = pagei s" by (simp add: pagei_def fun_eq_iff)
  have h: "hit ?s x i = hit s x i" for x i by (rule hit_cong) simp_all
  have one: "(hit s e i \<longrightarrow> c_state (cache ?s i) = INV) \<and>
      (\<not> hit s e i \<longrightarrow> cache ?s i = cache s i \<and>
         (c_state (cache s i) \<noteq> UNMAP \<longrightarrow> vprot ?s (c_addr (cache s i)) = vprot s (c_addr (cache s i))))"
    if "i < Cachepages" for i
  proof -
    let ?j = "cachei (page s (pagei s (wtnt_addr e)))"
    have "c_addr (cache s i) \<noteq> c_addr (cache s ?j)"
      if "hit s e ?j" "i \<noteq> ?j" "c_state (cache s i) \<noteq> UNMAP"
      using that \<open>i < Cachepages\<close> Cons.prems(1,3)
      by (auto simp: cache_inv_def entry_ok_def hit_def)
    moreover have "\<not> hit s e i" if "i \<noteq> ?j" using that by (auto simp: hit_def)
    ultimately show ?thesis
      by (cases "i = ?j") (auto simp: apply_notice_def Let_def invalidated_def)
  qed
  obtain s' where s': "foldE (\<lambda>e. inv_notice l (wtnt_addr e) (wtnt_from e) (wtnt_mig e)) es ?s = Inr s'"
    "cache_inv s'" "mapped_inv s'" "page s' = page s" "vmem s' = vmem s" "locks s' = locks s"
    "jia_pid s' = jia_pid s" "global_start_addr s' = global_start_addr s" "outq s' = outq s"
    "H_MIG s' = H_MIG s \<and> AD_WD s' = AD_WD s \<and> hostc s' = hostc s"
    "\<forall>i<Cachepages. c_addr (cache s' i) = c_addr (cache s i) \<and>
      ((\<exists>e\<in>set es. hit s e i) \<longrightarrow> c_state (cache s' i) = INV) \<and>
      (\<not> (\<exists>e\<in>set es. hit s e i) \<longrightarrow> cache s' i = cache ?s i \<and>
         (c_state (cache ?s i) \<noteq> UNMAP \<longrightarrow> vprot s' (c_addr (cache s i)) = vprot ?s (c_addr (cache s i))))"
    using Cons.IH [of ?s] r Cons.prems(3) Cons.prems(4) unfolding h p by (auto simp: no_tracking_def)
  have "\<forall>i<Cachepages. c_addr (cache s' i) = c_addr (cache s i) \<and>
      ((\<exists>x\<in>set (e # es). hit s x i) \<longrightarrow> c_state (cache s' i) = INV) \<and>
      (\<not> (\<exists>x\<in>set (e # es). hit s x i) \<longrightarrow> cache s' i = cache s i \<and>
         (c_state (cache s i) \<noteq> UNMAP \<longrightarrow> vprot s' (c_addr (cache s i)) = vprot s (c_addr (cache s i))))"
  proof (intro allI impI)
    fix i assume i: "i < Cachepages"
    show "c_addr (cache s' i) = c_addr (cache s i) \<and>
      ((\<exists>x\<in>set (e # es). hit s x i) \<longrightarrow> c_state (cache s' i) = INV) \<and>
      (\<not> (\<exists>x\<in>set (e # es). hit s x i) \<longrightarrow> cache s' i = cache s i \<and>
         (c_state (cache s i) \<noteq> UNMAP \<longrightarrow> vprot s' (c_addr (cache s i)) = vprot s (c_addr (cache s i))))"
      using one [OF i] s'(11) i by (cases "\<exists>x\<in>set es. hit s x i") auto
  qed
  then show ?case using s' r(1) Cons.prems(3) by auto
qed

section \<open>Acquiring a lock\<close>

lemma acqgrantserver_run:
  assumes "is_op m ACQGRANT" "topid m = jia_pid s" "payload m = itob (word_of_nat l) @ concat (map notice_bytes es)"
    "l < Maxlocks" "\<forall>e\<in>set es. pagei s (wtnt_addr e) < Maxmempages \<and> wtnt_from e \<le> Maxhosts"
    "cache_inv s" "mapped_inv s"
  shows "\<exists>s'. acqgrantserver m s = Inr s' \<and> acqwait s' = 0 \<and> myscope (locks s' l) = scope m \<and>
    cache_inv s' \<and> mapped_inv s' \<and> page s' = page s \<and> vmem s' = vmem s \<and>
    (\<forall>i<Cachepages. c_addr (cache s' i) = c_addr (cache s i) \<and>
      ((\<exists>e\<in>set es. hit s e i) \<longrightarrow> c_state (cache s' i) = INV \<and>
         vprot s' (c_addr (cache s' i)) = Some PROT_NONE) \<and>
      (\<not> (\<exists>e\<in>set es. hit s e i) \<longrightarrow> cache s' i = cache s i \<and>
         (c_state (cache s i) \<noteq> UNMAP \<longrightarrow> vprot s' (c_addr (cache s i)) = vprot s (c_addr (cache s i)))))"
proof -
  have ml: "msg_lock m = int l"
    by (rule msg_lock_payload [OF assms(3)]) (use assms(4) in \<open>simp add: Maxlocks_def\<close>)
  have nh: "int l \<noteq> int hidelock" using assms(4) by (simp add: hidelock_def)
  have pm: "\<forall>e\<in>set es. pagei s (wtnt_addr e) < Maxmempages" using assms(5) by blast
  have "wtnt_from e < 2 ^ 32" if "e \<in> set es" for e
  proof -
    have "wtnt_from e \<le> 16" using assms(5) that by (simp add: Maxhosts_def)
    then show ?thesis by simp
  qed
  then have inv: "invalidate m s =
      foldE (\<lambda>e. inv_notice (int l) (wtnt_addr e) (wtnt_from e) (wtnt_mig e)) es s"
    using invalidate_entries [OF assms(3)] by (simp add: ml)
  obtain u where u: "invalidate m s = Inr u" "cache_inv u" "mapped_inv u" "page u = page s" "vmem u = vmem s"
    "global_start_addr u = global_start_addr s"
    "\<forall>i<Cachepages. c_addr (cache u i) = c_addr (cache s i) \<and>
      ((\<exists>e\<in>set es. hit s e i) \<longrightarrow> c_state (cache u i) = INV) \<and>
      (\<not> (\<exists>e\<in>set es. hit s e i) \<longrightarrow> cache u i = cache s i \<and>
         (c_state (cache s i) \<noteq> UNMAP \<longrightarrow> vprot u (c_addr (cache s i)) = vprot s (c_addr (cache s i))))"
    using invalidate_fold [OF assms(6,7) pm, of "int l"] nh unfolding inv no_tracking_def by blast
  let ?s = "upd_lock l (\<lambda>k. k\<lparr>myscope := scope m\<rparr>) u\<lparr>acqwait := 0\<rparr>"
  have run: "acqgrantserver m s = Inr ?s"
    using assms(1,2,4) u(1) by (simp add: acqgrantserver_def ml lock_at_def)
  have "cache_inv ?s" "mapped_inv ?s"
    using u(2,3) by (simp_all add: cache_inv_def mapped_inv_def entry_ok_def upd_lock_def pagei_def)
  moreover have "vprot u (c_addr (cache u i)) = Some PROT_NONE"
    if "i < Cachepages" "c_state (cache u i) = INV" for i
    using u(3) that by (auto simp: mapped_inv_def)
  ultimately show ?thesis
    using run u(4,5,7) by (intro exI [of _ ?s]) (auto simp: upd_lock_def)
qed

text \<open>
  C8: What an acquire sees. When the manager of a lock grants it to a host and that host handles
  the grant, every page with a notice that is newer than the host's last scope of the lock, that
  another host has written and that is not at home at the acquirer is inaccessible in its cache,
  so that its next access faults and fetches the page again; every other cached page stays as it
  was, protections included; the bytes of memory do not change; the host's scope becomes that of
  the lock and its wait ends.
\<close>

theorem acquire_sees_releases:
  assumes "mbuf_inv g" "0 < mcount g" "l < Maxlocks" "length (concat (wtntp (locks g l))) \<le> 2555"
    "\<forall>e\<in>set (concat (wtntp (locks g l))). pagei g (wtnt_addr e) < Maxmempages \<and> wtnt_from e \<le> Maxhosts"
    "global_start_addr s = global_start_addr g" "\<forall>p. homepid (page s p) = homepid (page g p)"
    "cache_inv s" "mapped_inv s"
  shows "\<exists>g' m s'. grantlock l (jia_pid s) sc g = Inr g' \<and> outq g' = outq g @ [m] \<and>
    acqgrantserver m s = Inr s' \<and> acqwait s' = 0 \<and> myscope (locks s' l) = lscope (locks g l) \<and>
    vmem s' = vmem s \<and> cache_inv s' \<and> mapped_inv s' \<and>
    (\<forall>i<Cachepages. if \<exists>e\<in>set (concat (wtntp (locks g l))). sint sc < sint (wtnt_scope e) \<and> hit s e i
       then c_state (cache s' i) = INV \<and> vprot s' (c_addr (cache s' i)) = Some PROT_NONE
       else cache s' i = cache s i \<and>
         (c_state (cache s i) \<noteq> UNMAP \<longrightarrow> vprot s' (c_addr (cache s i)) = vprot s (c_addr (cache s i))))"
proof -
  let ?all = "concat (wtntp (locks g l))"
  let ?es = "filter (wanted g sc (jia_pid s)) ?all"
  have "l < 2 ^ 31" using assms(3) by (simp add: Maxlocks_def)
  then obtain m b where gr: "grantlock l (jia_pid s) sc g = Inr (g\<lparr>mbuf := b, outq := outq g @ [m]\<rparr>)"
    "is_op m ACQGRANT" "topid m = jia_pid s" "scope m = lscope (locks g l)"
    "payload m = itob (word_of_nat l) @ concat (map notice_bytes ?es)"
    using grantlock_run [OF assms(1,2) _ _ assms(4), of "jia_pid s" sc] assms(5) by blast
  have p: "pagei s = pagei g" using assms(6) by (simp add: pagei_def fun_eq_iff)
  have "\<forall>e\<in>set ?es. pagei s (wtnt_addr e) < Maxmempages \<and> wtnt_from e \<le> Maxhosts"
    using assms(5) unfolding p set_filter by blast
  then obtain s' where s': "acqgrantserver m s = Inr s'" "acqwait s' = 0"
    "myscope (locks s' l) = scope m" "cache_inv s'" "mapped_inv s'" "vmem s' = vmem s"
    "\<forall>i<Cachepages. c_addr (cache s' i) = c_addr (cache s i) \<and>
      ((\<exists>e\<in>set ?es. hit s e i) \<longrightarrow> c_state (cache s' i) = INV \<and>
         vprot s' (c_addr (cache s' i)) = Some PROT_NONE) \<and>
      (\<not> (\<exists>e\<in>set ?es. hit s e i) \<longrightarrow> cache s' i = cache s i \<and>
         (c_state (cache s i) \<noteq> UNMAP \<longrightarrow> vprot s' (c_addr (cache s i)) = vprot s (c_addr (cache s i))))"
    using acqgrantserver_run [OF gr(2,3,5) assms(3) _ assms(8,9)] by blast
  have w: "(\<exists>e\<in>set ?es. hit s e i) \<longleftrightarrow> (\<exists>e\<in>set ?all. sint sc < sint (wtnt_scope e) \<and> hit s e i)" for i
    using assms(7) by (auto simp: wanted_def hit_def p)
  have "\<forall>i<Cachepages. if \<exists>e\<in>set ?all. sint sc < sint (wtnt_scope e) \<and> hit s e i
       then c_state (cache s' i) = INV \<and> vprot s' (c_addr (cache s' i)) = Some PROT_NONE
       else cache s' i = cache s i \<and>
         (c_state (cache s i) \<noteq> UNMAP \<longrightarrow> vprot s' (c_addr (cache s i)) = vprot s (c_addr (cache s i)))"
    using s'(7) unfolding w by auto
  then show ?thesis using gr(1,4) s'(1-6) by auto
qed

text \<open>A manager with one notice, and a reader that has the page of the notice cached.\<close>

definition demo_granter :: host where
  "demo_granter = demo_home\<lparr>locks := (\<lambda>_. (locks static_host 0)\<lparr>lscope := 5, wtntp :=
     [[\<lparr>wtnt_addr = 0x10000, wtnt_from = 1, wtnt_scope = 4, wtnt_mig = 0\<rparr>]]\<rparr>)\<rparr>"

lemma demo_cached_inv: "cache_inv demo_cached" "mapped_inv demo_cached"
  by (auto simp: cache_inv_def entry_ok_def mapped_inv_def demo_cached_def demo_defs aligned_def
      Pagesize_def pagei_def Maxmempages_def Cachepages_def split: if_splits)

lemma acquire_sees_releases_witness:
  "\<exists>g' m s'. grantlock 1 0 3 demo_granter = Inr g' \<and> outq g' = outq demo_granter @ [m] \<and>
     acqgrantserver m demo_cached = Inr s' \<and> c_state (cache s' 0) = INV \<and> vmem s' = vmem demo_cached"
proof -
  have g: "mbuf_inv demo_granter" "0 < mcount demo_granter" "(1 :: nat) < Maxlocks"
    "length (concat (wtntp (locks demo_granter 1))) \<le> 2555"
    "\<forall>e\<in>set (concat (wtntp (locks demo_granter 1))). pagei demo_granter (wtnt_addr e) < Maxmempages \<and>
       wtnt_from e \<le> Maxhosts"
    "global_start_addr demo_cached = global_start_addr demo_granter"
    "\<forall>p. homepid (page demo_cached p) = homepid (page demo_granter p)"
    by (simp_all add: demo_granter_def demo_defs demo_cached_def mbuf_inv_def free_slots_def Maxlocks_def
        pagei_def Maxmempages_def Maxhosts_def)
  have j: "jia_pid demo_cached = 0" by (simp add: demo_cached_def demo_defs)
  have "\<exists>e\<in>set (concat (wtntp (locks demo_granter 1))). sint (3 :: u32) < sint (wtnt_scope e) \<and>
      hit demo_cached e 0"
    by (simp add: demo_granter_def demo_defs demo_cached_def hit_def pagei_def Cachepages_def)
  then show ?thesis
    using acquire_sees_releases [OF g demo_cached_inv, of 3] unfolding j
    by (metis (mono_tags, lifting) Setpages_eq(2))
qed

end
