(* ===== verification/Alloc.thy ===== *)
theory Alloc
  imports Mem "HOL-Library.While_Combinator"
begin

text \<open>
  Allocation of shared memory, \<open>src/src/mem/memuser.c\<close>. Every host runs the same allocations and
  keeps the same table of which host is the home of which page; only the home maps its pages and
  enters them in \<open>home\<close>. Sizes are natural numbers, as a negative size has no meaning; that they
  are \<open>int\<close>s in the code shows where rounding up to pages overflows, and in the \<open>int\<close> that keeps
  the start of the allocation.
\<close>

section \<open>The operations\<close>

definition Maxint :: nat where "Maxint = 2147483647"

definition ALIGN2PAGE :: "nat \<Rightarrow> nat res" where
  "ALIGN2PAGE n = (let a = (if n mod Pagesize = 0 then n else (n div Pagesize + 1) * Pagesize)
     in if a \<le> Maxint then Inr a else Inl (Overflow ''ALIGN2PAGE''))"

text \<open>The start of an allocation, kept in an \<open>int\<close> and added to the start of the shared memory.\<close>

definition alloc_result :: "nat \<Rightarrow> host \<Rightarrow> addr" where
  "alloc_result origin s = global_start_addr s + scast (word_of_nat origin :: u32)"

text \<open>
  One round of the allocation loops: \<open>mapsize\<close> bytes, a multiple of the page size, at home on
  host \<open>hp\<close>. The home maps them and enters the pages in \<open>home\<close>; every host enters the home's
  number in \<open>page\<close>.
\<close>

definition page_offsets :: "nat \<Rightarrow> nat list" where
  "page_offsets mapsize = map (\<lambda>k. k * Pagesize) [0..<mapsize div Pagesize]"

definition enter_own :: "nat \<Rightarrow> nat \<Rightarrow> host \<Rightarrow> host res" where
  "enter_own hp i s = (let pi = (globaladdr s + i) div Pagesize; hi = (homesize s hp + i) div Pagesize
     in if hi < Homepages \<and> pi < Maxmempages
        then Inr (upd_page pi (\<lambda>p. p\<lparr>homei := hi\<rparr>) (upd_home hi (\<lambda>h. h\<lparr>h_addr :=
               global_start_addr s + word_of_nat (globaladdr s) + word_of_nat i\<rparr>) s))
        else Inl (OutOfBounds ''home or page''))"

definition enter_home :: "nat \<Rightarrow> nat \<Rightarrow> host \<Rightarrow> host res" where
  "enter_home hp i s = (let pi = (globaladdr s + i) div Pagesize
     in if pi < Maxmempages then Inr (upd_page pi (\<lambda>p. p\<lparr>homepid := hp\<rparr>) s)
        else Inl (OutOfBounds ''page''))"

definition alloc_prot :: "host \<Rightarrow> prot" where
  "alloc_prot s = (if hostc s = 1 then PROT_RW else PROT_READ)"

definition alloc_own :: "nat \<Rightarrow> nat \<Rightarrow> host \<Rightarrow> host res" where
  "alloc_own hp mapsize s =
     bindE (assertE (homesize s hp + mapsize < Homepages * Pagesize) (JiaAssert ''Too many home pages''))
       (\<lambda>_. bindE (memmap (global_start_addr s + word_of_nat (globaladdr s)) mapsize (alloc_prot s) s)
       (foldE (enter_own hp) (page_offsets mapsize)))"

text \<open>The end of a round: the size of the home and the next free address.\<close>

definition alloc_advance :: "nat \<Rightarrow> nat \<Rightarrow> host \<Rightarrow> host res" where
  "alloc_advance hp mapsize s =
     (if homesize s hp + mapsize \<le> Maxint
      then Inr (s\<lparr>homesize := (homesize s)(hp := homesize s hp + mapsize),
                  globaladdr := globaladdr s + mapsize\<rparr>)
      else Inl (Overflow ''homesize''))"

definition alloc_block :: "nat \<Rightarrow> nat \<Rightarrow> host \<Rightarrow> host res" where
  "alloc_block hp mapsize s = bindE (assertE (hp < Maxhosts) (OutOfBounds ''hosts'')) (\<lambda>_.
     bindE (if jia_pid s = hp then alloc_own hp mapsize s else Inr s) (\<lambda>s.
     bindE (foldE (enter_home hp) (page_offsets mapsize) s) (alloc_advance hp mapsize)))"

text \<open>
  The loops of \<open>jia_alloc3\<close> and \<open>jia_alloc4\<close>: what is left of the size, the index of the block
  size, the host of the round, and the state; the loop ends when nothing is left or the host has
  stopped. A loop of blocks of size zero in which no host fails does not end.
\<close>

type_synonym alloc_state = "(nat \<times> nat \<times> nat \<times> host) res"

definition alloc_more :: "alloc_state \<Rightarrow> bool" where
  "alloc_more st = (case st of Inl e \<Rightarrow> False | Inr (allocsize, blocki, hp, s) \<Rightarrow> 0 < allocsize)"

definition alloc4_round :: "nat list \<Rightarrow> nat \<Rightarrow> alloc_state \<Rightarrow> alloc_state" where
  "alloc4_round blocks n st = bindE st (\<lambda>(allocsize, blocki, hp, s).
     bindE (if blocki < length blocks then Inr (blocks ! blocki) else Inl (OutOfBounds ''blocks'')) (\<lambda>b.
     bindE (ALIGN2PAGE b) (\<lambda>mapsize.
     bindE (alloc_block hp mapsize s) (\<lambda>s.
     let hp = (hp + 1) mod hostc s
     in if hp = 0 then if n = 0 then Inl DivZero
                       else Inr (allocsize - mapsize, (blocki + 1) mod n, hp, s)
        else Inr (allocsize - mapsize, blocki, hp, s)))))"

definition alloc3_round :: "nat \<Rightarrow> alloc_state \<Rightarrow> alloc_state" where
  "alloc3_round mapsize st = bindE st (\<lambda>(allocsize, blocki, hp, s).
     bindE (alloc_block hp mapsize s) (\<lambda>s. Inr (allocsize - mapsize, blocki, (hp + 1) mod hostc s, s)))"

definition alloc_loop :: "(alloc_state \<Rightarrow> alloc_state) \<Rightarrow> nat \<Rightarrow> nat \<Rightarrow> host \<Rightarrow> host res" where
  "alloc_loop round allocsize hp s =
     (case while_option alloc_more round (Inr (allocsize, 0, hp, s)) of
        None \<Rightarrow> Inl (Diverges ''alloc'')
      | Some st \<Rightarrow> bindE st (\<lambda>(_, _, _, s). Inr s))"

definition enough_space :: "nat \<Rightarrow> host \<Rightarrow> unit res" where
  "enough_space totalsize s = assertE (globaladdr s + totalsize \<le> Maxmemsize)
     (JiaAssert ''Insufficient shared space!'')"

text \<open>
  Sizes are natural numbers here where the code has \<open>int\<close>, so negative sizes are not covered; a
  size whose rounding leaves the range of \<open>int\<close> is a stop.
\<close>

definition jia_alloc3 :: "nat \<Rightarrow> nat \<Rightarrow> nat \<Rightarrow> host \<Rightarrow> (addr \<times> host) res" where
  "jia_alloc3 totalsize blocksize starthost s = bindE (enough_space totalsize s) (\<lambda>_.
     bindE (ALIGN2PAGE totalsize) (\<lambda>allocsize.
     bindE (ALIGN2PAGE blocksize) (\<lambda>mapsize.
     bindE (alloc_loop (alloc3_round mapsize) allocsize starthost s) (\<lambda>s'.
     Inr (alloc_result (globaladdr s) s', s')))))"

definition jia_alloc4 :: "nat \<Rightarrow> nat list \<Rightarrow> nat \<Rightarrow> nat \<Rightarrow> host \<Rightarrow> (addr \<times> host) res" where
  "jia_alloc4 totalsize blocks n starthost s = bindE (enough_space totalsize s) (\<lambda>_.
     bindE (ALIGN2PAGE totalsize) (\<lambda>allocsize.
     bindE (alloc_loop (alloc4_round blocks n) allocsize starthost s) (\<lambda>s'.
     Inr (alloc_result (globaladdr s) s', s'))))"

text \<open>
  The other forms. The static variable \<open>starthost\<close> of \<open>jia_alloc\<close> is a parameter and a result;
  \<open>rnd\<close> is what \<open>rand ()\<close> returns.
\<close>

definition jia_alloc :: "nat \<Rightarrow> int \<Rightarrow> host \<Rightarrow> (int \<times> addr \<times> host) res" where
  "jia_alloc totalsize starthost s =
     (if hostc s = 0 then Inl DivZero
      else let st = (starthost + 1) mod int (hostc s)
           in bindE (jia_alloc3 totalsize totalsize (nat st) s) (\<lambda>(a, s). Inr (st, a, s)))"

definition jia_alloc_random :: "nat \<Rightarrow> nat \<Rightarrow> host \<Rightarrow> (addr \<times> host) res" where
  "jia_alloc_random rnd totalsize s =
     (if hostc s = 0 then Inl DivZero else jia_alloc3 totalsize totalsize (rnd mod hostc s) s)"

definition jia_alloc2 :: "nat \<Rightarrow> nat \<Rightarrow> host \<Rightarrow> (addr \<times> host) res" where
  "jia_alloc2 sz block s = jia_alloc3 sz block 0 s"

definition jia_alloc2p :: "nat \<Rightarrow> nat \<Rightarrow> host \<Rightarrow> (addr \<times> host) res" where
  "jia_alloc2p totalsize starthost s = jia_alloc3 totalsize totalsize starthost s"

text \<open>
  \<open>jia_alloc_array\<close>: every host maps every block, no entry is made in \<open>home\<close>, and the index of
  the size array is also the variable of the inner loop, which leaves it at \<open>mapsize\<close>.
\<close>

definition array_round :: "nat list \<Rightarrow> nat \<Rightarrow> alloc_state \<Rightarrow> alloc_state" where
  "array_round sizes n st = bindE st (\<lambda>(allocsize, i, hp, s).
     bindE (if i < length sizes then Inr (sizes ! i) else Inl (OutOfBounds ''array'')) (\<lambda>b.
     bindE (ALIGN2PAGE b) (\<lambda>mapsize.
     bindE (assertE (jia_pid s = hp \<longrightarrow> homesize s hp + mapsize < Homepages * Pagesize)
       (JiaAssert ''Too many home pages'')) (\<lambda>_.
     bindE (memmap (global_start_addr s + word_of_nat (globaladdr s)) mapsize (alloc_prot s) s) (\<lambda>s.
     bindE (foldE (enter_home hp) (page_offsets mapsize) s) (\<lambda>s.
     bindE (alloc_advance hp mapsize s) (\<lambda>s.
     Inr (allocsize - mapsize, (mapsize + 1) mod n, (hp + 1) mod hostc s, s))))))))"

definition jia_alloc_array :: "nat \<Rightarrow> nat list \<Rightarrow> nat \<Rightarrow> host \<Rightarrow> (addr \<times> host) res" where
  "jia_alloc_array totalsize sizes n s = bindE (enough_space totalsize s) (\<lambda>_.
     bindE (assertE (0 < n \<and> n \<le> hostc s) (JiaAssert ''Error parameter n'')) (\<lambda>_.
     bindE (ALIGN2PAGE totalsize) (\<lambda>allocsize.
     bindE (alloc_loop (array_round sizes n) allocsize 0 s) (\<lambda>s'.
     Inr (alloc_result (globaladdr s) s', s')))))"

section \<open>The loops as plans\<close>

text \<open>
  With block sizes that are positive the loops end, and what they do is fixed beforehand: the
  list of rounds, each a host and a number of bytes.
\<close>

definition run_blocks :: "(nat \<times> nat) list \<Rightarrow> host \<Rightarrow> host res" where
  "run_blocks = foldE (\<lambda>(hp, mapsize). alloc_block hp mapsize)"

function plan :: "nat \<Rightarrow> nat list \<Rightarrow> nat \<Rightarrow> nat \<Rightarrow> nat \<Rightarrow> (nat \<times> nat) list" where
  "plan h bs i a hp =
     (if 0 < a \<and> 0 < bs ! i
      then (hp, bs ! i) # plan h bs (if (hp + 1) mod h = 0 then (i + 1) mod length bs else i)
             (a - bs ! i) ((hp + 1) mod h)
      else [])"
  by pat_completeness auto
termination by (relation "measure (\<lambda>(h, bs, i, a, hp). a)") auto

declare plan.simps [simp del]

lemma enter_frame:
  assumes "foldE f xs s = Inr t" "\<And>i u v. f i u = Inr v \<Longrightarrow> hostc v = hostc u \<and>
      jia_pid v = jia_pid u \<and> global_start_addr v = global_start_addr u \<and> globaladdr v = globaladdr u \<and>
      homesize v = homesize u"
  shows "hostc t = hostc s \<and> jia_pid t = jia_pid s \<and> global_start_addr t = global_start_addr s \<and>
    globaladdr t = globaladdr s \<and> homesize t = homesize s"
  using assms(1) assms(2) by (induction xs arbitrary: s) fastforce+

lemma enter_frames:
  "enter_home hp i s = Inr t \<Longrightarrow> hostc t = hostc s \<and> jia_pid t = jia_pid s \<and>
     global_start_addr t = global_start_addr s \<and> globaladdr t = globaladdr s \<and> homesize t = homesize s"
  "enter_own hp i s = Inr t \<Longrightarrow> hostc t = hostc s \<and> jia_pid t = jia_pid s \<and>
     global_start_addr t = global_start_addr s \<and> globaladdr t = globaladdr s \<and> homesize t = homesize s"
  by (auto simp: enter_home_def enter_own_def Let_def upd_page_def upd_home_def split: if_splits)

lemma alloc_own_frame:
  "alloc_own hp ms s = Inr t \<Longrightarrow> hostc t = hostc s \<and> jia_pid t = jia_pid s \<and>
     global_start_addr t = global_start_addr s \<and> globaladdr t = globaladdr s \<and> homesize t = homesize s"
  by (auto simp: alloc_own_def memmap_def dest!: enter_frame [OF _ enter_frames(2)])

lemma alloc_block_frame:
  assumes "alloc_block hp ms s = Inr t"
  shows "hostc t = hostc s" "jia_pid t = jia_pid s" "global_start_addr t = global_start_addr s"
    "globaladdr t = globaladdr s + ms" "homesize t = (homesize s)(hp := homesize s hp + ms)" "hp < Maxhosts"
  using assms by (auto simp: alloc_block_def alloc_advance_def split: if_splits
      dest!: alloc_own_frame enter_frame [OF _ enter_frames(1)])

lemma loop_end: "\<not> alloc_more st \<Longrightarrow> while_option alloc_more f st = Some st"
  by (subst while_option_unfold) simp

lemma loop_round: "alloc_more st \<Longrightarrow> while_option alloc_more f st = while_option alloc_more f (f st)"
  by (subst while_option_unfold) simp

lemma alloc_more_simps [simp]: "\<not> alloc_more (Inl e)" "alloc_more (Inr (a, i, hp, s)) \<longleftrightarrow> 0 < a"
  by (simp_all add: alloc_more_def)

lemma alloc4_plan:
  assumes "list_all2 (\<lambda>b m. ALIGN2PAGE b = Inr m \<and> 0 < m) blocks ms" "i < length blocks"
  shows "\<exists>r. while_option alloc_more (alloc4_round blocks (length blocks)) (Inr (a, i, hp, s)) = Some r \<and>
    bindE r (\<lambda>(_, _, _, s). Inr s) = run_blocks (plan (hostc s) ms i a hp) s"
  using assms(2)
proof (induction a arbitrary: i hp s rule: less_induct)
  case (less a)
  let ?w = "while_option alloc_more (alloc4_round blocks (length blocks))"
  have ms: "ALIGN2PAGE (blocks ! i) = Inr (ms ! i)" "0 < ms ! i" "length ms = length blocks"
    using assms(1) less.prems by (auto simp: list_all2_conv_all_nth)
  show ?case
  proof (cases "0 < a")
    case False
    then show ?thesis
      using loop_end [of "Inr (a, i, hp, s)"] by (simp add: plan.simps run_blocks_def)
  next
    case True
    let ?i = "if (hp + 1) mod hostc s = 0 then (i + 1) mod length blocks else i"
    have pl: "plan (hostc s) ms i a hp =
        (hp, ms ! i) # plan (hostc s) ms ?i (a - ms ! i) ((hp + 1) mod hostc s)"
      using True ms by (subst plan.simps) simp
    have w: "?w (Inr (a, i, hp, s)) = ?w (alloc4_round blocks (length blocks) (Inr (a, i, hp, s)))"
      by (rule loop_round) (use True in simp)
    show ?thesis
    proof (cases "alloc_block hp (ms ! i) s")
      case (Inl e)
      then have "alloc4_round blocks (length blocks) (Inr (a, i, hp, s)) = Inl e"
        using ms less.prems by (simp add: alloc4_round_def)
      then show ?thesis using Inl loop_end [of "Inl e"] by (simp add: w pl run_blocks_def)
    next
      case (Inr t)
      have h: "hostc t = hostc s" by (rule alloc_block_frame [OF Inr])
      have "blocks \<noteq> []" using less.prems by auto
      then have r: "alloc4_round blocks (length blocks) (Inr (a, i, hp, s)) =
          Inr (a - ms ! i, ?i, (hp + 1) mod hostc s, t)"
        using Inr ms less.prems by (simp add: alloc4_round_def h)
      have "?i < length blocks" using less.prems by (auto intro!: mod_less_divisor)
      moreover have "a - ms ! i < a" using True ms(2) by simp
      ultimately have "a - ms ! i < a" "?i < length blocks" by blast+
      from less.IH [OF this, of "(hp + 1) mod hostc s" t] show ?thesis
        using Inr unfolding w r pl by (simp add: run_blocks_def h)
    qed
  qed
qed

text \<open>The block-cyclic loop of \<open>jia_alloc3\<close> is the loop of \<open>jia_alloc4\<close> with one block size.\<close>

lemma alloc3_plan:
  assumes "0 < m"
  shows "\<exists>r. while_option alloc_more (alloc3_round m) (Inr (a, 0, hp, s)) = Some r \<and>
    bindE r (\<lambda>(_, _, _, s). Inr s) = run_blocks (plan (hostc s) [m] 0 a hp) s"
proof (induction a arbitrary: hp s rule: less_induct)
  case (less a)
  let ?w = "while_option alloc_more (alloc3_round m)"
  show ?case
  proof (cases "0 < a")
    case False
    then show ?thesis
      using loop_end [of "Inr (a, 0, hp, s)"] by (simp add: plan.simps run_blocks_def)
  next
    case True
    have pl: "plan (hostc s) [m] 0 a hp =
        (hp, m) # plan (hostc s) [m] 0 (a - m) ((hp + 1) mod hostc s)"
      using True assms by (subst plan.simps) simp
    have w: "?w (Inr (a, 0, hp, s)) = ?w (alloc3_round m (Inr (a, 0, hp, s)))"
      by (rule loop_round) (use True in simp)
    show ?thesis
    proof (cases "alloc_block hp m s")
      case (Inl e)
      then have "alloc3_round m (Inr (a, 0, hp, s)) = Inl e" by (simp add: alloc3_round_def)
      then show ?thesis using Inl loop_end [of "Inl e"] by (simp add: w pl run_blocks_def)
    next
      case (Inr t)
      have h: "hostc t = hostc s" by (rule alloc_block_frame [OF Inr])
      have r: "alloc3_round m (Inr (a, 0, hp, s)) = Inr (a - m, 0, (hp + 1) mod hostc s, t)"
        using Inr by (simp add: alloc3_round_def h)
      have "a - m < a" using True assms by simp
      from less.IH [OF this, of "(hp + 1) mod hostc s" t] show ?thesis
        using Inr unfolding w r pl by (simp add: run_blocks_def h)
    qed
  qed
qed

lemma alloc3_run:
  assumes "ALIGN2PAGE block = Inr m" "0 < m" "ALIGN2PAGE T = Inr a"
  shows "jia_alloc3 T block st s = bindE (enough_space T s) (\<lambda>_.
     bindE (run_blocks (plan (hostc s) [m] 0 a st) s) (\<lambda>t. Inr (alloc_result (globaladdr s) t, t)))"
  using alloc3_plan [OF assms(2), of a st s] assms by (auto simp: jia_alloc3_def alloc_loop_def)

lemma alloc4_run:
  assumes "list_all2 (\<lambda>b m. ALIGN2PAGE b = Inr m \<and> 0 < m) blocks ms" "blocks \<noteq> []" "ALIGN2PAGE T = Inr a"
  shows "jia_alloc4 T blocks (length blocks) st s = bindE (enough_space T s) (\<lambda>_.
     bindE (run_blocks (plan (hostc s) ms 0 a st) s) (\<lambda>t. Inr (alloc_result (globaladdr s) t, t)))"
  using alloc4_plan [OF assms(1), of 0 a st s] assms by (auto simp: jia_alloc4_def alloc_loop_def)

lemma align_ok:
  assumes "0 < b" "b \<le> 0x7ffff000"
  shows "\<exists>m. ALIGN2PAGE b = Inr m \<and> 0 < m \<and> m mod Pagesize = 0 \<and> b \<le> m"
proof (cases "b mod 4096 = 0")
  case True
  then show ?thesis using assms by (simp add: ALIGN2PAGE_def Pagesize_def Maxint_def)
next
  case False
  have b: "b = b div 4096 * 4096 + b mod 4096" "b mod 4096 < 4096" by simp_all
  have "b div 4096 < 524287"
  proof (rule ccontr)
    assume "\<not> b div 4096 < 524287"
    then show False using b(1) assms(2) False by linarith
  qed
  then have "(b div 4096 + 1) * 4096 \<le> Maxint" by (simp add: Maxint_def)
  moreover have "b \<le> (b div 4096 + 1) * 4096" using b unfolding distrib_right mult_1 by linarith
  ultimately show ?thesis
    using False by (intro exI [of _ "(b div 4096 + 1) * 4096"]) (simp add: ALIGN2PAGE_def Pagesize_def)
qed

text \<open>
  C20: The two allocators agree: \<open>jia_alloc3\<close> is \<open>jia_alloc4\<close> with a single block size.
\<close>

theorem alloc3_is_alloc4:
  assumes "0 < block" "block \<le> 0x7ffff000"
  shows "jia_alloc3 T block st s = jia_alloc4 T [block] 1 st s"
proof -
  obtain m where m: "ALIGN2PAGE block = Inr m" "0 < m"
    using align_ok [OF assms] by blast
  then have "list_all2 (\<lambda>b m. ALIGN2PAGE b = Inr m \<and> 0 < m) [block] [m]" by simp
  then show ?thesis
    using alloc3_run [OF m] alloc4_run [of "[block]" "[m]"] m
    by (cases "ALIGN2PAGE T") (simp_all add: jia_alloc3_def jia_alloc4_def)
qed

section \<open>One round\<close>

lemma empty_range [simp]: "(g :: nat) \<le> p \<and> p < g \<longleftrightarrow> False"
  by auto

lemma page_step: "(g + k * Pagesize) div Pagesize = g div Pagesize + k"
  by (simp add: add.commute)

lemma enter_home_all:
  assumes "globaladdr s div Pagesize + n \<le> Maxmempages"
  shows "foldE (enter_home hp) (map (\<lambda>k. k * Pagesize) [0..<n]) s = Inr (s\<lparr>page := (\<lambda>p.
      if globaladdr s div Pagesize \<le> p \<and> p < globaladdr s div Pagesize + n
      then (page s p)\<lparr>homepid := hp\<rparr> else page s p)\<rparr>)"
  using assms
proof (induction n)
  case (Suc n)
  then show ?case
    by (simp add: foldE_append enter_home_def page_step upd_page_def Let_def)
      (rule arg_cong [of _ _ "\<lambda>f. s\<lparr>page := f\<rparr>"], auto simp: fun_eq_iff less_Suc_eq)
qed simp

definition own_pages :: "nat \<Rightarrow> nat \<Rightarrow> nat \<Rightarrow> host \<Rightarrow> host" where
  "own_pages g h n s = s\<lparr>page := (\<lambda>p. if g \<le> p \<and> p < g + n then (page s p)\<lparr>homei := h + (p - g)\<rparr> else page s p),
     home := (\<lambda>i. if h \<le> i \<and> i < h + n then (home s i)\<lparr>h_addr := global_start_addr s +
       word_of_nat ((g + (i - h)) * Pagesize)\<rparr> else home s i)\<rparr>"

lemma enter_own_all:
  assumes "globaladdr s = g * Pagesize" "homesize s hp = h * Pagesize"
    "g + n \<le> Maxmempages" "h + n \<le> Homepages"
  shows "foldE (enter_own hp) (map (\<lambda>k. k * Pagesize) [0..<n]) s = Inr (own_pages g h n s)"
  using assms(3,4)
proof (induction n)
  case 0
  show ?case by (simp add: own_pages_def)
next
  case (Suc n)
  let ?t = "own_pages g h n s"
  have idx: "(globaladdr ?t + n * Pagesize) div Pagesize = g + n" "(homesize ?t hp + n * Pagesize) div Pagesize = h + n"
    using assms(1,2) by (simp_all add: own_pages_def page_step)
  have ad: "global_start_addr s + word_of_nat (g * Pagesize) + word_of_nat (n * Pagesize) =
      global_start_addr s + (word_of_nat ((g + n) * Pagesize) :: addr)"
    by (simp add: distrib_right)
  have "upd_page (g + n) (\<lambda>p. p\<lparr>homei := h + n\<rparr>) (upd_home (h + n) (\<lambda>k. k\<lparr>h_addr :=
      global_start_addr ?t + word_of_nat (globaladdr ?t) + word_of_nat (n * Pagesize)\<rparr>) ?t) =
      own_pages g h (Suc n) s"
    using assms(1) ad by (auto simp: own_pages_def upd_page_def upd_home_def fun_eq_iff less_Suc_eq)
  then have "enter_own hp (n * Pagesize) ?t = Inr (own_pages g h (Suc n) s)"
    using Suc.prems by (simp only: enter_own_def Let_def idx) simp
  then show ?case using Suc by (simp add: foldE_append)
qed

lemma page_range_pages:
  assumes "aligned a"
  shows "page_range a (n * Pagesize) = map (\<lambda>k. a + word_of_nat (k * Pagesize)) [0..<n]"
proof (cases "n = 0")
  case False
  have "unat (a - page_base a) + n * Pagesize + Pagesize - 1 = (Pagesize - 1) + n * Pagesize"
    using assms Pagesize_pos by (simp add: aligned_page_base del: Pagesize_pos)
  moreover have "((Pagesize - 1) + n * Pagesize) div Pagesize = n"
    by (simp add: Pagesize_def)
  ultimately show ?thesis using False assms by (simp add: page_range_def aligned_page_base)
qed (simp add: page_range_def)

lemma aligned_plus:
  assumes "aligned a"
  shows "aligned (a + word_of_nat (k * Pagesize))"
proof -
  have "unat (a + word_of_nat m) = (unat a + m) mod 2 ^ 64" for m
    by (simp add: unat_word_ariths unat_of_nat mod_add_right_eq)
  then have "unat (a + word_of_nat (k * Pagesize)) = (unat a + k * 4096) mod 2 ^ 64"
    unfolding Pagesize_def by blast
  moreover have "x mod 2 ^ 64 mod 4096 = x mod 4096" for x :: nat
    by (rule mod_mod_cancel) (simp add: dvd_def)
  ultimately show ?thesis using assms by (simp add: aligned_def Pagesize_def)
qed

text \<open>The mapped pages of the home, before they are entered.\<close>

definition map_own :: "nat \<Rightarrow> nat \<Rightarrow> host \<Rightarrow> host" where
  "map_own g n s = (let r = set (page_range (global_start_addr s + word_of_nat (g * Pagesize)) (n * Pagesize))
     in s\<lparr>vprot := (\<lambda>b. if b \<in> r then Some (alloc_prot s) else vprot s b),
          vmem := (\<lambda>x. if page_base x \<in> r then 0 else vmem s x)\<rparr>)"

lemma alloc_block_run:
  assumes "hp < Maxhosts" "aligned (global_start_addr s)" "0 < n" "globaladdr s = g * Pagesize"
    "homesize s hp = h * Pagesize" "g + n \<le> Maxmempages" "h + n < Homepages"
  shows "alloc_block hp (n * Pagesize) s =
    (let t = (if jia_pid s = hp then own_pages g h n (map_own g n s) else s)
     in Inr (t\<lparr>page := (\<lambda>p. if g \<le> p \<and> p < g + n then (page t p)\<lparr>homepid := hp\<rparr> else page t p),
          homesize := (homesize s)(hp := (h + n) * Pagesize), globaladdr := (g + n) * Pagesize\<rparr>))"
proof -
  let ?t = "if jia_pid s = hp then own_pages g h n (map_own g n s) else s"
  let ?u = "?t\<lparr>page := (\<lambda>p. if g \<le> p \<and> p < g + n then (page ?t p)\<lparr>homepid := hp\<rparr> else page ?t p)\<rparr>"
  have off: "page_offsets (n * Pagesize) = map (\<lambda>k. k * Pagesize) [0..<n]" by (simp add: page_offsets_def)
  have fr: "globaladdr ?t = g * Pagesize" "homesize ?t = homesize s"
    using assms(4) by (simp_all add: own_pages_def map_own_def Let_def)
  have "h * Pagesize + n * Pagesize < Homepages * Pagesize"
    using assms(7) by (simp add: Pagesize_def)
  then have "memmap (global_start_addr s + word_of_nat (g * Pagesize)) (n * Pagesize) (alloc_prot s) s =
      Inr (map_own g n s)" "h * Pagesize + n * Pagesize < Homepages * Pagesize"
    using aligned_plus [OF assms(2), of g] assms(3)
    by (simp_all add: memmap_def map_own_def Let_def aligned_page_base)
  moreover have "foldE (enter_own hp) (page_offsets (n * Pagesize)) (map_own g n s) =
      Inr (own_pages g h n (map_own g n s))"
    unfolding off by (rule enter_own_all)
      (use assms in \<open>simp_all add: map_own_def Let_def\<close>)
  ultimately have own: "(if jia_pid s = hp then alloc_own hp (n * Pagesize) s else Inr s) = Inr ?t"
    using assms(4,5) by (simp add: alloc_own_def)
  have ent: "foldE (enter_home hp) (page_offsets (n * Pagesize)) ?t = Inr ?u"
    unfolding off using enter_home_all [of ?t n hp] assms(6) fr(1) by (simp only: fr(1)) simp
  have "h * Pagesize + n * Pagesize \<le> Maxint"
    using assms(7) by (simp add: Pagesize_def Maxint_def Homepages_def)
  then have "alloc_advance hp (n * Pagesize) ?u = Inr (?u\<lparr>homesize := (homesize s)(hp := (h + n) * Pagesize),
      globaladdr := (g + n) * Pagesize\<rparr>)"
    using fr assms(5) by (simp add: alloc_advance_def distrib_right split del: if_split)
  then show ?thesis
    using assms(1) own ent by (simp only: alloc_block_def Let_def bindE_Inr assertE_True)
qed

section \<open>The tables after an allocation\<close>

text \<open>
  On the host, the pages it is home of and its entries of \<open>home\<close> correspond one to one: an entry
  holds the address of its page, and the page is mapped.
\<close>

definition alloc_inv :: "host \<Rightarrow> bool" where
  "alloc_inv s \<longleftrightarrow> aligned (global_start_addr s) \<and> globaladdr s mod Pagesize = 0 \<and>
     (\<forall>h. homesize s h mod Pagesize = 0) \<and>
     (\<forall>p<globaladdr s div Pagesize. homepid (page s p) = jia_pid s \<longrightarrow>
        homei (page s p) < homesize s (jia_pid s) div Pagesize \<and>
        h_addr (home s (homei (page s p))) = global_start_addr s + word_of_nat (p * Pagesize) \<and>
        vprot s (global_start_addr s + word_of_nat (p * Pagesize)) \<noteq> None) \<and>
     (\<forall>i<homesize s (jia_pid s) div Pagesize. \<exists>p<globaladdr s div Pagesize. homepid (page s p) = jia_pid s \<and> homei (page s p) = i)"

lemma alloc_block_inv:
  assumes "alloc_inv s" "hp < Maxhosts" "0 < n" "globaladdr s div Pagesize + n \<le> Maxmempages"
    "homesize s hp div Pagesize + n < Homepages"
  shows "\<exists>t. alloc_block hp (n * Pagesize) s = Inr t \<and> alloc_inv t \<and>
    globaladdr t = globaladdr s + n * Pagesize \<and> homesize t = (homesize s)(hp := homesize s hp + n * Pagesize) \<and>
    (\<forall>p. homepid (page t p) = (if globaladdr s div Pagesize \<le> p \<and> p < globaladdr s div Pagesize + n
       then hp else homepid (page s p)))"
proof -
  define g where "g = globaladdr s div Pagesize"
  define h where "h = homesize s hp div Pagesize"
  have gh: "globaladdr s = g * Pagesize" "homesize s hp = h * Pagesize"
    using assms(1) div_mult_mod_eq [of "globaladdr s" Pagesize] div_mult_mod_eq [of "homesize s hp" Pagesize]
    by (simp_all add: alloc_inv_def g_def h_def)
  have al: "aligned (global_start_addr s)" using assms(1) by (simp add: alloc_inv_def)
  let ?t = "if jia_pid s = hp then own_pages g h n (map_own g n s) else s"
  let ?u = "?t\<lparr>page := (\<lambda>p. if g \<le> p \<and> p < g + n then (page ?t p)\<lparr>homepid := hp\<rparr> else page ?t p),
    homesize := (homesize s)(hp := (h + n) * Pagesize), globaladdr := (g + n) * Pagesize\<rparr>"
  have run: "alloc_block hp (n * Pagesize) s = Inr ?u"
    using alloc_block_run [OF assms(2) al assms(3) gh] assms(4,5) unfolding Let_def g_def h_def by blast
  have old: "\<forall>p<g. homepid (page s p) = jia_pid s \<longrightarrow>
        homei (page s p) < homesize s (jia_pid s) div Pagesize \<and>
        h_addr (home s (homei (page s p))) = global_start_addr s + word_of_nat (p * Pagesize) \<and>
        vprot s (global_start_addr s + word_of_nat (p * Pagesize)) \<noteq> None"
    "\<forall>i<homesize s (jia_pid s) div Pagesize. \<exists>p<g. homepid (page s p) = jia_pid s \<and> homei (page s p) = i"
    "\<forall>h. homesize s h mod Pagesize = 0"
    using assms(1) by (simp_all add: alloc_inv_def g_def)
  have "alloc_inv ?u"
  proof (cases "jia_pid s = hp")
    case False
    have "\<exists>p<g + n. homepid (page ?u p) = jia_pid s \<and> homei (page ?u p) = i"
      if i: "i < homesize s (jia_pid s) div Pagesize" for i
    proof -
      obtain p where "p < g" "homepid (page s p) = jia_pid s" "homei (page s p) = i" using old(2) i by blast
      then show ?thesis using False by (intro exI [of _ p]) simp
    qed
    then show ?thesis using False old(1,3) al by (simp add: alloc_inv_def)
  next
    case True
    have rng: "set (page_range (global_start_addr s + word_of_nat (g * Pagesize)) (n * Pagesize)) =
        (\<lambda>k. global_start_addr s + word_of_nat ((g + k) * Pagesize)) ` {0..<n}"
      unfolding page_range_pages [OF aligned_plus [OF al]] by (simp add: distrib_right add.assoc)
    have "homei (page ?u p) < h + n \<and>
        h_addr (home ?u (homei (page ?u p))) = global_start_addr s + word_of_nat (p * Pagesize) \<and>
        vprot ?u (global_start_addr s + word_of_nat (p * Pagesize)) \<noteq> None"
      if p: "p < g + n" "homepid (page ?u p) = jia_pid s" for p
    proof (cases "p < g")
      case True
      then have "homei (page s p) < h" "h_addr (home s (homei (page s p))) = global_start_addr s + word_of_nat (p * Pagesize)"
        "vprot s (global_start_addr s + word_of_nat (p * Pagesize)) \<noteq> None"
        using old(1) p gh \<open>jia_pid s = hp\<close> by (simp_all add: own_pages_def map_own_def Let_def)
      then show ?thesis using True \<open>jia_pid s = hp\<close> by (simp add: own_pages_def map_own_def Let_def)
    next
      case False
      then have "global_start_addr s + word_of_nat (p * Pagesize) \<in>
          set (page_range (global_start_addr s + word_of_nat (g * Pagesize)) (n * Pagesize))"
        unfolding rng using p(1) by (intro image_eqI [where x = "p - g"]) simp_all
      moreover have "h \<le> h + p - g \<and> h + p - g < h + n" using False p(1) by linarith
      ultimately show ?thesis
        using False p(1) \<open>jia_pid s = hp\<close> by (simp add: own_pages_def map_own_def Let_def)
    qed
    moreover have "\<exists>p<g + n. homepid (page ?u p) = jia_pid s \<and> homei (page ?u p) = i" if i: "i < h + n" for i
    proof (cases "i < h")
      case True
      then obtain p where "p < g" "homepid (page s p) = jia_pid s" "homei (page s p) = i"
        using old(2) gh \<open>jia_pid s = hp\<close> by (metis nonzero_mult_div_cancel_right Pagesize_pos less_numeral_extra(3))
      then show ?thesis
        using \<open>jia_pid s = hp\<close> by (intro exI [of _ p]) (simp add: own_pages_def map_own_def Let_def)
    next
      case False
      then show ?thesis
        using i \<open>jia_pid s = hp\<close>
        by (intro exI [of _ "g + (i - h)"]) (auto simp: own_pages_def map_own_def Let_def)
    qed
    moreover have u: "globaladdr ?u div Pagesize = g + n" "globaladdr ?u mod Pagesize = 0"
      "jia_pid ?u = jia_pid s" "global_start_addr ?u = global_start_addr s"
      "homesize ?u (jia_pid s) div Pagesize = h + n" "\<forall>k. homesize ?u k mod Pagesize = 0"
      using True old(3) by (simp_all add: own_pages_def map_own_def Let_def)
    ultimately show ?thesis using al by (simp only: alloc_inv_def u) blast
  qed
  moreover have "\<forall>p. homepid (page ?u p) = (if g \<le> p \<and> p < g + n then hp else homepid (page s p))"
    by (simp add: own_pages_def map_own_def Let_def)
  ultimately show ?thesis
    using gh unfolding run g_def [symmetric] by (intro exI [of _ ?u]) (simp add: distrib_right)
qed

section \<open>A whole allocation\<close>

text \<open>The host of the \<open>j\<close>-th page of a list of rounds, and the pages of the rounds.\<close>

fun owner :: "(nat \<times> nat) list \<Rightarrow> nat \<Rightarrow> nat" where
  "owner [] j = 0"
| "owner ((hp, mapsize) # bs) j =
     (if j < mapsize div Pagesize then hp else owner bs (j - mapsize div Pagesize))"

fun block_pages :: "(nat \<times> nat) list \<Rightarrow> nat" where
  "block_pages [] = 0"
| "block_pages ((hp, mapsize) # bs) = mapsize div Pagesize + block_pages bs"

lemma run_blocks_inv:
  assumes "alloc_inv s" "\<forall>(hp, m)\<in>set bs. hp < Maxhosts \<and> 0 < m \<and> m mod Pagesize = 0"
    "globaladdr s div Pagesize + block_pages bs \<le> Maxmempages"
    "\<forall>hp. homesize s hp div Pagesize + block_pages bs < Homepages"
  shows "\<exists>t. run_blocks bs s = Inr t \<and> alloc_inv t \<and> global_start_addr t = global_start_addr s \<and>
    globaladdr t = globaladdr s + block_pages bs * Pagesize \<and>
    (\<forall>p. homepid (page t p) =
       (if globaladdr s div Pagesize \<le> p \<and> p < globaladdr s div Pagesize + block_pages bs
        then owner bs (p - globaladdr s div Pagesize) else homepid (page s p)))"
  using assms
proof (induction bs arbitrary: s)
  case Nil
  then show ?case by (simp add: run_blocks_def)
next
  case (Cons b bs)
  obtain hp m where b: "b = (hp, m)" by (cases b)
  define n where "n = m div Pagesize"
  define g where "g = globaladdr s div Pagesize"
  have m: "m = n * Pagesize" "hp < Maxhosts" "0 < n"
    using Cons.prems(2) div_mult_mod_eq [of m Pagesize] unfolding b n_def
    by (auto simp: div_greater_zero_iff dest: mod_0_imp_dvd)
  have bp: "block_pages (b # bs) = n + block_pages bs" by (simp add: b n_def)
  have room: "g + n \<le> Maxmempages" "homesize s hp div Pagesize + n < Homepages"
    using Cons.prems(3,4) unfolding bp g_def by (simp, meson add_le_imp_le_left le_add1 le_less_trans add_left_mono)
  obtain t where t: "alloc_block hp (n * Pagesize) s = Inr t" "alloc_inv t"
    "globaladdr t = globaladdr s + n * Pagesize" "homesize t = (homesize s)(hp := homesize s hp + n * Pagesize)"
    "\<forall>p. homepid (page t p) = (if g \<le> p \<and> p < g + n then hp else homepid (page s p))"
    using alloc_block_inv [OF Cons.prems(1) m(2,3)] room unfolding g_def by blast
  have gt: "globaladdr t div Pagesize = g + n" by (simp add: t(3) g_def page_step)
  have "\<forall>k. homesize t k div Pagesize + block_pages bs < Homepages"
  proof
    fix k
    have "homesize t k div Pagesize \<le> homesize s k div Pagesize + n" by (simp add: t(4) page_step)
    moreover have "homesize s k div Pagesize + (n + block_pages bs) < Homepages"
      using Cons.prems(4) unfolding bp by blast
    ultimately show "homesize t k div Pagesize + block_pages bs < Homepages" by linarith
  qed
  moreover have "globaladdr t div Pagesize + block_pages bs \<le> Maxmempages"
    using Cons.prems(3) unfolding bp gt g_def by simp
  ultimately obtain u where u: "run_blocks bs t = Inr u" "alloc_inv u"
    "global_start_addr u = global_start_addr t" "globaladdr u = globaladdr t + block_pages bs * Pagesize"
    "\<forall>p. homepid (page u p) = (if g + n \<le> p \<and> p < g + n + block_pages bs
        then owner bs (p - (g + n)) else homepid (page t p))"
    using Cons.IH [OF t(2)] Cons.prems(2) unfolding gt by auto
  have "run_blocks (b # bs) s = Inr u" using t(1) u(1) by (simp add: run_blocks_def b m(1))
  moreover have "globaladdr u = globaladdr s + block_pages (b # bs) * Pagesize"
    unfolding u(4) t(3) bp by (simp add: distrib_right)
  moreover have "\<forall>p. homepid (page u p) = (if g \<le> p \<and> p < g + block_pages (b # bs)
        then owner (b # bs) (p - g) else homepid (page s p))"
    unfolding bp using u(5) t(5) by (auto simp: b n_def [symmetric] less_diff_conv2 diff_diff_left)
  ultimately show ?case
    using u(2,3) alloc_block_frame(3) [OF t(1)] unfolding g_def by auto
qed

text \<open>The rounds of \<open>jia_alloc3\<close>: blocks of \<open>n\<close> pages go to the hosts in turn.\<close>

lemma plan3:
  assumes "0 < n" "st < h"
  shows "block_pages (plan h [n * Pagesize] 0 a st) = (a + n * Pagesize - 1) div (n * Pagesize) * n \<and>
    (\<forall>(hp, m)\<in>set (plan h [n * Pagesize] 0 a st). hp < h \<and> m = n * Pagesize) \<and>
    (\<forall>j<block_pages (plan h [n * Pagesize] 0 a st). owner (plan h [n * Pagesize] 0 a st) j = (st + j div n) mod h)"
  using assms(2)
proof (induction a arbitrary: st rule: less_induct)
  case (less a)
  let ?m = "n * Pagesize"
  have m: "0 < ?m" using assms(1) by simp
  show ?case
  proof (cases "a = 0")
    case True
    then show ?thesis using m by (simp add: plan.simps)
  next
    case False
    let ?st = "(st + 1) mod h" and ?p = "plan h [?m] 0 (a - ?m) ((st + 1) mod h)"
    have pl: "plan h [?m] 0 a st = (st, ?m) # ?p" using False m by (subst plan.simps) simp
    have "a - ?m < a" "?st < h" using False m less.prems by (simp_all add: mod_less_divisor)
    note IH = less.IH [OF this]
    have "(a + ?m - 1) div ?m = Suc ((a - ?m + ?m - 1) div ?m)"
    proof (cases "?m \<le> a")
      case True
      then have "a + ?m - 1 = (a - ?m + ?m - 1) + ?m" by simp
      then show ?thesis using m by (metis Suc_eq_plus1 div_add_self2 less_not_refl2)
    next
      case lt: False
      then have "(a + ?m - 1) div ?m = 1" using False by (intro div_nat_eqI) auto
      moreover have "(a - ?m + ?m - 1) div ?m = 0" using lt m by simp
      ultimately show ?thesis by simp
    qed
    moreover have "owner ((st, ?m) # ?p) j = (st + j div n) mod h" if "j < n + block_pages ?p" for j
    proof (cases "j < n")
      case True
      then show ?thesis using less.prems by simp
    next
      case ge: False
      then have "j - n < block_pages ?p" using that by simp
      then have "owner ?p (j - n) = (?st + (j - n) div n) mod h" using IH by blast
      also have "\<dots> = (st + (1 + (j - n) div n)) mod h" by (simp add: mod_add_left_eq)
      also have "1 + (j - n) div n = j div n" using ge assms(1) by (simp add: le_div_geq)
      finally show ?thesis using ge by simp
    qed
    ultimately show ?thesis using IH less.prems unfolding pl by simp
  qed
qed

lemma div_last: "(q * Pagesize + (Pagesize - 1)) div Pagesize = q"
proof -
  have "(Pagesize - 1) div Pagesize = 0" by (rule div_less) simp
  then show ?thesis by (subst div_mult_self3) simp_all
qed

definition pages_of :: "nat \<Rightarrow> nat" where
  "pages_of b = (b + Pagesize - 1) div Pagesize"

lemma align_pages:
  assumes "0 < b" "b \<le> 0x7ffff000"
  shows "ALIGN2PAGE b = Inr (pages_of b * Pagesize)" "0 < pages_of b"
proof -
  from align_ok [OF assms] obtain m where m: "ALIGN2PAGE b = Inr m" "0 < m" "m mod Pagesize = 0"
    by (elim exE conjE)
  have "m = pages_of b * Pagesize"
  proof (cases "b mod Pagesize = 0")
    case True
    then obtain q where q: "b = q * Pagesize" by (metis mod_0_imp_dvd dvdE mult.commute)
    have "q * Pagesize + Pagesize - 1 = q * Pagesize + (Pagesize - 1)" using Pagesize_pos by linarith
    then have "pages_of b = q" unfolding pages_of_def q by (simp only: div_last)
    then show ?thesis using m(1) unfolding q by (simp add: ALIGN2PAGE_def Let_def split: if_splits)
  next
    case False
    have "b + Pagesize - 1 = (b mod Pagesize - 1) + (b div Pagesize + 1) * Pagesize"
      using False div_mult_mod_eq [of b Pagesize] by simp
    moreover have "b mod Pagesize - 1 < Pagesize" using mod_less_divisor [OF Pagesize_pos, of b] by linarith
    ultimately have "pages_of b = b div Pagesize + 1"
      unfolding pages_of_def by (metis Pagesize_pos div_less div_mult_self1 add_0_right less_not_refl2)
    then show ?thesis using m False by (simp add: ALIGN2PAGE_def Let_def split: if_splits)
  qed
  then show "ALIGN2PAGE b = Inr (pages_of b * Pagesize)" "0 < pages_of b" using m by auto
qed

lemma rounds_pages:
  assumes "0 < n"
  shows "(a * Pagesize + n * Pagesize - 1) div (n * Pagesize) = (a + n - 1) div n"
proof -
  have "a * Pagesize + n * Pagesize - 1 = (a + n - 1) * Pagesize + (Pagesize - 1)"
    using assms by (cases n) (simp_all add: Pagesize_def)
  moreover note div_last [of "a + n - 1"]
  ultimately show ?thesis by (simp only: mult.commute [of n] div_mult2_eq)
qed

text \<open>
  C18: What \<open>jia_alloc3\<close> does. When there is room, the allocation takes the next addresses of the
  shared memory, as many whole rounds of blocks as cover the size; the page at offset \<open>j\<close> gets its
  home in turns, \<open>blocksize\<close> bytes per host, from \<open>starthost\<close> on; pages outside keep theirs; and
  each host's home table again corresponds one to one to the pages that are at home there.
\<close>

theorem jia_alloc3_layout:
  assumes "alloc_inv s" "0 < T" "T \<le> 0x7ffff000" "0 < B" "B \<le> 0x7ffff000" "st < hostc s"
    "hostc s \<le> Maxhosts" "r = (pages_of T + pages_of B - 1) div pages_of B * pages_of B"
    "globaladdr s div Pagesize + r \<le> Maxmempages" "\<forall>h. homesize s h div Pagesize + r < Homepages"
  shows "\<exists>s'. jia_alloc3 T B st s = Inr (alloc_result (globaladdr s) s, s') \<and> alloc_inv s' \<and>
    globaladdr s' = globaladdr s + r * Pagesize \<and>
    (\<forall>p. homepid (page s' p) =
       (if globaladdr s div Pagesize \<le> p \<and> p < globaladdr s div Pagesize + r
        then (st + (p - globaladdr s div Pagesize) div pages_of B) mod hostc s else homepid (page s p)))"
proof -
  let ?n = "pages_of B" and ?a = "pages_of T * Pagesize"
  let ?p = "plan (hostc s) [?n * Pagesize] 0 ?a st"
  note b = align_pages [OF assms(4,5)] and t = align_pages [OF assms(2,3)]
  have pl: "block_pages ?p = r" "\<forall>(hp, m)\<in>set ?p. hp < hostc s \<and> m = ?n * Pagesize"
    "\<forall>j<r. owner ?p j = (st + j div ?n) mod hostc s"
    using plan3 [OF b(2) assms(6), of ?a] unfolding rounds_pages [OF b(2)] assms(8) [symmetric] by simp_all
  have "\<forall>(hp, m)\<in>set ?p. hp < Maxhosts \<and> 0 < m \<and> m mod Pagesize = 0"
    using pl(2) b(2) assms(7) by fastforce
  from run_blocks_inv [OF assms(1) this] obtain s' where s': "run_blocks ?p s = Inr s'" "alloc_inv s'"
    "global_start_addr s' = global_start_addr s" "globaladdr s' = globaladdr s + r * Pagesize"
    "\<forall>p. homepid (page s' p) = (if globaladdr s div Pagesize \<le> p \<and> p < globaladdr s div Pagesize + r
        then owner ?p (p - globaladdr s div Pagesize) else homepid (page s p))"
    using assms(9,10) unfolding pl(1) by blast
  have "globaladdr s = globaladdr s div Pagesize * Pagesize"
    using assms(1) div_mult_mod_eq [of "globaladdr s" Pagesize] by (simp add: alloc_inv_def)
  moreover have "pages_of T \<le> r"
  proof -
    have "pages_of T + ?n - 1 < (pages_of T + ?n - 1) div ?n * ?n + ?n"
      using b(2) by (metis add.commute dividend_less_div_times)
    then show ?thesis using assms(8) by linarith
  qed
  moreover have "T \<le> ?a"
  proof -
    from align_ok [OF assms(2,3)] obtain m where "ALIGN2PAGE T = Inr m" "T \<le> m" by (elim exE conjE)
    then show ?thesis using t(1) by (simp only: sum.inject)
  qed
  ultimately have "globaladdr s + T \<le> (globaladdr s div Pagesize + r) * Pagesize"
    by (metis add_mono distrib_right mult_le_mono1 le_trans order_refl)
  also have "\<dots> \<le> Maxmempages * Pagesize" using assms(9) by (rule mult_le_mono1)
  also have "\<dots> = Maxmemsize" by (simp add: Maxmempages_def Pagesize_def Maxmemsize_def)
  finally have "enough_space T s = Inr ()" by (simp add: enough_space_def)
  then have "jia_alloc3 T B st s = Inr (alloc_result (globaladdr s) s, s')"
    using alloc3_run [OF b(1) _ t(1), of st s] b(2) s'(1,3) by (simp add: alloc_result_def)
  then show ?thesis using s'(2,4,5) pl(3) by auto
qed

section \<open>Agreement of the hosts\<close>

lemma enter_home_table:
  "foldE (enter_home hp) xs s = Inr t \<Longrightarrow> homepid (page t p) =
     (if p \<in> (\<lambda>i. (globaladdr s + i) div Pagesize) ` set xs then hp else homepid (page s p))"
proof (induction xs arbitrary: s)
  case (Cons x xs)
  then obtain u where u: "enter_home hp x s = Inr u" "foldE (enter_home hp) xs u = Inr t" by auto
  have "globaladdr u = globaladdr s" using enter_frames(1) [OF u(1)] by simp
  moreover have "homepid (page u p) = (if p = (globaladdr s + x) div Pagesize then hp else homepid (page s p))"
    using u(1) by (auto simp: enter_home_def Let_def upd_page_def split: if_splits)
  ultimately show ?case using Cons.IH [OF u(2)] by auto
qed simp

lemma enter_own_table: "foldE (enter_own hp) xs s = Inr t \<Longrightarrow> homepid (page t p) = homepid (page s p)"
proof (induction xs arbitrary: s)
  case (Cons x xs)
  then obtain u where u: "enter_own hp x s = Inr u" "foldE (enter_own hp) xs u = Inr t" by auto
  then have "homepid (page u p) = homepid (page s p)"
    by (auto simp: enter_own_def Let_def upd_page_def upd_home_def split: if_splits)
  then show ?case using Cons.IH [OF u(2)] by simp
qed simp

lemma alloc_own_table: "alloc_own hp m s = Inr t \<Longrightarrow> homepid (page t p) = homepid (page s p)"
  by (auto simp: alloc_own_def memmap_def dest!: enter_own_table [where p = p])

lemma alloc_block_table:
  assumes "alloc_block hp m s = Inr t"
  shows "homepid (page t p) =
     (if p \<in> (\<lambda>i. (globaladdr s + i) div Pagesize) ` set (page_offsets m) then hp else homepid (page s p))"
proof -
  obtain u v where u: "(if jia_pid s = hp then alloc_own hp m s else Inr s) = Inr u"
    "foldE (enter_home hp) (page_offsets m) u = Inr v" "alloc_advance hp m v = Inr t"
    using assms by (auto simp: alloc_block_def)
  have "globaladdr u = globaladdr s" "homepid (page u p) = homepid (page s p)"
    using u(1) alloc_own_frame [of hp m s u] alloc_own_table [of hp m s u] by (auto split: if_splits)
  moreover have "page t = page v" using u(3) by (auto simp: alloc_advance_def split: if_splits)
  ultimately show ?thesis using enter_home_table [OF u(2), of p] by simp
qed

text \<open>What two hosts have to agree on: the free address, the sizes of the homes, and who is home.\<close>

definition same_layout :: "host \<Rightarrow> host \<Rightarrow> bool" where
  "same_layout s t \<longleftrightarrow> hostc s = hostc t \<and> global_start_addr s = global_start_addr t \<and>
     globaladdr s = globaladdr t \<and> homesize s = homesize t \<and>
     (\<forall>p. homepid (page s p) = homepid (page t p))"

lemma alloc_block_agree:
  assumes "same_layout s t" "alloc_block hp m s = Inr s'" "alloc_block hp m t = Inr t'"
  shows "same_layout s' t'"
  using assms(1) alloc_block_frame [OF assms(2)] alloc_block_frame [OF assms(3)]
    alloc_block_table [OF assms(2)] alloc_block_table [OF assms(3)]
  by (simp add: same_layout_def)

lemma run_blocks_agree:
  "same_layout s t \<Longrightarrow> run_blocks bs s = Inr s' \<Longrightarrow> run_blocks bs t = Inr t' \<Longrightarrow> same_layout s' t'"
proof (induction bs arbitrary: s t)
  case (Cons b bs)
  then show ?case using alloc_block_agree [of s t "fst b" "snd b"] by (auto simp: run_blocks_def split: prod.splits)
qed (simp add: run_blocks_def)

text \<open>
  C19: The hosts keep agreeing on the layout of the shared memory. When two hosts that agree on it
  run the same \<open>jia_alloc4\<close>, with any positive block sizes, and neither stops, they get the same
  address and agree again: on the next free address, on the home of every page and on the size of
  every home.
\<close>

theorem jia_alloc4_agree:
  assumes "same_layout s t" "blocks \<noteq> []" "\<forall>b\<in>set blocks. 0 < b \<and> b \<le> 0x7ffff000"
    "jia_alloc4 T blocks (length blocks) st s = Inr (a, s')"
    "jia_alloc4 T blocks (length blocks) st t = Inr (b, t')"
  shows "a = b \<and> same_layout s' t'"
proof -
  have bl: "list_all2 (\<lambda>b m. ALIGN2PAGE b = Inr m \<and> 0 < m) blocks (map (\<lambda>b. pages_of b * Pagesize) blocks)"
    using assms(3) align_pages by (auto simp: list_all2_conv_all_nth)
  obtain sz where sz: "ALIGN2PAGE T = Inr sz" using assms(4) by (auto simp: jia_alloc4_def)
  note run = alloc4_run [OF bl assms(2) sz, of st]
  have h: "hostc t = hostc s" "globaladdr t = globaladdr s" using assms(1) by (simp_all add: same_layout_def)
  have "same_layout s' t'"
    using assms(4,5) run_blocks_agree [OF assms(1)] unfolding run h by auto
  moreover have "a = alloc_result (globaladdr s) s'" "b = alloc_result (globaladdr s) t'"
    using assms(4,5) unfolding run h by auto
  ultimately show ?thesis by (simp add: alloc_result_def same_layout_def)
qed

lemma word_of_int_mod_eq: "(word_of_int x :: addr) = word_of_int y \<longleftrightarrow> x mod 2 ^ 64 = y mod 2 ^ 64"
  by (simp add: word_of_int_eq_iff take_bit_eq_mod)

text \<open>
  C21: The address an allocation returns is where the allocation starts exactly as long as less than
  2 GB are in use, because the code keeps it in an \<open>int\<close>; the shared memory is larger than that.
\<close>

theorem alloc_result_correct:
  assumes "g < Maxmemsize"
  shows "alloc_result g s = global_start_addr s + word_of_nat g \<longleftrightarrow> g < 2 ^ 31"
proof -
  let ?k = "sint (word_of_nat g :: u32)"
  have g: "g < 2 ^ 35" using assms by (simp add: Maxmemsize_def)
  have sc: "scast (word_of_nat g :: u32) = (word_of_int ?k :: addr)" by simp
  have "alloc_result g s = global_start_addr s + word_of_nat g \<longleftrightarrow>
      (word_of_int ?k :: addr) = word_of_int (int g)"
    unfolding alloc_result_def sc by simp
  also have "\<dots> \<longleftrightarrow> ?k mod 2 ^ 64 = int g mod 2 ^ 64"
    by (rule word_of_int_mod_eq)
  also have "\<dots> \<longleftrightarrow> g < 2 ^ 31"
  proof
    assume e: "?k mod 2 ^ 64 = int g mod 2 ^ 64"
    have r: "- (2 ^ 31) \<le> ?k" "?k < 2 ^ 31"
      using sint_ge [of "word_of_nat g :: u32"] sint_lt [of "word_of_nat g :: u32"] by simp_all
    have "?k \<ge> 0"
    proof (rule ccontr)
      assume "\<not> 0 \<le> ?k"
      then have "(?k + 2 ^ 64) mod 2 ^ 64 = ?k + 2 ^ 64" using r by (intro mod_pos_pos_trivial) simp_all
      then have "?k mod 2 ^ 64 = ?k + 2 ^ 64" by simp
      then show False using e g r by simp
    qed
    then show "g < 2 ^ 31" using e g r by simp
  next
    assume "g < 2 ^ 31"
    then have "?k = int g" by (simp add: signed_of_nat signed_take_bit_int_eq_self)
    then show "?k mod 2 ^ 64 = int g mod 2 ^ 64" by simp
  qed
  finally show ?thesis .
qed

lemma alloc_result_correct_witness:
  "alloc_result 0x80000000 static_host \<noteq> global_start_addr static_host + word_of_nat 0x80000000"
  using alloc_result_correct [of "0x80000000" static_host] by (simp add: Maxmemsize_def)

section \<open>Two hosts that start\<close>

definition demo_start :: "nat \<Rightarrow> host" where
  "demo_start pid = static_host\<lparr>global_start_addr := 0x10000, jia_pid := pid, hostc := 2\<rparr>"

lemma demo_start_inv: "alloc_inv (demo_start pid)" "same_layout (demo_start 0) (demo_start 1)"
  by (simp_all add: alloc_inv_def same_layout_def demo_start_def static_host_def aligned_def Pagesize_def)

lemmas demo_start_simps = demo_start_def static_host_def pages_of_def Pagesize_def Maxmempages_def
  Homepages_def Maxhosts_def

lemma jia_alloc3_layout_witness:
  "\<exists>s'. jia_alloc3 20000 4096 1 (demo_start 0) = Inr (0x10000, s') \<and> alloc_inv s' \<and>
     homepid (page s' 3) = 0 \<and> homepid (page s' 4) = 1"
proof -
  have "\<exists>s'. jia_alloc3 20000 4096 1 (demo_start 0) = Inr (alloc_result (globaladdr (demo_start 0)) (demo_start 0), s') \<and>
      alloc_inv s' \<and> globaladdr s' = globaladdr (demo_start 0) + 5 * Pagesize \<and>
      (\<forall>p. homepid (page s' p) =
       (if globaladdr (demo_start 0) div Pagesize \<le> p \<and> p < globaladdr (demo_start 0) div Pagesize + 5
        then (1 + (p - globaladdr (demo_start 0) div Pagesize) div pages_of 4096) mod hostc (demo_start 0)
        else homepid (page (demo_start 0) p)))"
    by (rule jia_alloc3_layout [OF demo_start_inv(1)]) (simp_all add: demo_start_simps)
  then show ?thesis by (auto simp: demo_start_simps alloc_result_def)
qed

lemma demo_alloc4:
  assumes "pid < 2"
  shows "\<exists>a t. jia_alloc4 8192 [8192] (length [8192 :: nat]) 0 (demo_start pid) = Inr (a, t)"
proof -
  have al: "ALIGN2PAGE 8192 = Inr 8192" by (simp add: ALIGN2PAGE_def Pagesize_def Maxint_def)
  have "plan 2 [8192] 0 8192 0 = [(0, 8192)]" by (simp add: plan.simps)
  moreover have "\<exists>t. run_blocks [(0, 8192)] (demo_start pid) = Inr t"
    using run_blocks_inv [OF demo_start_inv(1), of "[(0, 8192)]" pid] by (auto simp: demo_start_simps)
  moreover have "hostc (demo_start pid) = 2" "globaladdr (demo_start pid) = 0"
    by (simp_all add: demo_start_simps)
  ultimately show ?thesis
    using alloc4_run [of "[8192]" "[8192]" 8192 8192 0 "demo_start pid"] al
    by (auto simp: enough_space_def Maxmemsize_def)
qed

lemma jia_alloc4_agree_witness:
  "\<exists>a s t. jia_alloc4 8192 [8192] (length [8192 :: nat]) 0 (demo_start 0) = Inr (a, s) \<and>
     jia_alloc4 8192 [8192] (length [8192 :: nat]) 0 (demo_start 1) = Inr (a, t) \<and> same_layout s t"
proof -
  obtain a s b t where "jia_alloc4 8192 [8192] (length [8192 :: nat]) 0 (demo_start 0) = Inr (a, s)"
    "jia_alloc4 8192 [8192] (length [8192 :: nat]) 0 (demo_start 1) = Inr (b, t)"
    using demo_alloc4 [of 0] demo_alloc4 [of 1] by auto
  moreover from this have "a = b \<and> same_layout s t"
    by (intro jia_alloc4_agree [OF demo_start_inv(2), of "[8192]"]) simp_all
  ultimately show ?thesis by blast
qed

lemma alloc3_is_alloc4_witness:
  "jia_alloc3 20000 4096 1 (demo_start 0) = jia_alloc4 20000 [4096] 1 1 (demo_start 0)"
  by (rule alloc3_is_alloc4) simp_all

section \<open>The loops end\<close>

text \<open>
  Each round of a loop makes what is left smaller, unless the block is empty; then the round of the
  allocating host itself stops on the mapping of no pages, and any other round brings that one nearer.
\<close>

definition turns :: "nat \<Rightarrow> nat \<Rightarrow> nat \<Rightarrow> nat" where
  "turns n pid hp = (pid + n - hp) mod n"

lemma turns_less:
  assumes "hp < n" "pid < n" "hp \<noteq> pid"
  shows "turns n pid ((hp + 1) mod n) < turns n pid hp"
proof (cases "hp + 1 = n")
  case True
  then show ?thesis using assms by (simp add: turns_def)
next
  case False
  then have "(hp + 1) mod n = hp + 1" using assms(1) by simp
  moreover have "(pid + n - k) mod n = pid - k" if "k \<le> pid" for k
    using that assms(2) by (simp add: mod_if)
  moreover have "(pid + n - k) mod n = pid + n - k" if "pid < k" "k \<le> n" for k
    using that by simp
  ultimately show ?thesis
    using assms False unfolding turns_def by (cases "pid < hp") simp_all
qed

definition alloc_left :: "alloc_state \<Rightarrow> nat \<times> nat" where
  "alloc_left st = (case st of Inl e \<Rightarrow> (0, 0) | Inr (a, i, hp, s) \<Rightarrow> (a, turns (hostc s) (jia_pid s) hp))"

definition ends :: "'a res \<Rightarrow> bool" where
  "ends r \<longleftrightarrow> (\<forall>w. r \<noteq> Inl (Diverges w))"

lemma ends_simps [simp]: "ends (Inr x)" "ends (Inl e) \<longleftrightarrow> (\<forall>w. e \<noteq> Diverges w)"
  "ends (assertE c (JiaAssert w))" "ends (assertE c (OutOfBounds w))"
  by (auto simp: ends_def assertE_def)

lemma ends_bind [intro]: "ends m \<Longrightarrow> (\<And>x. m = Inr x \<Longrightarrow> ends (f x)) \<Longrightarrow> ends (bindE m f)"
  by (cases m) auto

lemma ends_if: "ends x \<Longrightarrow> ends y \<Longrightarrow> ends (if c then x else y)"
  by simp

lemma ends_fold: "(\<And>x s. ends (f x s)) \<Longrightarrow> ends (foldE f xs s)"
  by (induction xs arbitrary: s) auto

definition alloc_turn_ok :: "alloc_state \<Rightarrow> bool" where
  "alloc_turn_ok st = (case st of Inl e \<Rightarrow> ends st | Inr (a, i, hp, s) \<Rightarrow> jia_pid s < hostc s \<and> hp < hostc s)"

lemma while_alloc_ends:
  assumes "\<And>st. alloc_turn_ok st \<Longrightarrow> alloc_more st \<Longrightarrow>
      alloc_turn_ok (f st) \<and> (alloc_left (f st), alloc_left st) \<in> less_than <*lex*> less_than"
    "jia_pid s < hostc s" "hp < hostc s"
  shows "ends (alloc_loop f a hp s)"
proof -
  let ?st = "Inr (a, 0, hp, s) :: alloc_state"
  have ok: "alloc_turn_ok ?st" using assms(2,3) by (simp add: alloc_turn_ok_def)
  have "\<exists>r. while_option alloc_more f ?st = Some r"
proof (rule wf_while_option_Some [where P = alloc_turn_ok])
  have "wf (inv_image (less_than <*lex*> less_than) alloc_left)" by (intro wf_inv_image wf_lex_prod wf_less_than)
  then show "wf {(t, st). (alloc_turn_ok st \<and> alloc_more st) \<and> t = f st}"
    by (rule wf_subset) (use assms(1) in auto)
  show "alloc_turn_ok (f st)" if "alloc_turn_ok st" "alloc_more st" for st using assms(1) that by blast
qed (rule ok)
  then obtain r where r: "while_option alloc_more f ?st = Some r" by blast
  have "alloc_turn_ok r"
    by (rule while_option_rule [where P = alloc_turn_ok, OF _ r ok]) (use assms(1) in blast)
  then show ?thesis unfolding alloc_loop_def r by (auto simp: alloc_turn_ok_def split: sum.splits)
qed

lemma alloc_block_zero: "alloc_block (jia_pid s) 0 s \<noteq> Inr t"
  by (auto simp: alloc_block_def alloc_own_def memmap_def)

text \<open>The state after a block, seen from the round that made it.\<close>

lemma alloc_round_less:
  assumes "alloc_block hp m s = Inr t" "jia_pid s < hostc s" "hp < hostc s" "0 < a"
  shows "alloc_turn_ok (Inr (a - m, i, (hp + 1) mod hostc t, t)) \<and>
    (alloc_left (Inr (a - m, i, (hp + 1) mod hostc t, t)), (a, turns (hostc s) (jia_pid s) hp)) \<in> less_than <*lex*> less_than"
proof -
  have f: "hostc t = hostc s" "jia_pid t = jia_pid s" using alloc_block_frame [OF assms(1)] by auto
  show ?thesis
  proof (cases "m = 0")
    case True
    then have "hp \<noteq> jia_pid s" using assms(1) alloc_block_zero by metis
    then show ?thesis using turns_less [of hp "hostc s" "jia_pid s"] assms f True
      by (simp add: alloc_turn_ok_def alloc_left_def)
  next
    case False
    then show ?thesis using assms f by (simp add: alloc_turn_ok_def alloc_left_def)
  qed
qed


lemma ends_parts: "ends (alloc_block hp m s)" "ends (ALIGN2PAGE b)" "ends (memmap a m p s)"
  "ends (alloc_advance hp m s)" "ends (foldE (enter_home hp) xs s)" "ends (enough_space b s)"
proof -
  have e: "ends (enter_home hp i s)" "ends (enter_own hp i s)" for i s
    by (auto simp: enter_home_def enter_own_def Let_def)
  show "ends (foldE (enter_home hp) xs s)" by (rule ends_fold [OF e(1)])
  show m: "ends (memmap a m p s)" for a m p s by (auto simp: memmap_def)
  show a: "ends (alloc_advance hp m s)" for s by (simp add: alloc_advance_def)
  have "ends (alloc_own hp m s)" unfolding alloc_own_def by (intro ends_bind m ends_fold [OF e(2)] ends_simps)
  then show "ends (alloc_block hp m s)"
    unfolding alloc_block_def by (intro ends_bind ends_if a ends_fold [OF e(1)] ends_simps)
qed (auto simp: ALIGN2PAGE_def Let_def enough_space_def)

lemma alloc_rounds_end:
  assumes "jia_pid s < hostc s" "hp < hostc s"
  shows "ends (alloc_loop (alloc3_round m) a hp s)" "ends (alloc_loop (alloc4_round blocks n) a hp s)"
    "ends (alloc_loop (array_round sizes n) a hp s)"
proof -
  show "ends (alloc_loop (alloc3_round m) a hp s)"
  proof (rule while_alloc_ends [OF _ assms])
    fix st assume st: "alloc_turn_ok st" "alloc_more st"
    then obtain a i hp s where e: "st = Inr (a, i, hp, s)" "0 < a" "jia_pid s < hostc s" "hp < hostc s"
      by (cases st) (auto simp: alloc_turn_ok_def)
    show "alloc_turn_ok (alloc3_round m st) \<and> (alloc_left (alloc3_round m st), alloc_left st) \<in> less_than <*lex*> less_than"
      using alloc_round_less [of hp m s _ a i] ends_parts(1) [of hp m s] e
      by (cases "alloc_block hp m s") (auto simp: alloc3_round_def alloc_left_def alloc_turn_ok_def)
  qed
  show "ends (alloc_loop (alloc4_round blocks n) a hp s)"
  proof (rule while_alloc_ends [OF _ assms])
    fix st assume st: "alloc_turn_ok st" "alloc_more st"
    then obtain a i hp s where e: "st = Inr (a, i, hp, s)" "0 < a" "jia_pid s < hostc s" "hp < hostc s"
      by (cases st) (auto simp: alloc_turn_ok_def)
    then have le: "alloc_left st = (a, turns (hostc s) (jia_pid s) hp)" by (simp add: alloc_left_def)
    let ?f = "alloc4_round blocks n"
    show "alloc_turn_ok (?f st) \<and> (alloc_left (?f st), alloc_left st) \<in> less_than <*lex*> less_than"
    proof (cases "?f st")
      case (Inl x)
      have "ends (?f st)" unfolding e(1) alloc4_round_def bindE_Inr prod.case Let_def
        by (intro ends_bind ends_if ends_parts ends_simps; simp)
      then show ?thesis using Inl e by (auto simp: alloc_left_def alloc_turn_ok_def)
    next
      case (Inr y)
      then obtain m t j where m: "alloc_block hp m s = Inr t" "y = (a - m, j, (hp + 1) mod hostc t, t)"
        unfolding e(1) by (auto simp: alloc4_round_def Let_def split: if_splits)
      show ?thesis unfolding Inr m(2) le by (rule alloc_round_less [OF m(1) e(3,4,2)])
    qed
  qed
  show "ends (alloc_loop (array_round sizes n) a hp s)"
  proof (rule while_alloc_ends [OF _ assms])
    fix st assume st: "alloc_turn_ok st" "alloc_more st"
    then obtain a i hp s where e: "st = Inr (a, i, hp, s)" "0 < a" "jia_pid s < hostc s" "hp < hostc s"
      by (cases st) (auto simp: alloc_turn_ok_def)
    then have le: "alloc_left st = (a, turns (hostc s) (jia_pid s) hp)" by (simp add: alloc_left_def)
    let ?f = "array_round sizes n"
    show "alloc_turn_ok (?f st) \<and> (alloc_left (?f st), alloc_left st) \<in> less_than <*lex*> less_than"
    proof (cases "?f st")
      case (Inl x)
      have "ends (?f st)" unfolding e(1) array_round_def bindE_Inr prod.case
        by (intro ends_bind ends_if ends_parts ends_simps; simp)
      then show ?thesis using Inl e by (auto simp: alloc_left_def alloc_turn_ok_def)
    next
      case (Inr y)
      then obtain m t u v where m: "0 < m" "memmap (global_start_addr s + word_of_nat (globaladdr s)) m (alloc_prot s) s = Inr u"
        "foldE (enter_home hp) (page_offsets m) u = Inr v" "alloc_advance hp m v = Inr t"
        "y = (a - m, (m + 1) mod n, (hp + 1) mod hostc t, t)"
        unfolding e(1) by (auto simp: array_round_def memmap_def)
      have "hostc t = hostc s" "jia_pid t = jia_pid s"
        using m(2,4) enter_frame [OF m(3) enter_frames(1)] by (auto simp: memmap_def alloc_advance_def split: if_splits)
      then show ?thesis using m(1) e(2-4) unfolding Inr m(5) le by (simp add: alloc_left_def alloc_turn_ok_def)
    qed
  qed
qed

text \<open>
  C38: Every allocation comes to an end, by returning or by stopping the program, whatever the sizes:
  even with blocks of no pages, as the host whose turn it is to allocate one stops when it maps it.
\<close>

theorem allocation_ends:
  assumes "jia_pid s < hostc s" "starthost < hostc s"
  shows "ends (jia_alloc3 totalsize blocksize starthost s) \<and> ends (jia_alloc4 totalsize blocks n starthost s) \<and>
    ends (jia_alloc_array totalsize sizes n s)"
  unfolding jia_alloc3_def jia_alloc4_def jia_alloc_array_def
  using assms by (intro conjI ends_bind alloc_rounds_end ends_parts ends_simps; simp)

lemma allocation_ends_witness: "ends (jia_alloc4 100 [0, 5000] 2 1 (static_host\<lparr>hostc := 2, jia_pid := 0\<rparr>))"
  using allocation_ends [of "static_host\<lparr>hostc := 2, jia_pid := 0\<rparr>" 1] by (simp add: static_host_def)

end
