(* ===== verification/MsgPass.thy ===== *)
theory MsgPass
  imports Syn
begin

text \<open>
  Message passing between programs: \<open>jia_send\<close>, \<open>jia_recv\<close>, \<open>jia_bcast\<close> and \<open>jia_reduce\<close> of
  \<open>src/src/msg/msguser.c\<close>, the packet buffer they read from (\<open>initmsg\<close>, \<open>nextpacket\<close>, \<open>nextmsg\<close> of
  \<open>src/src/msg/msg.c\<close>) and the server that fills it (\<open>msgrecvserver\<close> of
  \<open>src/src/msg/msgserver.c\<close>).
\<close>

section \<open>The packet buffer\<close>

definition Maxmsgbufs :: nat where "Maxmsgbufs = 48"
definition Maxmsgno :: u64 where "Maxmsgno = 0x40000000"
definition MSG_TAG_ALL :: int where "MSG_TAG_ALL = -1"
definition MSG_PROC_ALL :: int where "MSG_PROC_ALL = -1"
definition REDUCE_TAG :: int where "REDUCE_TAG = 62559641"
definition BCAST_TAG :: int where "BCAST_TAG = 62564392"

record packets =
  msgbuf :: "jia_msg list"
  msgseqno :: u64
  endofmsg :: int
  recvwait :: int

definition initmsg :: "packets \<Rightarrow> packets" where
  "initmsg st = st\<lparr>endofmsg := 0, recvwait := 0, msgseqno := 0,
     msgbuf := map (\<lambda>m. m\<lparr>op := op_num ERRMSG, frompid := 0, topid := 0, scope := 0, temp := 0,
       index := 0, size := 0, seqno := 0\<rparr>) (msgbuf st)\<rparr>"

text \<open>The first free packet; where there is none, the search reads the entry after the last.\<close>

fun free_packet :: "jia_msg list \<Rightarrow> nat option" where
  "free_packet [] = None"
| "free_packet (m # ms) = (if is_op m ERRMSG then Some 0 else map_option Suc (free_packet ms))"

definition msgrecvserver :: "jia_msg \<Rightarrow> packets \<Rightarrow> packets res" where
  "msgrecvserver req st = (let st = st\<lparr>msgseqno := msgseqno st + 1\<rparr>
     in case free_packet (msgbuf st) of
          None \<Rightarrow> Inl (OutOfBounds ''msgbuf'')
        | Some i \<Rightarrow> Inr (st\<lparr>recvwait := 0, msgbuf := (msgbuf st)[i := (msgbuf st ! i)\<lparr>op := op req,
            frompid := frompid req, topid := topid req, scope := scope req,
            seqno := ucast (msgseqno st), size := size req,
            data := put (data (msgbuf st ! i)) 0 (payload req)\<rparr>]\<rparr>))"

definition packet_match :: "int \<Rightarrow> int \<Rightarrow> jia_msg \<Rightarrow> bool" where
  "packet_match fromproc tag m \<longleftrightarrow> (is_op m MSGTAIL \<or> is_op m MSGBODY) \<and>
     (fromproc = MSG_PROC_ALL \<or> fromproc = int (frompid m)) \<and>
     (tag = MSG_TAG_ALL \<or> word_of_int tag = scope m)"

text \<open>The index, from \<open>i\<close> on, of the matching packet whose number is smallest and below \<open>nxt\<close>.\<close>

fun next_from :: "int \<Rightarrow> int \<Rightarrow> jia_msg list \<Rightarrow> nat \<Rightarrow> u64 \<Rightarrow> nat \<Rightarrow> nat" where
  "next_from fromproc tag [] i nxt best = best"
| "next_from fromproc tag (m # ms) i nxt best =
     (if packet_match fromproc tag m \<and> ucast (seqno m) < nxt
      then next_from fromproc tag ms (Suc i) (ucast (seqno m)) i
      else next_from fromproc tag ms (Suc i) nxt best)"

definition nextpacket :: "int \<Rightarrow> int \<Rightarrow> packets \<Rightarrow> nat" where
  "nextpacket fromproc tag st = next_from fromproc tag (msgbuf st) 0 Maxmsgno Maxmsgbufs"

text \<open>
  One round of \<open>nextmsg\<close>: the next packet is freed, then its operation is tested, and as much of its
  data as the buffer takes is returned. Where no packet is left the index is that of the entry
  after the last, which the code writes and reads all the same.
\<close>

definition next_step :: "nat \<Rightarrow> nat \<Rightarrow> int \<Rightarrow> int \<Rightarrow> packets \<Rightarrow> (nat \<times> u8 list \<times> packets) res" where
  "next_step len msgsize fromproc tag st = (let i = nextpacket fromproc tag st
     in if i < Maxmsgbufs \<and> i < length (msgbuf st)
        then let m = (msgbuf st ! i)\<lparr>op := op_num ERRMSG\<rparr>
             in Inr (i, take (len - msgsize) (payload m),
                  st\<lparr>msgbuf := (msgbuf st)[i := m],
                     endofmsg := (if is_op m MSGTAIL then 1 else endofmsg st)\<rparr>)
        else Inl (OutOfBounds ''msgbuf''))"

definition waiting :: "jia_msg list \<Rightarrow> nat" where
  "waiting ms = length (filter (\<lambda>m. \<not> is_op m ERRMSG) ms)"

lemma waiting_free:
  "i < length ms \<Longrightarrow> \<not> is_op (ms ! i) ERRMSG \<Longrightarrow> waiting (ms[i := m\<lparr>op := op_num ERRMSG\<rparr>]) < waiting ms"
proof (induction ms arbitrary: i)
  case (Cons x xs)
  then show ?case by (cases i) (auto simp: waiting_def is_op_def)
qed simp

lemma next_from_bound:
  "next_from f t ms i nxt best = best \<or>
     (\<exists>j<length ms. next_from f t ms i nxt best = i + j \<and> packet_match f t (ms ! j))"
proof (induction ms arbitrary: i nxt best)
  case (Cons m ms)
  show ?case
  proof (cases "packet_match f t m \<and> ucast (seqno m) < nxt")
    case True
    from Cons [of "Suc i" "ucast (seqno m)" i] show ?thesis
    proof
      assume "next_from f t ms (Suc i) (ucast (seqno m)) i = i"
      then show ?thesis using True by (intro disjI2 exI [of _ 0]) simp
    next
      assume "\<exists>j<length ms. next_from f t ms (Suc i) (ucast (seqno m)) i = Suc i + j \<and> packet_match f t (ms ! j)"
      then obtain j where "j < length ms" "next_from f t ms (Suc i) (ucast (seqno m)) i = Suc i + j"
        "packet_match f t (ms ! j)" by blast
      then show ?thesis using True by (intro disjI2 exI [of _ "Suc j"]) simp
    qed
  next
    case False
    from Cons [of "Suc i" nxt best] show ?thesis
    proof
      assume "\<exists>j<length ms. next_from f t ms (Suc i) nxt best = Suc i + j \<and> packet_match f t (ms ! j)"
      then obtain j where "j < length ms" "next_from f t ms (Suc i) nxt best = Suc i + j"
        "packet_match f t (ms ! j)" by blast
      then show ?thesis using False by (intro disjI2 exI [of _ "Suc j"]) auto
    qed (use False in auto)
  qed
qed simp

lemma nextpacket_bound:
  "nextpacket f t st = Maxmsgbufs \<or>
     nextpacket f t st < length (msgbuf st) \<and> packet_match f t (msgbuf st ! nextpacket f t st)"
  using next_from_bound [of f t "msgbuf st" 0 Maxmsgno Maxmsgbufs] by (auto simp: nextpacket_def)

text \<open>The loop, with the bytes it has put in the buffer so far.\<close>

function nextmsg_loop :: "nat \<Rightarrow> int \<Rightarrow> int \<Rightarrow> nat \<Rightarrow> u8 list \<Rightarrow> packets \<Rightarrow> (u8 list \<times> packets) res" where
  "nextmsg_loop len fromproc tag i buf st =
     (if endofmsg st = 0 \<and> i \<noteq> Maxmsgbufs
      then case next_step len (length buf) fromproc tag st of
             Inl e \<Rightarrow> Inl e
           | Inr (i, bs, st) \<Rightarrow> nextmsg_loop len fromproc tag i (buf @ bs) st
      else Inr (buf, st))"
  by pat_completeness auto
termination
proof (relation "measure (\<lambda>(len, f, t, i, buf, st). waiting (msgbuf st))", goal_cases)
  case (2 len f t i buf st r i' q bs st')
  then have n: "next_step len (length buf) f t st = Inr (i', bs, st')" by simp
  let ?i = "nextpacket f t st"
  have i: "?i < length (msgbuf st)" "?i < Maxmsgbufs"
    "msgbuf st' = (msgbuf st)[?i := (msgbuf st ! ?i)\<lparr>op := op_num ERRMSG\<rparr>]"
    using n by (auto simp: next_step_def Let_def split: if_splits)
  have "packet_match f t (msgbuf st ! ?i)"
    using nextpacket_bound [of f t st] i(2) by auto
  then have "\<not> is_op (msgbuf st ! ?i) ERRMSG" by (auto simp: packet_match_def is_op_def)
  from waiting_free [OF i(1) this] show ?case using i(3) by simp
qed simp

declare nextmsg_loop.simps [simp del]

definition nextmsg :: "nat \<Rightarrow> int \<Rightarrow> int \<Rightarrow> packets \<Rightarrow> (u8 list \<times> packets) res" where
  "nextmsg len fromproc tag st = nextmsg_loop len fromproc tag 0 [] st"

definition jia_recv :: "nat \<Rightarrow> int \<Rightarrow> int \<Rightarrow> packets \<Rightarrow> (u8 list \<times> packets) res" where
  "jia_recv len fromproc tag st = nextmsg len fromproc tag (st\<lparr>endofmsg := 0\<rparr>)"

section \<open>Sending\<close>

text \<open>A message of any length goes out in packets of \<open>Maxmsgsize\<close> bytes, from one slot.\<close>

definition send_packet :: "(nat \<Rightarrow> host \<Rightarrow> host res) \<Rightarrow> msg_op \<Rightarrow> nat \<Rightarrow> u8 list \<Rightarrow> host \<Rightarrow> host res" where
  "send_packet send x k bs s =
     bindE (appendmsg ((slot_msg (mbuf s ! k))\<lparr>op := op_num x, size := 0\<rparr>) bs) (\<lambda>m.
     send k (set_slot k m s))"

function send_packets :: "(nat \<Rightarrow> host \<Rightarrow> host res) \<Rightarrow> nat \<Rightarrow> u8 list \<Rightarrow> host \<Rightarrow> host res" where
  "send_packets send k bs s =
     (if Maxmsgsize < length bs
      then bindE (send_packet send MSGBODY k (take Maxmsgsize bs) s)
             (send_packets send k (drop Maxmsgsize bs))
      else send_packet send MSGTAIL k bs s)"
  by pat_completeness auto
termination by (relation "measure (\<lambda>(send, k, bs, s). length bs)") (auto simp: Maxmsgsize_eq)

declare send_packets.simps [simp del]

definition jia_send :: "u8 list \<Rightarrow> int \<Rightarrow> int \<Rightarrow> host \<Rightarrow> host res" where
  "jia_send buf toproc tag s =
     bindE (assertE (toproc < int (hostc s) \<and> 0 \<le> toproc) (JiaAssert ''Incorrect message destination'')) (\<lambda>_.
     bindE (freemsg_lock s) (\<lambda>(k, s).
     bindE (send_packets send_slot k buf (set_slot k ((slot_msg (mbuf s ! k))\<lparr>frompid := jia_pid s,
         topid := nat toproc, scope := word_of_int tag\<rparr>) s)) (\<lambda>s.
     Inr (freemsg_unlock k s))))"

text \<open>\<open>bsendmsg\<close> on the message of a slot, which it changes.\<close>

definition bsend_slot :: "nat \<Rightarrow> host \<Rightarrow> host res" where
  "bsend_slot k s = bindE (bsendmsg (slot_msg (mbuf s ! k)) s) (\<lambda>(m, s). Inr (set_slot k m s))"

text \<open>\<open>jia_bcast\<close> up to its receive, which every host then does; \<open>wait\<close> is what the other threads do.\<close>

definition bcast_send :: "u8 list \<Rightarrow> int \<Rightarrow> host \<Rightarrow> host res" where
  "bcast_send buf root s =
     (if int (jia_pid s) = root
      then bindE (freemsg_lock s) (\<lambda>(k, s).
           bindE (send_packets bsend_slot k buf (set_slot k ((slot_msg (mbuf s ! k))\<lparr>frompid := jia_pid s,
               topid := jia_pid s, scope := word_of_int BCAST_TAG\<rparr>) s)) (\<lambda>s.
           Inr (freemsg_unlock k s)))
      else Inr s)"

definition jia_bcast :: "(host \<times> packets \<Rightarrow> (host \<times> packets) res) \<Rightarrow> u8 list \<Rightarrow> int \<Rightarrow> host \<Rightarrow> packets \<Rightarrow>
    (u8 list \<times> host \<times> packets) res" where
  "jia_bcast wait buf root s st = bindE (bcast_send buf root s) (\<lambda>s.
     bindE (wait (s, st)) (\<lambda>(s, st).
     bindE (jia_recv (length buf) MSG_PROC_ALL BCAST_TAG st) (\<lambda>(bs, st). Inr (bs, s, st))))"

section \<open>Reduction\<close>

text \<open>
  The operations of a reduction. The arithmetic of \<open>float\<close> and \<open>double\<close> is a parameter
  \<open>farith op d s\<close> on the bytes of two numbers.
\<close>

datatype red_op = SUM_INT | MAX_INT | MIN_INT | SUM_FLOAT | MAX_FLOAT | MIN_FLOAT
  | SUM_DOUBLE | MAX_DOUBLE | MIN_DOUBLE

definition red_op_of :: "int \<Rightarrow> red_op res" where
  "red_op_of n = (case map_of [(0, SUM_INT), (1, MAX_INT), (2, MIN_INT), (10, SUM_FLOAT), (11, MAX_FLOAT),
       (12, MIN_FLOAT), (20, SUM_DOUBLE), (21, MAX_DOUBLE), (22, MIN_DOUBLE)] n of
     Some x \<Rightarrow> Inr x | None \<Rightarrow> Inl (JiaAssert ''Incorrect operation in jia_reduce''))"

fun thesizeof :: "red_op \<Rightarrow> nat" where
  "thesizeof SUM_INT = 4"
| "thesizeof MAX_INT = 4"
| "thesizeof MIN_INT = 4"
| "thesizeof SUM_FLOAT = 4"
| "thesizeof MAX_FLOAT = 4"
| "thesizeof MIN_FLOAT = 4"
| "thesizeof SUM_DOUBLE = 8"
| "thesizeof MAX_DOUBLE = 8"
| "thesizeof MIN_DOUBLE = 8"

definition read_int :: "u8 list \<Rightarrow> int" where
  "read_int bs = sint (bytestoi (\<lambda>i. bs ! i) 0)"

fun reduce1 :: "(red_op \<Rightarrow> u8 list \<Rightarrow> u8 list \<Rightarrow> u8 list) \<Rightarrow> red_op \<Rightarrow> u8 list \<Rightarrow> u8 list \<Rightarrow> u8 list res" where
  "reduce1 farith SUM_INT d s = (let x = read_int d + read_int s
     in if - (2 ^ 31) \<le> x \<and> x < 2 ^ 31 then Inr (itob (word_of_int x)) else Inl (Overflow ''reduce''))"
| "reduce1 farith MAX_INT d s = Inr (if read_int s \<ge> read_int d then s else d)"
| "reduce1 farith MIN_INT d s = Inr (if read_int s \<ge> read_int d then d else s)"
| "reduce1 farith x d s = Inr (farith x d s)"

fun reduce :: "(red_op \<Rightarrow> u8 list \<Rightarrow> u8 list \<Rightarrow> u8 list) \<Rightarrow> red_op \<Rightarrow> nat \<Rightarrow> u8 list \<Rightarrow> u8 list \<Rightarrow> u8 list res" where
  "reduce farith x 0 d s = Inr d"
| "reduce farith x (Suc n) d s = (let w = thesizeof x
     in bindE (reduce1 farith x (take w d) (take w s)) (\<lambda>e.
        bindE (reduce farith x n (drop w d) (drop w s)) (\<lambda>es. Inr (e @ es))))"

text \<open>What a host does at level \<open>j\<close> of the tree: send, receive and combine, or nothing.\<close>

datatype red_action = RedSend nat | RedRecv nat | RedNone

definition red_pid :: "nat \<Rightarrow> nat \<Rightarrow> nat \<Rightarrow> nat" where
  "red_pid n root pid = (pid + n - root) mod n"

definition red_level :: "nat \<Rightarrow> nat \<Rightarrow> nat \<Rightarrow> nat \<Rightarrow> red_action" where
  "red_level n root mypid j =
     (if mypid mod 2 ^ j = 0
      then if mypid mod 2 ^ (j + 1) \<noteq> 0 then RedSend ((mypid - 2 ^ j + root) mod n)
           else if mypid + 2 ^ j < n then RedRecv ((mypid + 2 ^ j + root) mod n)
           else RedNone
      else RedNone)"

function red_levels :: "nat \<Rightarrow> nat \<Rightarrow> nat list" where
  "red_levels n j = (if 2 ^ j < n then j # red_levels n (j + 1) else [])"
  by pat_completeness auto
termination
proof (relation "measure (\<lambda>(n, j). n - j)", goal_cases)
  case (2 n j)
  have "j < 2 ^ j" by (rule less_exp)
  then have "j < n" using 2 by linarith
  then show ?case by simp
qed simp

declare red_levels.simps [simp del]

definition red_step :: "(host \<times> packets \<Rightarrow> (host \<times> packets) res) \<Rightarrow>
    (red_op \<Rightarrow> u8 list \<Rightarrow> u8 list \<Rightarrow> u8 list) \<Rightarrow> red_op \<Rightarrow> nat \<Rightarrow> nat \<Rightarrow> nat \<Rightarrow>
    u8 list \<times> host \<times> packets \<Rightarrow> (u8 list \<times> host \<times> packets) res" where
  "red_step wait farith x cnt root j = (\<lambda>(buf, s, st).
     case red_level (hostc s) root (red_pid (hostc s) root (jia_pid s)) j of
       RedNone \<Rightarrow> Inr (buf, s, st)
     | RedSend toproc \<Rightarrow> bindE (jia_send buf (int toproc) REDUCE_TAG s) (\<lambda>s. Inr (buf, s, st))
     | RedRecv fromproc \<Rightarrow> bindE (wait (s, st)) (\<lambda>(s, st).
         bindE (jia_recv (length buf) (int fromproc) REDUCE_TAG st) (\<lambda>(tempbuf, st).
         bindE (assertE (length buf = length tempbuf) (JiaAssert ''Unmatched length in jia_reduce'')) (\<lambda>_.
         bindE (reduce farith x cnt buf tempbuf) (\<lambda>buf. Inr (buf, s, st))))))"

definition jia_reduce :: "(host \<times> packets \<Rightarrow> (host \<times> packets) res) \<Rightarrow>
    (red_op \<Rightarrow> u8 list \<Rightarrow> u8 list \<Rightarrow> u8 list) \<Rightarrow> u8 list \<Rightarrow> nat \<Rightarrow> int \<Rightarrow> int \<Rightarrow> host \<Rightarrow> packets \<Rightarrow>
    (u8 list \<times> host \<times> packets) res" where
  "jia_reduce wait farith sendbuf cnt opn root s st =
     bindE (assertE (root < int (hostc s) \<and> 0 \<le> root) (JiaAssert ''Incorrect root in reduce'')) (\<lambda>_.
     bindE (red_op_of opn) (\<lambda>x.
     foldE (red_step wait farith x cnt (nat root)) (red_levels (hostc s) 0)
       (take (cnt * thesizeof x) sendbuf, s, st)))"

section \<open>Receiving overruns the buffer\<close>

text \<open>
  C24: \<open>nextmsg\<close> overruns the packet buffer. It frees a packet before it tests whether that was the
  last of the message, so the test never succeeds, and every call ends with an access to the entry
  after the last of \<open>msgbuf\<close>, whatever is waiting there.
\<close>

theorem jia_recv_overruns:
  "jia_recv len fromproc tag st = Inl (OutOfBounds ''msgbuf'')"
proof -
  have "nextmsg_loop len fromproc tag i buf st = Inl (OutOfBounds ''msgbuf'')"
    if "endofmsg st = 0" "i \<noteq> Maxmsgbufs" for i buf st
    using that
  proof (induction len fromproc tag i buf st rule: nextmsg_loop.induct)
    case (1 len f t i buf st)
    show ?case
    proof (cases "next_step len (length buf) f t st")
      case (Inl e)
      then show ?thesis
        using 1(2,3) by (subst nextmsg_loop.simps) (auto simp: next_step_def Let_def split: if_splits)
    next
      case (Inr r)
      then obtain j bs st' where r: "next_step len (length buf) f t st = Inr (j, bs, st')" by (cases r) auto
      have "endofmsg st' = 0" "j \<noteq> Maxmsgbufs"
        using r 1(2) by (auto simp: next_step_def Let_def is_op_def split: if_splits)
      then have "nextmsg_loop len f t j (buf @ bs) st' = Inl (OutOfBounds ''msgbuf'')"
        using 1 r by simp
      then show ?thesis using 1(2,3) r by (subst nextmsg_loop.simps) simp
    qed
  qed
  then show ?thesis by (simp add: jia_recv_def nextmsg_def Maxmsgbufs_def)
qed

section \<open>What is sent is what the receiver keeps\<close>

lemma send_packet_run:
  assumes "k < length (mbuf s)" "length bs \<le> Maxmsgsize"
  shows "\<exists>m. send_packet send_slot x k bs s = Inr (set_slot k m s\<lparr>outq := outq s @ [m]\<rparr>) \<and>
    is_op m x \<and> payload m = bs \<and> frompid m = frompid (slot_msg (mbuf s ! k)) \<and>
    topid m = topid (slot_msg (mbuf s ! k)) \<and> scope m = scope (slot_msg (mbuf s ! k))"
proof -
  let ?m = "(slot_msg (mbuf s ! k))\<lparr>op := op_num x, size := 0\<rparr>"
  obtain m where m: "appendmsg ?m bs = Inr m" "extends ?m bs m"
    using appendmsg_extends [of ?m bs] assms(2) by auto
  moreover have "payload ?m = []" by (simp add: payload_def)
  ultimately have "payload m = bs" "op m = op_num x" by (simp_all add: extends_def)
  then show ?thesis using m assms(1)
    by (intro exI [of _ m])
      (simp add: send_packet_def send_slot_def move_msg_to_outqueue_def set_slot_def is_op_def extends_def)
qed

text \<open>The packets of one message: all but the last are full and say that others follow.\<close>

definition packets_of :: "nat \<Rightarrow> nat \<Rightarrow> u32 \<Rightarrow> jia_msg list \<Rightarrow> bool" where
  "packets_of f t sc ms \<longleftrightarrow> ms \<noteq> [] \<and> is_op (last ms) MSGTAIL \<and> (length ms = 1 \<or> payload (last ms) \<noteq> []) \<and>
     length (payload (last ms)) \<le> Maxmsgsize \<and>
     (\<forall>m\<in>set (butlast ms). is_op m MSGBODY \<and> length (payload m) = Maxmsgsize) \<and>
     (\<forall>m\<in>set ms. frompid m = f \<and> topid m = t \<and> scope m = sc)"

lemma packets_of_one:
  "packets_of f t sc [m] \<longleftrightarrow> is_op m MSGTAIL \<and> length (payload m) \<le> Maxmsgsize \<and>
     frompid m = f \<and> topid m = t \<and> scope m = sc"
  by (simp add: packets_of_def)

lemma packets_of_Cons:
  "packets_of f t sc ms \<Longrightarrow> concat (map payload ms) \<noteq> [] \<Longrightarrow> is_op m MSGBODY \<Longrightarrow> length (payload m) = Maxmsgsize \<Longrightarrow>
     frompid m = f \<Longrightarrow> topid m = t \<Longrightarrow> scope m = sc \<Longrightarrow> packets_of f t sc (m # ms)"
  by (cases ms rule: rev_cases) (auto simp: packets_of_def)

lemma packets_of_live: "packets_of f t sc ms \<Longrightarrow> m \<in> set ms \<Longrightarrow> is_op m MSGBODY \<or> is_op m MSGTAIL"
  by (cases ms rule: rev_cases) (auto simp: packets_of_def)

lemma packets_of_count:
  "packets_of f t sc ms \<Longrightarrow> length (concat (map payload ms)) \<le> n * Maxmsgsize \<Longrightarrow> 0 < n \<Longrightarrow> length ms \<le> n"
proof -
  have *: "length (concat (map payload xs)) = length xs * Maxmsgsize"
    if "\<forall>m\<in>set xs. length (payload m) = Maxmsgsize" for xs
    using that by (induction xs) simp_all
  assume p: "packets_of f t sc ms" and n: "length (concat (map payload ms)) \<le> n * Maxmsgsize" "0 < n"
  obtain xs x where ms: "ms = xs @ [x]" using p by (cases ms rule: rev_cases) (auto simp: packets_of_def)
  show "length ms \<le> n"
  proof (cases xs)
    case Nil
    then show ?thesis using ms n(2) by simp
  next
    case (Cons y ys)
    then have "length xs * Maxmsgsize < n * Maxmsgsize"
      using p n(1) * [of xs] by (cases "payload x") (auto simp: packets_of_def ms)
    then show ?thesis using ms by simp
  qed
qed

lemma send_packets_run:
  assumes "k < length (mbuf s)" "frompid (slot_msg (mbuf s ! k)) = f" "topid (slot_msg (mbuf s ! k)) = t"
    "scope (slot_msg (mbuf s ! k)) = sc"
  shows "\<exists>m ms. send_packets send_slot k bs s = Inr (set_slot k m s\<lparr>outq := outq s @ ms\<rparr>) \<and>
    concat (map payload ms) = bs \<and> packets_of f t sc ms"
  using assms
proof (induction "length bs" arbitrary: bs s rule: less_induct)
  case less
  show ?case
  proof (cases "Maxmsgsize < length bs")
    case False
    then obtain m where "send_packet send_slot MSGTAIL k bs s = Inr (set_slot k m s\<lparr>outq := outq s @ [m]\<rparr>)"
      "payload m = bs" "packets_of f t sc [m]"
      using send_packet_run [OF less.prems(1), of bs MSGTAIL] less.prems by (auto simp: packets_of_one)
    then show ?thesis
      using False by (intro exI [of _ m] exI [of _ "[m]"]) (simp add: send_packets.simps)
  next
    case True
    let ?b = "take Maxmsgsize bs" and ?r = "drop Maxmsgsize bs"
    obtain m where m: "send_packet send_slot MSGBODY k ?b s = Inr (set_slot k m s\<lparr>outq := outq s @ [m]\<rparr>)"
      "payload m = ?b" "is_op m MSGBODY" "frompid m = f" "topid m = t" "scope m = sc"
      using send_packet_run [OF less.prems(1), of ?b MSGBODY] less.prems by auto
    let ?s = "set_slot k m s\<lparr>outq := outq s @ [m]\<rparr>"
    have k: "k < length (mbuf ?s)" "slot_msg (mbuf ?s ! k) = m"
      using less.prems(1) by (simp_all add: set_slot_def)
    have "length ?r < length bs" using True by (simp add: Maxmsgsize_eq)
    from less.hyps [OF this k(1)] k(2) m(4-6) obtain m' ms where ms:
      "send_packets send_slot k ?r ?s = Inr (set_slot k m' ?s\<lparr>outq := outq ?s @ ms\<rparr>)"
      "concat (map payload ms) = ?r" "packets_of f t sc ms" by auto
    have "send_packets send_slot k bs s = send_packets send_slot k ?r ?s"
      using True m(1) by (subst send_packets.simps) simp
    also have "\<dots> = Inr (set_slot k m' s\<lparr>outq := outq s @ m # ms\<rparr>)"
      unfolding ms(1) using less.prems(1) by (simp add: set_slot_def)
    finally have run: "send_packets send_slot k bs s = Inr (set_slot k m' s\<lparr>outq := outq s @ m # ms\<rparr>)" .
    have cat: "concat (map payload (m # ms)) = bs" using m(2) ms(2) by simp
    have all: "packets_of f t sc (m # ms)"
      using True by (intro packets_of_Cons ms(3) m(3-6)) (simp_all add: m(2) ms(2))
    show ?thesis by (rule exI, rule exI, intro conjI, rule run, rule cat, rule all)
  qed
qed

lemma jia_send_run:
  assumes "mbuf_inv s" "0 < mcount s" "q < hostc s"
  shows "\<exists>s' ms. jia_send bs (int q) tag s = Inr s' \<and> outq s' = outq s @ ms \<and> mbuf_inv s' \<and>
    concat (map payload ms) = bs \<and> packets_of (jia_pid s) q (word_of_int tag) ms"
proof -
  obtain k s1 where lk: "freemsg_lock s = Inr (k, s1)" using freemsg_lock_total assms(1,2) by blast
  note u = freemsg_lock_inv [OF lk assms(1)]
  obtain c b where s1: "s1 = s\<lparr>mcount := c, mbuf := b\<rparr>"
    using lk by (auto simp: freemsg_lock_def split: if_splits option.splits)
  let ?m0 = "(slot_msg (mbuf s1 ! k))\<lparr>frompid := jia_pid s, topid := q, scope := word_of_int tag\<rparr>"
  let ?s2 = "set_slot k ?m0 s1"
  have "slot_msg (mbuf ?s2 ! k) = ?m0" using u(2) by simp
  then obtain m ms where ms: "send_packets send_slot k bs ?s2 = Inr (set_slot k m ?s2\<lparr>outq := outq ?s2 @ ms\<rparr>)"
    "concat (map payload ms) = bs" "packets_of (jia_pid s) q (word_of_int tag) ms"
    using send_packets_run [of k ?s2 "jia_pid s" q "word_of_int tag" bs] u(2) by auto
  let ?s3 = "freemsg_unlock k (set_slot k m ?s2\<lparr>outq := outq ?s2 @ ms\<rparr>)"
  have "jia_send bs (int q) tag s = Inr ?s3"
    using assms(3) lk ms(1) by (simp add: jia_send_def s1)
  moreover have "outq ?s3 = outq s @ ms" by (simp add: freemsg_unlock_def set_slot_def s1)
  moreover have "mbuf_inv ?s3"
  proof (rule freemsg_unlock_inv)
    have "mbuf_inv (set_slot k m ?s2)"
      using set_slot_inv [OF set_slot_inv [OF u(1,2)], of k ?m0 m] u(2) by simp
    then show "mbuf_inv (set_slot k m ?s2\<lparr>outq := outq ?s2 @ ms\<rparr>)" by (simp add: mbuf_inv_def)
  qed (use u in simp_all)
  ultimately show ?thesis using ms(2,3) by (intro exI [of _ ?s3] exI [of _ ms]) simp
qed

text \<open>The packet that holds a message, with its number.\<close>

definition holds :: "jia_msg \<Rightarrow> nat \<Rightarrow> jia_msg \<Rightarrow> bool" where
  "holds req n m \<longleftrightarrow> op m = op req \<and> frompid m = frompid req \<and> scope m = scope req \<and>
     payload m = payload req \<and> unat (seqno m) = n"

lemma free_packet_first:
  "\<forall>x\<in>set xs. \<not> is_op x ERRMSG \<Longrightarrow> is_op y ERRMSG \<Longrightarrow> free_packet (xs @ y # ys) = Some (length xs)"
  by (induction xs) auto

lemma recv_one:
  assumes "msgbuf st = xs @ y # ys" "\<forall>x\<in>set xs. \<not> is_op x ERRMSG" "is_op y ERRMSG"
    "unat (msgseqno st) + 1 < 2 ^ 30"
  shows "\<exists>p st'. msgrecvserver req st = Inr st' \<and> msgbuf st' = xs @ p # ys \<and>
    holds req (unat (msgseqno st) + 1) p \<and> unat (msgseqno st') = unat (msgseqno st) + 1 \<and>
    endofmsg st' = endofmsg st"
proof -
  let ?q = "msgseqno st + 1"
  have q: "unat ?q = unat (msgseqno st) + 1"
    using assms(4) by (simp add: unat_word_ariths)
  have "unat (ucast ?q :: u32) = unat ?q"
    using assms(4) q by (simp add: unsigned_ucast_eq take_bit_nat_eq_self)
  moreover have "payload (m\<lparr>size := size req, data := put d 0 (payload req)\<rparr>) = payload req" for m d
    by (simp add: payload_def put_sub)
  ultimately show ?thesis
    using q free_packet_first [OF assms(2,3), of ys] assms(1)
    by (simp add: msgrecvserver_def Let_def holds_def list_update_append)
qed

lemma recv_all:
  assumes "msgbuf st = xs @ ys" "\<forall>x\<in>set xs. \<not> is_op x ERRMSG" "\<forall>y\<in>set ys. is_op y ERRMSG"
    "length ms \<le> length ys" "\<forall>m\<in>set ms. \<not> is_op m ERRMSG" "unat (msgseqno st) + length ms < 2 ^ 30"
  shows "\<exists>ps st'. foldE msgrecvserver ms st = Inr st' \<and> msgbuf st' = xs @ ps @ drop (length ms) ys \<and>
    endofmsg st' = endofmsg st \<and> length ps = length ms \<and>
    (\<forall>i<length ms. holds (ms ! i) (unat (msgseqno st) + 1 + i) (ps ! i))"
  using assms
proof (induction ms arbitrary: st xs ys)
  case Nil
  then show ?case by simp
next
  case (Cons m ms)
  then obtain y ys' where ys: "ys = y # ys'" by (cases ys) auto
  have "is_op y ERRMSG" "unat (msgseqno st) + 1 < 2 ^ 30" using Cons.prems(3,6) ys by simp_all
  from recv_one [OF _ Cons.prems(2) this, of ys' m] Cons.prems(1) ys obtain p st1 where
    p: "msgrecvserver m st = Inr st1" "msgbuf st1 = xs @ p # ys'" "holds m (unat (msgseqno st) + 1) p"
    "unat (msgseqno st1) = unat (msgseqno st) + 1" "endofmsg st1 = endofmsg st"
    by blast
  have "\<not> is_op p ERRMSG" using p(3) Cons.prems(5) by (simp add: holds_def is_op_def)
  then obtain ps st' where ps: "foldE msgrecvserver ms st1 = Inr st'"
    "msgbuf st' = (xs @ [p]) @ ps @ drop (length ms) ys'" "endofmsg st' = endofmsg st1"
    "length ps = length ms" "\<forall>i<length ms. holds (ms ! i) (unat (msgseqno st1) + 1 + i) (ps ! i)"
    using Cons.IH [of st1 "xs @ [p]" ys'] Cons.prems p(2,4) ys by auto
  have "holds ((m # ms) ! i) (unat (msgseqno st) + 1 + i) ((p # ps) ! i)" if "i < length (m # ms)" for i
    using that p(3,4) ps(5) by (cases i) auto
  then show ?case
    using p(1,5) ps(1-4) ys by (intro exI [of _ "p # ps"] exI [of _ st']) simp
qed

lemma next_from_none:
  "\<forall>m\<in>set ms. packet_match f t m \<longrightarrow> nxt \<le> ucast (seqno m) \<Longrightarrow> next_from f t ms i nxt best = best"
  by (induction ms arbitrary: i) (auto simp: not_less [symmetric])

lemma next_from_first:
  assumes "\<forall>e\<in>set es. \<not> packet_match f t e" "packet_match f t p" "ucast (seqno p) < nxt"
    "\<forall>m\<in>set ms. packet_match f t m \<longrightarrow> ucast (seqno p) \<le> (ucast (seqno m) :: u64)"
  shows "next_from f t (es @ p # ms) i nxt best = i + length es"
  using assms(1)
proof (induction es arbitrary: i)
  case Nil
  then show ?case using assms(2,3) next_from_none [OF assms(4)] by simp
qed simp

text \<open>Which packet \<open>nextmsg\<close> takes where the buffer holds freed ones, then these, then free ones.\<close>

lemma nextpacket_first:
  assumes "msgbuf st = es @ p # ps @ fs" "\<forall>e\<in>set (es @ fs). is_op e ERRMSG" "packet_match f t p"
    "unat (seqno p) < 2 ^ 30" "\<forall>x\<in>set ps. unat (seqno p) \<le> unat (seqno x)"
  shows "nextpacket f t st = length es"
proof -
  have sq: "unat (ucast w :: u64) = unat w" for w :: u32
  proof -
    have "unat w < 2 ^ LENGTH(32)" by (rule unsigned_less)
    then show ?thesis by (simp add: unsigned_ucast_eq take_bit_nat_eq_self)
  qed
  have nm: "\<forall>e\<in>set (es @ fs). \<not> packet_match f t e"
    using assms(2) by (auto simp: packet_match_def is_op_def)
  show ?thesis
    unfolding nextpacket_def assms(1)
  proof (subst next_from_first)
    show "ucast (seqno p) < Maxmsgno"
      using assms(4) by (simp add: word_less_nat_alt sq Maxmsgno_def)
    show "\<forall>m\<in>set (ps @ fs). packet_match f t m \<longrightarrow> ucast (seqno p) \<le> (ucast (seqno m) :: u64)"
      using assms(5) nm by (auto simp: word_le_nat_alt sq)
  qed (use nm assms(3) in auto)
qed

definition no_packets :: "packets \<Rightarrow> bool" where
  "no_packets st \<longleftrightarrow> length (msgbuf st) = Maxmsgbufs \<and> (\<forall>e\<in>set (msgbuf st). is_op e ERRMSG)"

text \<open>
  C22: A message of any length is cut into packets that the receiver keeps and tells apart. What
  \<open>jia_send\<close> queues are full packets marked \<open>MSGBODY\<close> and one last marked \<open>MSGTAIL\<close>, from this host,
  to that host, with that tag. Where they are handled in order by a receiver whose packet buffer is
  free and large enough, \<open>msgrecvserver\<close> keeps them in order with their marks, their data are
  exactly the bytes of the message, and where the first ones have been taken \<open>nextpacket\<close> finds the
  next. How \<open>nextmsg\<close> then ends is another property: it does not see the mark of the last.
\<close>

theorem jia_send_received:
  assumes "mbuf_inv s" "0 < mcount s" "q < hostc s" "no_packets st"
    "length bs \<le> Maxmsgbufs * Maxmsgsize" "unat (msgseqno st) + Maxmsgbufs < 2 ^ 30"
  shows "\<exists>s' ms st' ps. jia_send bs (int q) tag s = Inr s' \<and> outq s' = outq s @ ms \<and>
    (\<forall>m\<in>set ms. frompid m = jia_pid s \<and> topid m = q \<and> scope m = word_of_int tag) \<and>
    (\<exists>init tail. ms = init @ [tail] \<and> is_op tail MSGTAIL \<and> length (payload tail) \<le> Maxmsgsize \<and>
       (\<forall>m\<in>set init. is_op m MSGBODY \<and> length (payload m) = Maxmsgsize)) \<and>
    foldE msgrecvserver ms st = Inr st' \<and> msgbuf st' = ps @ drop (length ms) (msgbuf st) \<and>
    map op ps = map op ms \<and> map payload ps = map payload ms \<and> concat (map payload ms) = bs \<and>
    (\<forall>i<length ms. nextpacket (int (jia_pid s)) tag
       (st'\<lparr>msgbuf := map (\<lambda>m. m\<lparr>op := op_num ERRMSG\<rparr>) (take i (msgbuf st')) @ drop i (msgbuf st')\<rparr>) = i)"
proof -
  let ?tag = "word_of_int tag :: u32"
  obtain s' ms where ms: "jia_send bs (int q) tag s = Inr s'" "outq s' = outq s @ ms"
    "concat (map payload ms) = bs" "packets_of (jia_pid s) q ?tag ms"
    using jia_send_run [OF assms(1-3), of bs tag] by blast
  have len: "length ms \<le> Maxmsgbufs"
    using packets_of_count [OF ms(4), of Maxmsgbufs] ms(3) assms(5) by (simp add: Maxmsgbufs_def)
  have live: "\<forall>m\<in>set ms. is_op m MSGBODY \<or> is_op m MSGTAIL" using packets_of_live [OF ms(4)] by blast
  have nr: "\<forall>m\<in>set ms. \<not> is_op m ERRMSG" using live by (auto simp: is_op_def)
  have hd: "\<forall>m\<in>set ms. frompid m = jia_pid s \<and> topid m = q \<and> scope m = ?tag"
    using ms(4) by (simp add: packets_of_def)
  have tl: "\<exists>init tail. ms = init @ [tail] \<and> is_op tail MSGTAIL \<and> length (payload tail) \<le> Maxmsgsize \<and>
      (\<forall>m\<in>set init. is_op m MSGBODY \<and> length (payload m) = Maxmsgsize)"
    using ms(4) by (intro exI [of _ "butlast ms"] exI [of _ "last ms"]) (simp add: packets_of_def)
  obtain ps st' where st': "foldE msgrecvserver ms st = Inr st'"
    "msgbuf st' = ps @ drop (length ms) (msgbuf st)" "length ps = length ms"
    "\<forall>i<length ms. holds (ms ! i) (unat (msgseqno st) + 1 + i) (ps ! i)"
    using recv_all [of st "[]" "msgbuf st" ms] assms(4,6) len nr by (auto simp: no_packets_def)
  have ops: "map op ps = map op ms" and pay: "map payload ps = map payload ms"
    using st'(3,4) by (auto intro!: nth_equalityI simp: holds_def)
  let ?b = "\<lambda>i. map (\<lambda>m. m\<lparr>op := op_num ERRMSG\<rparr>) (take i (msgbuf st')) @ drop i (msgbuf st')"
  have np: "\<forall>i<length ms. nextpacket (int (jia_pid s)) tag (st'\<lparr>msgbuf := ?b i\<rparr>) = i"
  proof (intro allI impI)
    fix i assume i: "i < length ms"
    have h: "holds (ms ! j) (unat (msgseqno st) + 1 + j) (ps ! j)" if "j < length ms" for j
      using that st'(4) by blast
    have "ms ! i \<in> set ms" using i by simp
    then have pm: "packet_match (int (jia_pid s)) tag (ps ! i)"
      using h [OF i] live hd by (auto simp: holds_def packet_match_def is_op_def)
    have d: "drop i ps = ps ! i # drop (Suc i) ps" using i st'(3) by (simp add: Cons_nth_drop_Suc)
    have "msgbuf (st'\<lparr>msgbuf := ?b i\<rparr>) = map (\<lambda>m. m\<lparr>op := op_num ERRMSG\<rparr>) (take i ps) @ ps ! i #
        drop (Suc i) ps @ drop (length ms) (msgbuf st)" using i st'(2,3) d by simp
    moreover have "\<forall>x\<in>set (drop (Suc i) ps). unat (seqno (ps ! i)) \<le> unat (seqno x)"
      using h [OF i] h st'(3) by (auto simp: holds_def in_set_conv_nth)
    moreover have "\<forall>e\<in>set (map (\<lambda>m. m\<lparr>op := op_num ERRMSG\<rparr>) (take i ps) @ drop (length ms) (msgbuf st)). is_op e ERRMSG"
      using assms(4) by (auto simp: no_packets_def is_op_def dest: in_set_dropD)
    moreover have "unat (seqno (ps ! i)) < 2 ^ 30" using h [OF i] assms(6) i len by (simp add: holds_def)
    ultimately have "nextpacket (int (jia_pid s)) tag (st'\<lparr>msgbuf := ?b i\<rparr>) =
        length (map (\<lambda>m. m\<lparr>op := op_num ERRMSG\<rparr>) (take i ps))" by (intro nextpacket_first) (use pm in auto)
    then show "nextpacket (int (jia_pid s)) tag (st'\<lparr>msgbuf := ?b i\<rparr>) = i" using i st'(3) by simp
  qed
  show ?thesis
    by (rule exI, rule exI, rule exI, rule exI, intro conjI, rule ms(1), rule ms(2), rule hd, rule tl,
        rule st'(1), rule st'(2), rule ops, rule pay, rule ms(3), rule np)
qed

lemma jia_send_received_witness:
  "\<exists>s' ms st'. jia_send (replicate 50000 7) 1 5 (demo_home\<lparr>hostc := 2\<rparr>) = Inr s' \<and>
     map op ms = [op_num MSGBODY, op_num MSGTAIL] \<and>
     foldE msgrecvserver ms (initmsg \<lparr>msgbuf = replicate 48 clear_msg, msgseqno = 0, endofmsg = 0, recvwait = 0\<rparr>) = Inr st' \<and>
     concat (map payload (take 2 (msgbuf st'))) = replicate 50000 7 \<and> nextpacket (int (jia_pid demo_home)) 5 st' = 0"
proof -
  let ?s = "demo_home\<lparr>hostc := 2\<rparr>"
  let ?st = "initmsg \<lparr>msgbuf = replicate 48 clear_msg, msgseqno = 0, endofmsg = 0, recvwait = 0\<rparr>"
  have pre: "mbuf_inv ?s" "0 < mcount ?s" "(1 :: nat) < hostc ?s" "no_packets ?st"
    "length (replicate 50000 (7 :: u8)) \<le> Maxmsgbufs * Maxmsgsize" "unat (msgseqno ?st) + Maxmsgbufs < 2 ^ 30"
    by (simp_all add: demo_defs mbuf_inv_def free_slots_def no_packets_def initmsg_def Maxmsgbufs_def
        is_op_def clear_msg_def Maxmsgsize_eq)
  from jia_send_received [OF pre, of 5] obtain s' ms st' ps init tail where r:
    "jia_send (replicate 50000 7) (int 1) 5 ?s = Inr s'" "ms = init @ [tail]" "is_op tail MSGTAIL" "length (payload tail) \<le> Maxmsgsize"
    "\<forall>m\<in>set init. is_op m MSGBODY \<and> length (payload m) = Maxmsgsize"
    "foldE msgrecvserver ms ?st = Inr st'" "msgbuf st' = ps @ drop (length ms) (msgbuf ?st)"
    "map op ps = map op ms" "map payload ps = map payload ms" "concat (map payload ms) = replicate 50000 7"
    "\<forall>i<length ms. nextpacket (int (jia_pid ?s)) 5
       (st'\<lparr>msgbuf := map (\<lambda>m. m\<lparr>op := op_num ERRMSG\<rparr>) (take i (msgbuf st')) @ drop i (msgbuf st')\<rparr>) = i"
    by (elim exE conjE) blast
  have "length (concat (map payload init)) = length init * Maxmsgsize"
    using r(5) by (induction init) simp_all
  moreover have "length (concat (map payload ms)) = 50000" using r(10) by simp
  ultimately have "length init = 1" using r(2,4) by (simp add: Maxmsgsize_eq)
  then obtain x where i: "init = [x]" by (cases init) auto
  then have m: "map op ms = [op_num MSGBODY, op_num MSGTAIL]" "length ms = 2" "length ps = 2"
    using r(2,3,5) arg_cong [OF r(8), of length] by (simp_all add: is_op_def)
  have "concat (map payload (take 2 (msgbuf st'))) = replicate 50000 7" using r(7,9,10) m(3) by simp
  moreover have "nextpacket (int (jia_pid demo_home)) 5 st' = 0" using r(11) m(2) by (auto dest!: spec [of _ 0])
  ultimately show ?thesis using r(1,6) m(1) by (intro exI conjI) simp_all
qed

section \<open>The reduction tree\<close>

lemma red_pid_inv:
  assumes "root < n" "p < n"
  shows "red_pid n root ((p + root) mod n) = p" "red_pid n root p < n" "(red_pid n root p + root) mod n = p"
proof -
  have n: "0 < n" using assms by simp
  have "((p + root) mod n + n - root) mod n = p"
  proof (cases "p + root < n")
    case True
    then show ?thesis using assms by simp
  next
    case False
    then have "(p + root) mod n = p + root - n" using assms by (simp add: le_mod_geq)
    then show ?thesis using False assms by simp
  qed
  then show "red_pid n root ((p + root) mod n) = p" by (simp add: red_pid_def)
  show "red_pid n root p < n" using n by (simp add: red_pid_def)
  have "(p + n - root) mod n = (if root \<le> p then p - root else p + n - root)"
    using assms by (auto simp: le_mod_geq)
  then show "(red_pid n root p + root) mod n = p" using assms by (simp add: red_pid_def)
qed

lemma half_step:
  assumes "(p :: nat) mod 2 ^ j = 0"
  shows "p mod 2 ^ (j + 1) \<noteq> 0 \<Longrightarrow> 2 ^ j \<le> p \<and> (p - 2 ^ j) mod 2 ^ (j + 1) = 0"
    "p mod 2 ^ (j + 1) = 0 \<Longrightarrow> (p + 2 ^ j) mod 2 ^ j = 0 \<and> (p + 2 ^ j) mod 2 ^ (j + 1) \<noteq> 0"
proof -
  let ?q = "2 ^ j :: nat"
  obtain t where t: "p = ?q * t" using assms by (auto simp: mod_eq_0_iff_dvd dvd_def)
  have e: "2 ^ (j + 1) = ?q * 2" by simp
  have m: "(?q * x) mod (?q * 2) = ?q * (x mod 2)" for x by (rule mult_mod_right [symmetric])
  show "2 ^ j \<le> p \<and> (p - 2 ^ j) mod 2 ^ (j + 1) = 0" if "p mod 2 ^ (j + 1) \<noteq> 0"
  proof -
    have o: "odd t" using that unfolding e t m by (simp add: odd_iff_mod_2_eq_one)
    then have "p - ?q = ?q * (t - 1)" by (simp add: t diff_mult_distrib2)
    moreover have "even (t - 1)" using o by simp
    ultimately have "(p - ?q) mod 2 ^ (j + 1) = 0" unfolding e by (simp only: m) (simp add: even_iff_mod_2_eq_zero)
    moreover have "?q * 1 \<le> ?q * t" using o by (intro mult_le_mono2) (simp add: odd_pos Suc_leI)
    ultimately show ?thesis by (simp add: t)
  qed
  show "(p + 2 ^ j) mod 2 ^ j = 0 \<and> (p + 2 ^ j) mod 2 ^ (j + 1) \<noteq> 0" if "p mod 2 ^ (j + 1) = 0"
  proof -
    have "even t" using that unfolding e t m by (simp add: even_iff_mod_2_eq_zero)
    then have "(t + 1) mod 2 = 1" by presburger
    moreover have "p + ?q = ?q * (t + 1)" by (simp add: t)
    ultimately show ?thesis unfolding e by (simp only: m) simp
  qed
qed

lemma red_recv_send:
  assumes "root < n" "a < n" "b < n"
  shows "red_level n root (red_pid n root a) j = RedSend b \<Longrightarrow> red_level n root (red_pid n root b) j = RedRecv a"
    "red_level n root (red_pid n root b) j = RedRecv a \<Longrightarrow> red_level n root (red_pid n root a) j = RedSend b"
proof -
  let ?p = "red_pid n root a" and ?q = "red_pid n root b"
  note pa = red_pid_inv [OF assms(1,2)] and pb = red_pid_inv [OF assms(1,3)]
  show "red_level n root ?q j = RedRecv a" if "red_level n root ?p j = RedSend b"
  proof -
    have p: "?p mod 2 ^ j = 0" "?p mod 2 ^ (j + 1) \<noteq> 0" "b = (?p - 2 ^ j + root) mod n"
      using that by (auto simp: red_level_def split: if_splits)
    note h = half_step(1) [OF p(1,2)]
    have "?p - 2 ^ j < n" using pa(2) by linarith
    then have q: "?q = ?p - 2 ^ j" using red_pid_inv(1) [OF assms(1), of "?p - 2 ^ j"] p(3) by simp
    have "?q mod 2 ^ j = 0" using h unfolding q by (metis mod_mod_cancel le_imp_power_dvd le_add1 mod_0)
    moreover have "?q + 2 ^ j = ?p" using h q by simp
    ultimately show ?thesis using h pa(2,3) unfolding red_level_def by (simp add: q)
  qed
  show "red_level n root ?p j = RedSend b" if "red_level n root ?q j = RedRecv a"
  proof -
    have q: "?q mod 2 ^ j = 0" "?q mod 2 ^ (j + 1) = 0" "?q + 2 ^ j < n" "a = (?q + 2 ^ j + root) mod n"
      using that by (auto simp: red_level_def split: if_splits)
    have p: "?p = ?q + 2 ^ j" using red_pid_inv(1) [OF assms(1) q(3)] q(4) by simp
    show ?thesis using half_step(2) [OF q(1,2)] pb(3) unfolding red_level_def p by simp
  qed
qed

text \<open>
  The hosts whose values are combined in the buffer of host \<open>a\<close> before level \<open>j\<close>, in order.
\<close>

fun red_value :: "nat \<Rightarrow> nat \<Rightarrow> nat \<Rightarrow> nat \<Rightarrow> nat list" where
  "red_value n root 0 a = [a]"
| "red_value n root (Suc j) a = red_value n root j a @
     (case red_level n root (red_pid n root a) j of RedRecv b \<Rightarrow> red_value n root j b | _ \<Rightarrow> [])"

lemma red_value_range:
  assumes "root < n" "p < n" "p mod 2 ^ j = 0"
  shows "red_value n root j ((p + root) mod n) = map (\<lambda>p. (p + root) mod n) [p..<min n (p + 2 ^ j)]"
  using assms(2,3)
proof (induction j arbitrary: p)
  case 0
  then show ?case by simp
next
  case (Suc j)
  have m: "p mod 2 ^ j = 0" using Suc.prems(2) by (metis mod_mod_cancel le_imp_power_dvd le_add2 plus_1_eq_Suc mod_0)
  note pid = red_pid_inv(1) [OF assms(1) Suc.prems(1)]
  have h: "(p + 2 ^ j) mod 2 ^ j = 0" using half_step(2) [OF m] Suc.prems(2) by simp
  show ?case
  proof (cases "p + 2 ^ j < n")
    case True
    have "red_level n root p j = RedRecv ((p + 2 ^ j + root) mod n)"
      using m Suc.prems(2) True by (simp add: red_level_def)
    moreover have "[p..<min n (p + 2 ^ j)] @ [p + 2 ^ j..<min n (p + 2 ^ j + 2 ^ j)] = [p..<min n (p + 2 ^ Suc j)]"
      using True upt_add_eq_append [of p "p + 2 ^ j" "min n (p + 2 ^ j + 2 ^ j) - (p + 2 ^ j)"]
      by (simp add: min_def mult_2 add.assoc)
    ultimately show ?thesis
      using Suc.IH [OF Suc.prems(1) m] Suc.IH [OF True h] by (simp add: pid flip: map_append)
  next
    case False
    have "red_level n root p j = RedNone" using m Suc.prems(2) False by (simp add: red_level_def)
    then show ?thesis using Suc.IH [OF Suc.prems(1) m] False by (simp add: pid min_def)
  qed
qed

lemma red_levels_upt: "\<exists>k. red_levels n j = [j..<j + k] \<and> n \<le> 2 ^ (j + k)"
proof (induction n j rule: red_levels.induct)
  case (1 n j)
  show ?case
  proof (cases "2 ^ j < n")
    case True
    then obtain k where "red_levels n (j + 1) = [j + 1..<j + 1 + k]" "n \<le> 2 ^ (j + 1 + k)" using 1 by blast
    then show ?thesis using True
      by (intro exI [of _ "Suc k"]) (simp add: red_levels.simps [of n j] upt_conv_Cons)
  next
    case False
    then show ?thesis by (intro exI [of _ 0]) (simp add: red_levels.simps [of n j])
  qed
qed

text \<open>
  C23: The reduction tree combines every host's value exactly once. At every level a host sends to
  another exactly when the other receives from it, so no host waits for a message that is never
  sent, and after the levels of \<open>jia_reduce\<close> the root holds the values of all hosts, each once.
\<close>

theorem reduce_tree:
  assumes "root < n"
  shows "(\<forall>a<n. \<forall>b<n. \<forall>j. red_level n root (red_pid n root a) j = RedSend b \<longleftrightarrow>
       red_level n root (red_pid n root b) j = RedRecv a) \<and>
    distinct (red_value n root (length (red_levels n 0)) root) \<and>
    set (red_value n root (length (red_levels n 0)) root) = {0..<n}"
proof -
  obtain k where k: "length (red_levels n 0) = k" "n \<le> 2 ^ k" using red_levels_upt [of n 0] by auto
  have n: "0 < n" using assms by simp
  have v: "red_value n root k root = map (\<lambda>p. (p + root) mod n) [0..<n]"
    using red_value_range [OF assms n, of k] assms k(2) by (simp add: min_def)
  have inj: "inj_on (\<lambda>p. (p + root) mod n) {0..<n}"
    using red_pid_inv(1) [OF assms] by (intro inj_on_inverseI [of _ "red_pid n root"]) simp
  have "(\<lambda>p. (p + root) mod n) ` {0..<n} = {0..<n}"
    by (rule endo_inj_surj [OF _ _ inj]) (use n in \<open>auto\<close>)
  then have val: "distinct (red_value n root k root)" "set (red_value n root k root) = {0..<n}"
    unfolding v using inj by (simp_all add: distinct_map)
  have "\<forall>a<n. \<forall>b<n. \<forall>j. red_level n root (red_pid n root a) j = RedSend b \<longleftrightarrow>
       red_level n root (red_pid n root b) j = RedRecv a"
    using red_recv_send [OF assms] by blast
  then show ?thesis using val unfolding k(1) by blast
qed

lemma reduce_tree_witness: "set (red_value 6 4 (length (red_levels 6 0)) 4) = {0..<6}"
  using reduce_tree [of 4 6] by simp

end
