(* ===== verification/Udp.thy ===== *)
theory Udp
  imports Ringq
begin

text \<open>
  Messages over UDP, \<open>src/src/udp/\<close>: the client thread sends one message at a time, numbers it per
  destination, and sends it again until the acknowledgement comes or it has tried \<open>RETRYNUM\<close>
  times; the listen thread acknowledges every datagram and puts those with the expected number on
  the input queue. The network loses, delays, reorders and duplicates datagrams.
\<close>

section \<open>The communication manager\<close>

type_synonym u16 = "16 word"

definition RETRYNUM :: nat where "RETRYNUM = 50"

record ack =
  ack_seqno :: u32
  ack_sid :: u32

record comm_manager =
  snd_seq :: "nat \<Rightarrow> u32"
  rcv_seq :: "nat \<Rightarrow> u32"
  last_ack_seq :: "nat \<Rightarrow> u32"
  snd_server_port :: u16
  ack_port :: u16
  rcv_ports :: "nat \<Rightarrow> u16"

text \<open>\<open>init_comm_manager\<close> without the sockets.\<close>

definition init_comm_manager :: "int \<Rightarrow> nat \<Rightarrow> comm_manager \<Rightarrow> comm_manager" where
  "init_comm_manager start_port pid cm = cm\<lparr>snd_server_port := word_of_int (start_port + int pid),
     ack_port := word_of_int (start_port + int Maxhosts),
     rcv_ports := (\<lambda>i. if i < Maxhosts then word_of_int (start_port + int i) else rcv_ports cm i),
     snd_seq := (\<lambda>i. if i < Maxhosts then 0 else snd_seq cm i),
     last_ack_seq := (\<lambda>i. if i < Maxhosts then 0 else last_ack_seq cm i),
     rcv_seq := (\<lambda>i. if i < Maxhosts then 0 else rcv_seq cm i)\<rparr>"

section \<open>The client thread\<close>

text \<open>
  What \<open>epoll_wait\<close> and \<open>recvfrom\<close> report to \<open>outsend\<close>: nothing before the timeout, an
  acknowledgement, or a datagram of another size. A run of the thread takes the list of reports;
  at its end nothing comes any more.
\<close>

datatype ack_event = Timeout | AckIn ack | BadSize

definition accept_ack :: "jia_msg \<Rightarrow> ack \<Rightarrow> bool" where
  "accept_ack m a \<longleftrightarrow> ack_sid a = word_of_nat (topid m) \<and> ack_seqno a = seqno m + 1"

fun wait_ack :: "jia_msg \<Rightarrow> ack_event list \<Rightarrow> bool \<times> ack_event list" where
  "wait_ack m [] = (False, [])"
| "wait_ack m (Timeout # es) = (False, es)"
| "wait_ack m (BadSize # es) = (False, es)"
| "wait_ack m (AckIn a # es) = (if accept_ack m a then (True, es) else wait_ack m es)"

text \<open>
  \<open>outsend\<close>: a message to the host itself goes to its own input queue; the result tells whether
  the message is done, what is left of the reports, and the datagrams sent.
\<close>

record turn =
  reports :: "ack_event list"
  datagrams :: "jia_msg list"
  inq :: "jia_msg msg_queue"

definition outsend :: "jia_msg \<Rightarrow> turn \<Rightarrow> (bool \<times> turn) res" where
  "outsend m t =
     (if topid m = frompid m then bindE (enqueue m (inq t)) (\<lambda>q. Inr (True, t\<lparr>inq := q\<rparr>))
      else let (ok, es) = wait_ack m (reports t)
           in Inr (ok, t\<lparr>reports := es, datagrams := datagrams t @ [m]\<rparr>))"

fun retries :: "nat \<Rightarrow> jia_msg \<Rightarrow> turn \<Rightarrow> (bool \<times> turn) res" where
  "retries 0 m t = Inr (False, t)"
| "retries (Suc n) m t = bindE (outsend m t) (\<lambda>(ok, t). if ok then Inr (True, t) else retries n m t)"

definition give_seqno :: "comm_manager \<Rightarrow> jia_msg \<Rightarrow> jia_msg" where
  "give_seqno cm m = m\<lparr>seqno := snd_seq cm (topid m)\<rparr>"

definition update_snd_seq :: "jia_msg \<Rightarrow> comm_manager \<Rightarrow> comm_manager" where
  "update_snd_seq m cm = cm\<lparr>snd_seq := (snd_seq cm)(topid m := snd_seq cm (topid m) + 1)\<rparr>"

text \<open>
  One turn of \<open>client_thread\<close> on a dequeued message: whether it succeeded or not, the number of
  the destination goes up.
\<close>

definition client_thread :: "jia_msg \<Rightarrow> comm_manager \<Rightarrow> turn \<Rightarrow> (bool \<times> comm_manager \<times> turn) res" where
  "client_thread m cm t = bindE (assertE (topid m < Maxhosts) (OutOfBounds ''snd_seq'')) (\<lambda>_.
     bindE (retries RETRYNUM (give_seqno cm m) t) (\<lambda>(success, t).
     Inr (success, update_snd_seq m cm, t)))"

section \<open>The listen thread\<close>

definition make_ack :: "jia_msg \<Rightarrow> ack" where
  "make_ack m = \<lparr>ack_seqno = seqno m + 1, ack_sid = word_of_nat (topid m)\<rparr>"

definition expected :: "jia_msg \<Rightarrow> comm_manager \<Rightarrow> bool" where
  "expected m cm \<longleftrightarrow> seqno m = rcv_seq cm (frompid m)"

definition update_rcv_seq :: "jia_msg \<Rightarrow> comm_manager \<Rightarrow> comm_manager" where
  "update_rcv_seq m cm = (if expected m cm
     then cm\<lparr>rcv_seq := (rcv_seq cm)(frompid m := rcv_seq cm (frompid m) + 1)\<rparr> else cm)"

text \<open>
  One datagram: the acknowledgement goes out first; then the expected message is counted and entered
  into the input queue, which waits while the queue is full. The result is the acknowledgement, the
  manager, and what the entry comes to.
\<close>

definition listen_thread :: "jia_msg \<Rightarrow> comm_manager \<Rightarrow> jia_msg msg_queue \<Rightarrow>
    (ack \<times> comm_manager \<times> jia_msg msg_queue res) res" where
  "listen_thread m cm q = bindE (assertE (frompid m < Maxhosts) (OutOfBounds ''hosts'')) (\<lambda>_.
     Inr (make_ack m, update_rcv_seq m cm, if expected m cm then enqueue m q else Inr q))"

section \<open>A sender and a receiver over the network\<close>

text \<open>
  The system of a sender \<open>p\<close>, a receiver \<open>q\<close> and the network: the datagrams and acknowledgements
  that were ever sent may arrive at any time, any number of times, or never. \<open>cur\<close> is the message
  the client thread is busy with and the number of times it has sent it; \<open>fin\<close> keeps the outcome
  of each turn. \<open>held\<close> is the message that the listen thread has acknowledged and is about to put
  on the input queue, which may have to wait; it reads no other datagram meanwhile. \<open>dlv\<close> are the
  messages put on the receiver's input queue.
\<close>

record link =
  todo :: "jia_msg list"
  cur :: "(jia_msg \<times> nat) option"
  fin :: "(jia_msg \<times> bool) list"
  scm :: comm_manager
  rcm :: comm_manager
  net :: "jia_msg set"
  acks :: "ack set"
  held :: "jia_msg option"
  dlv :: "jia_msg list"

definition link_start :: "jia_msg list \<Rightarrow> comm_manager \<Rightarrow> comm_manager \<Rightarrow> link" where
  "link_start ms cs cr = \<lparr>todo = ms, cur = None, fin = [], scm = cs, rcm = cr, net = {}, acks = {}, held = None, dlv = []\<rparr>"

inductive link_step :: "link \<Rightarrow> link \<Rightarrow> bool" where
  take: "cur s = None \<Longrightarrow> todo s = m # ms \<Longrightarrow>
     link_step s (s\<lparr>todo := ms, cur := Some (give_seqno (scm s) m, 0)\<rparr>)"
| transmit: "cur s = Some (m, k) \<Longrightarrow> k < RETRYNUM \<Longrightarrow>
     link_step s (s\<lparr>net := insert m (net s), cur := Some (m, Suc k)\<rparr>)"
| success: "cur s = Some (m, k) \<Longrightarrow> 0 < k \<Longrightarrow> a \<in> acks s \<Longrightarrow> accept_ack m a \<Longrightarrow>
     link_step s (s\<lparr>cur := None, fin := fin s @ [(m, True)], scm := update_snd_seq m (scm s)\<rparr>)"
| give_up: "cur s = Some (m, RETRYNUM) \<Longrightarrow>
     link_step s (s\<lparr>cur := None, fin := fin s @ [(m, False)], scm := update_snd_seq m (scm s)\<rparr>)"
| arrive: "m \<in> net s \<Longrightarrow> held s = None \<Longrightarrow>
     link_step s (s\<lparr>acks := insert (make_ack m) (acks s), rcm := update_rcv_seq m (rcm s),
       held := (if expected m (rcm s) then Some m else None)\<rparr>)"
| enter: "held s = Some m \<Longrightarrow> link_step s (s\<lparr>held := None, dlv := dlv s @ [m]\<rparr>)"

inductive reachable :: "link \<Rightarrow> link \<Rightarrow> bool" for s0 :: link where
  start: "reachable s0 s0"
| step: "reachable s0 s \<Longrightarrow> link_step s t \<Longrightarrow> reachable s0 t"

inductive_cases link_stepE: "link_step s t"

section \<open>What arrives\<close>

text \<open>The messages the client thread has taken so far, with their numbers.\<close>

definition sent :: "link \<Rightarrow> jia_msg list" where
  "sent s = map fst (fin s) @ (case cur s of None \<Rightarrow> [] | Some (m, k) \<Rightarrow> [m])"

text \<open>The messages the receiver has accepted: those on its input queue and the one that will be next.\<close>

definition accepted :: "link \<Rightarrow> jia_msg list" where
  "accepted s = dlv s @ (case held s of None \<Rightarrow> [] | Some m \<Rightarrow> [m])"

definition unnumbered :: "jia_msg \<Rightarrow> jia_msg" where
  "unnumbered m = m\<lparr>seqno := 0\<rparr>"

lemma unnumbered_pids [simp]: "frompid (unnumbered m) = frompid m" "topid (unnumbered m) = topid m"
  by (simp_all add: unnumbered_def)

lemma unnumbered_give [simp]: "unnumbered (give_seqno cm m) = unnumbered m"
  by (simp add: unnumbered_def give_seqno_def)

text \<open>What a sender and a receiver agree on before the first message.\<close>

definition link_ready :: "nat \<Rightarrow> nat \<Rightarrow> jia_msg list \<Rightarrow> comm_manager \<Rightarrow> comm_manager \<Rightarrow> bool" where
  "link_ready p q ms cs cr \<longleftrightarrow> (\<forall>m\<in>set ms. frompid m = p \<and> topid m = q) \<and>
     snd_seq cs q = rcv_seq cr p \<and> length ms < 2 ^ 32"

definition link_inv :: "nat \<Rightarrow> nat \<Rightarrow> u32 \<Rightarrow> jia_msg list \<Rightarrow> link \<Rightarrow> bool" where
  "link_inv p q b ms s \<longleftrightarrow>
     map unnumbered (sent s @ todo s) = map unnumbered ms \<and>
     (\<forall>i<length (sent s). seqno (sent s ! i) = b + word_of_nat i) \<and>
     snd_seq (scm s) q = b + word_of_nat (length (fin s)) \<and>
     rcv_seq (rcm s) p = b + word_of_nat (length (accepted s)) \<and>
     (\<exists>r. sent s = accepted s @ r) \<and> net s \<subseteq> set (sent s)"

lemma of_nat_u32_inj: "i < 2 ^ 32 \<Longrightarrow> j < 2 ^ 32 \<Longrightarrow> (word_of_nat i :: u32) = word_of_nat j \<longleftrightarrow> i = j"
proof -
  assume "i < 2 ^ 32" "j < 2 ^ 32"
  then have "unat (word_of_nat i :: u32) = i" "unat (word_of_nat j :: u32) = j" by (simp_all add: unat_of_nat)
  then show ?thesis by metis
qed

lemma link_inv_pids:
  assumes "link_inv p q b ms s" "\<forall>m\<in>set ms. frompid m = p \<and> topid m = q" "m \<in> set (sent s @ todo s)"
  shows "frompid m = p \<and> topid m = q"
proof -
  have "unnumbered m \<in> unnumbered ` set ms"
    using assms(1,3) unfolding link_inv_def by (metis image_eqI list.set_map)
  then obtain x where "x \<in> set ms" "unnumbered m = unnumbered x" by blast
  then show ?thesis using assms(2) by (metis unnumbered_pids)
qed

lemma link_inv_length:
  assumes "link_inv p q b ms s"
  shows "length (sent s) + length (todo s) = length ms" "length (accepted s) \<le> length (sent s)"
proof -
  have "length (map unnumbered (sent s @ todo s)) = length (map unnumbered ms)"
    using assms unfolding link_inv_def by (simp only:)
  then show "length (sent s) + length (todo s) = length ms" by simp
  show "length (accepted s) \<le> length (sent s)" using assms by (auto simp: link_inv_def)
qed

text \<open>What a step accepts: an expected datagram, when the listen thread is free.\<close>

lemma accepted_step:
  assumes "link_step s t"
  shows "accepted t = accepted s \<and> rcv_seq (rcm t) = rcv_seq (rcm s) \<or>
    (\<exists>m\<in>net s. held s = None \<and> expected m (rcm s) \<and> accepted t = accepted s @ [m] \<and> rcm t = update_rcv_seq m (rcm s))"
  using assms by cases (auto simp: accepted_def update_rcv_seq_def)

lemma sent_at:
  assumes "link_inv p q b ms s" "m \<in> set (sent s)"
  obtains i where "i < length (sent s)" "m = sent s ! i" "seqno m = b + word_of_nat i"
  using assms unfolding link_inv_def by (metis in_set_conv_nth)

lemma expected_index:
  assumes "link_inv p q b ms s" "\<forall>m\<in>set ms. frompid m = p \<and> topid m = q" "length ms < 2 ^ 32" "m \<in> set (sent s)"
    "seqno m = rcv_seq (rcm s) p"
  shows "length (accepted s) < length (sent s)" "m = sent s ! length (accepted s)"
proof -
  obtain i where i: "i < length (sent s)" "m = sent s ! i" "seqno m = b + word_of_nat i" using sent_at [OF assms(1,4)] .
  note len = link_inv_length [OF assms(1)]
  have "(word_of_nat i :: u32) = word_of_nat (length (accepted s))" using assms(1,5) i(3) by (simp add: link_inv_def)
  then have "i = length (accepted s)" using of_nat_u32_inj [of i "length (accepted s)"] i(1) len assms(3) by simp
  then show "length (accepted s) < length (sent s)" "m = sent s ! length (accepted s)" using i by simp_all
qed

lemma link_step_inv:
  assumes "link_step s t" "link_inv p q b ms s" "\<forall>m\<in>set ms. frompid m = p \<and> topid m = q" "length ms < 2 ^ 32"
  shows "link_inv p q b ms t"
  using assms(1)
proof cases
  case (take m ks)
  have "topid m = q" using link_inv_pids [OF assms(2,3), of m] take by simp
  then show ?thesis
    using assms(2) take unfolding link_inv_def
    by (auto simp: sent_def accepted_def nth_append give_seqno_def less_Suc_eq) (auto simp: unnumbered_def)
next
  case (transmit m k)
  then have "sent t = sent s" "accepted t = accepted s" "m \<in> set (sent s)" by (simp_all add: sent_def accepted_def)
  then show ?thesis using assms(2) transmit unfolding link_inv_def by simp
next
  case (success m k a)
  then have s: "sent t = sent s" "accepted t = accepted s" "m \<in> set (sent s)" by (simp_all add: sent_def accepted_def)
  then have "topid m = q" using link_inv_pids [OF assms(2,3), of m] by simp
  then show ?thesis using assms(2) success s unfolding link_inv_def by (simp add: update_snd_seq_def)
next
  case (give_up m)
  then have s: "sent t = sent s" "accepted t = accepted s" "m \<in> set (sent s)" by (simp_all add: sent_def accepted_def)
  then have "topid m = q" using link_inv_pids [OF assms(2,3), of m] by simp
  then show ?thesis using assms(2) give_up s unfolding link_inv_def by (simp add: update_snd_seq_def)
next
  case (arrive m)
  have st: "sent t = sent s" using arrive by (simp add: sent_def)
  have ms: "m \<in> set (sent s)" using assms(2) arrive(2) by (auto simp: link_inv_def)
  have p: "frompid m = p" using link_inv_pids [OF assms(2,3), of m] ms by simp
  obtain r where r: "sent s = accepted s @ r" using assms(2) by (auto simp: link_inv_def)
  show ?thesis
  proof (cases "expected m (rcm s)")
    case False
    then have "accepted t = accepted s" using arrive by (simp add: accepted_def)
    then show ?thesis using False assms(2) arrive st unfolding link_inv_def by (simp add: update_rcv_seq_def)
  next
    case True
    then have "seqno m = rcv_seq (rcm s) p" using p by (simp add: expected_def)
    note x = expected_index [OF assms(2-4) ms this]
    have a: "accepted t = accepted s @ [m]" using arrive True by (simp add: accepted_def)
    have "sent s = accepted t @ tl r" using x r a by (cases r) (auto simp: nth_append)
    then show ?thesis
      using True assms(2) arrive p a unfolding link_inv_def st by (auto simp: update_rcv_seq_def)
  qed
next
  case (enter m)
  then have "sent t = sent s" "accepted t = accepted s" by (simp_all add: sent_def accepted_def)
  then show ?thesis using assms(2) enter unfolding link_inv_def by simp
qed

lemma reachable_inv:
  assumes "reachable (link_start ms cs cr) s" "link_ready p q ms cs cr"
  shows "link_inv p q (snd_seq cs q) ms s"
  using assms(1)
proof induction
  case start
  then show ?case using assms(2) by (simp add: link_inv_def link_start_def sent_def accepted_def link_ready_def)
next
  case (step s t)
  then show ?case using link_step_inv [OF step(2,3)] assms(2) by (simp add: link_ready_def)
qed

text \<open>
  C25: Nothing is reordered, duplicated or made up. Whatever the network loses, repeats or delays,
  and whether the client thread gives up on messages or not, the messages put on the receiver's
  input queue are always a first part of those the sender took, in their order, with their
  numbers the only thing that changed.
\<close>

theorem udp_in_order:
  assumes "reachable (link_start ms cs cr) s" "link_ready p q ms cs cr"
  shows "\<exists>n. map unnumbered (dlv s) = take n (map unnumbered ms)"
proof -
  note inv = reachable_inv [OF assms]
  obtain r where "sent s = accepted s @ r" using inv by (auto simp: link_inv_def)
  then have "\<exists>r'. sent s = dlv s @ r'" by (simp add: accepted_def)
  then obtain r' where "sent s = dlv s @ r'" by blast
  then have "map unnumbered ms = map unnumbered (dlv s) @ map unnumbered (r' @ todo s)"
    using inv by (auto simp: link_inv_def)
  then have "map unnumbered (dlv s) = take (length (dlv s)) (map unnumbered ms)" by simp
  then show ?thesis by blast
qed

section \<open>What an acknowledgement means\<close>

definition no_give_up :: "link \<Rightarrow> bool" where
  "no_give_up s \<longleftrightarrow> (\<forall>f\<in>set (fin s). snd f)"

definition ack_inv :: "u32 \<Rightarrow> link \<Rightarrow> bool" where
  "ack_inv b s \<longleftrightarrow> (no_give_up s \<longrightarrow> length (fin s) \<le> length (accepted s) \<and>
     (\<forall>a\<in>acks s. \<exists>i<length (accepted s). ack_seqno a = b + word_of_nat (Suc i)))"

lemma length_sent: "length (sent s) = length (fin s) + (if cur s = None then 0 else 1)"
  by (simp add: sent_def split: option.splits)

lemma cur_is_last: "cur s = Some (m, k) \<Longrightarrow> sent s ! length (fin s) = m"
  by (simp add: sent_def nth_append)

lemma link_step_ack:
  assumes "link_step s t" "ack_inv b s" "link_inv p q b ms s" "\<forall>m\<in>set ms. frompid m = p \<and> topid m = q"
    "length ms < 2 ^ 32"
  shows "ack_inv b t"
  using assms(1)
proof cases
  case (success m k a)
  note len = link_inv_length [OF assms(3)]
  have ac: "accepted t = accepted s" using success by (simp add: accepted_def)
  show ?thesis
    unfolding ack_inv_def ac
  proof
    assume ok: "no_give_up t"
    then have "no_give_up s" using success by (simp add: no_give_up_def)
    then have a: "\<forall>a\<in>acks s. \<exists>i<length (accepted s). ack_seqno a = b + word_of_nat (Suc i)"
      using assms(2) by (simp add: ack_inv_def)
    then obtain i where i: "i < length (accepted s)" "ack_seqno a = b + word_of_nat (Suc i)" using success(4) by blast
    have l: "length (fin s) < length (sent s)" using success by (simp add: length_sent)
    have "seqno m = b + word_of_nat (length (fin s))"
      using assms(3) l cur_is_last [OF success(2)] unfolding link_inv_def by metis
    then have "(word_of_nat (Suc i) :: u32) = word_of_nat (Suc (length (fin s)))"
      using i(2) success(5) by (simp add: accept_ack_def)
    then have "i = length (fin s)"
      using of_nat_u32_inj [of "Suc i" "Suc (length (fin s))"] i(1) len l assms(5) by simp
    then show "length (fin t) \<le> length (accepted s) \<and>
        (\<forall>a\<in>acks t. \<exists>i<length (accepted s). ack_seqno a = b + word_of_nat (Suc i))"
      using a i(1) success by simp
  qed
next
  case (arrive m)
  have "m \<in> set (sent s)" using assms(3) arrive(2) by (auto simp: link_inv_def)
  then obtain i where i: "i < length (sent s)" "m = sent s ! i" "seqno m = b + word_of_nat i" using sent_at [OF assms(3)] by blast
  have p: "frompid m = p" using link_inv_pids [OF assms(3,4), of m] i by simp
  have ex: "expected m (rcm s)" if "i = length (accepted s)"
    using that assms(3) i(3) p by (simp add: expected_def link_inv_def)
  have ac: "accepted t = (if expected m (rcm s) then accepted s @ [m] else accepted s)" using arrive by (simp add: accepted_def)
  show ?thesis
    unfolding ack_inv_def
  proof
    assume "no_give_up t"
    then have ok: "no_give_up s" using arrive by (simp add: no_give_up_def)
    then have l: "length (fin s) \<le> length (accepted s)" using assms(2) by (simp add: ack_inv_def)
    have le: "i \<le> length (accepted s)" using i(1) l by (simp add: length_sent split: if_splits)
    have d: "length (accepted s) \<le> length (accepted t)" by (simp add: ac)
    have "i < length (accepted t)" using le ex d by (cases "i = length (accepted s)") (auto simp: ac)
    then have "\<exists>i<length (accepted t). ack_seqno (make_ack m) = b + word_of_nat (Suc i)"
      using i(3) by (intro exI [of _ i]) (simp add: make_ack_def)
    moreover have "\<exists>i<length (accepted t). ack_seqno a = b + word_of_nat (Suc i)" if "a \<in> acks s" for a
      using assms(2) ok that d unfolding ack_inv_def by (meson less_le_trans)
    ultimately show "length (fin t) \<le> length (accepted t) \<and>
        (\<forall>a\<in>acks t. \<exists>i<length (accepted t). ack_seqno a = b + word_of_nat (Suc i))"
      using l d arrive by auto
  qed
qed (use assms(2) in \<open>auto simp: ack_inv_def no_give_up_def accepted_def\<close>)

lemma reachable_ack:
  assumes "reachable (link_start ms cs cr) s" "link_ready p q ms cs cr"
  shows "ack_inv (snd_seq cs q) s"
  using assms(1)
proof induction
  case start
  then show ?case by (simp add: ack_inv_def link_start_def)
next
  case (step s t)
  then show ?case using link_step_ack [OF step(2,3) reachable_inv [OF step(1) assms(2)]] assms(2)
    by (simp add: link_ready_def)
qed

text \<open>
  C26: A message reported as sent has reached the receiver, as long as the client thread has not
  given up on any: the messages finished so far are a first part of those on the receiver's input
  queue followed by the one, if any, that its listen thread has acknowledged and is about to enter,
  for which it may have to wait until the queue has room.
\<close>

theorem udp_acked_delivered:
  assumes "reachable (link_start ms cs cr) s" "link_ready p q ms cs cr" "no_give_up s"
  shows "\<exists>r. dlv s @ (case held s of None \<Rightarrow> [] | Some m \<Rightarrow> [m]) = map fst (fin s) @ r"
proof -
  have l: "length (fin s) \<le> length (accepted s)"
    using reachable_ack [OF assms(1,2)] assms(3) by (simp add: ack_inv_def)
  obtain r where r: "sent s = accepted s @ r" using reachable_inv [OF assms(1,2)] by (auto simp: link_inv_def)
  have "map fst (fin s) = take (length (fin s)) (sent s)" by (simp add: sent_def)
  also have "\<dots> = take (length (fin s)) (accepted s)" using r l by simp
  finally have "accepted s = map fst (fin s) @ drop (length (fin s)) (accepted s)" by simp
  then show ?thesis unfolding accepted_def by blast
qed

section \<open>It can always go on\<close>

lemma reachable_cur:
  "reachable (link_start ms cs cr) s \<Longrightarrow> cur s = Some (m, k) \<Longrightarrow> k \<le> RETRYNUM \<and> (0 < k \<longrightarrow> m \<in> net s)"
proof (induction arbitrary: m k rule: reachable.induct)
  case start
  then show ?case by (simp add: link_start_def)
next
  case (step s t)
  from step(2,1,3,4) show ?case by cases auto
qed

text \<open>The listen thread gets its message on the input queue.\<close>

lemma settle:
  assumes "reachable s0 s"
  obtains t where "reachable s0 t" "held t = None" "accepted t = accepted s" "cur t = cur s" "todo t = todo s"
    "fin t = fin s" "scm t = scm s" "rcm t = rcm s" "net t = net s"
proof (cases "held s")
  case None
  then show ?thesis using that [of s] assms by simp
next
  case (Some m)
  let ?t = "s\<lparr>held := None, dlv := dlv s @ [m]\<rparr>"
  have "reachable s0 ?t" by (rule reachable.step [OF assms link_step.enter [OF Some]])
  then show ?thesis using that [of ?t] Some by (simp add: accepted_def)
qed

lemma acknowledge_current:
  assumes "reachable s0 s" "cur s = Some (m, k)" "0 < k \<longrightarrow> m \<in> net s"
  obtains t where "reachable s0 t" "cur t = None" "todo t = todo s" "fin t = fin s @ [(m, True)]"
    "accepted t = accepted s @ (if expected m (rcm s) then [m] else [])" "scm t = update_snd_seq m (scm s)"
proof -
  obtain s1 where s1: "reachable s0 s1" "held s1 = None" "accepted s1 = accepted s" "cur s1 = cur s" "todo s1 = todo s"
    "fin s1 = fin s" "scm s1 = scm s" "rcm s1 = rcm s" "net s1 = net s" using settle [OF assms(1)] .
  obtain s2 j where s2: "reachable s0 s2" "held s2 = None" "accepted s2 = accepted s" "cur s2 = Some (m, j)" "0 < j"
    "todo s2 = todo s" "fin s2 = fin s" "scm s2 = scm s" "rcm s2 = rcm s" "m \<in> net s2"
  proof (cases "0 < k")
    case True
    then show ?thesis using that [of s1 k] s1 assms(2,3) by simp
  next
    case False
    let ?t = "s1\<lparr>net := insert m (net s1), cur := Some (m, Suc k)\<rparr>"
    have "link_step s1 ?t" using s1 assms(2) False by (intro transmit) (simp_all add: RETRYNUM_def)
    then have "reachable s0 ?t" by (rule reachable.step [OF s1(1)])
    then show ?thesis using that [of ?t "Suc k"] s1 by (simp add: accepted_def)
  qed
  let ?u = "s2\<lparr>acks := insert (make_ack m) (acks s2), rcm := update_rcv_seq m (rcm s2),
       held := (if expected m (rcm s2) then Some m else None)\<rparr>"
  have u: "reachable s0 ?u" by (rule reachable.step [OF s2(1) arrive [OF s2(10,2)]])
  let ?v = "?u\<lparr>cur := None, fin := fin ?u @ [(m, True)], scm := update_snd_seq m (scm ?u)\<rparr>"
  have "link_step ?u ?v"
    using s2(4,5) by (intro success [of _ _ j "make_ack m"]) (simp_all add: accept_ack_def make_ack_def)
  then have "reachable s0 ?v" by (rule reachable.step [OF u])
  then show ?thesis using that [of ?v] s2 by (simp add: accepted_def)
qed

lemma finish_current:
  assumes "reachable (link_start ms cs cr) s" "cur s = Some (m, k)" "no_give_up s"
  shows "\<exists>t. reachable (link_start ms cs cr) t \<and> cur t = None \<and> todo t = todo s \<and> no_give_up t"
proof -
  obtain t where "reachable (link_start ms cs cr) t" "cur t = None" "todo t = todo s" "fin t = fin s @ [(m, True)]"
    using acknowledge_current [OF assms(1,2)] reachable_cur [OF assms(1,2)] by blast
  then show ?thesis using assms(3) by (intro exI [of _ t]) (auto simp: no_give_up_def)
qed

text \<open>
  C27: As long as the client thread has not given up, everything can still be delivered: from every
  state that can be reached the network can let the system reach one in which no message is left
  and the receiver's input queue has had all of them, in order.
\<close>

theorem udp_can_complete:
  assumes "reachable (link_start ms cs cr) s" "link_ready p q ms cs cr" "no_give_up s"
  shows "\<exists>t. reachable (link_start ms cs cr) t \<and> todo t = [] \<and> cur t = None \<and> no_give_up t \<and>
    map unnumbered (dlv t) = map unnumbered ms"
proof -
  let ?r = "reachable (link_start ms cs cr)"
  have "\<exists>t. ?r t \<and> todo t = [] \<and> cur t = None \<and> no_give_up t"
    using assms(1,3)
  proof (induction "length (todo s)" arbitrary: s)
    case 0
    then show ?case using finish_current [OF 0(2)] by (cases "cur s") auto
  next
    case (Suc n)
    obtain u where u: "?r u" "cur u = None" "todo u = todo s" "no_give_up u"
      using finish_current [OF Suc(3)] Suc(3,4) by (cases "cur s") auto
    obtain m ks where td: "todo u = m # ks" "length ks = n" using u(3) Suc(2) by (cases "todo s") auto
    let ?v = "u\<lparr>todo := ks, cur := Some (give_seqno (scm u) m, 0)\<rparr>"
    have v: "?r ?v" by (rule reachable.step [OF u(1) link_step.take [OF u(2) td(1)]])
    have "no_give_up ?v" using u(4) by (simp add: no_give_up_def)
    with finish_current [OF v, of "give_seqno (scm u) m" 0] obtain w where
      "?r w" "todo w = ks" "no_give_up w" by auto
    then show ?case using Suc(1) [of w] td(2) by auto
  qed
  then obtain u where u: "?r u" "todo u = []" "cur u = None" "no_give_up u" by blast
  obtain t where t: "?r t" "held t = None" "todo t = []" "cur t = None" "no_give_up t"
    using settle [OF u(1)] u unfolding no_give_up_def by metis
  note inv = reachable_inv [OF t(1) assms(2)]
  obtain r where r: "sent t = accepted t @ r" using inv by (auto simp: link_inv_def)
  have "length (sent t) \<le> length (accepted t)"
    using reachable_ack [OF t(1) assms(2)] t(4,5) by (simp add: ack_inv_def length_sent)
  then have "dlv t = sent t" using r t(2) by (simp add: accepted_def)
  then have "map unnumbered (dlv t) = map unnumbered ms" using inv t(3) by (simp add: link_inv_def)
  then show ?thesis using t by blast
qed

section \<open>Giving up\<close>

lemma transmit_times:
  assumes "reachable s0 s" "cur s = Some (m, 0)" "0 < k" "k \<le> RETRYNUM"
  shows "reachable s0 (s\<lparr>net := insert m (net s), cur := Some (m, k)\<rparr>)"
  using assms(3,4)
proof (induction k)
  case (Suc k)
  show ?case
  proof (cases "k = 0")
    case True
    then show ?thesis
      using reachable.step [OF assms(1) transmit [of s m 0]] assms(2) Suc.prems by simp
  next
    case False
    let ?s = "s\<lparr>net := insert m (net s), cur := Some (m, k)\<rparr>"
    have r: "reachable s0 ?s" using Suc False by simp
    have "?s\<lparr>net := insert m (net ?s), cur := Some (m, Suc k)\<rparr> = s\<lparr>net := insert m (net s), cur := Some (m, Suc k)\<rparr>"
      by simp
    moreover have "link_step ?s (?s\<lparr>net := insert m (net ?s), cur := Some (m, Suc k)\<rparr>)"
      using Suc.prems by (intro transmit) simp_all
    ultimately show ?thesis using reachable.step [OF r] by metis
  qed
qed simp

text \<open>The receiver waits for a message the client thread is done with, and none of its datagrams is left.\<close>

definition missed :: "jia_msg \<Rightarrow> jia_msg list \<Rightarrow> link \<Rightarrow> bool" where
  "missed m xs s \<longleftrightarrow> accepted s = xs \<and> length xs < length (fin s) \<and> sent s ! length xs = m \<and> m \<notin> net s"

lemma net_step: "link_step s t \<Longrightarrow> x \<in> net t \<Longrightarrow> x \<in> net s \<or> (\<exists>k. cur s = Some (x, k))"
  by (erule link_stepE) auto

lemma missed_step:
  assumes "link_step s t" "missed m xs s" "link_inv p q b ms s" "\<forall>m\<in>set ms. frompid m = p \<and> topid m = q"
    "length ms < 2 ^ 32"
  shows "missed m xs t"
proof -
  have i: "length xs < length (sent s)" using assms(2) by (simp add: missed_def length_sent)
  have a: "accepted t = accepted s"
  proof (rule ccontr)
    assume "accepted t \<noteq> accepted s"
    then obtain x where x: "x \<in> net s" "expected x (rcm s)" using accepted_step [OF assms(1)] by blast
    then have xs: "x \<in> set (sent s)" using assms(3) by (auto simp: link_inv_def)
    have "frompid x = p" using link_inv_pids [OF assms(3,4), of x] xs by simp
    then have "seqno x = rcv_seq (rcm s) p" using x(2) by (simp add: expected_def)
    from expected_index(2) [OF assms(3-5) xs this] have "x = m" using assms(2) by (simp add: missed_def)
    then show False using x(1) assms(2) by (simp add: missed_def)
  qed
  have s: "sent t ! length xs = sent s ! length xs"
    using assms(1) i by cases (simp_all add: sent_def nth_append)
  have n: "m \<notin> net t"
  proof
    assume "m \<in> net t"
    then obtain k where k: "cur s = Some (m, k)" using net_step [OF assms(1)] assms(2) by (auto simp: missed_def)
    then have l: "length (fin s) < length (sent s)" by (simp add: length_sent)
    have "seqno m = b + word_of_nat (length (fin s))" using assms(3) l cur_is_last [OF k] unfolding link_inv_def by metis
    moreover have "seqno m = b + word_of_nat (length xs)" using assms(2,3) i unfolding link_inv_def missed_def by metis
    ultimately have "(word_of_nat (length (fin s)) :: u32) = word_of_nat (length xs)" by simp
    then have "length (fin s) = length xs"
      using of_nat_u32_inj [of "length (fin s)" "length xs"] i l link_inv_length(1) [OF assms(3)] assms(5) by simp
    then show False using assms(2) by (simp add: missed_def)
  qed
  have "length (fin s) \<le> length (fin t)" using assms(1) by cases simp_all
  then show ?thesis using a s n assms(2) by (simp add: missed_def)
qed

lemma missed_run:
  assumes "reachable s t" "missed m xs s" "link_inv p q b ms s" "\<forall>m\<in>set ms. frompid m = p \<and> topid m = q"
    "length ms < 2 ^ 32"
  shows "missed m xs t \<and> link_inv p q b ms t"
  using assms(1)
proof induction
  case start
  then show ?case using assms(2,3) by simp
next
  case (step u v)
  then show ?case using missed_step [OF step(2) _ _ assms(4,5)] link_step_inv [OF step(2) _ assms(4,5)] by blast
qed

text \<open>Each further message can be sent and acknowledged.\<close>

lemma acknowledge_all:
  assumes "reachable s0 s" "cur s = None"
  shows "\<exists>t xs. reachable s0 t \<and> cur t = None \<and> todo t = [] \<and> fin t = fin s @ map (\<lambda>x. (x, True)) xs \<and>
    map unnumbered xs = map unnumbered (todo s)"
  using assms
proof (induction "todo s" arbitrary: s)
  case Nil
  then show ?case by (intro exI [of _ s] exI [of _ "[]"]) simp
next
  case (Cons m ks)
  let ?m = "give_seqno (scm s) m"
  let ?t = "s\<lparr>todo := ks, cur := Some (?m, 0)\<rparr>"
  have "reachable s0 ?t" by (rule reachable.step [OF Cons.prems(1) link_step.take [OF Cons.prems(2) Cons.hyps(2) [symmetric]]])
  from acknowledge_current [OF this, of ?m 0] obtain u where u: "reachable s0 u" "cur u = None" "todo u = ks"
    "fin u = fin s @ [(?m, True)]" by auto
  from Cons.hyps(1) [OF u(3) [symmetric] u(1,2)] obtain t xs where "reachable s0 t" "cur t = None" "todo t = []"
    "fin t = fin u @ map (\<lambda>x. (x, True)) xs" "map unnumbered xs = map unnumbered ks" unfolding u(3) by blast
  then show ?case using u(4) Cons.hyps(2) [symmetric] by (intro exI [of _ t] exI [of _ "?m # xs"]) simp
qed

text \<open>
  C29: Giving up on a message can lose all the following ones, although they are reported as sent.
  The number of the destination goes up all the same. Let the client thread have given up on a
  message that has not arrived, so that the receiver waits for just its number, and let its
  datagrams be lost. Then, up to the \<open>2 ^ 32\<close> messages after which the numbers repeat, nothing more
  is accepted whatever happens, and there is a run in which each of the messages that are left is
  acknowledged, so that the client thread reports it as sent, and dropped. (Where the message had
  arrived and only its acknowledgements were lost, the following ones are delivered.)
\<close>

theorem udp_give_up_loses:
  assumes "reachable (link_start ms cs cr) s" "link_ready p q ms cs cr" "cur s = None"
    "(m, False) \<in> set (fin s)" "seqno m = rcv_seq (rcm s) p"
  shows "(\<forall>t. reachable (s\<lparr>net := net s - {m}\<rparr>) t \<longrightarrow> accepted t = accepted s) \<and>
    (\<exists>t xs. reachable (s\<lparr>net := net s - {m}\<rparr>) t \<and> todo t = [] \<and> cur t = None \<and>
      fin t = fin s @ map (\<lambda>x. (x, True)) xs \<and> map unnumbered xs = map unnumbered (todo s))"
proof
  let ?s = "s\<lparr>net := net s - {m}\<rparr>"
  note inv = reachable_inv [OF assms(1,2)]
  have r: "\<forall>m\<in>set ms. frompid m = p \<and> topid m = q" "length ms < 2 ^ 32" using assms(2) by (simp_all add: link_ready_def)
  have same: "sent ?s = sent s" "accepted ?s = accepted s" by (simp_all add: sent_def accepted_def)
  have m: "m \<in> set (sent s)" using assms(4) by (force simp: sent_def)
  note x = expected_index [OF inv r m assms(5)]
  have "length (accepted s) < length (fin s)" using x(1) assms(3) by (simp add: length_sent)
  then have "missed m (accepted s) ?s" using x(2) same by (simp add: missed_def)
  moreover have "link_inv p q (snd_seq cs q) ms ?s" using inv by (auto simp: link_inv_def same)
  ultimately show "\<forall>t. reachable ?s t \<longrightarrow> accepted t = accepted s" using missed_run [OF _ _ _ r] by (auto simp: missed_def)
  show "\<exists>t xs. reachable ?s t \<and> todo t = [] \<and> cur t = None \<and>
      fin t = fin s @ map (\<lambda>x. (x, True)) xs \<and> map unnumbered xs = map unnumbered (todo s)"
    using acknowledge_all [of ?s ?s] reachable.start [of ?s] assms(3) by auto
qed

section \<open>The client thread refines the link\<close>

lemma retries_sends:
  assumes "retries n m t = Inr (ok, t')" "topid m \<noteq> frompid m"
  shows "\<exists>j\<le>n. datagrams t' = datagrams t @ replicate j m \<and> inq t' = inq t \<and> (if ok then 0 < j else j = n)"
  using assms(1)
proof (induction n arbitrary: t)
  case 0
  then show ?case by simp
next
  case (Suc n)
  obtain ok1 t1 where o: "outsend m t = Inr (ok1, t1)" "if ok1 then ok \<and> t' = t1 else retries n m t1 = Inr (ok, t')"
    using Suc.prems by (auto split: if_splits)
  have t1: "datagrams t1 = datagrams t @ [m]" "inq t1 = inq t"
    using o(1) assms(2) by (auto simp: outsend_def split: prod.splits)
  show ?case
  proof (cases ok1)
    case True
    then show ?thesis using o(2) t1 by (intro exI [of _ 1]) simp
  next
    case False
    then obtain j where "j \<le> n" "datagrams t' = datagrams t1 @ replicate j m" "inq t' = inq t1"
      "if ok then 0 < j else j = n" using o(2) Suc.IH [of t1] by auto
    then show ?thesis using t1 by (intro exI [of _ "Suc j"]) auto
  qed
qed

lemma wait_ack_reports:
  "wait_ack m es = (ok, es') \<Longrightarrow> \<exists>us. es = us @ es' \<and> (ok \<longrightarrow> (\<exists>a. AckIn a \<in> set us \<and> accept_ack m a))"
proof (induction m es rule: wait_ack.induct)
  case (4 m a es)
  show ?case
  proof (cases "accept_ack m a")
    case True
    then show ?thesis using 4(2) by (intro exI [of _ "[AckIn a]"]) auto
  next
    case False
    then obtain us where "es = us @ es'" "ok \<longrightarrow> (\<exists>a. AckIn a \<in> set us \<and> accept_ack m a)" using 4 by auto
    then show ?thesis by (intro exI [of _ "AckIn a # us"]) auto
  qed
qed auto

lemma retries_reports:
  assumes "retries n m t = Inr (ok, t')" "topid m \<noteq> frompid m"
  shows "\<exists>us. reports t = us @ reports t' \<and> (ok \<longrightarrow> (\<exists>a. AckIn a \<in> set us \<and> accept_ack m a))"
  using assms(1)
proof (induction n arbitrary: t)
  case 0
  then show ?case by simp
next
  case (Suc n)
  obtain ok1 es where w: "wait_ack m (reports t) = (ok1, es)" by fastforce
  let ?t = "t\<lparr>reports := es, datagrams := datagrams t @ [m]\<rparr>"
  have o: "outsend m t = Inr (ok1, ?t)" using assms(2) w by (simp add: outsend_def)
  obtain us where us: "reports t = us @ es" "ok1 \<longrightarrow> (\<exists>a. AckIn a \<in> set us \<and> accept_ack m a)"
    using wait_ack_reports [OF w] by blast
  show ?case
  proof (cases ok1)
    case True
    then show ?thesis using Suc.prems o us by (intro exI [of _ us]) auto
  next
    case False
    then have "retries n m ?t = Inr (ok, t')" using Suc.prems o by simp
    from Suc.IH [OF this] obtain vs where "es = vs @ reports t'" "ok \<longrightarrow> (\<exists>a. AckIn a \<in> set vs \<and> accept_ack m a)" by auto
    then show ?thesis using us(1) by (intro exI [of _ "us @ vs"]) auto
  qed
qed

text \<open>
  C28: A turn of the client thread is what the link says. Let the thread have taken a message, let the
  link be in any state it can reach while the thread is at it, whatever the receiver and the network
  do meanwhile, and let each acknowledgement that \<open>recvfrom\<close> reported in the turn be one of the link's
  or one from another host. If the code's turn sends \<open>j\<close> datagrams and ends with \<open>ok\<close>, then it has
  sent the numbered message between one and \<open>RETRYNUM\<close> times, and when the link has too, its next
  step is the same outcome with the same new numbers: success, by an acknowledgement of the
  receiver's for just this message, or giving up, after \<open>RETRYNUM\<close> times.
\<close>

theorem client_thread_refines:
  assumes "client_thread m (scm s) t = Inr (ok, cm, t')" "topid m \<noteq> frompid m"
    "reports t = es @ reports t'" "\<forall>a. AckIn a \<in> set es \<longrightarrow> a \<in> acks s \<or> ack_sid a \<noteq> word_of_nat (topid m)"
    "datagrams t' = datagrams t @ xs" "cur s = Some (give_seqno (scm s) m, length xs)"
  shows "xs = replicate (length xs) (give_seqno (scm s) m) \<and> 0 < length xs \<and> length xs \<le> RETRYNUM \<and>
    link_step s (s\<lparr>cur := None, fin := fin s @ [(give_seqno (scm s) m, ok)], scm := cm\<rparr>)"
proof -
  let ?m = "give_seqno (scm s) m"
  have rt: "retries RETRYNUM ?m t = Inr (ok, t')" and cm: "cm = update_snd_seq ?m (scm s)"
    using assms(1) by (auto simp: client_thread_def update_snd_seq_def give_seqno_def)
  have d: "topid ?m \<noteq> frompid ?m" "topid ?m = topid m" using assms(2) by (simp_all add: give_seqno_def)
  from retries_sends [OF rt d(1)] obtain j where "j \<le> RETRYNUM" "datagrams t' = datagrams t @ replicate j ?m"
    "if ok then 0 < j else j = RETRYNUM" by blast
  then have j: "xs = replicate (length xs) ?m" "length xs \<le> RETRYNUM" "0 < length xs" "\<not> ok \<longrightarrow> length xs = RETRYNUM"
    using assms(5) by (auto simp: RETRYNUM_def split: if_splits)
  have "link_step s (s\<lparr>cur := None, fin := fin s @ [(?m, ok)], scm := cm\<rparr>)"
  proof (cases ok)
    case True
    obtain us where "reports t = us @ reports t'" "\<exists>a. AckIn a \<in> set us \<and> accept_ack ?m a"
      using retries_reports [OF rt d(1)] True by blast
    then obtain a where a: "AckIn a \<in> set es" "accept_ack ?m a" using assms(3) by auto
    then have "a \<in> acks s" using assms(4) d(2) by (auto simp: accept_ack_def)
    from link_step.success [OF assms(6) j(3) this a(2)] show ?thesis using True cm by simp
  next
    case False
    then have "cur s = Some (?m, RETRYNUM)" using assms(6) j(4) by simp
    from link_step.give_up [OF this] show ?thesis using False cm by simp
  qed
  then show ?thesis using j by blast
qed

section \<open>The listen thread refines the link\<close>

text \<open>
  C30: A turn of the listen thread is a run of the link. The acknowledgement goes out whatever
  happens next. If the datagram is the expected one and the input queue has room, it is then the
  last message of the queue; if the queue is full, the thread waits with the message in its hands,
  acknowledged and counted but not on the queue. Any other datagram is dropped.
\<close>

theorem listen_thread_refines:
  assumes "reachable s0 s" "m \<in> net s" "held s = None" "queue_inv q" "listen_thread m (rcm s) q = Inr (a, cm, r)"
  shows "\<exists>u. reachable s0 u \<and> acks u = insert a (acks s) \<and> rcm u = cm \<and> cur u = cur s \<and> fin u = fin s \<and>
    (if \<not> expected m (rcm s) then r = Inr q \<and> held u = None \<and> dlv u = dlv s
     else if length (contents q) < qsize q
     then held u = None \<and> dlv u = dlv s @ [m] \<and> (\<exists>q'. r = Inr q' \<and> contents q' = contents q @ [m])
     else held u = Some m \<and> dlv u = dlv s \<and> (\<exists>e. r = Inl (WouldBlock e)))"
proof -
  let ?u = "s\<lparr>acks := insert (make_ack m) (acks s), rcm := update_rcv_seq m (rcm s),
       held := (if expected m (rcm s) then Some m else None)\<rparr>"
  have u: "reachable s0 ?u" by (rule reachable.step [OF assms(1) arrive [OF assms(2,3)]])
  have o: "a = make_ack m" "cm = update_rcv_seq m (rcm s)" "r = (if expected m (rcm s) then enqueue m q else Inr q)"
    using assms(5) by (auto simp: listen_thread_def)
  show ?thesis
  proof (cases "expected m (rcm s)")
    case False
    then show ?thesis using u o by (intro exI [of _ ?u]) simp
  next
    case e: True
    show ?thesis
    proof (cases "length (contents q) < qsize q")
      case True
      let ?v = "?u\<lparr>held := None, dlv := dlv ?u @ [m]\<rparr>"
      have "reachable s0 ?v" by (rule reachable.step [OF u enter]) (simp add: e)
      then show ?thesis using enqueue_contents [OF assms(4) True, of m] e True o by (intro exI [of _ ?v]) auto
    next
      case False
      then have "length (contents q) = qsize q" using mq.length_cap [OF assms(4)] by simp
      from enqueue_full [OF assms(4) this, of m] show ?thesis using u e False o by (intro exI [of _ ?u]) auto
    qed
  qed
qed

section \<open>A link in use\<close>

definition demo_cm :: "nat \<Rightarrow> comm_manager" where
  "demo_cm pid = init_comm_manager 2000 pid \<lparr>snd_seq = (\<lambda>_. 9), rcv_seq = (\<lambda>_. 9), last_ack_seq = (\<lambda>_. 9),
     snd_server_port = 0, ack_port = 0, rcv_ports = (\<lambda>_. 0)\<rparr>"

definition demo_msgs :: "jia_msg list" where
  "demo_msgs = [clear_msg\<lparr>op := op_num WAIT, topid := 1\<rparr>, clear_msg\<lparr>op := op_num ACQ, topid := 1\<rparr>]"

lemma demo_link: "link_ready 0 1 demo_msgs (demo_cm 0) (demo_cm 1)"
  by (simp add: link_ready_def demo_msgs_def demo_cm_def init_comm_manager_def clear_msg_def Maxhosts_def)

lemma udp_can_complete_witness:
  "\<exists>t. reachable (link_start demo_msgs (demo_cm 0) (demo_cm 1)) t \<and>
     map unnumbered (dlv t) = map unnumbered demo_msgs"
  using udp_can_complete [OF reachable.start demo_link] by (auto simp: no_give_up_def link_start_def)

lemma udp_in_order_witness:
  "\<exists>n. map unnumbered (dlv (link_start demo_msgs (demo_cm 0) (demo_cm 1))) = take n (map unnumbered demo_msgs)"
  by (rule udp_in_order [OF reachable.start demo_link])

text \<open>The first message is taken and sent \<open>k\<close> times.\<close>

definition demo_first :: jia_msg where
  "demo_first = give_seqno (demo_cm 0) (hd demo_msgs)"

definition demo_sent :: "nat \<Rightarrow> link" where
  "demo_sent k = (link_start (tl demo_msgs) (demo_cm 0) (demo_cm 1))\<lparr>cur := Some (demo_first, k), net := {demo_first}\<rparr>"

lemma demo_sent_reachable:
  assumes "0 < k" "k \<le> RETRYNUM"
  shows "reachable (link_start demo_msgs (demo_cm 0) (demo_cm 1)) (demo_sent k)"
proof -
  let ?s0 = "link_start demo_msgs (demo_cm 0) (demo_cm 1)"
  let ?s1 = "?s0\<lparr>todo := tl demo_msgs, cur := Some (give_seqno (scm ?s0) (hd demo_msgs), 0)\<rparr>"
  have "link_step ?s0 ?s1" by (rule link_step.take) (simp_all add: link_start_def demo_msgs_def)
  then have "reachable ?s0 ?s1" by (rule reachable.step [OF reachable.start])
  from transmit_times [OF this _ assms, of "give_seqno (scm ?s0) (hd demo_msgs)"] show ?thesis
    by (simp add: demo_sent_def demo_first_def link_start_def)
qed

lemma udp_give_up_loses_witness:
  "\<exists>s t x. reachable (link_start demo_msgs (demo_cm 0) (demo_cm 1)) s \<and> fin s = [(demo_first, False)] \<and>
     reachable (s\<lparr>net := net s - {demo_first}\<rparr>) t \<and> fin t = [(demo_first, False), (x, True)] \<and> accepted t = []"
proof -
  let ?s = "(demo_sent RETRYNUM)\<lparr>cur := None, fin := [(demo_first, False)], scm := update_snd_seq demo_first (demo_cm 0)\<rparr>"
  have "link_step (demo_sent RETRYNUM) ?s"
    using link_step.give_up [of "demo_sent RETRYNUM" demo_first] by (simp add: demo_sent_def link_start_def)
  note give = this
  have "reachable (link_start demo_msgs (demo_cm 0) (demo_cm 1)) (demo_sent RETRYNUM)"
    by (rule demo_sent_reachable) (simp_all add: RETRYNUM_def)
  then have r: "reachable (link_start demo_msgs (demo_cm 0) (demo_cm 1)) ?s" by (rule reachable.step [OF _ give])
  have sq: "seqno demo_first = rcv_seq (rcm ?s) 0"
    by (simp add: demo_first_def demo_sent_def give_seqno_def demo_cm_def demo_msgs_def init_comm_manager_def link_start_def
        clear_msg_def Maxhosts_def)
  have s: "todo ?s = tl demo_msgs" "length (tl demo_msgs) = 1" "accepted ?s = []"
    by (simp_all add: demo_sent_def link_start_def demo_msgs_def accepted_def)
  obtain t xs where t: "reachable (?s\<lparr>net := net ?s - {demo_first}\<rparr>) t" "fin t = fin ?s @ map (\<lambda>x. (x, True)) xs"
    "map unnumbered xs = map unnumbered (todo ?s)" "accepted t = accepted ?s"
    using udp_give_up_loses [OF r demo_link, of demo_first] sq by auto
  have "length xs = 1" using arg_cong [OF t(3), of length] s by simp
  then obtain x where "xs = [x]" by (cases xs) auto
  then show ?thesis using r t(1,2,4) s(3) by (intro exI [of _ ?s] exI [of _ t] exI [of _ x]) simp
qed

text \<open>A turn that times out once and then gets its acknowledgement.\<close>

definition demo_turn :: turn where
  "demo_turn = \<lparr>reports = [Timeout, AckIn \<lparr>ack_seqno = 7, ack_sid = 3\<rparr>, AckIn \<lparr>ack_seqno = 1, ack_sid = 1\<rparr>],
     datagrams = [], inq = init_msg_queue 8 8 (\<lambda>_. clear_msg)\<rparr>"

lemma demo_turn_run:
  "\<exists>cm t'. client_thread (hd demo_msgs) (demo_cm 0) demo_turn = Inr (True, cm, t') \<and> reports t' = [] \<and>
     datagrams t' = [demo_first, demo_first]"
  by (simp add: client_thread_def demo_turn_def demo_msgs_def demo_cm_def init_comm_manager_def clear_msg_def
      Maxhosts_def RETRYNUM_def outsend_def give_seqno_def accept_ack_def demo_first_def numeral_eq_Suc)

text \<open>The message has been sent twice and has arrived.\<close>

definition demo_arrived :: link where
  "demo_arrived = (demo_sent 2)\<lparr>acks := {make_ack demo_first}, rcm := update_rcv_seq demo_first (demo_cm 1), held := Some demo_first\<rparr>"

lemma demo_arrived_reachable: "reachable (link_start demo_msgs (demo_cm 0) (demo_cm 1)) demo_arrived"
proof -
  have e: "expected demo_first (demo_cm 1)"
    by (simp add: expected_def demo_first_def give_seqno_def demo_cm_def demo_msgs_def init_comm_manager_def clear_msg_def Maxhosts_def)
  have come: "link_step (demo_sent 2) demo_arrived"
    using link_step.arrive [of demo_first "demo_sent 2"] e by (simp add: demo_sent_def demo_arrived_def link_start_def)
  have "reachable (link_start demo_msgs (demo_cm 0) (demo_cm 1)) (demo_sent 2)"
    by (rule demo_sent_reachable) (simp_all add: RETRYNUM_def)
  then show ?thesis by (rule reachable.step [OF _ come])
qed

lemma client_thread_refines_witness:
  "\<exists>cm t'. client_thread (hd demo_msgs) (demo_cm 0) demo_turn = Inr (True, cm, t') \<and>
     reachable (link_start demo_msgs (demo_cm 0) (demo_cm 1)) demo_arrived \<and>
     link_step demo_arrived (demo_arrived\<lparr>cur := None, fin := [(demo_first, True)], scm := cm\<rparr>)"
proof -
  obtain cm t' where c: "client_thread (hd demo_msgs) (demo_cm 0) demo_turn = Inr (True, cm, t')" "reports t' = []"
    "datagrams t' = [demo_first, demo_first]" using demo_turn_run by blast
  have d: "scm demo_arrived = demo_cm 0" "fin demo_arrived = []" "cur demo_arrived = Some (demo_first, 2)"
    "acks demo_arrived = {make_ack demo_first}"
    by (simp_all add: demo_arrived_def demo_sent_def link_start_def)
  have a: "make_ack demo_first = \<lparr>ack_seqno = 1, ack_sid = 1\<rparr>" "topid (hd demo_msgs) = 1" "frompid (hd demo_msgs) = 0"
    by (simp_all add: make_ack_def demo_first_def give_seqno_def demo_cm_def demo_msgs_def init_comm_manager_def clear_msg_def Maxhosts_def)
  let ?m = "hd demo_msgs" and ?s = demo_arrived
  have h: "client_thread ?m (scm ?s) demo_turn = Inr (True, cm, t')" "topid ?m \<noteq> frompid ?m"
    "reports demo_turn = reports demo_turn @ reports t'" "datagrams t' = datagrams demo_turn @ [demo_first, demo_first]"
    "cur ?s = Some (give_seqno (scm ?s) ?m, length [demo_first, demo_first])"
    using c d a by (simp_all add: demo_turn_def demo_first_def)
  have "\<forall>x. AckIn x \<in> set (reports demo_turn) \<longrightarrow> x \<in> acks ?s \<or> ack_sid x \<noteq> word_of_nat (topid ?m)"
    using d(4) a(1,2) by (simp add: demo_turn_def)
  from client_thread_refines [OF h(1-3) this h(4,5)] show ?thesis
    using c(1) d(1,2) demo_arrived_reachable by (simp add: demo_first_def)
qed

lemma listen_thread_refines_witness:
  "\<exists>u r. reachable (link_start demo_msgs (demo_cm 0) (demo_cm 1)) u \<and> acks u = {make_ack demo_first} \<and> held u = None \<and>
     dlv u = [demo_first] \<and> listen_thread demo_first (demo_cm 1) (init_msg_queue 8 8 (\<lambda>_. clear_msg)) =
       Inr (make_ack demo_first, rcm u, Inr r)"
proof -
  let ?q = "init_msg_queue 8 8 (\<lambda>_. clear_msg)"
  have q: "queue_inv ?q" "contents ?q = []" "qsize ?q = 8"
    using init_msg_queue_inv [of 8 8] ring_size_8 by (simp_all add: init_msg_queue_def)
  have d: "demo_first \<in> net (demo_sent 1)" "held (demo_sent 1) = None" "acks (demo_sent 1) = {}" "dlv (demo_sent 1) = []"
    "rcm (demo_sent 1) = demo_cm 1" by (simp_all add: demo_sent_def link_start_def)
  have e: "expected demo_first (demo_cm 1)" "frompid demo_first < Maxhosts"
    by (simp_all add: expected_def demo_first_def give_seqno_def demo_cm_def demo_msgs_def init_comm_manager_def clear_msg_def Maxhosts_def)
  have "reachable (link_start demo_msgs (demo_cm 0) (demo_cm 1)) (demo_sent 1)"
    by (rule demo_sent_reachable) (simp_all add: RETRYNUM_def)
  moreover have "listen_thread demo_first (rcm (demo_sent 1)) ?q =
      Inr (make_ack demo_first, update_rcv_seq demo_first (demo_cm 1), enqueue demo_first ?q)"
    using e d(5) by (simp add: listen_thread_def)
  ultimately show ?thesis
    using listen_thread_refines [OF _ d(1,2) q(1)] e d q(2,3) by (fastforce simp: listen_thread_def)
qed

text \<open>A state in which the first message is reported as sent.\<close>

lemma demo_finished:
  "\<exists>s. reachable (link_start demo_msgs (demo_cm 0) (demo_cm 1)) s \<and> no_give_up s \<and> length (fin s) = 1"
proof -
  obtain t where "reachable (link_start demo_msgs (demo_cm 0) (demo_cm 1)) t" "fin t = fin demo_arrived @ [(demo_first, True)]"
    using acknowledge_current [OF demo_arrived_reachable, of demo_first 2] by (auto simp: demo_arrived_def demo_sent_def)
  then show ?thesis by (intro exI [of _ t]) (simp add: no_give_up_def demo_arrived_def demo_sent_def link_start_def)
qed

lemma udp_acked_delivered_witness:
  "\<exists>s r. reachable (link_start demo_msgs (demo_cm 0) (demo_cm 1)) s \<and> length (fin s) = 1 \<and>
     dlv s @ (case held s of None \<Rightarrow> [] | Some m \<Rightarrow> [m]) = map fst (fin s) @ r"
  using demo_finished udp_acked_delivered [OF _ demo_link] by blast

end
