(* ===== verification/Barrier.thy ===== *)
theory Barrier
  imports Lockq Coherence
begin

text \<open>
  Rendezvous: \<open>barrserver\<close> and \<open>waitserver\<close> let the hosts go on only when all have arrived, and then
  start over. The interface \<open>rendezvous\<close> states what one arrival does; what any number of arrivals
  does is proved on it once. The second part follows the write notices of a barrier to the hosts.
\<close>

section \<open>The interface of a rendezvous\<close>

locale rendezvous =
  fixes n :: nat
    and hosts :: "nat list"
    and count :: "'s \<Rightarrow> nat"
    and granted :: "'s \<Rightarrow> nat list"
    and inv :: "'s \<Rightarrow> bool"
    and arrive :: "'m \<Rightarrow> 's \<Rightarrow> 's res"
    and arrival :: "'m \<Rightarrow> bool"
  assumes count_less: "inv s \<Longrightarrow> count s < n"
    and arrive_ok: "inv s \<Longrightarrow> arrival m \<Longrightarrow> \<exists>s'. arrive m s = Inr s' \<and> inv s' \<and>
      count s' = (if count s + 1 = n then 0 else count s + 1) \<and>
      granted s' = granted s @ (if count s + 1 = n then hosts else [])"
begin

lemma arrivals:
  assumes "inv s" "\<forall>m\<in>set ms. arrival m"
  shows "\<exists>s'. foldE arrive ms s = Inr s' \<and> inv s' \<and> count s' = (count s + length ms) mod n \<and>
    granted s' = granted s @ concat (replicate ((count s + length ms) div n) hosts)"
  using assms
proof (induction ms arbitrary: s)
  case Nil
  then show ?case using count_less [of s] by simp
next
  case (Cons m ms)
  obtain s1 where s1: "arrive m s = Inr s1" "inv s1" "count s1 = (if count s + 1 = n then 0 else count s + 1)"
    "granted s1 = granted s @ (if count s + 1 = n then hosts else [])"
    using arrive_ok [of s m] Cons.prems by auto
  obtain s' where s': "foldE arrive ms s1 = Inr s'" "inv s'" "count s' = (count s1 + length ms) mod n"
    "granted s' = granted s1 @ concat (replicate ((count s1 + length ms) div n) hosts)"
    using Cons.IH [OF s1(2)] Cons.prems(2) by auto
  show ?case
  proof (cases "count s + 1 = n")
    case True
    then have e: "count s + length (m # ms) = n + length ms" and n: "0 < n" by simp_all
    then have "(count s + length (m # ms)) div n = Suc (length ms div n)"
      "(count s + length (m # ms)) mod n = length ms mod n"
      unfolding e by (simp_all add: div_add_self1)
    then show ?thesis using s1 s' True by simp
  next
    case False
    then show ?thesis using s1 s' by simp
  qed
qed

end

section \<open>One message per host\<close>

text \<open>The loop that sends the message of slot \<open>k\<close> to one host after the other.\<close>

definition send_to :: "nat \<Rightarrow> nat list \<Rightarrow> host \<Rightarrow> host" where
  "send_to k = fold (\<lambda>i s. move_msg_to_outqueue k (set_slot k ((slot_msg (mbuf s ! k))\<lparr>topid := i\<rparr>) s))"

lemma broadcast_send_to: "B_CAST s = OFF \<Longrightarrow> broadcast k s = Inr (send_to k [0..<hostc s] s)"
  by (simp add: broadcast_def send_to_def Let_def)

lemma send_to_each:
  assumes "k < length (mbuf s)"
  shows "\<exists>b. send_to k hs s = s\<lparr>mbuf := b,
      outq := outq s @ map (\<lambda>h. (slot_msg (mbuf s ! k))\<lparr>topid := h\<rparr>) hs\<rparr> \<and>
    length b = length (mbuf s) \<and> map slot_st b = map slot_st (mbuf s)"
  using assms
proof (induction hs arbitrary: s)
  case Nil
  show ?case by (intro exI [of _ "mbuf s"]) (simp add: send_to_def)
next
  case (Cons h hs)
  let ?b = "(mbuf s)[k := (mbuf s ! k)\<lparr>slot_msg := (slot_msg (mbuf s ! k))\<lparr>topid := h\<rparr>\<rparr>]"
  let ?s = "s\<lparr>mbuf := ?b, outq := outq s @ [(slot_msg (mbuf s ! k))\<lparr>topid := h\<rparr>]\<rparr>"
  have e: "send_to k (h # hs) s = send_to k hs ?s"
    using Cons.prems by (simp add: send_to_def set_slot_def move_msg_to_outqueue_def)
  have st: "map slot_st ?b = map slot_st (mbuf s)"
    using Cons.prems by (intro nth_equalityI) (auto simp: nth_list_update)
  have m: "slot_msg (mbuf ?s ! k)\<lparr>topid := i\<rparr> = (slot_msg (mbuf s ! k))\<lparr>topid := i\<rparr>" for i
    using Cons.prems by simp
  obtain b where b: "send_to k hs ?s = ?s\<lparr>mbuf := b,
      outq := outq ?s @ map (\<lambda>h. (slot_msg (mbuf s ! k))\<lparr>topid := h\<rparr>) hs\<rparr>"
    "length b = length (mbuf ?s)" "map slot_st b = map slot_st (mbuf ?s)"
    using Cons.IH [of ?s] Cons.prems unfolding m by auto
  then show ?case unfolding e using st by (intro exI [of _ b]) simp
qed

lemma one_each: "filter (\<lambda>m. topid m = j) (map (\<lambda>h. x\<lparr>topid := h\<rparr>) [0..<n]) =
    (if j < n then [x\<lparr>topid := j\<rparr>] else [])"
  by (induction n) auto

lemma free_slots_st: "free_slots b = length (filter (\<lambda>x. x = SLOT_FREE) (map slot_st b))"
  by (induction b) (simp_all add: free_slots_def)

lemma send_to_all:
  assumes "freemsg_lock s = Inr (k, s1)" "mbuf_inv s"
  shows "\<exists>b. mbuf_inv (freemsg_unlock k (send_to k hs (set_slot k m s1))) \<and>
    freemsg_unlock k (send_to k hs (set_slot k m s1)) =
      s\<lparr>mbuf := b, outq := outq s @ map (\<lambda>h. m\<lparr>topid := h\<rparr>) hs\<rparr>"
proof -
  note u = freemsg_lock_inv [OF assms]
  obtain c b where s1: "s1 = s\<lparr>mcount := c, mbuf := b\<rparr>"
    using assms(1) by (auto simp: freemsg_lock_def split: if_splits option.splits)
  let ?s2 = "set_slot k m s1"
  have f: "outq ?s2 = outq s" "length (mbuf ?s2) = length (mbuf s1)" by (simp_all add: set_slot_def s1)
  have sm: "slot_msg (mbuf ?s2 ! k) = m" "slot_st (mbuf ?s2 ! k) = SLOT_BUSY" using u(2,3) by simp_all
  obtain b2 where b2: "send_to k hs ?s2 = ?s2\<lparr>mbuf := b2, outq := outq s @ map (\<lambda>h. m\<lparr>topid := h\<rparr>) hs\<rparr>"
    "length b2 = length (mbuf ?s2)" "map slot_st b2 = map slot_st (mbuf ?s2)"
    using send_to_each [of k ?s2 hs] u(2) unfolding sm f(1,2) by blast
  let ?u = "?s2\<lparr>mbuf := b2, outq := outq s @ map (\<lambda>h. m\<lparr>topid := h\<rparr>) hs\<rparr>"
  have "mbuf_inv ?s2" using set_slot_inv [OF u(1,2)] .
  then have i: "mbuf_inv ?u" using b2(3) by (simp add: mbuf_inv_def free_slots_st)
  have "slot_st (b2 ! k) = SLOT_BUSY"
  proof -
    have "map slot_st b2 ! k = map slot_st (mbuf ?s2) ! k" by (simp only: b2(3))
    then show ?thesis using u(2) b2(2) f(2) sm(2) by simp
  qed
  then have "mbuf_inv (freemsg_unlock k ?u)"
    using u(2) b2(2) f(2) by (intro freemsg_unlock_inv [OF i]) simp_all
  moreover have "freemsg_unlock k ?u = s\<lparr>mbuf := b2[k := (b2 ! k)\<lparr>slot_st := SLOT_FREE\<rparr>],
      outq := outq s @ map (\<lambda>h. m\<lparr>topid := h\<rparr>) hs\<rparr>"
    using u(4) by (simp add: freemsg_unlock_def set_slot_def s1)
  ultimately show ?thesis unfolding b2(1) by blast
qed

lemma send_each:
  assumes "freemsg_lock s = Inr (k, s1)" "mbuf_inv s" "B_CAST s = OFF"
  shows "\<exists>u b. broadcast k (set_slot k m s1) = Inr u \<and> mbuf_inv (freemsg_unlock k u) \<and>
    freemsg_unlock k u = s\<lparr>mbuf := b, outq := outq s @ map (\<lambda>h. m\<lparr>topid := h\<rparr>) [0..<hostc s]\<rparr>"
proof -
  have "B_CAST (set_slot k m s1) = OFF" "hostc (set_slot k m s1) = hostc s"
    using assms(1,3) by (auto simp: freemsg_lock_def set_slot_def split: if_splits option.splits)
  then show ?thesis
    using broadcast_send_to [of "set_slot k m s1" k] send_to_all [OF assms(1,2), of "[0..<hostc s]" m] by auto
qed

section \<open>Waiting for all\<close>

definition wait_inv :: "host \<Rightarrow> bool" where
  "wait_inv s \<longleftrightarrow> 0 \<le> waitcounter s \<and> waitcounter s < int (hostc s) \<and> B_CAST s = OFF \<and> mbuf_inv s \<and> 0 < mcount s"

text \<open>The hosts that were sent grants of an operation, in order.\<close>

definition grants_of :: "msg_op \<Rightarrow> host \<Rightarrow> nat list" where
  "grants_of x s = map topid (filter (\<lambda>m. is_op m x) (outq s))"

lemma grants_of_each:
  "is_op m x \<Longrightarrow> map topid (filter (\<lambda>m. is_op m x) (map (\<lambda>h. m\<lparr>topid := h\<rparr>) hs)) = hs"
  by (induction hs) (simp_all add: is_op_def)

lemma waitserver_run:
  assumes "wait_inv s" "is_op m WAIT" "topid m = jia_pid s"
  shows "\<exists>s'. waitserver m s = Inr s' \<and> wait_inv s' \<and> hostc s' = hostc s \<and> jia_pid s' = jia_pid s \<and>
    nat (waitcounter s') = (if nat (waitcounter s) + 1 = hostc s then 0 else nat (waitcounter s) + 1) \<and>
    grants_of WAITGRANT s' = grants_of WAITGRANT s @ (if nat (waitcounter s) + 1 = hostc s then [0..<hostc s] else [])"
proof -
  have c: "waitcounter s + 1 = int (hostc s) \<longleftrightarrow> nat (waitcounter s) + 1 = hostc s"
    using assms(1) by (auto simp: wait_inv_def)
  show ?thesis
  proof (cases "nat (waitcounter s) + 1 = hostc s")
    case False
    then have "waitserver m s = Inr (s\<lparr>waitcounter := waitcounter s + 1\<rparr>)"
      using assms(2,3) c by (simp add: waitserver_def Let_def)
    then show ?thesis using assms(1) False
      by (auto simp: wait_inv_def mbuf_inv_def grants_of_def nat_add_distrib)
  next
    case True
    let ?s0 = "s\<lparr>waitcounter := waitcounter s + 1\<rparr>" and ?z = "s\<lparr>waitcounter := 0\<rparr>"
    have inv: "mbuf_inv ?s0" "mbuf_inv ?z" "0 < mcount ?s0" "B_CAST ?z = OFF"
      using assms(1) by (simp_all add: wait_inv_def mbuf_inv_def)
    then obtain k s1 where lk: "freemsg_lock ?s0 = Inr (k, s1)" using freemsg_lock_total by blast
    then have lz: "freemsg_lock ?z = Inr (k, s1\<lparr>waitcounter := 0\<rparr>)"
      by (auto simp: freemsg_lock_def split: if_splits option.splits)
    have pid: "jia_pid s1 = jia_pid s" using lk by (auto simp: freemsg_lock_def split: if_splits option.splits)
    let ?m = "(slot_msg (mbuf s1 ! k))\<lparr>frompid := jia_pid s, size := 0, op := op_num WAITGRANT\<rparr>"
    obtain u b where u: "broadcast k (set_slot k ?m (s1\<lparr>waitcounter := 0\<rparr>)) = Inr u"
      "mbuf_inv (freemsg_unlock k u)"
      "freemsg_unlock k u = ?z\<lparr>mbuf := b, outq := outq s @ map (\<lambda>h. ?m\<lparr>topid := h\<rparr>) [0..<hostc s]\<rparr>"
      using send_each [OF lz inv(2,4), of ?m] by auto
    have run: "waitserver m s = Inr (freemsg_unlock k u)"
      using assms(2,3) c True lk u(1) by (simp add: waitserver_def Let_def pid)
    have f: "waitcounter (freemsg_unlock k u) = 0" "hostc (freemsg_unlock k u) = hostc s"
      "B_CAST (freemsg_unlock k u) = OFF" "mcount (freemsg_unlock k u) = mcount s"
      "jia_pid (freemsg_unlock k u) = jia_pid s" using inv(4) unfolding u(3) by simp_all
    have "is_op ?m WAITGRANT" by (simp add: is_op_def)
    from grants_of_each [OF this, of "[0..<hostc s]"]
    have "grants_of WAITGRANT (freemsg_unlock k u) = grants_of WAITGRANT s @ [0..<hostc s]"
      unfolding u(3) by (simp add: grants_of_def)
    moreover have "wait_inv (freemsg_unlock k u)" using u(2) assms(1) f by (simp add: wait_inv_def)
    ultimately show ?thesis using run f True by simp
  qed
qed

interpretation wt: rendezvous n "[0..<n]" "\<lambda>s. nat (waitcounter s)" "grants_of WAITGRANT"
  "\<lambda>s. wait_inv s \<and> hostc s = n \<and> jia_pid s = pid" waitserver "\<lambda>m. is_op m WAIT \<and> topid m = pid" for n pid
proof
  fix s m
  show "nat (waitcounter s) < n" if "wait_inv s \<and> hostc s = n \<and> jia_pid s = pid"
    using that by (auto simp: wait_inv_def)
  show "\<exists>s'. waitserver m s = Inr s' \<and> (wait_inv s' \<and> hostc s' = n \<and> jia_pid s' = pid) \<and>
      nat (waitcounter s') = (if nat (waitcounter s) + 1 = n then 0 else nat (waitcounter s) + 1) \<and>
      grants_of WAITGRANT s' = grants_of WAITGRANT s @ (if nat (waitcounter s) + 1 = n then [0..<n] else [])"
    if "wait_inv s \<and> hostc s = n \<and> jia_pid s = pid" "is_op m WAIT \<and> topid m = pid"
    using waitserver_run [of s m] that by auto
qed

section \<open>Barriers\<close>

lemma append_notices:
  "size m + 16 * length es \<le> Maxmsgsize \<Longrightarrow>
     \<exists>m'. foldE append_notice es m = Inr m' \<and> extends m (concat (map notice_bytes es)) m'"
proof (induction es arbitrary: m)
  case (Cons e es)
  obtain m1 where m1: "append_notice e m = Inr m1" "extends m (notice_bytes e) m1"
    using append_notice_ok [of m e] Cons.prems by auto
  have "size m1 + 16 * length es \<le> Maxmsgsize" using Cons.prems extends_size [OF m1(2)] by simp
  then obtain m2 where "foldE append_notice es m1 = Inr m2" "extends m1 (concat (map notice_bytes es)) m2"
    using Cons.IH by blast
  then show ?case using m1 extends_trans [OF m1(2)] by auto
qed (simp add: extends_refl)

lemma appendbarrwtnts_all:
  "size m + 16 * length (concat w) + 16 \<le> Maxmsgsize \<Longrightarrow>
     \<exists>m'. appendbarrwtnts m w = Inr (m', []) \<and> extends m (concat (map notice_bytes (concat w))) m'"
proof (induction w arbitrary: m)
  case Nil
  then show ?case by (simp add: appendbarrwtnts_def extends_refl)
next
  case (Cons node w)
  obtain m1 where m1: "foldE append_notice node m = Inr m1" "extends m (concat (map notice_bytes node)) m1"
    using append_notices [of m node] Cons.prems by auto
  have "length (concat (map notice_bytes node)) = 16 * length node" by (induction node) auto
  then have "size m1 + 16 * length (concat w) + 16 \<le> Maxmsgsize"
    using Cons.prems extends_size [OF m1(2)] by simp
  then obtain m2 where m2: "appendbarrwtnts m1 w = Inr (m2, [])"
    "extends m1 (concat (map notice_bytes (concat w))) m2" using Cons.IH by blast
  have "size m + length node * (2 * Intbytes + Ptrbytes) < Maxmsgsize"
    using Cons.prems by (simp add: msg_consts)
  then have "appendbarrwtnts m (node # w) = Inr (m2, [])"
    using m1(1) m2(1) by (simp add: appendbarrwtnts_def)
  then show ?case using extends_trans [OF m1(2) m2(2)] by simp
qed

lemma grantbarr_run:
  assumes "mbuf_inv s" "0 < mcount s" "l < 2 ^ 31" "B_CAST s = OFF"
    "length (concat (wtntp (locks s l))) \<le> 2555"
  shows "\<exists>m b. grantbarr l s = Inr (s\<lparr>mbuf := b, outq := outq s @ map (\<lambda>h. m\<lparr>topid := h\<rparr>) [0..<hostc s]\<rparr>) \<and>
    mbuf_inv (s\<lparr>mbuf := b, outq := outq s @ map (\<lambda>h. m\<lparr>topid := h\<rparr>) [0..<hostc s]\<rparr>) \<and>
    is_op m BARRGRANT \<and> frompid m = jia_pid s \<and> scope m = lscope (locks s l) \<and>
    payload m = itob (word_of_nat l) @ concat (map notice_bytes (concat (wtntp (locks s l))))"
proof -
  let ?w = "wtntp (locks s l)"
  obtain k s1 where lk: "freemsg_lock s = Inr (k, s1)" using freemsg_lock_total assms(1,2) by blast
  note u = freemsg_lock_inv [OF lk assms(1)]
  let ?m0 = "(slot_msg (mbuf s1 ! k))\<lparr>frompid := jia_pid s, topid := jia_pid s,
    scope := lscope (locks s l), size := 0\<rparr>"
  obtain m1 where m1: "appendmsg ?m0 (itob (word_of_nat l)) = Inr m1" "extends ?m0 (itob (word_of_nat l)) m1"
    using appendmsg_extends [of ?m0 "itob (word_of_nat l)"] by (auto simp: Maxmsgsize_eq)
  have sz: "size m1 = 4" using m1(2) by (simp add: extends_def)
  obtain m2 where m2: "appendbarrwtnts m1 ?w = Inr (m2, [])"
    "extends m1 (concat (map notice_bytes (concat ?w))) m2"
    using appendbarrwtnts_all [of m1 ?w] assms(5) sz by (auto simp: Maxmsgsize_eq)
  let ?m = "m2\<lparr>op := op_num BARRGRANT\<rparr>"
  obtain v b where v: "broadcast k (set_slot k ?m s1) = Inr v" "mbuf_inv (freemsg_unlock k v)"
    "freemsg_unlock k v = s\<lparr>mbuf := b, outq := outq s @ map (\<lambda>h. ?m\<lparr>topid := h\<rparr>) [0..<hostc s]\<rparr>"
    using send_each [OF lk assms(1,4), of ?m] by blast
  have "set_slot k ?m (set_slot k m2 s1) = set_slot k ?m s1" using u(2) by (simp add: set_slot_def)
  then have run: "grantbarr l s = Inr (freemsg_unlock k v)"
    using lk m1(1) m2(1) u(2) v(1)
    by (simp add: grantbarr_def send_notices_def send_rest.simps WNULL_def)
  have pay: "payload ?m = itob (word_of_nat l) @ concat (map notice_bytes (concat ?w))"
  proof -
    have "payload (m\<lparr>size := 0\<rparr>) = []" for m by (simp add: payload_def)
    then have "payload m2 = itob (word_of_nat l) @ concat (map notice_bytes (concat ?w))"
      using extends_trans [OF m1(2) m2(2)] by (simp only: extends_def append_Nil)
    then show ?thesis by (simp add: payload_def)
  qed
  have "frompid ?m = jia_pid s \<and> scope ?m = lscope (locks s l)"
    using extends_trans [OF m1(2) m2(2)] by (simp add: extends_def)
  then show ?thesis
    using run v(2) pay unfolding v(3)
    by (intro exI [of _ ?m] exI [of _ b]) (simp add: is_op_def)
qed

text \<open>
  The manager of barriers: it is home of \<open>hidelock\<close>, the notices recorded so far are of the shared
  pages \<open>P\<close> and fit one message, messages go to one host at a time, and a message slot is free.
\<close>

definition barr_inv :: "nat set \<Rightarrow> host \<Rightarrow> bool" where
  "barr_inv P s \<longleftrightarrow> hidelock mod hostc s = jia_pid s \<and> 0 \<le> acqc (locks s hidelock) \<and>
     acqc (locks s hidelock) < int (hostc s) \<and> wtnt_inv (wtntp (locks s hidelock)) \<and>
     dom (notices (wtntp (locks s hidelock))) \<subseteq> P \<and> finite P \<and> card P \<le> 2555 \<and>
     B_CAST s = OFF \<and> mbuf_inv s \<and> 0 < mcount s"

definition barr_msg_ok :: "nat \<Rightarrow> nat set \<Rightarrow> jia_msg \<Rightarrow> bool" where
  "barr_msg_ok pid P m \<longleftrightarrow> is_op m BARR \<and> topid m = pid \<and> msg_lock m = int hidelock \<and>
     (\<forall>k\<in>set (record_offsets m). pageno (stol (data m) k) \<in> P)"

lemma wtnt_inv_nonempty: "wtnt_inv w \<Longrightarrow> freewtntspace w = Inr newwtnt"
  by (cases w) (simp_all add: freewtntspace_def newwtnt_def wtnt_inv_def)

lemma barrserver_step:
  assumes "barr_inv P s" "barr_msg_ok (jia_pid s) P m"
  shows "\<exists>s' w. recordwtnts m s = Inr (set_lock_wtnt hidelock w s) \<and> barrserver m s = Inr s' \<and> barr_inv P s' \<and> hostc s' = hostc s \<and> jia_pid s' = jia_pid s \<and>
    nat (acqc (locks s' hidelock)) =
      (if nat (acqc (locks s hidelock)) + 1 = hostc s then 0 else nat (acqc (locks s hidelock)) + 1) \<and>
    grants_of BARRGRANT s' = grants_of BARRGRANT s @
      (if nat (acqc (locks s hidelock)) + 1 = hostc s then [0..<hostc s] else []) \<and>
    (if nat (acqc (locks s hidelock)) + 1 = hostc s
     then \<exists>g. outq s' = outq s @ map (\<lambda>h. g\<lparr>topid := h\<rparr>) [0..<hostc s] \<and> is_op g BARRGRANT \<and>
       scope g = lscope (locks s hidelock) + 1 \<and>
       payload g = itob (word_of_nat hidelock) @ concat (map notice_bytes (concat w))
     else wtntp (locks s' hidelock) = w \<and> lscope (locks s' hidelock) = lscope (locks s hidelock) \<and> outq s' = outq s)"
proof -
  have i: "0 \<le> acqc (locks s hidelock)" "acqc (locks s hidelock) < int (hostc s)"
    "wtnt_inv (wtntp (locks s hidelock))" "dom (notices (wtntp (locks s hidelock))) \<subseteq> P" "finite P" "card P \<le> 2555"
    "home_of s (int hidelock)"
    using assms(1) by (auto simp: barr_inv_def home_of_def)
  obtain w where w: "recordwtnts m s = Inr (set_lock_wtnt hidelock w s)" "wtnt_inv w"
    "dom (notices w) = dom (notices (wtntp (locks s hidelock))) \<union>
      (\<lambda>k. pageno (stol (data m) k)) ` set (record_offsets m)"
    using recordwtnts_run [of m hidelock s] assms(2) i(3) by (auto simp: barr_msg_ok_def hidelock_def)
  have dom: "dom (notices w) \<subseteq> P" using w(3) i(4) assms(2) by (auto simp: barr_msg_ok_def)
  let ?s1 = "upd_lock hidelock (\<lambda>k. k\<lparr>acqc := acqc k + 1\<rparr>) (set_lock_wtnt hidelock w s)"
  have l1: "locks ?s1 hidelock = (locks s hidelock)\<lparr>wtntp := w, acqc := acqc (locks s hidelock) + 1\<rparr>"
    by (simp add: upd_lock_def set_lock_wtnt_def)
  have f1: "hostc ?s1 = hostc s" "jia_pid ?s1 = jia_pid s" "B_CAST ?s1 = B_CAST s" "mbuf ?s1 = mbuf s"
    "mcount ?s1 = mcount s" "outq ?s1 = outq s"
    by (simp_all add: upd_lock_def set_lock_wtnt_def)
  have c: "acqc (locks s hidelock) + 1 = int (hostc s) \<longleftrightarrow> nat (acqc (locks s hidelock)) + 1 = hostc s"
    using i(1) by auto
  have run: "barrserver m s = (if nat (acqc (locks s hidelock)) + 1 = hostc s
      then bindE (grantbarr hidelock (upd_lock hidelock (\<lambda>k. k\<lparr>lscope := lscope k + 1\<rparr>) ?s1)) (\<lambda>s.
             bindE (freewtntspace (wtntp (locks s hidelock))) (\<lambda>w.
             Inr (upd_lock hidelock (\<lambda>k. k\<lparr>acqc := 0, wtntp := w\<rparr>) s)))
      else Inr ?s1)"
    using assms(2) i(7) w(1) c
    by (simp add: barrserver_def barr_msg_ok_def Let_def upd_lock_def set_lock_wtnt_def)
  show ?thesis
  proof (cases "nat (acqc (locks s hidelock)) + 1 = hostc s")
    case False
    have "barr_inv P ?s1"
      using assms(1) w(2) dom i(1,2) c False unfolding barr_inv_def l1 f1 mbuf_inv_def by auto
    then show ?thesis using run False i(1) f1 l1 w(1) by (simp add: grants_of_def nat_add_distrib)
  next
    case True
    let ?s2 = "upd_lock hidelock (\<lambda>k. k\<lparr>lscope := lscope k + 1\<rparr>) ?s1"
    have l2: "wtntp (locks ?s2 hidelock) = w" and f2: "hostc ?s2 = hostc s" "jia_pid ?s2 = jia_pid s" "B_CAST ?s2 = OFF"
      "mbuf ?s2 = mbuf s" "mcount ?s2 = mcount s" "outq ?s2 = outq s"
      using assms(1) by (simp_all add: upd_lock_def set_lock_wtnt_def barr_inv_def)
    have sm: "length (concat (wtntp (locks ?s2 hidelock))) \<le> 2555"
      using entries_count [OF w(2)] card_mono [OF i(5) dom] i(6) unfolding l2 by simp
    have mi: "mbuf_inv ?s2" "0 < mcount ?s2" using assms(1) by (simp_all add: barr_inv_def mbuf_inv_def f2)
    obtain g b where g: "grantbarr hidelock ?s2 = Inr (?s2\<lparr>mbuf := b, outq := outq s @ map (\<lambda>h. g\<lparr>topid := h\<rparr>) [0..<hostc s]\<rparr>)"
      "mbuf_inv (?s2\<lparr>mbuf := b, outq := outq s @ map (\<lambda>h. g\<lparr>topid := h\<rparr>) [0..<hostc s]\<rparr>)" "is_op g BARRGRANT"
      "scope g = lscope (locks ?s2 hidelock)" "payload g = itob (word_of_nat hidelock) @ concat (map notice_bytes (concat w))"
      using grantbarr_run [OF mi _ f2(3) sm] unfolding f2(1,6) l2 by (auto simp: hidelock_def Maxlocks_def)
    let ?s3 = "?s2\<lparr>mbuf := b, outq := outq s @ map (\<lambda>h. g\<lparr>topid := h\<rparr>) [0..<hostc s]\<rparr>"
    let ?s4 = "upd_lock hidelock (\<lambda>k. k\<lparr>acqc := 0, wtntp := newwtnt\<rparr>) ?s3"
    have "wtntp (locks ?s3 hidelock) = w" by (simp add: upd_lock_def set_lock_wtnt_def)
    then have "barrserver m s = Inr ?s4" using run True g(1) wtnt_inv_nonempty [OF w(2)] by simp
    moreover have "grants_of BARRGRANT ?s4 = grants_of BARRGRANT s @ [0..<hostc s]"
      using grants_of_each [OF g(3), of "[0..<hostc s]"] by (simp add: grants_of_def upd_lock_def)
    moreover have "mbuf_inv ?s4" using g(2) by (simp add: mbuf_inv_def upd_lock_def)
    then have "barr_inv P ?s4"
      using assms(1) i(1,2) by (simp add: barr_inv_def upd_lock_def set_lock_wtnt_def)
    moreover have "outq ?s4 = outq s @ map (\<lambda>h. g\<lparr>topid := h\<rparr>) [0..<hostc s]" "acqc (locks ?s4 hidelock) = 0"
      "hostc ?s4 = hostc s" "jia_pid ?s4 = jia_pid s" by (simp_all add: upd_lock_def set_lock_wtnt_def)
    moreover have "scope g = lscope (locks s hidelock) + 1"
      using g(4) by (simp add: upd_lock_def set_lock_wtnt_def)
    ultimately show ?thesis using True w(1) g(3,5) by auto
  qed
qed

lemma barrserver_run:
  assumes "barr_inv P s" "barr_msg_ok (jia_pid s) P m"
  shows "\<exists>s'. barrserver m s = Inr s' \<and> barr_inv P s' \<and> hostc s' = hostc s \<and> jia_pid s' = jia_pid s \<and>
    nat (acqc (locks s' hidelock)) =
      (if nat (acqc (locks s hidelock)) + 1 = hostc s then 0 else nat (acqc (locks s hidelock)) + 1) \<and>
    grants_of BARRGRANT s' = grants_of BARRGRANT s @
      (if nat (acqc (locks s hidelock)) + 1 = hostc s then [0..<hostc s] else [])"
  using barrserver_step [OF assms] by blast

interpretation br: rendezvous n "[0..<n]" "\<lambda>s. nat (acqc (locks s hidelock))" "grants_of BARRGRANT"
  "\<lambda>s. barr_inv P s \<and> hostc s = n \<and> jia_pid s = pid" barrserver "barr_msg_ok pid P" for n P pid
proof
  fix s m
  show "nat (acqc (locks s hidelock)) < n" if "barr_inv P s \<and> hostc s = n \<and> jia_pid s = pid"
    using that by (auto simp: barr_inv_def)
  show "\<exists>s'. barrserver m s = Inr s' \<and> (barr_inv P s' \<and> hostc s' = n \<and> jia_pid s' = pid) \<and>
      nat (acqc (locks s' hidelock)) =
        (if nat (acqc (locks s hidelock)) + 1 = n then 0 else nat (acqc (locks s hidelock)) + 1) \<and>
      grants_of BARRGRANT s' = grants_of BARRGRANT s @
        (if nat (acqc (locks s hidelock)) + 1 = n then [0..<n] else [])"
    if "barr_inv P s \<and> hostc s = n \<and> jia_pid s = pid" "barr_msg_ok pid P m"
    using barrserver_run [of P s m] that by auto
qed

text \<open>
  A barrier holds everybody back until all have come, and then lets everybody go. After any
  number of BARR messages to the manager, none of which makes it stop, each host has been sent one
  grant for every complete group of as many arrivals as there are hosts, all in one go, and the
  arrivals of the group that is not complete yet have been granted nothing.
\<close>

theorem barrier_releases_all:
  assumes "barr_inv P s" "acqc (locks s hidelock) = 0" "\<forall>m\<in>set ms. barr_msg_ok (jia_pid s) P m"
  shows "\<exists>s'. foldE barrserver ms s = Inr s' \<and> barr_inv P s' \<and>
    nat (acqc (locks s' hidelock)) = length ms mod hostc s \<and>
    grants_of BARRGRANT s' = grants_of BARRGRANT s @
      concat (replicate (length ms div hostc s) [0..<hostc s])"
  using br.arrivals [where P = P and n = "hostc s" and pid = "jia_pid s" and s = s and ms = ms] assms by auto

text \<open>
  The same for \<open>jia_wait\<close>: \<open>waitserver\<close> grants all hosts at once, when as many WAIT messages as
  there are hosts have come, and then starts over.
\<close>

lemma wait_releases_all:
  assumes "wait_inv s" "waitcounter s = 0" "\<forall>m\<in>set ms. is_op m WAIT \<and> topid m = jia_pid s"
  shows "\<exists>s'. foldE waitserver ms s = Inr s' \<and> wait_inv s' \<and>
    nat (waitcounter s') = length ms mod hostc s \<and>
    grants_of WAITGRANT s' = grants_of WAITGRANT s @
      concat (replicate (length ms div hostc s) [0..<hostc s])"
  using wt.arrivals [where n = "hostc s" and pid = "jia_pid s" and s = s and ms = ms] assms by auto

lemma barr_msg:
  assumes "p < Maxhosts"
  shows "barr_msg_ok pid P (lock_msg BARR p pid hidelock)"
proof -
  have "payload (lock_msg BARR p pid hidelock) = itob (word_of_nat hidelock) @ []"
    by (simp add: lock_msg_def payload_def bytes_simps)
  then have "msg_lock (lock_msg BARR p pid hidelock) = int hidelock"
    by (rule msg_lock_payload) (simp add: hidelock_def Maxlocks_def)
  then show ?thesis
    by (simp add: barr_msg_ok_def is_op_def lock_msg_def record_offsets_def msg_consts)
qed

lemma demo_manager_barr: "barr_inv {} demo_manager" "acqc (locks demo_manager hidelock) = 0"
  "hostc demo_manager = 3" "jia_pid demo_manager = 1" "grants_of x demo_manager = []"
  by (simp_all add: barr_inv_def demo_manager_def initsyn_def static_host_def hidelock_def Maxlocks_def
      mbuf_inv_def free_slots_def dom_notices grants_of_def)

lemma barrier_releases_all_witness:
  "\<exists>s'. foldE barrserver (map (\<lambda>p. lock_msg BARR p 1 hidelock) [2, 0, 1, 1]) demo_manager = Inr s' \<and>
     acqc (locks s' hidelock) = 1 \<and> grants_of BARRGRANT s' = [0, 1, 2]"
proof -
  let ?ms = "map (\<lambda>p. lock_msg BARR p 1 hidelock) [2, 0, 1, 1]"
  have "\<forall>m\<in>set ?ms. barr_msg_ok (jia_pid demo_manager) {} m"
    by (simp add: demo_manager_barr barr_msg Maxhosts_def)
  then obtain s' where s': "foldE barrserver ?ms demo_manager = Inr s'" "barr_inv {} s'"
    "nat (acqc (locks s' hidelock)) = length ?ms mod 3"
    "grants_of BARRGRANT s' = [] @ concat (replicate (length ?ms div 3) [0..<3])"
    using barrier_releases_all [OF demo_manager_barr(1,2), of ?ms] unfolding demo_manager_barr(3,5) by blast
  have "nat (acqc (locks s' hidelock)) = 1" using s'(3) by simp
  then have "acqc (locks s' hidelock) = 1" by linarith
  moreover have "grants_of BARRGRANT s' = [0, 1, 2]" using s'(4) by (simp add: upt_rec)
  ultimately show ?thesis using s'(1) by blast
qed

lemma wait_releases_all_witness:
  "\<exists>s'. foldE waitserver (map (\<lambda>p. lock_msg WAIT p 1 0) [1, 2, 0]) demo_manager = Inr s' \<and>
     waitcounter s' = 0 \<and> grants_of WAITGRANT s' = [0, 1, 2]"
proof -
  let ?ms = "map (\<lambda>p. lock_msg WAIT p 1 0) [1, 2, 0]"
  have w: "wait_inv demo_manager" "waitcounter demo_manager = 0"
    by (simp_all add: wait_inv_def demo_manager_def initsyn_def static_host_def mbuf_inv_def free_slots_def)
  have "\<forall>m\<in>set ?ms. is_op m WAIT \<and> topid m = jia_pid demo_manager"
    by (simp add: demo_manager_barr lock_msg_def is_op_def)
  then obtain s' where s': "foldE waitserver ?ms demo_manager = Inr s'" "wait_inv s'"
    "nat (waitcounter s') = length ?ms mod 3"
    "grants_of WAITGRANT s' = [] @ concat (replicate (length ?ms div 3) [0..<3])"
    using wait_releases_all [OF w, of ?ms] unfolding demo_manager_barr(3,5) by blast
  have "waitcounter s' = 0" using s'(2,3) by (simp add: wait_inv_def)
  moreover have "grants_of WAITGRANT s' = [0, 1, 2]" using s'(4) by (simp add: upt_rec)
  ultimately show ?thesis using s'(1) by blast
qed

section \<open>What a barrier makes visible\<close>

text \<open>
  The hosts whose messages have a notice of page \<open>p\<close>, one for each notice, in the order they are
  recorded; and whom a map of notices names as the writer: the only one, or \<open>Maxhosts\<close> for several.
\<close>

definition reports :: "jia_msg list \<Rightarrow> nat \<Rightarrow> nat list" where
  "reports ms p = concat (map (\<lambda>m. map (\<lambda>_. frompid m) (filter (\<lambda>k. pageno (stol (data m) k) = p) (record_offsets m))) ms)"

fun writer_of :: "nat list \<Rightarrow> nat option" where
  "writer_of [] = None"
| "writer_of [q] = Some q"
| "writer_of (q # q' # qs) = Some Maxhosts"

definition tracks :: "(nat \<Rightarrow> nat list) \<Rightarrow> (nat \<rightharpoonup> notice) \<Rightarrow> bool" where
  "tracks R f \<longleftrightarrow> (\<forall>p. map_option n_from (f p) = writer_of (R p))"

lemma writer_of_None [simp]: "writer_of qs = None \<longleftrightarrow> qs = []"
  by (cases qs rule: writer_of.cases) auto

lemma writer_of_snoc: "writer_of (qs @ [q]) = Some (if qs = [] then q else Maxhosts)"
  by (cases qs rule: writer_of.cases) auto

lemma writer_of_is: "writer_of qs = Some h \<Longrightarrow> h < Maxhosts \<or> h = Maxhosts \<or> h \<in> set qs"
  "h < Maxhosts \<Longrightarrow> writer_of qs = Some h \<longleftrightarrow> qs = [h]"
  by (cases qs rule: writer_of.cases; auto)+

lemma wtntp_set_lock [simp]: "wtntp (locks (set_lock_wtnt l w s) l) = w"
  by (simp add: set_lock_wtnt_def upd_lock_def)

lemma tracks_empty [simp]: "tracks (\<lambda>_. []) Map.empty"
  by (simp add: tracks_def)

lemma tracks_save:
  assumes "tracks R f"
  shows "tracks (R(p := R p @ [q])) (save_notice f p mig q sc)"
proof -
  have "f x = None \<longleftrightarrow> R x = []" for x
    using assms by (metis map_option_is_None tracks_def writer_of_None)
  then show ?thesis using assms by (auto simp: tracks_def save_notice_def writer_of_snoc domIff)
qed

lemma tracks_fold:
  assumes "tracks R f"
  shows "tracks (\<lambda>p. R p @ map (\<lambda>_. q) (filter (\<lambda>x. pageno (a x) = p) xs))
    (fold (\<lambda>x f. save_notice f (pageno (a x)) (mg x) q sc) xs f)"
  using assms
proof (induction xs arbitrary: R f)
  case (Cons x xs)
  have "(\<lambda>p. (R(pageno (a x) := R (pageno (a x)) @ [q])) p @ map (\<lambda>_. q) (filter (\<lambda>x. pageno (a x) = p) xs)) =
      (\<lambda>p. R p @ map (\<lambda>_. q) (filter (\<lambda>x. pageno (a x) = p) (x # xs)))" by (auto simp: fun_eq_iff)
  with Cons.IH [OF tracks_save [OF Cons.prems, where p = "pageno (a x)" and q = q and mig = "mg x" and sc = sc]] show ?case by (simp only: fold.simps comp_apply)
qed simp

lemma recordwtnts_tracks:
  assumes "msg_lock m = int l" "l \<le> Maxlocks" "wtnt_inv (wtntp (locks s l))"
    "recordwtnts m s = Inr (set_lock_wtnt l w s)" "tracks R (notices (wtntp (locks s l)))"
  shows "tracks (\<lambda>p. R p @ reports [m] p) (notices w)"
proof -
  let ?f = "\<lambda>k. stol (data m) k"
  have lk: "lock_at s (sint (msg_int m 0)) = Inr l"
    using assms(1,2) by (simp add: lock_at_def msg_lock_def)
  obtain w' where w': "foldE (\<lambda>x w. savewtnt w (?f x) (ucast (?f x)) (frompid m) (lscope (locks s l)))
      (record_offsets m) (wtntp (locks s l)) = Inr w'"
    "notices w' = fold (\<lambda>x f. save_notice f (pageno (?f x)) (ucast (?f x)) (frompid m) (lscope (locks s l)))
      (record_offsets m) (notices (wtntp (locks s l)))"
    using wn.save_all [OF assms(3), where addr = ?f and mig = "\<lambda>x. ucast (?f x)" and
        src = "\<lambda>_. frompid m" and scp = "\<lambda>_. lscope (locks s l)" and xs = "record_offsets m"]
    by blast
  have "set_lock_wtnt l (wtntp (locks s l)) s = s" by (simp add: set_lock_wtnt_def upd_lock_def)
  then have "recordwtnts m s = Inr (set_lock_wtnt l w' s)"
    using w'(1) unfolding recordwtnts_def lk record_loop by auto
  then have "wtntp (locks (set_lock_wtnt l w s) l) = wtntp (locks (set_lock_wtnt l w' s) l)"
    using assms(4) by simp
  then have "w = w'" by simp
  then show ?thesis using tracks_fold [OF assms(5)] w'(2) by (simp add: reports_def)
qed

lemma tracks_entries:
  assumes "tracks R (notices w)" "wtnt_inv w"
  shows "e \<in> set (concat w) \<Longrightarrow> writer_of (R (pageno (wtnt_addr e))) = Some (wtnt_from e)"
    "R p \<noteq> [] \<Longrightarrow> \<exists>e\<in>set (concat w). pageno (wtnt_addr e) = p"
proof -
  have d: "distinct (map fst (map (\<lambda>e. (pageno (wtnt_addr e), notice_of e)) (entries w)))"
    using assms(2) by (simp add: wtnt_inv_def o_def)
  have e: "concat w = entries w" by (simp add: entries_def)
  have f: "writer_of (R p) = map_option n_from (notices w p)" for p using assms(1) by (simp add: tracks_def)
  show "writer_of (R (pageno (wtnt_addr e))) = Some (wtnt_from e)" if "e \<in> set (concat w)"
  proof -
    have "notices w (pageno (wtnt_addr e)) = Some (notice_of e)"
      unfolding notices_def by (rule map_of_is_SomeI [OF d]) (use that e in auto)
    then show ?thesis unfolding f by (simp add: notice_of_def)
  qed
  show "\<exists>e\<in>set (concat w). pageno (wtnt_addr e) = p" if "R p \<noteq> []"
  proof -
    have "p \<in> dom (notices w)" using that f [of p] by (cases "notices w p") auto
    then show ?thesis unfolding dom_notices e by auto
  qed
qed

text \<open>All arrivals of one barrier at its manager: what the grants carry.\<close>

lemma barrier_round:
  assumes "barr_inv P s" "\<forall>m\<in>set ms. barr_msg_ok (jia_pid s) P m \<and> frompid m < Maxhosts"
    "tracks R (notices (wtntp (locks s hidelock)))"
    "ms \<noteq> []" "nat (acqc (locks s hidelock)) + length ms = hostc s"
  shows "\<exists>s' g w. foldE barrserver ms s = Inr s' \<and> barr_inv P s' \<and>
    outq s' = outq s @ map (\<lambda>h. g\<lparr>topid := h\<rparr>) [0..<hostc s] \<and> is_op g BARRGRANT \<and>
    scope g = lscope (locks s hidelock) + 1 \<and>
    payload g = itob (word_of_nat hidelock) @ concat (map notice_bytes (concat w)) \<and>
    wtnt_inv w \<and> tracks (\<lambda>p. R p @ reports ms p) (notices w)"
  using assms
proof (induction ms arbitrary: s R)
  case (Cons m ms)
  have m: "barr_msg_ok (jia_pid s) P m" using Cons.prems(2) by auto
  let ?last = "nat (acqc (locks s hidelock)) + 1 = hostc s"
  obtain s1 w where s1: "recordwtnts m s = Inr (set_lock_wtnt hidelock w s)" "barrserver m s = Inr s1"
    "barr_inv P s1" "hostc s1 = hostc s" "jia_pid s1 = jia_pid s"
    "nat (acqc (locks s1 hidelock)) = (if ?last then 0 else nat (acqc (locks s hidelock)) + 1)"
    "if ?last
     then \<exists>g. outq s1 = outq s @ map (\<lambda>h. g\<lparr>topid := h\<rparr>) [0..<hostc s] \<and> is_op g BARRGRANT \<and>
       scope g = lscope (locks s hidelock) + 1 \<and>
       payload g = itob (word_of_nat hidelock) @ concat (map notice_bytes (concat w))
     else wtntp (locks s1 hidelock) = w \<and> lscope (locks s1 hidelock) = lscope (locks s hidelock) \<and> outq s1 = outq s"
    using barrserver_step [OF Cons.prems(1) m] by blast
  have ml: "msg_lock m = int hidelock" "hidelock \<le> Maxlocks" "wtnt_inv (wtntp (locks s hidelock))"
    using m Cons.prems(1) by (auto simp: barr_msg_ok_def barr_inv_def hidelock_def)
  obtain w' where "recordwtnts m s = Inr (set_lock_wtnt hidelock w' s)" "wtnt_inv w'"
    using recordwtnts_run [OF ml] by blast
  then have w: "wtnt_inv w" using s1(1) wtntp_set_lock by (metis sum.inject(2))
  have tr: "tracks (\<lambda>p. R p @ reports [m] p) (notices w)"
    by (rule recordwtnts_tracks [OF ml s1(1) Cons.prems(3)])
  have eq: "(\<lambda>p. (R p @ reports [m] p) @ reports ms p) = (\<lambda>p. R p @ reports (m # ms) p)" by (simp add: reports_def)
  show ?case
  proof (cases "ms = []")
    case True
    then have ?last using Cons.prems(5) by simp
    then show ?thesis using s1(2,3,7) w tr True by auto
  next
    case False
    then have nl: "\<not> ?last" using Cons.prems(5) by (cases ms) auto
    show ?thesis
      using Cons.IH [of s1 "\<lambda>p. R p @ reports [m] p", OF s1(3)] Cons.prems(2,5) False nl s1(2,4-7) tr
      unfolding eq by auto
  qed
qed simp

text \<open>The page index is that of the page.\<close>

lemma pagei_pageno:
  assumes "aligned (global_start_addr s)" "pageno a = pageno b"
  shows "pagei s a = pagei s b"
proof -
  let ?g = "global_start_addr s"
  obtain k where k: "unat ?g = 4096 * k" using assms(1) unfolding aligned_def Pagesize_def by auto
  have pg: "unat (word_of_nat Pagesize :: addr) = 4096" by (simp add: Pagesize_def)
  have "pagei s x = (if k \<le> pageno x then pageno x - k else 2 ^ 52 + pageno x - k)" for x
  proof -
    have le: "?g \<le> x \<longleftrightarrow> k \<le> pageno x" unfolding word_le_nat_alt k pageno_def Pagesize_def by linarith
    have "unat x < 2 ^ 64" "unat ?g < 2 ^ 64" by (rule unat_addr_bound)+
    then show ?thesis
      using le k by (auto simp: pagei_def unat_div pg unat_sub_if' pageno_def Pagesize_def word_le_nat_alt)
  qed
  then show ?thesis using assms(2) by simp
qed

definition own_locks_ok :: "host \<Rightarrow> bool" where
  "own_locks_ok s \<longleftrightarrow> (\<forall>i<Maxlocks. i mod hostc s = jia_pid s \<longrightarrow> wtntp (locks s i) \<noteq> WNULL)"

lemma clearlocks_run:
  assumes "own_locks_ok s" "jia_pid s < hostc s"
  shows "\<exists>ls. clearlocks s = Inr (s\<lparr>locks := ls\<rparr>) \<and> (\<forall>i. ls i = (locks s i)\<lparr>wtntp := wtntp (ls i)\<rparr>)"
proof -
  let ?f = "\<lambda>i s. bindE (freewtntspace (wtntp (locks s i))) (\<lambda>w. Inr (upd_lock i (\<lambda>l. l\<lparr>wtntp := w\<rparr>) s))"
  have *: "\<exists>ls. foldE ?f is u = Inr (u\<lparr>locks := ls\<rparr>) \<and> (\<forall>i. ls i = (locks u i)\<lparr>wtntp := wtntp (ls i)\<rparr>)"
    if "\<forall>i\<in>set is. wtntp (locks u i) \<noteq> []" for "is" u
    using that
  proof (induction "is" arbitrary: u)
    case Nil
    show ?case by (rule exI [of _ "locks u"]) simp
  next
    case (Cons i "is")
    let ?u = "upd_lock i (\<lambda>l. l\<lparr>wtntp := newwtnt\<rparr>) u"
    have fr: "freewtntspace (wtntp (locks u i)) = Inr newwtnt"
      using Cons.prems by (auto simp: freewtntspace_def newwtnt_def split: list.splits)
    have "\<forall>j\<in>set is. wtntp (locks ?u j) \<noteq> []" using Cons.prems by (simp add: upd_lock_def newwtnt_def)
    then obtain ls where ls: "foldE ?f is ?u = Inr (?u\<lparr>locks := ls\<rparr>)"
      "\<forall>j. ls j = (locks ?u j)\<lparr>wtntp := wtntp (ls j)\<rparr>" using Cons.IH by blast
    have "ls j = (locks u j)\<lparr>wtntp := wtntp (ls j)\<rparr>" for j
      using spec [OF ls(2), of j] by (cases "j = i") (simp_all add: upd_lock_def)
    then show ?case using fr ls(1) by (intro exI [of _ ls]) (simp add: upd_lock_def)
  qed
  have "wtntp (locks s i) \<noteq> []" if "jia_pid s \<le> i" "(i - jia_pid s) mod hostc s = 0" "i < Maxlocks" for i
  proof -
    have "i = jia_pid s + (i - jia_pid s) div hostc s * hostc s"
      using that(1,2) by (metis add_0 add_diff_inverse_nat leD mod_div_decomp add.commute)
    then have "i mod hostc s = jia_pid s mod hostc s" by (metis mod_mult_self1)
    then show ?thesis using assms that(3) by (simp add: own_locks_ok_def WNULL_def)
  qed
  then show ?thesis unfolding clearlocks_def by (intro *) auto
qed

lemma barrgrantserver_run:
  assumes "is_op m BARRGRANT" "topid m = jia_pid s"
    "payload m = itob (word_of_nat hidelock) @ concat (map notice_bytes es)"
    "\<forall>e\<in>set es. pagei s (wtnt_addr e) < Maxmempages \<and> wtnt_from e \<le> Maxhosts"
    "cache_inv s" "mapped_inv s" "own_locks_ok s" "jia_pid s < hostc s" "H_MIG s = OFF" "AD_WD s = OFF"
  shows "\<exists>s'. barrgrantserver m s = Inr s' \<and> barrwait s' = 0 \<and> noclearlocks s' = 0 \<and>
    myscope (locks s' hidelock) = scope m \<and>
    cache_inv s' \<and> mapped_inv s' \<and> page s' = page s \<and> vmem s' = vmem s \<and>
    (\<forall>i<Cachepages. ((\<exists>e\<in>set es. hit s e i) \<longrightarrow> c_state (cache s' i) = INV \<and>
         vprot s' (c_addr (cache s' i)) = Some PROT_NONE) \<and>
      (\<not> (\<exists>e\<in>set es. hit s e i) \<longrightarrow> cache s' i = cache s i \<and>
         (c_state (cache s i) \<noteq> UNMAP \<longrightarrow> vprot s' (c_addr (cache s i)) = vprot s (c_addr (cache s i)))))"
proof -
  have ml: "msg_lock m = int hidelock"
    by (rule msg_lock_payload [OF assms(3)]) (simp add: Maxlocks_def hidelock_def)
  obtain ls where ls: "(if noclearlocks s = 0 then clearlocks s else Inr s) = Inr (s\<lparr>locks := ls\<rparr>)"
    using clearlocks_run [OF assms(7,8)] by (cases "noclearlocks s = 0") (auto intro: that [of "locks s"])
  let ?t = "s\<lparr>locks := ls\<rparr>"
  have ht: "hit ?t e i = hit s e i" for e i by (rule hit_cong) simp_all
  have pt: "pagei ?t = pagei s" by (simp add: pagei_def fun_eq_iff)
  have inv: "cache_inv ?t" "mapped_inv ?t" "no_tracking (int hidelock) ?t"
    using assms(5,6,9,10) by (simp_all add: cache_inv_def mapped_inv_def entry_ok_def pt no_tracking_def)
  have pm: "\<forall>e\<in>set es. pagei ?t (wtnt_addr e) < Maxmempages" using assms(4) unfolding pt by blast
  have "wtnt_from e < 2 ^ 32" if "e \<in> set es" for e
  proof -
    have "wtnt_from e \<le> 16" using assms(4) that by (simp add: Maxhosts_def)
    then show ?thesis by simp
  qed
  then have ie: "invalidate m ?t =
      foldE (\<lambda>e. inv_notice (int hidelock) (wtnt_addr e) (wtnt_from e) (wtnt_mig e)) es ?t"
    using invalidate_entries [OF assms(3)] by (simp add: ml)
  obtain u where u: "invalidate m ?t = Inr u" "cache_inv u" "mapped_inv u" "page u = page s" "vmem u = vmem s"
    "H_MIG u = OFF"
    "\<forall>i<Cachepages. c_addr (cache u i) = c_addr (cache s i) \<and>
      ((\<exists>e\<in>set es. hit s e i) \<longrightarrow> c_state (cache u i) = INV) \<and>
      (\<not> (\<exists>e\<in>set es. hit s e i) \<longrightarrow> cache u i = cache s i \<and>
         (c_state (cache s i) \<noteq> UNMAP \<longrightarrow> vprot u (c_addr (cache s i)) = vprot s (c_addr (cache s i))))"
    using invalidate_fold [OF inv(1,2) pm inv(3)] assms(9) unfolding ie ht by auto
  let ?s = "upd_lock hidelock (\<lambda>k. k\<lparr>myscope := scope m\<rparr>) u\<lparr>barrwait := 0, noclearlocks := 0\<rparr>"
  have run: "barrgrantserver m s = Inr ?s"
    using assms(1,2) ls u(1,6) by (simp add: barrgrantserver_def ml lock_at_def hidelock_def)
  have "cache_inv ?s" "mapped_inv ?s"
    using u(2,3) by (simp_all add: cache_inv_def mapped_inv_def entry_ok_def upd_lock_def pagei_def)
  moreover have "vprot u (c_addr (cache u i)) = Some PROT_NONE"
    if "i < Cachepages" "c_state (cache u i) = INV" for i
    using u(3) that by (auto simp: mapped_inv_def)
  ultimately show ?thesis
    using run u(4,5,7) by (intro exI [of _ ?s]) (auto simp: upd_lock_def)
qed

text \<open>
  Entry \<open>i\<close> of host \<open>s\<close> holds a page that is not at its home there and that the messages report as
  written by another host, or more than once.
\<close>

definition outdated :: "jia_msg list \<Rightarrow> host \<Rightarrow> nat \<Rightarrow> bool" where
  "outdated ms s i \<longleftrightarrow> (\<exists>m\<in>set ms. \<exists>k\<in>set (record_offsets m). let a = stol (data m) k; p = pagei s a
     in homepid (page s p) \<noteq> jia_pid s \<and> cachei (page s p) = i \<and> reports ms (pageno a) \<noteq> [jia_pid s])"

lemma reports_some: "reports ms p \<noteq> [] \<longleftrightarrow> (\<exists>m\<in>set ms. \<exists>k\<in>set (record_offsets m). pageno (stol (data m) k) = p)"
  by (auto simp: reports_def filter_empty_conv)

lemma outdated_hit:
  assumes "tracks (reports ms) (notices w)" "wtnt_inv w" "aligned (global_start_addr s)"
    "jia_pid s < Maxhosts" "i < Cachepages"
  shows "outdated ms s i \<longleftrightarrow> (\<exists>e\<in>set (concat w). hit s e i)"
proof -
  note t = tracks_entries [OF assms(1,2)] and pg = pagei_pageno [OF assms(3)]
  have own: "reports ms (pageno (wtnt_addr e)) \<noteq> [jia_pid s] \<longleftrightarrow> wtnt_from e \<noteq> jia_pid s" if "e \<in> set (concat w)" for e
    using t(1) [OF that] writer_of_is(2) [OF assms(4)] by (metis option.inject)
  show ?thesis
  proof
    assume "outdated ms s i"
    then obtain m k where k: "m \<in> set ms" "k \<in> set (record_offsets m)" "homepid (page s (pagei s (stol (data m) k))) \<noteq> jia_pid s"
      "cachei (page s (pagei s (stol (data m) k))) = i" "reports ms (pageno (stol (data m) k)) \<noteq> [jia_pid s]"
      by (auto simp: outdated_def Let_def)
    have "reports ms (pageno (stol (data m) k)) \<noteq> []" using k(1,2) reports_some by blast
    from t(2) [OF this] obtain e where e: "e \<in> set (concat w)" "pageno (wtnt_addr e) = pageno (stol (data m) k)" by blast
    have "hit s e i" using k(3-5) own [OF e(1)] pg [OF e(2)] e(2) assms(5) by (simp add: hit_def)
    then show "\<exists>e\<in>set (concat w). hit s e i" using e(1) by blast
  next
    assume "\<exists>e\<in>set (concat w). hit s e i"
    then obtain e where e: "e \<in> set (concat w)" "hit s e i" by blast
    have "reports ms (pageno (wtnt_addr e)) \<noteq> []" using t(1) [OF e(1)] by (metis option.distinct(1) writer_of_None)
    then obtain m k where m: "m \<in> set ms" "k \<in> set (record_offsets m)" "pageno (stol (data m) k) = pageno (wtnt_addr e)"
      using reports_some by blast
    then show "outdated ms s i" using e(2) own [OF e(1)] pg [OF m(3)] unfolding outdated_def Let_def hit_def by metis
  qed
qed


text \<open>Two hosts; the other one, the home of the page, has written it.\<close>

definition notice_msg :: jia_msg where
  "notice_msg = clear_msg\<lparr>op := op_num BARR, frompid := 1, topid := 0, size := 16,
     data := put (put (\<lambda>_. 0) 0 (itob (word_of_nat hidelock))) 4 (ltob 0x10000)\<rparr>"

lemma notice_msg_ok: "barr_msg_ok 0 {16} notice_msg" "record_offsets notice_msg = [4]"
  "stol (data notice_msg) 4 = 0x10000" "frompid notice_msg = 1"
proof -
  have "bslice (data notice_msg) 0 (4 + 12) = bslice (data notice_msg) 0 4 @ bslice (data notice_msg) 4 12"
    by (simp only: bslice_append add_0)
  then have "payload notice_msg = itob (word_of_nat hidelock) @ bslice (data notice_msg) 4 12"
    by (simp add: notice_msg_def payload_def bytes_simps)
  then have l: "msg_lock notice_msg = int hidelock"
    by (rule msg_lock_payload) (simp add: hidelock_def Maxlocks_def)
  have "bslice (data notice_msg) 4 8 = ltob 0x10000"
    by (simp add: notice_msg_def bytes_simps)
  then show a: "stol (data notice_msg) 4 = 0x10000" by (rule stol_bslice)
  show o: "record_offsets notice_msg = [4]" by (simp add: record_offsets_def notice_msg_def msg_consts)
  show "frompid notice_msg = 1" by (simp add: notice_msg_def)
  show "barr_msg_ok 0 {16} notice_msg"
    by (simp add: barr_msg_ok_def l o a is_op_def pageno_def Pagesize_def) (simp add: notice_msg_def)
qed

definition demo_waiting :: host where
  "demo_waiting = initsyn demo_cached"

lemma demo_waiting_ok: "barr_inv {16} demo_waiting" "acqc (locks demo_waiting hidelock) = 0"
  "wtntp (locks demo_waiting hidelock) = newwtnt" "hostc demo_waiting = 2" "jia_pid demo_waiting = 0"
  "H_MIG demo_waiting = OFF" "AD_WD demo_waiting = OFF" "own_locks_ok demo_waiting"
  "aligned (global_start_addr demo_waiting)" "cache_inv demo_waiting" "mapped_inv demo_waiting"
  using demo_cached_inv
  by (simp_all add: barr_inv_def demo_waiting_def initsyn_def demo_cached_def demo_defs hidelock_def Maxlocks_def
      mbuf_inv_def free_slots_def dom_notices own_locks_ok_def newwtnt_def WNULL_def aligned_def Pagesize_def
      cache_inv_def mapped_inv_def entry_ok_def pagei_def wtnt_inv_def Maxwtnts_def entries_def)


end
