(* ===== verification/Setting.thy ===== *)
theory Setting
  imports Message "HOL-Library.Signed_Division"
begin

text \<open>
  The configuration of a host, \<open>src/src/setting/setting.c\<close> and \<open>src/src/include/setting.h\<close>: the
  options of \<open>.jiaconf\<close>, the hosts of \<open>.jiahosts\<close>, and the number of this host, found among the
  addresses of its interfaces. Files are strings (\<open>None\<close> where \<open>fopen\<close> fails); the functions
  of the C library that they use are written out.
\<close>

section \<open>The C library\<close>

definition newline :: char where "newline = CHR 0x0A"
definition NUL :: char where "NUL = CHR 0x00"

definition isspace :: "char \<Rightarrow> bool" where
  "isspace c \<longleftrightarrow> c = CHR '' '' \<or> c = CHR 0x09 \<or> c = CHR 0x0A \<or> c = CHR 0x0B \<or> c = CHR 0x0C \<or> c = CHR 0x0D"

text \<open>\<open>fgets\<close> with room for \<open>n\<close> characters: a line with its newline, or its first \<open>n\<close> characters.\<close>

fun fgets :: "nat \<Rightarrow> string \<Rightarrow> string \<times> string" where
  "fgets 0 s = ([], s)"
| "fgets (Suc n) [] = ([], [])"
| "fgets (Suc n) (c # s) =
     (if c = newline then ([c], s) else (case fgets n s of (l, r) \<Rightarrow> (c # l, r)))"

lemma fgets_length: "fgets n s = (l, r) \<Longrightarrow> length l + length r = length s"
  by (induction n s arbitrary: l r rule: fgets.induct) (auto split: if_splits prod.splits)

lemma fgets_progress: "fgets (Suc n) s = (l, r) \<Longrightarrow> s \<noteq> [] \<Longrightarrow> length r < length s"
  using fgets_length [of "Suc n" s l r] by (cases s) (auto split: if_splits prod.splits)

definition digit :: "char \<Rightarrow> nat option" where
  "digit c = (let n = of_char c :: nat in
     if 48 \<le> n \<and> n \<le> 57 then Some (n - 48)
     else if 97 \<le> n \<and> n \<le> 122 then Some (n - 87)
     else if 65 \<le> n \<and> n \<le> 90 then Some (n - 55) else None)"

fun read_digits :: "nat \<Rightarrow> nat \<Rightarrow> string \<Rightarrow> nat" where
  "read_digits base acc [] = acc"
| "read_digits base acc (c # s) = (case digit c of
     Some d \<Rightarrow> if d < base then read_digits base (base * acc + d) s else acc
   | None \<Rightarrow> acc)"

definition sign_of :: "string \<Rightarrow> bool \<times> string" where
  "sign_of s = (case s of [] \<Rightarrow> (False, [])
     | c # r \<Rightarrow> if c = CHR ''-'' then (True, r) else if c = CHR ''+'' then (False, r) else (False, s))"

text \<open>\<open>atoi\<close> is \<open>strtol\<close> in base ten, which saturates at the bounds of a \<open>long\<close>, cut to an \<open>int\<close>.\<close>

definition atoi :: "string \<Rightarrow> int" where
  "atoi s = (case sign_of (dropWhile isspace s) of (neg, t) \<Rightarrow>
     let v = (if neg then - int (read_digits 10 0 t) else int (read_digits 10 0 t))
     in sint (word_of_int (max (- (2 ^ 63)) (min (2 ^ 63 - 1) v)) :: u32))"

definition strtoull0 :: "string \<Rightarrow> u64" where
  "strtoull0 s = (case sign_of (dropWhile isspace s) of (neg, t) \<Rightarrow>
     let v = (case t of
           c # x # d # r \<Rightarrow> if c = CHR ''0'' \<and> (x = CHR ''x'' \<or> x = CHR ''X'') \<and>
               (case digit d of Some n \<Rightarrow> n < 16 | None \<Rightarrow> False) then read_digits 16 0 (d # r)
             else if c = CHR ''0'' then read_digits 8 0 t else read_digits 10 0 t
         | c # r \<Rightarrow> if c = CHR ''0'' then read_digits 8 0 t else read_digits 10 0 t
         | [] \<Rightarrow> 0)
     in if 2 ^ 64 \<le> v then - 1 else if neg then - word_of_nat v else word_of_nat v)"

section \<open>Settings\<close>

definition MAX_LINE_LEN :: nat where "MAX_LINE_LEN = 256"
definition MAX_KEY_LEN :: nat where "MAX_KEY_LEN = 100"
definition MAX_VALUE_LEN :: nat where "MAX_VALUE_LEN = 156"
definition MAX_OPTIONS_NUM :: nat where "MAX_OPTIONS_NUM = 100"

record config_option =
  key :: string
  val :: string

datatype system_mode = MEMORY_MODE | COMPUTE_MODE | HYBRID_MODE
datatype comm_type = TCP | UDP | RDMA

record host_conf =
  host_id :: nat
  ip :: string
  username :: string
  password :: string

text \<open>\<open>hosts\<close> are the entries of the array that are in use, \<open>hostc\<close> of them.\<close>

record setting =
  set_mode :: system_mode
  set_comm :: comm_type
  set_start_addr :: u64
  set_buffer_size :: int
  set_queue_size :: int
  set_pid :: nat
  set_hosts :: "host_conf list"
  set_options :: "config_option list"
  set_optionc :: nat
  set_prefetch :: bool
  set_prefetch_pages :: int
  set_checking_pages :: int

definition set_hostc :: "setting \<Rightarrow> nat" where
  "set_hostc s = length (set_hosts s)"

definition system_setting :: setting where
  "system_setting = \<lparr>set_mode = MEMORY_MODE, set_comm = UDP, set_start_addr = 0, set_buffer_size = 48,
     set_queue_size = 32, set_pid = 0, set_hosts = [], set_options = [], set_optionc = 0,
     set_prefetch = False, set_prefetch_pages = 0, set_checking_pages = 0\<rparr>"

section \<open>Options\<close>

text \<open>\<open>trim\<close>: the end moves back as long as it is past the start.\<close>

function trim_end :: "string \<Rightarrow> string" where
  "trim_end s = (if 1 < length s \<and> isspace (last s) then trim_end (butlast s) else s)"
  by pat_completeness auto
termination by (relation "measure length") auto

declare trim_end.simps [simp del]

definition trim :: "string \<Rightarrow> string" where
  "trim s = trim_end (dropWhile isspace s)"

text \<open>\<open>line[strcspn(line, "\n")] = 0\<close>, and the string that ends at the first NUL.\<close>

definition chomp :: "string \<Rightarrow> string" where
  "chomp s = takeWhile (\<lambda>c. c \<noteq> newline \<and> c \<noteq> NUL) s"

definition parse_option :: "string \<Rightarrow> config_option option res" where
  "parse_option line =
     (if line = [] \<or> hd line = CHR ''#'' \<or> CHR ''='' \<notin> set line then Inr None
      else let k = takeWhile (\<lambda>c. c \<noteq> CHR ''='') line
        in bindE (assertE (length k < MAX_KEY_LEN) (OutOfBounds ''key'')) (\<lambda>_.
           Inr (Some \<lparr>key = trim k, val = trim (take (MAX_VALUE_LEN - 1) (drop (length k + 1) line))\<rparr>)))"

definition add_option :: "config_option \<Rightarrow> setting \<Rightarrow> setting res" where
  "add_option opt s = bindE (assertE (set_optionc s < MAX_OPTIONS_NUM) (OutOfBounds ''options'')) (\<lambda>_.
     Inr (s\<lparr>set_options := take (set_optionc s) (set_options s) @ [opt],
            set_optionc := set_optionc s + 1\<rparr>))"

function read_options :: "string \<Rightarrow> setting \<Rightarrow> setting res" where
  "read_options file s = (if file = [] then Inr s
     else let (line, rest) = fgets (MAX_LINE_LEN - 1) file
       in bindE (parse_option (chomp line)) (\<lambda>opt.
          bindE (case opt of None \<Rightarrow> Inr s | Some opt \<Rightarrow> add_option opt s) (read_options rest)))"
  by pat_completeness auto
termination
  by (relation "measure (length \<circ> fst)")
    (auto simp: MAX_LINE_LEN_def numeral_eq_Suc dest: fgets_progress [OF sym])

declare read_options.simps [simp del]

text \<open>The chain of comparisons of one option; an unknown one makes the loop one round shorter.\<close>

definition apply_option :: "config_option \<Rightarrow> setting \<Rightarrow> setting" where
  "apply_option opt s =
     (if key opt = ''system_mode''
      then if val opt = ''memory'' then s\<lparr>set_mode := MEMORY_MODE\<rparr>
           else if val opt = ''compute'' then s\<lparr>set_mode := COMPUTE_MODE\<rparr>
           else if val opt = ''hybrid'' then s\<lparr>set_mode := HYBRID_MODE\<rparr> else s
      else if key opt = ''comm_type''
      then if val opt = ''tcp'' then s\<lparr>set_comm := TCP\<rparr>
           else if val opt = ''udp'' then s\<lparr>set_comm := UDP\<rparr>
           else if val opt = ''rdma'' then s\<lparr>set_comm := RDMA\<rparr> else s
      else if key opt = ''global_start_addr'' then s\<lparr>set_start_addr := strtoull0 (val opt)\<rparr>
      else if key opt = ''msg_buffer_size'' then s\<lparr>set_buffer_size := atoi (val opt)\<rparr>
      else if key opt = ''msg_queue_size'' then s\<lparr>set_queue_size := atoi (val opt)\<rparr>
      else if key opt = ''prefetch'' then s\<lparr>set_prefetch := val opt = ''on''\<rparr>
      else if key opt = ''prefetch_pages''
      then if \<not> set_prefetch s then s\<lparr>set_prefetch_pages := 0\<rparr>
           else s\<lparr>set_prefetch_pages := atoi (val opt) smod 9\<rparr>
      else if key opt = ''max_checking_pages''
      then s\<lparr>set_checking_pages := (if atoi (val opt) \<ge> int (Maxsize div Pagesize)
             then int (Maxsize div Pagesize) else atoi (val opt))\<rparr>
      else s\<lparr>set_optionc := set_optionc s - 1\<rparr>)"

lemma apply_option_optionc: "set_optionc (apply_option opt s) \<le> set_optionc s"
  by (simp add: apply_option_def)

function apply_options :: "nat \<Rightarrow> setting \<Rightarrow> setting" where
  "apply_options i s = (if i < set_optionc s
     then apply_options (i + 1) (apply_option (set_options s ! i) s) else s)"
  by pat_completeness auto
termination
  by (relation "measure (\<lambda>(i, s). set_optionc s - i)")
    (auto intro: le_less_trans [OF diff_le_mono [OF apply_option_optionc]])

declare apply_options.simps [simp del]

definition get_options :: "string option \<Rightarrow> setting \<Rightarrow> setting res" where
  "get_options file s = (case file of None \<Rightarrow> Inl (Exit 1)
     | Some text \<Rightarrow> bindE (read_options text s) (\<lambda>s. Inr (apply_options 0 s)))"

section \<open>Hosts\<close>

text \<open>A conversion \<open>%n[set]\<close> of \<open>sscanf\<close>, and a space in its format.\<close>

definition scan_set :: "nat \<Rightarrow> (char \<Rightarrow> bool) \<Rightarrow> string \<Rightarrow> (string \<times> string) option" where
  "scan_set n p s = (let t = take n (takeWhile p s)
     in if t = [] then None else Some (t, drop (length t) s))"

definition ip_char :: "char \<Rightarrow> bool" where
  "ip_char c \<longleftrightarrow> c = CHR ''.'' \<or> (48 \<le> (of_char c :: nat) \<and> (of_char c :: nat) \<le> 57)"

definition scan_host :: "string \<Rightarrow> (string \<times> string \<times> string) option" where
  "scan_host line = (case scan_set 15 ip_char line of None \<Rightarrow> None
     | Some (a, r) \<Rightarrow> (case scan_set 31 (\<lambda>c. c \<noteq> CHR '' '') (dropWhile isspace r) of None \<Rightarrow> None
     | Some (u, r) \<Rightarrow> (case scan_set 31 (\<lambda>c. c \<noteq> CHR '' '') (dropWhile isspace r) of None \<Rightarrow> None
     | Some (p, r) \<Rightarrow> Some (a, u, p))))"

definition add_host :: "string \<Rightarrow> setting \<Rightarrow> setting" where
  "add_host line s = (case scan_host line of
     Some (a, u, p) \<Rightarrow> s\<lparr>set_hosts := set_hosts s @
       [\<lparr>host_id = set_hostc s, ip = a, username = u, password = p\<rparr>]\<rparr>
   | None \<Rightarrow> s)"

function read_hosts :: "string \<Rightarrow> setting \<Rightarrow> setting" where
  "read_hosts file s = (if file = [] then s
     else let (l, rest) = fgets (MAX_LINE_LEN - 1) file; line = chomp l
       in if length line = 1 \<or> line = [] \<or> hd line = CHR ''#'' then read_hosts rest s
          else let s = add_host line s in if Maxhosts \<le> set_hostc s then s else read_hosts rest s)"
  by pat_completeness auto
termination
  by (relation "measure (length \<circ> fst)")
    (auto simp: MAX_LINE_LEN_def numeral_eq_Suc dest: fgets_progress [OF sym])

declare read_hosts.simps [simp del]

definition get_hosts :: "string option \<Rightarrow> setting \<Rightarrow> int \<times> setting" where
  "get_hosts file s = (let s = s\<lparr>set_hosts := []\<rparr>
     in case file of None \<Rightarrow> (- 1, s) | Some text \<Rightarrow> (0, read_hosts text s))"

section \<open>The number of this host\<close>

fun host_index :: "string \<Rightarrow> host_conf list \<Rightarrow> nat option" where
  "host_index a [] = None"
| "host_index a (h # hs) = (if ip h = a then Some 0 else map_option Suc (host_index a hs))"

text \<open>\<open>ifs\<close>: the addresses of the AF_INET interfaces as \<open>getifaddrs\<close> and \<open>inet_ntop\<close> report them.\<close>

fun find_id :: "string list \<Rightarrow> setting \<Rightarrow> int \<times> setting" where
  "find_id [] s = (- 1, s)"
| "find_id (a # ifs) s = (case host_index a (set_hosts s) of
     Some i \<Rightarrow> (0, s\<lparr>set_pid := i\<rparr>) | None \<Rightarrow> find_id ifs s)"

definition get_id :: "string list option \<Rightarrow> setting \<Rightarrow> int \<times> setting" where
  "get_id ifs s = (case ifs of None \<Rightarrow> (- 1, s) | Some ifs \<Rightarrow> find_id ifs s)"

definition init_setting ::
  "string option \<Rightarrow> string option \<Rightarrow> string list option \<Rightarrow> setting \<Rightarrow> (int \<times> setting) res" where
  "init_setting conf hosts ifs s = bindE (get_options conf s) (\<lambda>s.
     case get_hosts hosts s of (ret, s) \<Rightarrow>
       if ret \<noteq> 0 then Inr (- 1, s)
       else let s = (if set_hostc s = 1 \<and> set_comm s = RDMA then s\<lparr>set_comm := UDP\<rparr> else s)
         in case get_id ifs s of (ret, s) \<Rightarrow> Inr (if ret \<noteq> 0 then - 1 else 0, s))"

section \<open>What \<open>trim\<close> leaves\<close>

definition trimmed :: "string \<Rightarrow> bool" where
  "trimmed s \<longleftrightarrow> s = [] \<or> \<not> isspace (hd s) \<and> \<not> isspace (last s)"

lemma trim_end_split:
  assumes "s = [] \<or> \<not> isspace (hd s)"
  shows "\<exists>b. s = trim_end s @ b \<and> list_all isspace b \<and> trimmed (trim_end s)"
  using assms
proof (induction s rule: trim_end.induct)
  case (1 s)
  show ?case
  proof (cases "1 < length s \<and> isspace (last s)")
    case True
    then have ne: "s \<noteq> []" "butlast s \<noteq> []" "hd (butlast s) = hd s"
      by (cases s rule: rev_cases; force simp: hd_append)+
    then obtain b where b: "butlast s = trim_end (butlast s) @ b" "list_all isspace b" "trimmed (trim_end (butlast s))"
      using "1.IH" [OF True] "1.prems" by auto
    have e: "trim_end s = trim_end (butlast s)" using True by (simp add: trim_end.simps [of s])
    have "s = trim_end s @ (b @ [last s])"
      unfolding e using b(1) ne(1) by (metis append_assoc append_butlast_last_id)
    then show ?thesis using b True unfolding e by (intro exI [of _ "b @ [last s]"]) simp
  next
    case False
    then have "trim_end s = s" by (subst trim_end.simps) (simp only: if_False)
    moreover have "trimmed s"
      using "1.prems" False by (cases s rule: rev_cases) (auto simp: trimmed_def hd_append split: if_splits)
    ultimately show ?thesis by simp
  qed
qed

text \<open>
  \<open>trim\<close> removes exactly the leading and trailing whitespace of a string: what it cuts off on
  both sides is whitespace, and what it leaves is empty or starts and ends with something else.
\<close>

lemma trim_correct:
  "\<exists>a b. s = a @ trim s @ b \<and> list_all isspace a \<and> list_all isspace b \<and> trimmed (trim s)"
proof -
  have "dropWhile isspace s = [] \<or> \<not> isspace (hd (dropWhile isspace s))"
    using hd_dropWhile by blast
  then obtain b where b: "dropWhile isspace s = trim s @ b" "list_all isspace b" "trimmed (trim s)"
    using trim_end_split unfolding trim_def by blast
  have "s = takeWhile isspace s @ trim s @ b" by (metis b(1) takeWhile_dropWhile_id)
  moreover have "list_all isspace (takeWhile isspace s)" by (simp add: list_all_iff) (metis set_takeWhileD)
  ultimately show ?thesis using b by blast
qed

lemma trim_trimmed: "trimmed s \<Longrightarrow> trim s = s"
  by (cases s) (auto simp: trim_def trimmed_def trim_end.simps)

section \<open>Reading what was written\<close>

lemma fgets_line:
  "newline \<notin> set l \<Longrightarrow> length l < n \<Longrightarrow> fgets n (l @ newline # r) = (l @ [newline], r)"
proof (induction l arbitrary: n)
  case Nil
  then show ?case by (cases n) auto
next
  case (Cons c l)
  then show ?case by (cases n) auto
qed

lemma chomp_line: "newline \<notin> set l \<Longrightarrow> NUL \<notin> set l \<Longrightarrow> chomp (l @ [newline]) = l"
  by (induction l) (auto simp: chomp_def)

text \<open>An option as a line of the file.\<close>

definition conf_line :: "config_option \<Rightarrow> string" where
  "conf_line opt = key opt @ ''='' @ val opt @ [newline]"

definition conf_ok :: "config_option \<Rightarrow> bool" where
  "conf_ok opt \<longleftrightarrow> key opt \<noteq> [] \<and> hd (key opt) \<noteq> CHR ''#'' \<and> CHR ''='' \<notin> set (key opt) \<and>
     newline \<notin> set (key opt @ val opt) \<and> NUL \<notin> set (key opt @ val opt) \<and>
     trimmed (key opt) \<and> trimmed (val opt) \<and> length (key opt) < MAX_KEY_LEN \<and>
     length (val opt) < MAX_VALUE_LEN \<and> length (conf_line opt) < MAX_LINE_LEN"

lemma parse_conf_line:
  assumes "conf_ok opt"
  shows "parse_option (key opt @ ''='' @ val opt) = Inr (Some opt)"
proof -
  have "takeWhile (\<lambda>c. c \<noteq> CHR ''='') (key opt @ ''='' @ val opt) = key opt"
    using assms by (subst takeWhile_append2) (auto simp: conf_ok_def)
  moreover have "hd (key opt @ ''='' @ val opt) = hd (key opt)" using assms by (simp add: conf_ok_def)
  ultimately show ?thesis
    using assms by (auto simp: parse_option_def conf_ok_def trim_trimmed)
qed

lemma read_conf:
  assumes "list_all conf_ok opts" "set_optionc s + length opts \<le> MAX_OPTIONS_NUM"
    "length (set_options s) = set_optionc s"
  shows "read_options (concat (map conf_line opts)) s =
    Inr (s\<lparr>set_options := set_options s @ opts, set_optionc := set_optionc s + length opts\<rparr>)"
  using assms
proof (induction opts arbitrary: s)
  case Nil
  show ?case by (simp add: read_options.simps)
next
  case (Cons opt opts)
  let ?l = "key opt @ ''='' @ val opt"
  let ?s = "s\<lparr>set_options := set_options s @ [opt], set_optionc := set_optionc s + 1\<rparr>"
  have ok: "conf_ok opt" and nl: "newline \<notin> set ?l" "NUL \<notin> set ?l" "length ?l < MAX_LINE_LEN - 1"
    using Cons.prems(1) by (auto simp: conf_ok_def conf_line_def newline_def NUL_def)
  have "concat (map conf_line (opt # opts)) = ?l @ newline # concat (map conf_line opts)"
    by (simp add: conf_line_def)
  then have "fgets (MAX_LINE_LEN - 1) (concat (map conf_line (opt # opts))) = (?l @ [newline], concat (map conf_line opts))"
    using fgets_line [OF nl(1,3)] by simp
  moreover have "add_option opt s = Inr ?s" using Cons.prems(2,3) by (simp add: add_option_def)
  ultimately have "read_options (concat (map conf_line (opt # opts))) s = read_options (concat (map conf_line opts)) ?s"
    using parse_conf_line [OF ok] chomp_line [OF nl(1,2)]
    by (subst read_options.simps) (simp add: conf_line_def)
  then show ?case using Cons.IH [of ?s] Cons.prems by simp
qed

definition known_keys :: "string list" where
  "known_keys = [''system_mode'', ''comm_type'', ''global_start_addr'', ''msg_buffer_size'',
     ''msg_queue_size'', ''prefetch'', ''prefetch_pages'', ''max_checking_pages'']"

lemma apply_option_frame:
  "set_options (apply_option opt s) = set_options s" "set_hosts (apply_option opt s) = set_hosts s"
  "set_pid (apply_option opt s) = set_pid s"
  "key opt \<in> set known_keys \<Longrightarrow> set_optionc (apply_option opt s) = set_optionc s"
  "key opt \<notin> set known_keys \<Longrightarrow> apply_option opt s = s\<lparr>set_optionc := set_optionc s - 1\<rparr>"
  by (auto simp: apply_option_def known_keys_def)

text \<open>The loop while the options are known.\<close>

lemma apply_options_known:
  assumes "\<forall>opt\<in>set opts. key opt \<in> set known_keys" "drop i (set_options s) = opts @ rest"
    "i + length opts \<le> set_optionc s"
  shows "apply_options i s = apply_options (i + length opts) (fold apply_option opts s) \<and>
    set_options (fold apply_option opts s) = set_options s \<and>
    set_optionc (fold apply_option opts s) = set_optionc s"
  using assms
proof (induction opts arbitrary: i s)
  case (Cons opt opts)
  let ?s = "apply_option opt s"
  have "set_options s ! i = opt" "i < length (set_options s)"
    using Cons.prems(2) by (metis append_Cons nth_via_drop) (metis Cons.prems(2) append_Cons drop_all list.distinct(1) not_le)
  moreover have "drop (i + 1) (set_options ?s) = opts @ rest"
    using Cons.prems(2) by (simp add: apply_option_frame) (metis append_Cons drop_Suc list.sel(3) tl_drop)
  ultimately show ?case
    using Cons.IH [of "i + 1" ?s] Cons.prems by (simp add: apply_option_frame apply_options.simps [of i])
qed simp

text \<open>
  A configuration that is written out, one option per line, is read back and applied: when all
  its options are known, reading the file gives the setting that applying them one after the other,
  in the order of the file, gives.
\<close>

theorem get_options_roundtrip:
  assumes "list_all conf_ok opts" "length opts \<le> MAX_OPTIONS_NUM" "\<forall>opt\<in>set opts. key opt \<in> set known_keys"
    "set_optionc s = 0" "set_options s = []"
  shows "get_options (Some (concat (map conf_line opts))) s =
    Inr (fold apply_option opts (s\<lparr>set_options := opts, set_optionc := length opts\<rparr>))"
  using assms read_conf [OF assms(1), of s]
    apply_options_known [OF assms(3), of 0 "s\<lparr>set_options := opts, set_optionc := length opts\<rparr>" "[]"]
  by (simp add: get_options_def apply_options.simps [of "length opts"])

text \<open>
  An unknown option costs the last one: if one of the options is unknown and there are others
  behind it, the last option of the file is read but not applied, although it is known, and the
  number of options is one less than the file has.
\<close>

lemma unknown_option_drops_last:
  assumes "list_all conf_ok (pre @ [u] @ post @ [z])" "length (pre @ [u] @ post @ [z]) \<le> MAX_OPTIONS_NUM"
    "\<forall>opt\<in>set (pre @ post). key opt \<in> set known_keys" "key u \<notin> set known_keys"
    "set_optionc s = 0" "set_options s = []"
  shows "get_options (Some (concat (map conf_line (pre @ [u] @ post @ [z])))) s =
    Inr (fold apply_option (pre @ post) (s\<lparr>set_options := pre @ [u] @ post @ [z],
      set_optionc := length pre + length post + 2\<rparr>)\<lparr>set_optionc := length pre + length post + 1\<rparr>)"
proof -
  let ?os = "pre @ [u] @ post @ [z]"
  let ?s0 = "s\<lparr>set_options := ?os, set_optionc := length pre + length post + 2\<rparr>"
  let ?s1 = "fold apply_option pre ?s0"
  let ?s2 = "apply_option u ?s1"
  have u: "?s2 = ?s1\<lparr>set_optionc := length pre + length post + 1\<rparr>"
    using apply_options_known [of pre 0 ?s0 "[u] @ post @ [z]"] assms(3,4) by (simp add: apply_option_frame)
  have one: "apply_option opt (t\<lparr>set_optionc := n\<rparr>) = apply_option opt t\<lparr>set_optionc := n\<rparr>"
    if "key opt \<in> set known_keys" for opt t n
    using that unfolding known_keys_def set_simps
    by (elim insertE emptyE) (simp_all add: apply_option_def)
  have comm: "fold apply_option opts (t\<lparr>set_optionc := n\<rparr>) = fold apply_option opts t\<lparr>set_optionc := n\<rparr>"
    if "\<forall>opt\<in>set opts. key opt \<in> set known_keys" for opts t n
    using that by (induction opts arbitrary: t) (simp_all add: one)
  have "apply_options 0 ?s0 = apply_options (length pre) ?s1" "set_options ?s1 = ?os"
    "set_optionc ?s1 = length pre + length post + 2"
    using apply_options_known [of pre 0 ?s0 "[u] @ post @ [z]"] assms(3) by simp_all
  moreover from this have "apply_options (length pre) ?s1 = apply_options (length pre + 1) ?s2"
    by (subst apply_options.simps) simp
  moreover have "apply_options (length pre + 1) ?s2 = fold apply_option post ?s2"
  proof -
    have f: "set_options ?s2 = ?os" "set_optionc ?s2 = length pre + length post + 1"
      unfolding u using calculation(2) by simp_all
    have "apply_options (length pre + 1) ?s2 = apply_options (length pre + 1 + length post) (fold apply_option post ?s2)"
      "set_optionc (fold apply_option post ?s2) = length pre + length post + 1"
      using apply_options_known [of post "length pre + 1" ?s2 "[z]"] assms(3) unfolding f by simp_all
    then show ?thesis by (simp add: apply_options.simps [of "Suc (length pre + length post)"])
  qed
  ultimately have "apply_options 0 ?s0 = fold apply_option post ?s2" by simp
  also have "\<dots> = fold apply_option (pre @ post) ?s0\<lparr>set_optionc := length pre + length post + 1\<rparr>"
    using comm [of post _ ?s1] assms(3) unfolding u by simp
  finally have "apply_options 0 ?s0 = fold apply_option (pre @ post) ?s0\<lparr>set_optionc := length pre + length post + 1\<rparr>" .
  then show ?thesis using assms(2,5,6) read_conf [OF assms(1), of s] by (simp add: get_options_def)
qed


text \<open>Adding a line \<open>debug = on\<close> in front makes the communication type that is set last have no effect.\<close>

definition demo_conf :: "config_option list" where
  "demo_conf = [\<lparr>key = ''prefetch'', val = ''on''\<rparr>, \<lparr>key = ''msg_queue_size'', val = ''64''\<rparr>]"

lemma demo_conf_ok: "list_all conf_ok ([] @ [\<lparr>key = ''debug'', val = ''on''\<rparr>] @ demo_conf @ [\<lparr>key = ''comm_type'', val = ''tcp''\<rparr>])"
  by (simp add: demo_conf_def conf_ok_def conf_line_def newline_def NUL_def trimmed_def isspace_def
      MAX_KEY_LEN_def MAX_VALUE_LEN_def MAX_LINE_LEN_def)

lemma get_options_roundtrip_witness:
  "\<exists>s. get_options (Some (concat (map conf_line demo_conf))) system_setting = Inr s \<and>
     set_prefetch s \<and> set_queue_size s = 64"
proof -
  have ok: "list_all conf_ok demo_conf" using demo_conf_ok by simp
  have "\<forall>opt\<in>set demo_conf. key opt \<in> set known_keys" by (simp add: demo_conf_def known_keys_def)
  then have "get_options (Some (concat (map conf_line demo_conf))) system_setting =
      Inr (fold apply_option demo_conf (system_setting\<lparr>set_options := demo_conf, set_optionc := length demo_conf\<rparr>))"
    by (intro get_options_roundtrip [OF ok]) (simp_all add: demo_conf_def MAX_OPTIONS_NUM_def system_setting_def)
  moreover have "atoi ''64'' = 64"
    by (simp add: atoi_def sign_of_def isspace_def digit_def Let_def)
  ultimately show ?thesis by (simp add: demo_conf_def apply_option_def)
qed

lemma unknown_option_drops_last_witness:
  "\<exists>s. get_options (Some (concat (map conf_line ([\<lparr>key = ''debug'', val = ''on''\<rparr>] @ demo_conf @
     [\<lparr>key = ''comm_type'', val = ''tcp''\<rparr>])))) system_setting = Inr s \<and> set_comm s = UDP"
proof -
  have k: "length ([] @ [\<lparr>key = ''debug'', val = ''on''\<rparr>] @ demo_conf @ [\<lparr>key = ''comm_type'', val = ''tcp''\<rparr>]) \<le> MAX_OPTIONS_NUM"
    "\<forall>opt\<in>set ([] @ demo_conf). key opt \<in> set known_keys"
    "key \<lparr>key = ''debug'', val = ''on''\<rparr> \<notin> set known_keys"
    "set_optionc system_setting = 0" "set_options system_setting = []"
    by (simp_all add: demo_conf_def known_keys_def MAX_OPTIONS_NUM_def system_setting_def)
  show ?thesis
    using unknown_option_drops_last [OF demo_conf_ok k]
    by (simp add: demo_conf_def apply_option_def system_setting_def)
qed

section \<open>The hosts\<close>

definition host_line :: "string \<times> string \<times> string \<Rightarrow> string" where
  "host_line h = (case h of (a, u, p) \<Rightarrow> a @ '' '' @ u @ '' '' @ p @ [newline])"

definition word_ok :: "string \<Rightarrow> bool" where
  "word_ok w \<longleftrightarrow> w \<noteq> [] \<and> length w \<le> 31 \<and> (\<forall>c\<in>set w. \<not> isspace c \<and> c \<noteq> NUL)"

definition host_ok :: "string \<times> string \<times> string \<Rightarrow> bool" where
  "host_ok h = (case h of (a, u, p) \<Rightarrow> a \<noteq> [] \<and> length a \<le> 15 \<and> list_all ip_char a \<and> word_ok u \<and> word_ok p)"

lemma scan_set_run:
  assumes "w \<noteq> []" "length w \<le> n" "\<forall>c\<in>set w. p c" "r = [] \<or> \<not> p (hd r)"
  shows "scan_set n p (w @ r) = Some (w, r)"
proof -
  have "takeWhile p (w @ r) = w" using assms(3,4) by (cases r) (auto simp: takeWhile_append2)
  then show ?thesis using assms(1,2) by (simp add: scan_set_def)
qed

lemma ip_char_plain: "ip_char c \<Longrightarrow> \<not> isspace c \<and> c \<noteq> NUL \<and> c \<noteq> CHR ''#'' \<and> c \<noteq> newline"
  by (auto simp: ip_char_def isspace_def NUL_def newline_def)

lemma scan_host_line:
  assumes "host_ok (a, u, p)"
  shows "scan_host (a @ '' '' @ u @ '' '' @ p) = Some (a, u, p)"
proof -
  let ?ns = "\<lambda>c. c \<noteq> CHR '' ''"
  have sp: "isspace (CHR '' '')" "\<not> ip_char (CHR '' '')" by (simp_all add: isspace_def ip_char_def)
  have w: "dropWhile isspace ('' '' @ w @ r) = w @ r" "\<forall>c\<in>set w. ?ns c" if "word_ok w" for w r
    using that sp by (cases w; force simp: word_ok_def)+
  have "scan_set 15 ip_char (a @ '' '' @ u @ '' '' @ p) = Some (a, '' '' @ u @ '' '' @ p)"
    by (rule scan_set_run) (use assms sp in \<open>auto simp: host_ok_def list_all_iff\<close>)
  moreover have "scan_set 31 ?ns (u @ '' '' @ p) = Some (u, '' '' @ p)"
    by (rule scan_set_run) (use assms w [of u] in \<open>auto simp: host_ok_def word_ok_def\<close>)
  moreover have "scan_set 31 ?ns (p @ []) = Some (p, [])"
    by (rule scan_set_run) (use assms w [of p] in \<open>auto simp: host_ok_def word_ok_def\<close>)
  moreover have "dropWhile isspace ('' '' @ u @ '' '' @ p) = u @ '' '' @ p" "dropWhile isspace ('' '' @ p) = p"
    using assms w(1) [of u "'' '' @ p"] w(1) [of p "[]"] by (simp_all add: host_ok_def)
  ultimately show ?thesis by (simp add: scan_host_def)
qed

text \<open>The entries the first lines give, numbered from \<open>n\<close>.\<close>

definition host_entries :: "nat \<Rightarrow> (string \<times> string \<times> string) list \<Rightarrow> host_conf list" where
  "host_entries n hs = map (\<lambda>(i, a, u, p). \<lparr>host_id = i, ip = a, username = u, password = p\<rparr>)
     (zip [n..<n + length hs] hs)"

lemma host_entries_Cons: "host_entries n ((a, u, p) # hs) =
    \<lparr>host_id = n, ip = a, username = u, password = p\<rparr> # host_entries (n + 1) hs"
  unfolding host_entries_def by (subst upt_conv_Cons) simp_all

lemma read_hosts_lines:
  assumes "list_all host_ok hs" "set_hostc s < Maxhosts"
  shows "read_hosts (concat (map host_line hs)) s =
    s\<lparr>set_hosts := set_hosts s @ host_entries (set_hostc s) (take (Maxhosts - set_hostc s) hs)\<rparr>"
  using assms
proof (induction hs arbitrary: s)
  case Nil
  show ?case by (simp add: read_hosts.simps host_entries_def)
next
  case (Cons h hs)
  obtain a u p where h: "h = (a, u, p)" by (cases h)
  let ?l = "a @ '' '' @ u @ '' '' @ p"
  let ?s = "s\<lparr>set_hosts := set_hosts s @ [\<lparr>host_id = set_hostc s, ip = a, username = u, password = p\<rparr>]\<rparr>"
  have ok: "host_ok (a, u, p)" using Cons.prems(1) h by simp
  have set: "\<forall>c\<in>set a. \<not> isspace c \<and> c \<noteq> NUL \<and> c \<noteq> newline" "\<forall>c\<in>set (u @ p). \<not> isspace c \<and> c \<noteq> NUL"
    "length a \<le> 15" "length u \<le> 31" "length p \<le> 31" "a \<noteq> []" "u \<noteq> []"
    using ok ip_char_plain by (auto simp: host_ok_def word_ok_def list_all_iff)
  have "isspace newline" "\<not> isspace NUL" "CHR '' '' \<noteq> NUL" "CHR '' '' \<noteq> newline"
    by (simp_all add: isspace_def newline_def NUL_def)
  then have l: "newline \<notin> set ?l" "NUL \<notin> set ?l" "length ?l < MAX_LINE_LEN - 1"
    using set by (auto simp: MAX_LINE_LEN_def)
  have hd: "hd ?l \<noteq> CHR ''#''" "?l \<noteq> []" "length ?l \<noteq> 1"
    using set ok ip_char_plain by (cases a; auto simp: host_ok_def)+
  have "fgets (MAX_LINE_LEN - 1) (concat (map host_line (h # hs))) = (?l @ [newline], concat (map host_line hs))"
    using fgets_line [OF l(1,3)] by (simp add: h host_line_def)
  moreover have "add_host ?l s = ?s" using scan_host_line [OF ok] by (simp add: add_host_def)
  moreover have "host_line h \<noteq> []" using set(6) by (simp add: h host_line_def)
  ultimately have run: "read_hosts (concat (map host_line (h # hs))) s =
      (if Maxhosts \<le> set_hostc ?s then ?s else read_hosts (concat (map host_line hs)) ?s)"
    using hd chomp_line [OF l(1,2)] by (subst read_hosts.simps) (simp add: Let_def del: concat.simps list.map)
  have c: "set_hostc ?s = set_hostc s + 1" by (simp add: set_hostc_def)
  show ?case
  proof (cases "Maxhosts \<le> set_hostc s + 1")
    case True
    then have "Maxhosts - set_hostc s = 1" using Cons.prems(2) by simp
    then have "take (Maxhosts - set_hostc s) (h # hs) = [h]" by simp
    then show ?thesis using True run c by (simp add: h host_entries_Cons) (simp add: host_entries_def)
  next
    case False
    obtain d where d: "Maxhosts - set_hostc s = Suc d" "Maxhosts - (set_hostc s + 1) = d"
      using Cons.prems(2) by (cases "Maxhosts - set_hostc s") auto
    show ?thesis using False run Cons.IH [of ?s] Cons.prems(1) c d by (simp add: h host_entries_Cons)
  qed
qed

text \<open>
  A host file that is written out, one line per host with its address, user and password, is
  read back: the hosts are those of the first sixteen lines, numbered in their order.
\<close>

lemma get_hosts_roundtrip:
  assumes "list_all host_ok hs"
  shows "get_hosts (Some (concat (map host_line hs))) s =
    (0, s\<lparr>set_hosts := host_entries 0 (take Maxhosts hs)\<rparr>)"
  using read_hosts_lines [OF assms, of "s\<lparr>set_hosts := []\<rparr>"]
  by (simp add: get_hosts_def set_hostc_def Maxhosts_def)

section \<open>The setting a host starts with\<close>

text \<open>What the other components rely on.\<close>

definition setting_ok :: "setting \<Rightarrow> bool" where
  "setting_ok s \<longleftrightarrow> 0 < set_hostc s \<and> set_hostc s \<le> Maxhosts \<and> set_pid s < set_hostc s \<and>
     (\<forall>i < set_hostc s. host_id (set_hosts s ! i) = i) \<and> set_optionc s \<le> MAX_OPTIONS_NUM \<and>
     - 8 \<le> set_prefetch_pages s \<and> set_prefetch_pages s \<le> 8 \<and>
     set_checking_pages s \<le> int (Maxsize div Pagesize) \<and> (set_hostc s = 1 \<longrightarrow> set_comm s \<noteq> RDMA)"

definition options_ok :: "setting \<Rightarrow> bool" where
  "options_ok s \<longleftrightarrow> set_optionc s \<le> MAX_OPTIONS_NUM \<and> - 8 \<le> set_prefetch_pages s \<and> set_prefetch_pages s \<le> 8 \<and>
     set_checking_pages s \<le> int (Maxsize div Pagesize)"

lemma apply_option_ok: "options_ok s \<Longrightarrow> options_ok (apply_option opt s)"
proof -
  have "- 8 \<le> x smod 9 \<and> x smod 9 \<le> 8" for x :: int
    using smod_int_range [of 9 x] by simp
  then show "options_ok s \<Longrightarrow> options_ok (apply_option opt s)" by (auto simp: apply_option_def options_ok_def)
qed

lemma apply_options_ok: "options_ok s \<Longrightarrow> options_ok (apply_options i s)"
proof (induction i s rule: apply_options.induct)
  case (1 i s)
  then show ?case by (subst apply_options.simps) (simp add: apply_option_ok)
qed

lemma read_options_ok: "options_ok s \<Longrightarrow> read_options inp s = Inr s' \<Longrightarrow> options_ok s'"
proof (induction "length inp" arbitrary: inp s rule: less_induct)
  case less
  show ?case
  proof (cases "inp = []")
    case True
    then show ?thesis using less.prems by (simp add: read_options.simps)
  next
    case False
    obtain l r where lr: "fgets (MAX_LINE_LEN - 1) inp = (l, r)" by fastforce
    then have rl: "length r < length inp"
      using False fgets_progress [of 254 inp l r] by (simp add: MAX_LINE_LEN_def)
    obtain opt t where t: "parse_option (chomp l) = Inr opt"
      "(case opt of None \<Rightarrow> Inr s | Some opt \<Rightarrow> add_option opt s) = Inr t" "read_options r t = Inr s'"
      using less.prems(2) False lr by (subst (asm) read_options.simps) auto
    have "options_ok t" using t(2) less.prems(1)
      by (auto simp: add_option_def assertE_def options_ok_def split: option.splits if_splits)
    then show ?thesis using less.hyps [OF rl _ t(3)] by simp
  qed
qed

definition hosts_ok :: "setting \<Rightarrow> bool" where
  "hosts_ok s \<longleftrightarrow> set_hostc s \<le> Maxhosts \<and> (\<forall>i < set_hostc s. host_id (set_hosts s ! i) = i)"

lemma read_hosts_ok:
  "hosts_ok s \<Longrightarrow> set_hostc s < Maxhosts \<Longrightarrow> hosts_ok (read_hosts inp s) \<and> (options_ok s \<longrightarrow> options_ok (read_hosts inp s))"
proof (induction "length inp" arbitrary: inp s rule: less_induct)
  case less
  show ?case
  proof (cases "inp = []")
    case True
    then show ?thesis using less.prems by (simp add: read_hosts.simps)
  next
    case False
    obtain l r where lr: "fgets (MAX_LINE_LEN - 1) inp = (l, r)" by fastforce
    then have rl: "length r < length inp"
      using False fgets_progress [of 254 inp l r] by (simp add: MAX_LINE_LEN_def)
    let ?t = "add_host (chomp l) s"
    have t: "hosts_ok ?t" "options_ok s \<longrightarrow> options_ok ?t"
      using less.prems
      by (auto simp: add_host_def hosts_ok_def options_ok_def set_hostc_def nth_append less_Suc_eq split: option.splits)
    show ?thesis
      using t less.prems less.hyps [OF rl] False lr
      by (subst (1 2) read_hosts.simps) (auto simp: Let_def)
  qed
qed

lemma host_index_Some: "host_index a hs = Some i \<Longrightarrow> i < length hs \<and> ip (hs ! i) = a"
  by (induction hs arbitrary: i) (auto split: if_splits)

lemma find_id_Some: "find_id ifs s = (0, s') \<Longrightarrow>
    \<exists>i. s' = s\<lparr>set_pid := i\<rparr> \<and> i < set_hostc s \<and> ip (set_hosts s ! i) \<in> set ifs"
  by (induction ifs s rule: find_id.induct) (auto simp: set_hostc_def dest: host_index_Some split: option.splits)

lemma init_setting_run:
  assumes "init_setting conf hosts ifs s0 = Inr (0, s)" "set_optionc s0 = 0" "set_prefetch_pages s0 = 0"
    "set_checking_pages s0 = 0"
  shows "setting_ok s" "\<exists>l. ifs = Some l \<and> ip (set_hosts s ! set_pid s) \<in> set l"
    "\<exists>s2. (\<forall>ifs. init_setting conf hosts ifs s0 =
       Inr (case get_id ifs s2 of (ret, s) \<Rightarrow> (if ret \<noteq> 0 then - 1 else 0, s))) \<and> set_hosts s = set_hosts s2"
proof -
  obtain s1 where s1: "get_options conf s0 = Inr s1" using assms(1) by (auto simp: init_setting_def)
  have "options_ok s0" using assms(2-4) by (simp add: options_ok_def)
  then have o1: "options_ok s1"
    using s1 by (auto simp: get_options_def split: option.splits intro: apply_options_ok read_options_ok)
  obtain ret t where t: "get_hosts hosts s1 = (ret, t)" by fastforce
  then have r: "ret = 0" using assms(1) s1 by (auto simp: init_setting_def split: if_splits)
  then obtain inp where inp: "hosts = Some inp" "t = read_hosts inp (s1\<lparr>set_hosts := []\<rparr>)"
    using t by (auto simp: get_hosts_def Let_def split: option.splits)
  have "hosts_ok (s1\<lparr>set_hosts := []\<rparr>)" "set_hostc (s1\<lparr>set_hosts := []\<rparr>) < Maxhosts" "options_ok (s1\<lparr>set_hosts := []\<rparr>)"
    using o1 by (simp_all add: hosts_ok_def set_hostc_def Maxhosts_def options_ok_def)
  then have ht: "hosts_ok t" "options_ok t" using read_hosts_ok inp(2) by blast+
  let ?u = "if set_hostc t = 1 \<and> set_comm t = RDMA then t\<lparr>set_comm := UDP\<rparr> else t"
  have run: "init_setting conf hosts ifs s0 = Inr (case get_id ifs ?u of (ret, s) \<Rightarrow> (if ret \<noteq> 0 then - 1 else 0, s))" for ifs
    using s1 t r by (auto simp: init_setting_def Let_def split: prod.splits)
  moreover have "hosts_ok ?u" "options_ok ?u" "set_hostc ?u = 1 \<longrightarrow> set_comm ?u \<noteq> RDMA"
    using ht by (auto simp: hosts_ok_def options_ok_def set_hostc_def)
  ultimately obtain u where u: "hosts_ok u" "options_ok u" "set_hostc u = 1 \<longrightarrow> set_comm u \<noteq> RDMA"
    "\<forall>ifs. init_setting conf hosts ifs s0 = Inr (case get_id ifs u of (ret, s) \<Rightarrow> (if ret \<noteq> 0 then - 1 else 0, s))"
    by blast
  then obtain l where l: "ifs = Some l" "find_id l u = (0, s)"
    using assms(1) by (auto simp: get_id_def split: option.splits prod.splits if_splits)
  obtain i where i: "s = u\<lparr>set_pid := i\<rparr>" "i < set_hostc u" "ip (set_hosts u ! i) \<in> set l"
    using find_id_Some [OF l(2)] by blast
  have "0 < set_hostc u" using i(2) by simp
  then show "setting_ok s"
    using i(2) u(1-3) unfolding i(1) by (simp add: setting_ok_def hosts_ok_def options_ok_def set_hostc_def)
  show "\<exists>l. ifs = Some l \<and> ip (set_hosts s ! set_pid s) \<in> set l" using l(1) i(3) unfolding i(1) by simp
  have "set_hosts s = set_hosts u" unfolding i(1) by simp
  then show "\<exists>s2. (\<forall>ifs. init_setting conf hosts ifs s0 =
       Inr (case get_id ifs s2 of (ret, s) \<Rightarrow> (if ret \<noteq> 0 then - 1 else 0, s))) \<and> set_hosts s = set_hosts s2"
    using u(4) by blast
qed

text \<open>
  C31: Whatever the configuration and host files hold, a host that gets its setting has one to
  sixteen hosts, numbered by their positions, its own number is one of theirs and its address one
  of its interfaces, a single host does not use RDMA, and no more options are counted than the
  array holds. Of the numbers in the options the code bounds two: \<open>prefetch_pages\<close> is between -8
  and 8 (its comment says 0 to 8, but the remainder of a negative number is negative), and
  \<open>max_checking_pages\<close> is at most 10, which is one page more than a message holds, and may be
  negative. The sizes of the queues and of the message buffer and the start address are taken as
  they are.
\<close>

theorem init_setting_ok:
  assumes "init_setting conf hosts ifs system_setting = Inr (0, s)"
  shows "0 < set_hostc s \<and> set_hostc s \<le> 16 \<and> (\<forall>i < set_hostc s. host_id (set_hosts s ! i) = i) \<and>
    set_pid s < set_hostc s \<and> (\<exists>l. ifs = Some l \<and> ip (set_hosts s ! set_pid s) \<in> set l) \<and>
    (set_hostc s = 1 \<longrightarrow> set_comm s \<noteq> RDMA) \<and> set_optionc s \<le> MAX_OPTIONS_NUM \<and>
    - 8 \<le> set_prefetch_pages s \<and> set_prefetch_pages s \<le> 8 \<and> set_checking_pages s \<le> 10"
  using init_setting_run(1,2) [OF assms]
  by (simp add: system_setting_def setting_ok_def Maxhosts_def Maxsize_def Pagesize_def)

text \<open>
  C32: Hosts that read the same files and share no address agree on the list of hosts and take
  different numbers.
\<close>

theorem init_setting_distinct:
  assumes "init_setting conf hosts (Some l1) system_setting = Inr (0, s1)"
    "init_setting conf hosts (Some l2) system_setting = Inr (0, s2)" "set l1 \<inter> set l2 = {}"
  shows "set_hosts s1 = set_hosts s2 \<and> set_pid s1 \<noteq> set_pid s2"
proof -
  have d: "set_optionc system_setting = 0" "set_prefetch_pages system_setting = 0"
    "set_checking_pages system_setting = 0" by (simp_all add: system_setting_def)
  note r1 = init_setting_run [OF assms(1) d] and r2 = init_setting_run [OF assms(2) d]
  obtain t where t: "\<forall>ifs. init_setting conf hosts ifs system_setting =
      Inr (case get_id ifs t of (ret, s) \<Rightarrow> (if ret \<noteq> 0 then - 1 else 0, s))" "set_hosts s1 = set_hosts t"
    using r1(3) by blast
  have "find_id l2 t = (0, s2)"
    using spec [OF t(1), of "Some l2"] assms(2) by (auto simp: get_id_def split: prod.splits if_splits)
  then have "set_hosts s2 = set_hosts t" using find_id_Some by fastforce
  then show ?thesis using t(2) r1(2) r2(2) assms(3) by auto
qed

definition demo_hosts :: "(string \<times> string \<times> string) list" where
  "demo_hosts = [(''10.0.0.1'', ''jia'', ''x''), (''10.0.0.2'', ''jia'', ''x'')]"

lemma demo_hosts_ok: "list_all host_ok demo_hosts"
  by (simp add: demo_hosts_def host_ok_def word_ok_def ip_char_def isspace_def NUL_def)

lemma get_hosts_roundtrip_witness:
  "\<exists>s. get_hosts (Some (concat (map host_line demo_hosts))) system_setting = (0, s) \<and> set_hostc s = 2"
  using get_hosts_roundtrip [OF demo_hosts_ok, of system_setting]
  by (simp add: demo_hosts_def set_hostc_def host_entries_def Maxhosts_def)

lemma demo_init:
  assumes "a = ''10.0.0.1'' \<or> a = ''10.0.0.2''"
  shows "\<exists>s. init_setting (Some []) (Some (concat (map host_line demo_hosts))) (Some [a]) system_setting = Inr (0, s)"
  using assms read_hosts_lines [OF demo_hosts_ok, of "system_setting\<lparr>set_hosts := []\<rparr>"]
  by (auto simp: init_setting_def get_options_def read_options.simps apply_options.simps system_setting_def
      get_hosts_def Let_def set_hostc_def Maxhosts_def get_id_def demo_hosts_def host_entries_def)

lemma init_setting_ok_witness:
  "\<exists>s. init_setting (Some []) (Some (concat (map host_line demo_hosts))) (Some [''10.0.0.2''])
     system_setting = Inr (0, s) \<and> set_hostc s \<le> 16 \<and> set_pid s < set_hostc s \<and>
     ip (set_hosts s ! set_pid s) = ''10.0.0.2'' \<and> set_checking_pages s \<le> 10"
proof -
  obtain s where s: "init_setting (Some []) (Some (concat (map host_line demo_hosts))) (Some [''10.0.0.2''])
      system_setting = Inr (0, s)"
    using demo_init [of "''10.0.0.2''"] by (auto simp only: simp_thms)
  have "ip (set_hosts s ! set_pid s) = ''10.0.0.2''" "set_hostc s \<le> 16" "set_pid s < set_hostc s"
    "set_checking_pages s \<le> 10"
    using init_setting_ok [OF s] by simp_all
  then show ?thesis using s by (intro exI conjI)
qed

lemma init_setting_distinct_witness:
  "\<exists>s1 s2. init_setting (Some []) (Some (concat (map host_line demo_hosts))) (Some [''10.0.0.1'']) system_setting = Inr (0, s1) \<and>
     init_setting (Some []) (Some (concat (map host_line demo_hosts))) (Some [''10.0.0.2'']) system_setting = Inr (0, s2) \<and>
     set_pid s1 \<noteq> set_pid s2"
proof -
  obtain s1 s2 where s: "init_setting (Some []) (Some (concat (map host_line demo_hosts))) (Some [''10.0.0.1'']) system_setting = Inr (0, s1)"
    "init_setting (Some []) (Some (concat (map host_line demo_hosts))) (Some [''10.0.0.2'']) system_setting = Inr (0, s2)"
    using demo_init [of "''10.0.0.1''"] demo_init [of "''10.0.0.2''"] by (auto simp only: simp_thms)
  have d: "set [''10.0.0.1''] \<inter> set [''10.0.0.2''] = {}" by simp
  show ?thesis
    by (intro exI conjI, rule s(1), rule s(2), rule conjunct2 [OF init_setting_distinct [OF s d]])
qed

end
