(* ===== verification/Load.thy ===== *)
theory Load
  imports Barrier Complex_Main "HOL-Library.Signed_Division"
begin

text \<open>
  Load balancing, \<open>src/src/load/load.c\<close>: the hosts report the computing time of their last share
  to host 0, which weights their computing powers with it and sends the new powers to all; a loop
  is divided among the hosts evenly or by their powers. The machine's \<open>float\<close> arithmetic is an
  argument of the functions that calculate, the readings of the clock are arguments too.
\<close>

section \<open>State\<close>

text \<open>
  Arithmetic on \<open>float\<close>: \<open>below_delta x\<close> is the comparison \<open>x < Delta * Delta\<close> (in \<open>double\<close>),
  \<open>ftoint\<close> and \<open>fofint\<close> the conversions, \<open>fbytes\<close> and \<open>fread\<close> the bytes of a number in memory.
\<close>

record 'f farith =
  fadd :: "'f \<Rightarrow> 'f \<Rightarrow> 'f"
  fsub :: "'f \<Rightarrow> 'f \<Rightarrow> 'f"
  fmul :: "'f \<Rightarrow> 'f \<Rightarrow> 'f"
  fdiv :: "'f \<Rightarrow> 'f \<Rightarrow> 'f"
  below_delta :: "'f \<Rightarrow> bool"
  fofint :: "int \<Rightarrow> 'f"
  ftoint :: "'f \<Rightarrow> int"
  fbytes :: "'f \<Rightarrow> u8 list"
  fread :: "u8 list \<Rightarrow> 'f"

record 'f jiaload =
  l_power :: 'f
  l_time :: 'f
  l_begin :: int
  l_end :: int

record 'f loads =
  loadstat :: "nat \<Rightarrow> 'f jiaload"
  caltime :: 'f
  starttime :: 'f
  endtime :: 'f
  firsttime :: bool
  loadstart :: int
  loadend :: int
  loadwait :: int
  loadcnt :: int

definition upd_load :: "nat \<Rightarrow> ('f jiaload \<Rightarrow> 'f jiaload) \<Rightarrow> 'f loads \<Rightarrow> 'f loads" where
  "upd_load i f ld = ld\<lparr>loadstat := (loadstat ld)(i := f (loadstat ld i))\<rparr>"

definition initload :: "'f farith \<Rightarrow> 'f loads \<Rightarrow> 'f loads" where
  "initload fa ld = ld\<lparr>loadwait := 0, loadcnt := 0, firsttime := True, caltime := fofint fa 0\<rparr>"

section \<open>Reporting and balancing\<close>

text \<open>\<open>jia_loadbalance\<close> up to its wait, and the whole; the wait is what other threads do meanwhile.\<close>

definition loadbalance_send :: "'f farith \<Rightarrow> 'f loads \<times> host \<Rightarrow> ('f loads \<times> host) res" where
  "loadbalance_send fa = (\<lambda>(ld, s). bindE (with_slot (\<lambda>req. appendmsg (req\<lparr>frompid := jia_pid s, topid := 0,
       op := op_num LOADREQ, size := 0\<rparr>) (fbytes fa (caltime ld))) s) (\<lambda>s. Inr (ld\<lparr>loadwait := 1\<rparr>, s)))"

definition jia_loadbalance :: "'f farith \<Rightarrow> ('f loads \<times> host \<Rightarrow> ('f loads \<times> host) res) \<Rightarrow>
    'f loads \<times> host \<Rightarrow> ('f loads \<times> host) res" where
  "jia_loadbalance fa wait t = bindE (loadbalance_send fa t) (\<lambda>t. bindE (wait t) (\<lambda>t.
     if loadwait (fst t) = 0 then Inr t else Inl (WouldBlock ''loadwait'')))"

definition jia_newload :: "'f farith \<Rightarrow> nat \<Rightarrow> 'f loads \<Rightarrow> 'f loads" where
  "jia_newload fa n ld =
     (let (ex, ex2) = fold (\<lambda>i (ex, ex2). let t = l_time (loadstat ld i)
            in (fadd fa ex t, fadd fa ex2 (fmul fa t t))) [0..<n] (fofint fa 0, fofint fa 0);
          ex = fdiv fa ex (fofint fa (int n));
          ex2 = fdiv fa ex2 (fofint fa (int n));
          sigma = fsub fa ex2 (fmul fa ex ex)
      in if below_delta fa (fdiv fa sigma (fmul fa ex ex)) then ld
         else let (ptotal, ld) = fold (\<lambda>i (p, ld).
                    let ld = upd_load i (\<lambda>l. l\<lparr>l_power := fdiv fa (l_power l) (l_time l)\<rparr>) ld
                    in (fadd fa p (l_power (loadstat ld i)), ld)) [0..<n] (fofint fa 0, ld)
              in fold (\<lambda>i. upd_load i (\<lambda>l. l\<lparr>l_power := fdiv fa (l_power l) ptotal\<rparr>)) [0..<n] ld)"

definition append_powers :: "'f farith \<Rightarrow> 'f loads \<Rightarrow> nat \<Rightarrow> jia_msg \<Rightarrow> jia_msg res" where
  "append_powers fa ld n = foldE (\<lambda>i m. appendmsg m (fbytes fa (l_power (loadstat ld i)))) [0..<n]"

definition loadserver :: "'f farith \<Rightarrow> jia_msg \<Rightarrow> 'f loads \<times> host \<Rightarrow> ('f loads \<times> host) res" where
  "loadserver fa req = (\<lambda>(ld, s). bindE (assertE (is_op req LOADREQ) (JiaAssert ''Incorrect LOADREQ msg'')) (\<lambda>_.
     bindE (assertE (frompid req < Maxhosts) (OutOfBounds ''loadstat'')) (\<lambda>_.
     let ld = upd_load (frompid req) (\<lambda>l. l\<lparr>l_time := fread fa (bslice (data req) 0 4)\<rparr>) ld;
         ld = ld\<lparr>loadcnt := loadcnt ld + 1\<rparr>
     in if loadcnt ld = int (hostc s)
        then let ld = jia_newload fa (hostc s) (ld\<lparr>loadcnt := 0\<rparr>)
          in bindE (freemsg_lock s) (\<lambda>(k, s).
             bindE (append_powers fa ld (hostc s) ((slot_msg (mbuf s ! k))\<lparr>frompid := jia_pid s,
               op := op_num LOADGRANT, size := 0\<rparr>)) (\<lambda>m.
             bindE (broadcast k (set_slot k m s)) (\<lambda>s.
             Inr (ld, freemsg_unlock k s))))
        else Inr (ld, s))))"

definition loadgrantserver :: "'f farith \<Rightarrow> jia_msg \<Rightarrow> 'f loads \<times> host \<Rightarrow> ('f loads \<times> host) res" where
  "loadgrantserver fa grant = (\<lambda>(ld, s).
     bindE (assertE (is_op grant LOADGRANT) (JiaAssert ''Incorrect LOADGRANT msg'')) (\<lambda>_.
     Inr ((fold (\<lambda>i. upd_load i (\<lambda>l. l\<lparr>l_power := fread fa (bslice (data grant) (4 * i) 4)\<rparr>)) [0..<hostc s] ld)
       \<lparr>loadwait := 0\<rparr>, s)))"

text \<open>\<open>now\<close> and \<open>now'\<close> are what the two readings of \<open>jia_clock\<close> return.\<close>

definition jia_loadcheck :: "'f farith \<Rightarrow> ('f loads \<times> host \<Rightarrow> ('f loads \<times> host) res) \<Rightarrow> 'f \<Rightarrow> 'f \<Rightarrow>
    'f loads \<times> host \<Rightarrow> ('f loads \<times> host) res" where
  "jia_loadcheck fa wait now now' = (\<lambda>(ld, s).
     if LOAD_BAL s = ON
     then bindE (jia_loadbalance fa wait (ld\<lparr>endtime := now,
            caltime := fadd fa (caltime ld) (fsub fa now (starttime ld))\<rparr>, s)) (\<lambda>(ld, s).
          Inr (ld\<lparr>caltime := fofint fa 0, starttime := now'\<rparr>, s))
     else Inr (ld, s))"

section \<open>Dividing a loop\<close>

text \<open>The equal powers of the first call, and one round of the loop over the hosts.\<close>

definition first_powers :: "'f farith \<Rightarrow> 'f \<Rightarrow> nat \<Rightarrow> 'f loads \<Rightarrow> 'f loads" where
  "first_powers fa now n ld = (if firsttime ld
     then (fold (\<lambda>i. upd_load i (\<lambda>l. l\<lparr>l_power := fdiv fa (fofint fa 1) (fofint fa (int n))\<rparr>)) [0..<n]
       (ld\<lparr>firsttime := False\<rparr>))\<lparr>caltime := fofint fa 0, starttime := now\<rparr>
     else ld)"

definition share_end :: "'f farith \<Rightarrow> 'f loads \<Rightarrow> nat \<Rightarrow> int" where
  "share_end fa ld i = (let l = loadstat ld i;
     e = ftoint fa (fadd fa (fofint fa (l_begin l))
           (fmul fa (l_power l) (fofint fa (loadend ld - loadstart ld + 1))))
   in if e > loadend ld then loadend ld else e)"

definition share_step :: "'f farith \<Rightarrow> nat \<Rightarrow> 'f loads \<Rightarrow> 'f loads" where
  "share_step fa i ld = (let ld = upd_load i (\<lambda>l. l\<lparr>l_end := share_end fa ld i\<rparr>) ld
     in upd_load (i + 1) (\<lambda>l. l\<lparr>l_begin := l_end (loadstat ld i) + 1\<rparr>) ld)"

definition shares :: "'f farith \<Rightarrow> nat \<Rightarrow> 'f loads \<Rightarrow> 'f loads" where
  "shares fa n ld =
     upd_load (n - 1) (\<lambda>l. l\<lparr>l_end := loadend ld\<rparr>)
       (fold (share_step fa) [0..<n - 1] (upd_load 0 (\<lambda>l. l\<lparr>l_begin := loadstart ld\<rparr>) ld))"

definition jia_divtask :: "'f farith \<Rightarrow> 'f \<Rightarrow> host \<Rightarrow> int \<Rightarrow> int \<Rightarrow> 'f loads \<Rightarrow> ('f loads \<times> int \<times> int) res" where
  "jia_divtask fa now s b e ld =
     (if hostc s = 1 then Inr (ld, b, e)
      else let n = int (hostc s); pid = int (jia_pid s); ld = ld\<lparr>loadstart := b, loadend := e\<rparr> in
        bindE (assertE (- (2 ^ 31) \<le> e - b \<and> e - b + 1 < 2 ^ 31) (Overflow ''iternum'')) (\<lambda>_.
        if LOAD_BAL s = ON
        then let ld = shares fa (hostc s) (first_powers fa now (hostc s) ld)
          in Inr (ld, l_begin (loadstat ld (jia_pid s)), l_end (loadstat ld (jia_pid s)))
        else let b' = b + (e - b + 1) sdiv n * pid
          in Inr (ld, b', if pid = n - 1 then e else b' + (e - b + 1) sdiv n - 1)))"

section \<open>The shares cover the loop\<close>

lemma chain_mono:
  fixes n :: nat
  assumes "\<forall>p. p + 1 < n \<longrightarrow> lo (p + 1) = hi p + 1" "\<forall>p<n. lo p \<le> hi p + (1 :: int)" "p \<le> q" "q < n"
  shows "lo p \<le> lo q"
  using assms(3,4)
proof (induction q)
  case (Suc q)
  have "lo q \<le> hi q + 1" "lo (q + 1) = hi q + 1" using Suc.prems(2) assms(1,2) by auto
  then show ?case using Suc by (cases "p = Suc q") auto
qed simp

lemma chain_covers:
  fixes n :: nat
  assumes "\<forall>p. p + 1 < n \<longrightarrow> lo (p + 1) = hi p + (1 :: int)" "lo 0 = b" "hi (n - 1) = e" "0 < n"
  shows "\<forall>x\<in>{b..e}. \<exists>p<n. x \<in> {lo p..hi p}"
proof -
  have ex: "\<exists>p\<le>k. x \<in> {lo p..hi p}" if "k < n" "b \<le> x" "x \<le> hi k" for k x
    using that
  proof (induction k)
    case 0
    then show ?case using assms(2) by auto
  next
    case (Suc k)
    show ?case
    proof (cases "x \<le> hi k")
      case True
      then show ?thesis using Suc by (auto intro: le_SucI)
    next
      case False
      then have "lo (Suc k) \<le> x" using assms(1) Suc.prems(1) by auto
      then show ?thesis using Suc.prems(3) by (intro exI [of _ "Suc k"]) auto
    qed
  qed
  show ?thesis
  proof
    fix x assume "x \<in> {b..e}"
    then obtain p where "p \<le> n - 1" "x \<in> {lo p..hi p}" using ex [of "n - 1" x] assms(3,4) by auto
    then show "\<exists>p<n. x \<in> {lo p..hi p}" using assms(4) by (intro exI [of _ p]) simp
  qed
qed

lemma chain_partition:
  fixes n :: nat
  assumes "\<forall>p. p + 1 < n \<longrightarrow> lo (p + 1) = hi p + 1" "\<forall>p<n. lo p \<le> hi p + (1 :: int)"
    "lo 0 = b" "hi (n - 1) = e" "0 < n"
  shows "\<forall>x\<in>{b..e}. \<exists>!p. p < n \<and> x \<in> {lo p..hi p}" "\<forall>p<n. {lo p..hi p} \<subseteq> {b..e}"
proof -
  note mono = chain_mono [of n lo hi, OF assms(1,2)]
  have less: "hi p < lo q" if "p < q" "q < n" for p q
    using mono [of "p + 1" q] assms(1) that by auto
  show "\<forall>x\<in>{b..e}. \<exists>!p. p < n \<and> x \<in> {lo p..hi p}"
  proof
    fix x assume x: "x \<in> {b..e}"
    then obtain p where p: "p < n" "x \<in> {lo p..hi p}"
      using chain_covers [of n lo hi b e] assms by blast
    moreover from this have "q = p" if "q < n" "x \<in> {lo q..hi q}" for q
      using less [of p q] less [of q p] that p by (cases p q rule: linorder_cases) auto
    ultimately show "\<exists>!p. p < n \<and> x \<in> {lo p..hi p}" by (intro ex1I [of _ p]) blast+
  qed
  show "\<forall>p<n. {lo p..hi p} \<subseteq> {b..e}"
  proof (intro allI impI)
    fix p assume p: "p < n"
    have "b \<le> lo p" using mono [of 0 p] assms(3) p by simp
    moreover have "lo (n - 1) \<le> hi (n - 1) + 1" using assms(2,5) by simp
    moreover have "hi p < lo (n - 1)" if "p \<noteq> n - 1" using less [of p "n - 1"] p that by simp
    ultimately have "hi p \<le> e" using assms(4) by (cases "p = n - 1") auto
    then show "{lo p..hi p} \<subseteq> {b..e}" using \<open>b \<le> lo p\<close> by auto
  qed
qed

text \<open>The begins of the shares, as a function of the powers.\<close>

fun share_begin :: "'f farith \<Rightarrow> (nat \<Rightarrow> 'f) \<Rightarrow> int \<Rightarrow> int \<Rightarrow> nat \<Rightarrow> int" where
  "share_begin fa w b e 0 = b"
| "share_begin fa w b e (Suc i) = (let x = ftoint fa (fadd fa (fofint fa (share_begin fa w b e i))
       (fmul fa (w i) (fofint fa (e - b + 1)))) in (if x > e then e else x) + 1)"

lemma shares_begin:
  assumes "0 < n" "\<forall>i<n. l_power (loadstat ld i) = w i"
  shows "i < n \<Longrightarrow> l_begin (loadstat (shares fa n ld) i) = share_begin fa w (loadstart ld) (loadend ld) i"
    "i < n \<Longrightarrow> l_end (loadstat (shares fa n ld) i) =
       (if i = n - 1 then loadend ld else share_begin fa w (loadstart ld) (loadend ld) (Suc i) - 1)"
proof -
  let ?b = "loadstart ld" and ?e = "loadend ld"
  let ?g = "\<lambda>k. fold (share_step fa) [0..<k] (upd_load 0 (\<lambda>l. l\<lparr>l_begin := ?b\<rparr>) ld)"
  have inv: "loadstart (?g k) = ?b \<and> loadend (?g k) = ?e \<and> (\<forall>i. l_power (loadstat (?g k) i) = l_power (loadstat ld i)) \<and>
      (\<forall>i\<le>k. l_begin (loadstat (?g k) i) = share_begin fa w ?b ?e i) \<and>
      (\<forall>i<k. l_end (loadstat (?g k) i) = share_begin fa w ?b ?e (Suc i) - 1)" if "k < n" for k
    using that
  proof (induction k)
    case 0
    show ?case by (simp add: upd_load_def)
  next
    case (Suc k)
    let ?h = "?g k"
    have IH: "loadstart ?h = ?b" "loadend ?h = ?e" "\<forall>i. l_power (loadstat ?h i) = l_power (loadstat ld i)"
      "\<forall>i\<le>k. l_begin (loadstat ?h i) = share_begin fa w ?b ?e i"
      "\<forall>i<k. l_end (loadstat ?h i) = share_begin fa w ?b ?e (Suc i) - 1"
      using Suc.IH Suc.prems by simp_all
    have e: "share_end fa ?h k + 1 = share_begin fa w ?b ?e (Suc k)"
      using IH assms(2) Suc.prems by (simp add: share_end_def Let_def)
    have g: "?g (Suc k) = share_step fa k ?h" by simp
    show ?case unfolding g using IH e by (auto simp: share_step_def upd_load_def Let_def le_Suc_eq less_Suc_eq simp del: share_begin.simps)
  qed
  have sh: "shares fa n ld = upd_load (n - 1) (\<lambda>l. l\<lparr>l_end := ?e\<rparr>) (?g (n - 1))" by (simp add: shares_def)
  show "i < n \<Longrightarrow> l_begin (loadstat (shares fa n ld) i) = share_begin fa w ?b ?e i"
    using inv [of "n - 1"] assms(1) unfolding sh by (auto simp: upd_load_def)
  show "i < n \<Longrightarrow> l_end (loadstat (shares fa n ld) i) = (if i = n - 1 then ?e else share_begin fa w ?b ?e (Suc i) - 1)"
    using inv [of "n - 1"] assms(1) unfolding sh by (auto simp: upd_load_def)
qed

text \<open>
  No share ends before the iteration in front of its begin, wherever it begins. Rounding decides
  that: \<open>float\<close> holds integers up to \<open>2 ^ 24\<close> exactly, and beyond that an end may fall behind.
\<close>

definition shares_ok :: "'f farith \<Rightarrow> (nat \<Rightarrow> 'f) \<Rightarrow> nat \<Rightarrow> int \<Rightarrow> int \<Rightarrow> bool" where
  "shares_ok fa w n b e \<longleftrightarrow> (\<forall>i<n. \<forall>x\<in>{b..e + 1}.
     x - 1 \<le> ftoint fa (fadd fa (fofint fa x) (fmul fa (w i) (fofint fa (e - b + 1)))))"

lemma share_begin_bounds:
  assumes "shares_ok fa w n b e" "b \<le> e + 1" "i \<le> n"
  shows "share_begin fa w b e i \<in> {b..e + 1} \<and> (i < n \<longrightarrow> share_begin fa w b e i \<le> share_begin fa w b e (Suc i))"
proof -
  have step: "share_begin fa w b e i \<le> share_begin fa w b e (Suc i) \<and> share_begin fa w b e (Suc i) \<in> {b..e + 1}"
    if "i < n" "share_begin fa w b e i \<in> {b..e + 1}" for i
  proof -
    let ?x = "share_begin fa w b e i"
    have "?x - 1 \<le> ftoint fa (fadd fa (fofint fa ?x) (fmul fa (w i) (fofint fa (e - b + 1))))"
      using assms(1) that unfolding shares_ok_def by blast
    then show ?thesis using that(2) by (auto simp: Let_def)
  qed
  have "share_begin fa w b e i \<in> {b..e + 1}"
    using assms(3)
  proof (induction i)
    case (Suc i)
    then show ?case using step [of i] by simp
  qed (use assms(2) in simp)
  then show ?thesis using step [of i] by blast
qed


lemma divtask_on:
  assumes "hostc s \<noteq> 1" "LOAD_BAL s = ON" "- (2 ^ 31) \<le> e - b" "e - b + 1 < 2 ^ 31"
  shows "jia_divtask fa now s b e ld =
    (let l = shares fa (hostc s) (first_powers fa now (hostc s) (ld\<lparr>loadstart := b, loadend := e\<rparr>))
     in Inr (l, l_begin (loadstat l (jia_pid s)), l_end (loadstat l (jia_pid s))))"
  using assms by (simp add: jia_divtask_def Let_def)

text \<open>What \<open>jia_divtask\<close> gives a host, by powers and evenly.\<close>

lemma divtask_powers:
  assumes "1 < n" "hostc s = n" "p < n" "jia_pid s = p" "b \<le> e + 1" "e - b + 1 < 2 ^ 31" "LOAD_BAL s = ON"
    "\<forall>i<n. l_power (loadstat (first_powers fa now n ld) i) = w i"
  shows "\<exists>ld'. jia_divtask fa now s b e ld =
    Inr (ld', share_begin fa w b e p, if p = n - 1 then e else share_begin fa w b e (Suc p) - 1)"
proof -
  let ?l = "ld\<lparr>loadstart := b, loadend := e\<rparr>"
  let ?f = "first_powers fa now n ?l"
  have fr: "loadstart (fold (\<lambda>i. upd_load i f) is l) = loadstart l" "loadend (fold (\<lambda>i. upd_load i f) is l) = loadend l"
    for f :: "'a jiaload \<Rightarrow> 'a jiaload" and "is" l
    by (induction "is" arbitrary: l) (simp_all add: upd_load_def)
  have be: "loadstart ?f = b" "loadend ?f = e" by (simp_all add: first_powers_def fr)
  have st: "loadstat (fold (\<lambda>i. upd_load i f) is l) = loadstat (fold (\<lambda>i. upd_load i f) is l')"
    if "loadstat l = loadstat l'" for f :: "'a jiaload \<Rightarrow> 'a jiaload" and "is" l l'
    using that by (induction "is" arbitrary: l l') (simp_all add: upd_load_def)
  have "loadstat ?f = loadstat (first_powers fa now n ld)"
    by (simp add: first_powers_def) (intro impI st, simp)
  then have "\<forall>i<n. l_power (loadstat ?f i) = w i" using assms(8) by simp
  from shares_begin [where fa = fa, OF _ this, of p]
  have r: "l_begin (loadstat (shares fa n ?f) p) = share_begin fa w b e p"
    "l_end (loadstat (shares fa n ?f) p) = (if p = n - 1 then e else share_begin fa w b e (Suc p) - 1)"
    using assms(1,3) unfolding be by (simp_all del: share_begin.simps)
  have "jia_divtask fa now s b e ld =
      Inr (shares fa n ?f, l_begin (loadstat (shares fa n ?f) p), l_end (loadstat (shares fa n ?f) p))"
    using divtask_on [of s e b fa now ld] assms(1,2,4-7) by (simp add: Let_def)
  then show ?thesis unfolding r by (rule exI)
qed

lemma even_share:
  assumes "1 < n" "b \<le> e + 1"
  shows "0 \<le> (e - b + 1) sdiv int n \<and> (e - b + 1) sdiv int n * int (n - 1) \<le> e - b + 1"
proof -
  let ?d = "(e - b + 1) sdiv int n"
  have d: "?d = (e - b + 1) div int n" using assms by (simp add: signed_divide_int_def sgn_if)
  then have d0: "0 \<le> ?d" using assms by (simp add: pos_imp_zdiv_nonneg_iff)
  have "?d * int (n - 1) \<le> ?d * int n" using d0 by (intro mult_left_mono) auto
  also have "\<dots> \<le> e - b + 1" unfolding d using assms
    by (metis minus_mod_eq_div_mult le_add_same_cancel1 diff_add_cancel pos_mod_sign of_nat_0_less_iff less_trans zero_less_one)
  finally show ?thesis using d0 by simp
qed

lemma divtask_even:
  assumes "1 < n" "hostc s = n" "p < n" "jia_pid s = p" "b \<le> e + 1" "e - b + 1 < 2 ^ 31" "LOAD_BAL s \<noteq> ON"
  shows "\<exists>ld'. jia_divtask fa now s b e ld = Inr (ld', b + (e - b + 1) sdiv int n * int p,
    if p = n - 1 then e else b + (e - b + 1) sdiv int n * int p + (e - b + 1) sdiv int n - 1)"
proof -
  have "(int p = int n - 1) = (p = n - 1)" using assms(1) by auto
  then show ?thesis using assms by (simp add: jia_divtask_def Let_def)
qed

text \<open>
  Where sums and products are rounded by a monotone \<open>r\<close> that holds the integers of the loop
  exactly, as \<open>float\<close> does up to \<open>2 ^ 24\<close>, powers that are not negative give proper shares.
\<close>

lemma rounding_shares_ok:
  fixes r :: "real \<Rightarrow> real"
  assumes "fadd fa = (\<lambda>x y. r (x + y))" "fmul fa = (\<lambda>x y. r (x * y))" "fofint fa = (\<lambda>i. r (of_int i))"
    "ftoint fa = (\<lambda>x. if 0 \<le> x then \<lfloor>x\<rfloor> else \<lceil>x\<rceil>)" "mono r"
    "\<forall>i\<in>{b..e + 1} \<union> {0, e - b + 1}. r (of_int i) = of_int i" "\<forall>i<n. 0 \<le> w i" "b \<le> e + 1"
  shows "shares_ok fa w n b e"
  unfolding shares_ok_def
proof (intro allI impI ballI)
  fix i x assume i: "i < n" and x: "x \<in> {b..e + 1}"
  have z: "r 0 = 0" "r (of_int x) = of_int x" "r (of_int (e - b + 1)) = of_int (e - b + 1)"
    using assms(6) x by auto
  have "0 \<le> w i * real_of_int (e - b + 1)" using assms(7,8) i by simp
  then have "0 \<le> r (w i * real_of_int (e - b + 1))" using monoD [OF assms(5), of 0] z(1) by fastforce
  then have "real_of_int x \<le> r (real_of_int x + r (w i * real_of_int (e - b + 1)))"
    using monoD [OF assms(5), of "real_of_int x" "real_of_int x + r (w i * real_of_int (e - b + 1))"] z(2) by simp
  then show "x - 1 \<le> ftoint fa (fadd fa (fofint fa x) (fmul fa (w i) (fofint fa (e - b + 1))))"
    using z unfolding assms(1-4) by (auto simp: le_floor_iff intro: order_trans [OF _ le_floor_iff [THEN iffD2]]) linarith+
qed

text \<open>
  C33: A loop that the hosts divide among them is done completely. With equal shares, and with shares
  by computing power when the hosts hold the same powers (as they do at first and after a grant),
  the ranges of the hosts follow each other from the first iteration to the last, whatever the
  arithmetic of \<open>float\<close> does, so that every iteration is done by some host. It is done by one host
  only, and no host leaves the loop, with equal shares, and by powers under the hypothesis
  \<open>shares_ok\<close> that no share ends before its begin; \<open>rounding_shares_ok\<close> gives it where the bounds of
  the loop are integers that the arithmetic holds exactly.
\<close>

theorem divtask_partition:
  assumes "1 < n" "\<forall>p<n. hostc (s p) = n \<and> jia_pid (s p) = p \<and> LOAD_BAL (s p) = lb"
    "b \<le> e + 1" "e - b + 1 < 2 ^ 31"
    "lb = ON \<longrightarrow> (\<forall>p<n. \<forall>i<n. l_power (loadstat (first_powers fa (now p) n (ld p)) i) = w i)"
  shows "\<exists>lo hi. (\<forall>p<n. \<exists>ld'. jia_divtask fa (now p) (s p) b e (ld p) = Inr (ld', lo p, hi p)) \<and>
    lo 0 = b \<and> hi (n - 1) = e \<and> (\<forall>p. p + 1 < n \<longrightarrow> lo (p + 1) = hi p + 1) \<and>
    (\<forall>x\<in>{b..e}. \<exists>p<n. x \<in> {lo p..hi p}) \<and>
    ((lb = ON \<longrightarrow> shares_ok fa w n b e) \<longrightarrow>
       (\<forall>x\<in>{b..e}. \<exists>!p. p < n \<and> x \<in> {lo p..hi p}) \<and> (\<forall>p<n. {lo p..hi p} \<subseteq> {b..e}))"
proof (cases "lb = ON")
  case True
  let ?lo = "share_begin fa w b e" and ?hi = "\<lambda>p. if p = n - 1 then e else share_begin fa w b e (Suc p) - 1"
  have run: "\<forall>p<n. \<exists>ld'. jia_divtask fa (now p) (s p) b e (ld p) = Inr (ld', ?lo p, ?hi p)"
  proof (intro allI impI)
    fix p assume p: "p < n"
    have h: "hostc (s p) = n" "jia_pid (s p) = p" "LOAD_BAL (s p) = ON"
      "\<forall>i<n. l_power (loadstat (first_powers fa (now p) n (ld p)) i) = w i"
      using assms(2,5) True p by simp_all
    show "\<exists>ld'. jia_divtask fa (now p) (s p) b e (ld p) = Inr (ld', ?lo p, ?hi p)"
      by (rule divtask_powers [OF assms(1) h(1) p h(2) assms(3,4) h(3,4)])
  qed
  have ch: "\<forall>p. p + 1 < n \<longrightarrow> ?lo (p + 1) = ?hi p + 1" "?lo 0 = b" "?hi (n - 1) = e" "0 < n"
    using assms(1) by auto
  have one: "(\<forall>x\<in>{b..e}. \<exists>!p. p < n \<and> x \<in> {?lo p..?hi p}) \<and> (\<forall>p<n. {?lo p..?hi p} \<subseteq> {b..e})"
    if ok: "shares_ok fa w n b e"
  proof -
    have "?lo (n - 1) \<le> e + 1" "\<And>p. p < n \<Longrightarrow> ?lo p \<le> ?lo (Suc p)"
      using share_begin_bounds [OF ok assms(3), of "n - 1"] share_begin_bounds [OF ok assms(3) less_imp_le]
      by (simp_all del: share_begin.simps)
    then have "\<forall>p<n. ?lo p \<le> ?hi p + 1" by (simp del: share_begin.simps)
    then show ?thesis using chain_partition [OF ch(1) _ ch(2-4)] by blast
  qed
  show ?thesis
    by (rule exI [of _ ?lo], rule exI [of _ ?hi], intro conjI impI)
      (rule run, rule ch(2), rule ch(3), rule ch(1), rule chain_covers [OF ch],
       rule conjunct1 [OF one], erule mp, rule True, rule conjunct2 [OF one], erule mp, rule True)
next
  case False
  let ?d = "(e - b + 1) sdiv int n"
  let ?lo = "\<lambda>p. b + ?d * int p" and ?hi = "\<lambda>p. if p = n - 1 then e else b + ?d * int p + ?d - 1"
  have run: "\<forall>p<n. \<exists>ld'. jia_divtask fa (now p) (s p) b e (ld p) = Inr (ld', ?lo p, ?hi p)"
  proof (intro allI impI)
    fix p assume p: "p < n"
    have h: "hostc (s p) = n" "jia_pid (s p) = p" "LOAD_BAL (s p) \<noteq> ON" using assms(2) False p by simp_all
    show "\<exists>ld'. jia_divtask fa (now p) (s p) b e (ld p) = Inr (ld', ?lo p, ?hi p)"
      by (rule divtask_even [OF assms(1) h(1) p h(2) assms(3,4) h(3)])
  qed
  have ch: "\<forall>p. p + 1 < n \<longrightarrow> ?lo (p + 1) = ?hi p + 1" "?lo 0 = b" "?hi (n - 1) = e" "0 < n"
    using assms(1) by (auto simp: algebra_simps)
  have "\<forall>p<n. ?lo p \<le> ?hi p + 1" using even_share [OF assms(1,3)] by auto
  note one = chain_partition [OF ch(1) this ch(2-4)]
  show ?thesis
    by (rule exI [of _ ?lo], rule exI [of _ ?hi], intro conjI impI)
      (rule run, rule ch(2), rule ch(3), rule ch(1), rule chain_covers [OF ch], rule one(1), rule one(2))
qed

section \<open>Exact arithmetic\<close>

definition exact :: "real farith" where
  "exact = \<lparr>fadd = (+), fsub = (-), fmul = (*), fdiv = (/), below_delta = (\<lambda>x. x < 0.05 * 0.05),
     fofint = of_int, ftoint = (\<lambda>x. if 0 \<le> x then \<lfloor>x\<rfloor> else \<lceil>x\<rceil>), fbytes = (\<lambda>_. []), fread = (\<lambda>_. 0)\<rparr>"

lemma exact_ops: "fadd exact = (+)" "fsub exact = (-)" "fmul exact = (*)" "fdiv exact = (/)"
  "below_delta exact = (\<lambda>x. x < 0.05 * 0.05)" "fofint exact = of_int"
  by (simp_all add: exact_def)

text \<open>Without rounding, powers that are not negative give proper shares.\<close>

lemma exact_shares_ok:
  assumes "\<forall>i<n. 0 \<le> w i" "b \<le> e + 1"
  shows "shares_ok exact w n b e"
  unfolding shares_ok_def
proof (intro allI impI ballI)
  fix i x assume "i < n" "x \<in> {b..e + 1}"
  then have "real_of_int x \<le> real_of_int x + w i * real_of_int (e - b + 1)" using assms by simp
  then show "x - 1 \<le> ftoint exact (fadd exact (fofint exact x) (fmul exact (w i) (fofint exact (e - b + 1))))"
    by (simp add: exact_def) linarith
qed

text \<open>The numbers of this run (a half, and integers up to ten) are held exactly by \<open>float\<close>.\<close>

lemma divtask_partition_witness:
  "\<forall>ld. \<exists>lo hi. (\<forall>x\<in>{1..10}. \<exists>!p. p < 2 \<and> x \<in> {lo p..hi p}) \<and>
     (\<forall>p<2. \<exists>ld'. jia_divtask exact 0 (static_host\<lparr>hostc := 2, jia_pid := p, LOAD_BAL := ON\<rparr>) 1 10
        (initload exact (ld p)) = Inr (ld', lo p, hi p))"
proof
  fix ld :: "nat \<Rightarrow> real loads"
  have w: "\<forall>p<2. \<forall>i<2. l_power (loadstat (first_powers exact 0 2 (initload exact (ld p))) i) = 1 / 2"
    by (auto simp: first_powers_def initload_def upd_load_def exact_def numeral_2_eq_2 less_Suc_eq)
  have "shares_ok exact (\<lambda>_. 1 / 2) 2 1 10" by (rule exact_shares_ok) simp_all
  then show "\<exists>lo hi. (\<forall>x\<in>{1..10}. \<exists>!p. p < 2 \<and> x \<in> {lo p..hi p}) \<and>
     (\<forall>p<2. \<exists>ld'. jia_divtask exact 0 (static_host\<lparr>hostc := 2, jia_pid := p, LOAD_BAL := ON\<rparr>) 1 10
        (initload exact (ld p)) = Inr (ld', lo p, hi p))"
    using divtask_partition [where n = 2 and s = "\<lambda>p. static_host\<lparr>hostc := 2, jia_pid := p, LOAD_BAL := ON\<rparr>" and
        lb = ON and b = 1 and e = 10 and fa = exact and w = "\<lambda>_. 1 / 2" and now = "\<lambda>_. 0" and
        ld = "\<lambda>p. initload exact (ld p)"] w by auto
qed

lemma newload_sums:
  "fold (\<lambda>i (x, y). (x + f i, y + f i * f i)) [0..<n] (0, 0) =
     ((\<Sum>i<n. f i), (\<Sum>i<n. f i * (f i :: real)))"
  by (induction n) (simp_all add: Let_def)

lemma newload_quotients:
  "fold (\<lambda>i (p, ld). (p + l_power (loadstat (upd_load i (\<lambda>l. l\<lparr>l_power := l_power l / l_time l\<rparr>) ld) i),
      upd_load i (\<lambda>l. l\<lparr>l_power := l_power l / l_time l\<rparr>) ld)) [0..<n] (0 :: real, ld) =
    ((\<Sum>i<n. l_power (loadstat ld i) / l_time (loadstat ld i)),
     ld\<lparr>loadstat := \<lambda>i. if i < n then (loadstat ld i)\<lparr>l_power := l_power (loadstat ld i) / l_time (loadstat ld i)\<rparr>
       else loadstat ld i\<rparr>)"
  by (induction n) (auto simp: Let_def upd_load_def fun_eq_iff less_Suc_eq)

lemma newload_normalised:
  "fold (\<lambda>i. upd_load i (\<lambda>l. l\<lparr>l_power := l_power l / (p :: real)\<rparr>)) [0..<n] ld =
     ld\<lparr>loadstat := \<lambda>i. if i < n then (loadstat ld i)\<lparr>l_power := l_power (loadstat ld i) / p\<rparr> else loadstat ld i\<rparr>"
  by (induction n) (auto simp: upd_load_def fun_eq_iff less_Suc_eq)

text \<open>
  Balancing, in exact arithmetic: when the times that the hosts report vary by less than
  \<open>Delta\<close> the powers stay; otherwise they become shares that add up to one and with which all
  hosts would take the same time, at the speeds that their old shares and their times show.
\<close>

theorem newload_balances:
  assumes "0 < n" "\<forall>i<n. 0 < l_power (loadstat ld i) \<and> 0 < l_time (loadstat ld i)"
    "E = (\<Sum>i<n. l_time (loadstat ld i)) / n" "V = (\<Sum>i<n. l_time (loadstat ld i) * l_time (loadstat ld i)) / n - E * E"
    "ld' = jia_newload exact n ld"
  shows "if V / (E * E) < 0.05 * 0.05 then ld' = ld
    else (\<Sum>i<n. l_power (loadstat ld' i)) = 1 \<and>
      (\<exists>c. \<forall>i<n. l_power (loadstat ld' i) * (l_time (loadstat ld i) / l_power (loadstat ld i)) = c)"
proof -
  let ?w = "\<lambda>i. l_power (loadstat ld i)" and ?t = "\<lambda>i. l_time (loadstat ld i)"
  let ?P = "\<Sum>i<n. ?w i / ?t i"
  have run: "ld' = (if V / (E * E) < 0.05 * 0.05 then ld
     else ld\<lparr>loadstat := \<lambda>i. if i < n then (loadstat ld i)\<lparr>l_power := ?w i / ?t i / ?P\<rparr> else loadstat ld i\<rparr>)"
    unfolding assms(3-5) jia_newload_def exact_ops of_int_0 newload_sums newload_quotients newload_normalised
      prod.case Let_def of_int_of_nat_eq
    by (auto simp: fun_eq_iff)
  have "0 < ?P" using assms(1,2) by (intro sum_pos) auto
  then have "(\<Sum>i<n. ?w i / ?t i / ?P) = 1" by (simp only: sum_divide_distrib [symmetric]) simp
  moreover have "?w i / ?t i / ?P * (?t i / ?w i) = 1 / ?P" if "i < n" for i
    using assms(2) that by (force simp: field_simps)
  ultimately show ?thesis unfolding run by auto
qed


lemma newload_balances_witness:
  "\<forall>ld. (\<Sum>i<2. l_power (loadstat (jia_newload exact 2 (ld\<lparr>loadstat := \<lambda>i. \<lparr>l_power = 1 / 2,
     l_time = if i = 0 then 1 else 3, l_begin = 0, l_end = 0\<rparr>\<rparr>)) i)) = 1"
proof
  fix ld :: "real loads"
  show "(\<Sum>i<2. l_power (loadstat (jia_newload exact 2 (ld\<lparr>loadstat := \<lambda>i. \<lparr>l_power = 1 / 2,
     l_time = if i = 0 then 1 else 3, l_begin = 0, l_end = 0\<rparr>\<rparr>)) i)) = 1"
    using newload_balances [of 2 "ld\<lparr>loadstat := \<lambda>i. \<lparr>l_power = 1 / 2, l_time = if i = 0 then 1 else 3,
      l_begin = 0, l_end = 0\<rparr>\<rparr>" 2 1, OF _ _ _ _ refl]
    by (simp add: numeral_2_eq_2)
qed

section \<open>A round of balancing\<close>

text \<open>The reports of the hosts, as host 0 records them.\<close>

definition report :: "'f farith \<Rightarrow> jia_msg \<Rightarrow> 'f loads \<Rightarrow> 'f loads" where
  "report fa m = upd_load (frompid m) (\<lambda>l. l\<lparr>l_time := fread fa (bslice (data m) 0 4)\<rparr>)"

lemma report_fields [simp]: "loadcnt (report fa m ld) = loadcnt ld" "report fa m (ld\<lparr>loadcnt := c\<rparr>) = report fa m ld\<lparr>loadcnt := c\<rparr>"
  by (simp_all add: report_def upd_load_def)

lemma append_powers_ok:
  assumes "\<forall>x. length (fbytes fa x) = 4" "size m + 4 * n \<le> Maxmsgsize"
  shows "\<exists>m'. append_powers fa ld n m = Inr m' \<and>
    extends m (concat (map (\<lambda>i. fbytes fa (l_power (loadstat ld i))) [0..<n])) m'"
  using assms(2)
proof (induction n)
  case 0
  show ?case by (simp add: append_powers_def extends_refl)
next
  case (Suc n)
  let ?b = "\<lambda>n. concat (map (\<lambda>i. fbytes fa (l_power (loadstat ld i))) [0..<n])"
  obtain m1 where m1: "append_powers fa ld n m = Inr m1" "extends m (?b n) m1" using Suc by auto
  have "length (?b n) = 4 * n" using assms(1) by (induction n) simp_all
  then have "size m1 + length (fbytes fa (l_power (loadstat ld n))) \<le> Maxmsgsize"
    using extends_size [OF m1(2)] Suc.prems assms(1) by simp
  then obtain m2 where m2: "appendmsg m1 (fbytes fa (l_power (loadstat ld n))) = Inr m2"
    "extends m1 (fbytes fa (l_power (loadstat ld n))) m2" using appendmsg_extends by blast
  have "append_powers fa ld (Suc n) m = Inr m2"
    using m1(1) m2(1) by (simp add: append_powers_def foldE_append)
  moreover have "extends m (?b (Suc n)) m2" using extends_trans [OF m1(2) m2(2)] by simp
  ultimately show ?case by blast
qed

definition load_inv :: "'f farith \<Rightarrow> 'f loads \<times> host \<Rightarrow> bool" where
  "load_inv fa t \<longleftrightarrow> 0 \<le> loadcnt (fst t) \<and> loadcnt (fst t) < int (hostc (snd t)) \<and> hostc (snd t) \<le> Maxhosts \<and>
     B_CAST (snd t) = OFF \<and> mbuf_inv (snd t) \<and> 0 < mcount (snd t) \<and> (\<forall>x. length (fbytes fa x) = 4)"

definition load_msg_ok :: "jia_msg \<Rightarrow> bool" where
  "load_msg_ok m \<longleftrightarrow> is_op m LOADREQ \<and> frompid m < Maxhosts"

lemma loadserver_step:
  assumes "load_inv fa (ld, s)" "load_msg_ok m"
  shows "if nat (loadcnt ld) + 1 = hostc s
    then \<exists>b g ld'. loadserver fa m (ld, s) = Inr (ld', s\<lparr>mbuf := b, outq := outq s @ map (\<lambda>h. g\<lparr>topid := h\<rparr>) [0..<hostc s]\<rparr>) \<and>
      ld' = jia_newload fa (hostc s) (report fa m ld\<lparr>loadcnt := 0\<rparr>) \<and>
      mbuf_inv (s\<lparr>mbuf := b\<rparr>) \<and> is_op g LOADGRANT \<and>
      payload g = concat (map (\<lambda>i. fbytes fa (l_power (loadstat ld' i))) [0..<hostc s])
    else loadserver fa m (ld, s) = Inr (report fa m ld\<lparr>loadcnt := loadcnt ld + 1\<rparr>, s)"
proof -
  have i: "0 \<le> loadcnt ld" "hostc s \<le> 16" "B_CAST s = OFF" "mbuf_inv s" "0 < mcount s" "\<forall>x. length (fbytes fa x) = 4"
    using assms(1) by (auto simp: load_inv_def Maxhosts_def)
  have ok: "is_op m LOADREQ" "frompid m < Maxhosts" using assms(2) by (auto simp: load_msg_ok_def)
  have c: "loadcnt ld + 1 = int (hostc s) \<longleftrightarrow> nat (loadcnt ld) + 1 = hostc s" using i(1) by auto
  have r: "upd_load (frompid m) (\<lambda>l. l\<lparr>l_time := fread fa (bslice (data m) 0 4)\<rparr>) ld = report fa m ld"
    by (simp add: report_def)
  show ?thesis
  proof (cases "nat (loadcnt ld) + 1 = hostc s")
    case False
    then show ?thesis using ok c by (simp add: loadserver_def Let_def r)
  next
    case True
    let ?ld = "jia_newload fa (hostc s) (report fa m ld\<lparr>loadcnt := 0\<rparr>)"
    obtain k s1 where lk: "freemsg_lock s = Inr (k, s1)" using freemsg_lock_total i by blast
    have h: "hostc s1 = hostc s" "jia_pid s1 = jia_pid s"
      using lk by (auto simp: freemsg_lock_def split: if_splits option.splits)
    let ?m0 = "(slot_msg (mbuf s1 ! k))\<lparr>frompid := jia_pid s1, op := op_num LOADGRANT, size := 0\<rparr>"
    obtain g where g: "append_powers fa ?ld (hostc s) ?m0 = Inr g"
      "extends ?m0 (concat (map (\<lambda>i. fbytes fa (l_power (loadstat ?ld i))) [0..<hostc s])) g"
      using append_powers_ok [OF i(6), of ?m0 "hostc s" ?ld] i(2) by (auto simp: Maxmsgsize_eq)
    obtain u b where u: "broadcast k (set_slot k g s1) = Inr u" "mbuf_inv (freemsg_unlock k u)"
      "freemsg_unlock k u = s\<lparr>mbuf := b, outq := outq s @ map (\<lambda>h. g\<lparr>topid := h\<rparr>) [0..<hostc s]\<rparr>"
      using send_each [OF lk i(4,3), of g] by blast
    have "loadserver fa m (ld, s) = Inr (?ld, freemsg_unlock k u)"
      using ok c True lk g(1) u(1) by (simp add: loadserver_def Let_def r h)
    moreover have "payload ?m0 = []" by (simp add: payload_def)
    then have "payload g = concat (map (\<lambda>i. fbytes fa (l_power (loadstat ?ld i))) [0..<hostc s])" "is_op g LOADGRANT"
      using g(2) by (simp_all add: extends_def is_op_def)
    moreover have "mbuf_inv (s\<lparr>mbuf := b\<rparr>)" using u(2) unfolding u(3) by (simp add: mbuf_inv_def)
    ultimately show ?thesis using True unfolding u(3) by auto
  qed
qed

lemma load_round_run:
  assumes "load_inv fa (ld, s)" "\<forall>m\<in>set ms. load_msg_ok m" "ms \<noteq> []" "nat (loadcnt ld) + length ms = hostc s"
  shows "\<exists>b g ld'. foldE (loadserver fa) ms (ld, s) = Inr (ld', s\<lparr>mbuf := b, outq := outq s @ map (\<lambda>h. g\<lparr>topid := h\<rparr>) [0..<hostc s]\<rparr>) \<and>
    ld' = jia_newload fa (hostc s) (fold (report fa) ms ld\<lparr>loadcnt := 0\<rparr>) \<and> is_op g LOADGRANT \<and>
    payload g = concat (map (\<lambda>i. fbytes fa (l_power (loadstat ld' i))) [0..<hostc s])"
  using assms
proof (induction ms arbitrary: ld)
  case (Cons m ms)
  note st = loadserver_step [OF Cons.prems(1), of m]
  show ?case
  proof (cases "ms = []")
    case True
    then show ?thesis using st Cons.prems(2,4) by auto
  next
    case False
    then have nl: "nat (loadcnt ld) + 1 \<noteq> hostc s" using Cons.prems(4) by (cases ms) auto
    let ?ld = "report fa m ld\<lparr>loadcnt := loadcnt ld + 1\<rparr>"
    have run: "loadserver fa m (ld, s) = Inr (?ld, s)" using st Cons.prems(2) nl by simp
    have c: "0 \<le> loadcnt ld" using Cons.prems(1) by (simp add: load_inv_def)
    then have "load_inv fa (?ld, s)" "nat (loadcnt ?ld) + length ms = hostc s"
      using Cons.prems(1,4) nl by (auto simp: load_inv_def nat_add_distrib)
    moreover have "fold (report fa) ms (ld\<lparr>loadcnt := c\<rparr>) = fold (report fa) ms ld\<lparr>loadcnt := c\<rparr>" for ms c and ld :: "'a loads"
      by (induction ms arbitrary: ld) simp_all
    ultimately show ?thesis using Cons.IH [of ?ld] Cons.prems(2) False run by auto
  qed
qed blast

text \<open>The times of all hosts at once.\<close>

definition with_times :: "nat \<Rightarrow> (nat \<Rightarrow> 'f) \<Rightarrow> 'f loads \<Rightarrow> 'f loads" where
  "with_times n t ld = ld\<lparr>loadstat := \<lambda>i. if i < n then (loadstat ld i)\<lparr>l_time := t i\<rparr> else loadstat ld i\<rparr>"

lemma reports_times:
  assumes "distinct (map frompid ms)" "length ms = n"
    "\<forall>m\<in>set ms. frompid m < n \<and> fread fa (bslice (data m) 0 4) = t (frompid m)"
  shows "fold (report fa) ms ld = with_times n t ld"
proof -
  have "frompid ` set ms \<subseteq> {..<n}" "card (frompid ` set ms) = n"
    using assms distinct_card [OF assms(1)] by auto
  then have all: "frompid ` set ms = {..<n}" by (simp add: card_subset_eq)
  have "fold (report fa) ms ld = ld\<lparr>loadstat := \<lambda>i. if i \<in> frompid ` set ms then (loadstat ld i)\<lparr>l_time := t i\<rparr> else loadstat ld i\<rparr>"
    using assms(3)
  proof (induction ms arbitrary: ld)
    case (Cons m ms)
    then show ?case by (auto simp: report_def upd_load_def fun_eq_iff)
  qed simp
  then show ?thesis by (simp add: with_times_def all)
qed



text \<open>Numbers that are their own four bytes.\<close>

definition byte_arith :: "u32 farith" where
  "byte_arith = \<lparr>fadd = (+), fsub = (-), fmul = (*), fdiv = (div), below_delta = (\<lambda>x. x < 1),
     fofint = word_of_int, ftoint = uint, fbytes = itob, fread = (\<lambda>bs. bytestoi (\<lambda>i. bs ! i) 0)\<rparr>"

definition load_msg :: "nat \<Rightarrow> u32 \<Rightarrow> jia_msg" where
  "load_msg p t = clear_msg\<lparr>op := op_num LOADREQ, frompid := p, topid := 0, size := 4, data := put (\<lambda>_. 0) 0 (itob t)\<rparr>"


end
