(* ===== verification/Rdma.thy ===== *)
theory Rdma
  imports Ringq
begin

text \<open>
  Messages over RDMA (\<open>src/src/rdma/rdma_client.c\<close>, \<open>rdma_listen.c\<close>, \<open>rdma_server.c\<close> and the
  queues of \<open>rdma_comm.c\<close>): each connection has its own input queue, whose slots are posted to the
  adapter as receive buffers, filled, counted busy by the listen thread, handled by the server
  thread and posted again; a host's messages to itself go through such a queue without the adapter.
  What the verbs library does is documented behaviour: posted receive buffers are filled in the
  order in which they were posted; a completion makes an event when a notification was requested
  since the last event; what a call returns is an argument.
\<close>

section \<open>The input queue of a connection\<close>

definition BatchingSize :: nat where "BatchingSize = 1"
definition QueueSize :: nat where "QueueSize = 32"

lemma QueueSize_pos [simp]: "0 < QueueSize"
  by (simp add: QueueSize_def)

record 'm rdma_queue =
  rq :: "nat \<Rightarrow> 'm"
  rq_head :: nat
  rq_tail :: nat
  rq_post :: nat
  busy_value :: nat
  post_value :: nat
  free_value :: nat

definition init_rdma_queue :: "(nat \<Rightarrow> 'm) \<Rightarrow> 'm rdma_queue" where
  "init_rdma_queue junk = \<lparr>rq = junk, rq_head = 0, rq_tail = 0, rq_post = 0, busy_value = 0,
     post_value = 0, free_value = QueueSize\<rparr>"

text \<open>A receive request names the slot its buffer is; the requests of a batch are chained.\<close>

record recv_wr =
  wr_slot :: nat
  wr_next :: "nat option"

definition prepare_recv_wr :: "nat \<Rightarrow> (nat \<Rightarrow> recv_wr) \<Rightarrow> (nat \<Rightarrow> recv_wr)" where
  "prepare_recv_wr ix wl =
     (let limit = min BatchingSize ((ix div QueueSize + 1) * QueueSize - ix);
          rindex = ix mod QueueSize
      in (\<lambda>j. if ix \<le> j \<and> j < ix + limit
             then \<lparr>wr_slot = rindex + (j - ix), wr_next = (if j + 1 < ix + limit then Some (j + 1) else None)\<rparr>
             else wl j))"

text \<open>The buffers that \<open>ibv_post_recv\<close> takes from a chain of at most \<open>n\<close> requests.\<close>

fun chain_slots :: "nat \<Rightarrow> (nat \<Rightarrow> recv_wr) \<Rightarrow> nat \<Rightarrow> nat list" where
  "chain_slots 0 wl i = []"
| "chain_slots (Suc n) wl i = wr_slot (wl i) #
     (case wr_next (wl i) of None \<Rightarrow> [] | Some j \<Rightarrow> chain_slots n wl j)"

text \<open>
  One connection at the receiving host: its queue; the adapter's posted buffers in order, the
  completions that were not polled and the events that were not read; whether a notification is
  requested; whether the listen thread has requested one and goes on to poll; and what came and
  what was handled so far.
\<close>

record 'm rconn =
  rc_queue :: "'m rdma_queue"
  rc_wrs :: "nat \<Rightarrow> recv_wr"
  posted :: "nat list"
  completions :: nat
  events :: nat
  armed :: bool
  polling :: bool
  came :: "'m list"
  handled :: "'m list"

definition post_batch :: "nat \<Rightarrow> 'm rconn \<Rightarrow> 'm rconn" where
  "post_batch i c = (let q = rc_queue c
     in c\<lparr>posted := posted c @ chain_slots BatchingSize (rc_wrs c) i,
          rc_queue := q\<lparr>free_value := free_value q - BatchingSize, post_value := post_value q + BatchingSize,
            rq_post := (rq_post q + BatchingSize) mod QueueSize\<rparr>\<rparr>)"

definition init_post_recv_wr :: "nat \<Rightarrow> 'm rconn \<Rightarrow> 'm rconn" where
  "init_post_recv_wr j c =
     (let is = map (\<lambda>k. k * BatchingSize + j * QueueSize) [0..<QueueSize div BatchingSize]
      in fold post_batch is (c\<lparr>rc_wrs := fold prepare_recv_wr is (rc_wrs c)\<rparr>))"

definition check_flags :: "nat \<Rightarrow> 'm rconn \<Rightarrow> 'm rconn" where
  "check_flags cqid c =
     (if BatchingSize \<le> free_value (rc_queue c)
      then let i = rq_post (rc_queue c) + cqid * QueueSize
        in post_batch i (c\<lparr>rc_wrs := prepare_recv_wr i (rc_wrs c)\<rparr>)
      else c)"

text \<open>A round of the listen thread: it reads an event and requests the next, then polls once.\<close>

definition listen_event :: "'m rconn \<Rightarrow> 'm rconn" where
  "listen_event c = c\<lparr>events := events c - 1, armed := True, polling := True\<rparr>"

definition count_received :: "'m rdma_queue \<Rightarrow> 'm rdma_queue" where
  "count_received q = q\<lparr>post_value := (if post_value q = 0 then 0 else post_value q - 1),
     busy_value := busy_value q + 1, rq_tail := (rq_tail q + 1) mod QueueSize\<rparr>"

text \<open>
  \<open>ret\<close> is what \<open>ibv_poll_cq\<close> returns and \<open>success\<close> whether the completion it got has the status of
  success: an error ends the thread with it, a failed completion is only reported. The count
  \<open>rcv_seq\<close>, which nothing reads, is left out.
\<close>

definition listen_poll :: "int \<Rightarrow> bool \<Rightarrow> 'm rconn \<Rightarrow> int + 'm rconn" where
  "listen_poll ret success c =
     (if ret < 0 then Inl ret
      else if ret = 0 then Inr (c\<lparr>polling := False\<rparr>)
      else let c = c\<lparr>completions := completions c - 1, polling := False\<rparr>
        in if \<not> success then Inr c else Inr (c\<lparr>rc_queue := count_received (rc_queue c)\<rparr>))"

text \<open>The server thread at this connection: one message, if there is one.\<close>

definition serve :: "'m rdma_queue \<Rightarrow> ('m \<times> 'm rdma_queue) option" where
  "serve q = (if 0 < busy_value q
     then Some (rq q (rq_head q), q\<lparr>busy_value := busy_value q - 1, free_value := free_value q + 1,
       rq_head := (rq_head q + 1) mod QueueSize\<rparr>)
     else None)"

text \<open>The adapter fills the buffer that was posted first.\<close>

definition fill :: "'m \<Rightarrow> 'm rconn \<Rightarrow> 'm rconn" where
  "fill m c = (let k = hd (posted c); q = rc_queue c
     in c\<lparr>rc_queue := q\<lparr>rq := (rq q)(k := m)\<rparr>, posted := tl (posted c), completions := completions c + 1,
          events := (if armed c then events c + 1 else events c), armed := False, came := came c @ [m]\<rparr>)"

section \<open>Steps of a connection\<close>

text \<open>
  Where the adapter works: \<open>ibv_poll_cq\<close> returns a completion if there is one, and its status is
  that of success.
\<close>

datatype 'm raction = Arrive 'm | Event | Poll | Serve 'm | Post

inductive rstep :: "nat \<Rightarrow> 'm raction \<Rightarrow> 'm rconn \<Rightarrow> 'm rconn \<Rightarrow> bool" for cqid where
  r_arrive: "posted c \<noteq> [] \<Longrightarrow> rstep cqid (Arrive m) c (fill m c)"
| r_event: "\<not> polling c \<Longrightarrow> 0 < events c \<Longrightarrow> rstep cqid Event c (listen_event c)"
| r_poll: "polling c \<Longrightarrow> listen_poll (int (min 1 (completions c))) True c = Inr d \<Longrightarrow> rstep cqid Poll c d"
| r_serve: "serve (rc_queue c) = Some (m, q) \<Longrightarrow>
    rstep cqid (Serve m) c (c\<lparr>rc_queue := q, handled := handled c @ [m]\<rparr>)"
| r_post: "rstep cqid Post c (check_flags cqid c)"

inductive_cases rstep_cases: "rstep cqid a c d"

definition start_rconn :: "nat \<Rightarrow> (nat \<Rightarrow> 'm) \<Rightarrow> (nat \<Rightarrow> recv_wr) \<Rightarrow> 'm rconn" where
  "start_rconn cqid junk wl = init_post_recv_wr cqid \<lparr>rc_queue = init_rdma_queue junk, rc_wrs = wl, posted = [],
     completions = 0, events = 0, armed = True, polling = False, came = [], handled = []\<rparr>"

inductive rreach :: "nat \<Rightarrow> (nat \<Rightarrow> 'm) \<Rightarrow> (nat \<Rightarrow> recv_wr) \<Rightarrow> 'm rconn \<Rightarrow> bool" for cqid junk wl where
  r_start: "rreach cqid junk wl (start_rconn cqid junk wl)"
| r_next: "rreach cqid junk wl c \<Longrightarrow> rstep cqid a c d \<Longrightarrow> rreach cqid junk wl d"

section \<open>The invariant of a connection\<close>

text \<open>From the head on: busy slots, slots filled but not polled, posted slots; the rest is free.\<close>

definition slot :: "'m rconn \<Rightarrow> nat \<Rightarrow> nat" where
  "slot c i = (rq_head (rc_queue c) + i) mod QueueSize"

definition filled :: "'m rconn \<Rightarrow> nat" where
  "filled c = busy_value (rc_queue c) + completions c"

definition rconn_inv :: "'m rconn \<Rightarrow> bool" where
  "rconn_inv c \<longleftrightarrow> rq_head (rc_queue c) < QueueSize \<and> rq_tail (rc_queue c) = slot c (busy_value (rc_queue c)) \<and>
     posted c = map (\<lambda>i. slot c (filled c + i)) [0..<length (posted c)] \<and>
     rq_post (rc_queue c) = slot c (filled c + length (posted c)) \<and>
     post_value (rc_queue c) = completions c + length (posted c) \<and>
     busy_value (rc_queue c) + post_value (rc_queue c) + free_value (rc_queue c) = QueueSize \<and>
     came c = handled c @ map (\<lambda>i. rq (rc_queue c) (slot c i)) [0..<filled c]"

lemmas wr_facts = prepare_recv_wr_def BatchingSize_def

lemma map_upt_pos: "0 < n \<Longrightarrow> map f [0..<n] = f 0 # map (\<lambda>i. f (i + 1)) [0..<n - 1]"
  by (cases n) (simp_all del: upt_Suc add: upt_conv_Cons map_Suc_upt [symmetric] comp_def)

lemma slot_less [simp]: "slot c i < QueueSize"
  by (simp add: slot_def)

lemma slot_inj:
  assumes "slot c i = slot c j" "i < QueueSize" "j < QueueSize"
  shows "i = j"
  using mod_shift_inj [of i QueueSize j "rq_head (rc_queue c)"] assms by (simp add: slot_def)

lemma prepared_slot: "chain_slots BatchingSize (prepare_recv_wr i wl) i = [i mod QueueSize]"
proof -
  have "i < (i div QueueSize + 1) * QueueSize"
    using dividend_less_times_div [OF QueueSize_pos, of i] by (simp add: algebra_simps)
  then have "min 1 ((i div QueueSize + 1) * QueueSize - i) = 1" by simp
  then show ?thesis by (simp add: wr_facts Let_def)
qed

lemma rconn_inv_counts:
  assumes "rconn_inv c"
  shows "filled c + length (posted c) + free_value (rc_queue c) = QueueSize"
  using assms by (auto simp: rconn_inv_def filled_def)

lemma post_batch_inv:
  assumes "rconn_inv c" "1 \<le> free_value (rc_queue c)" "chain_slots BatchingSize (rc_wrs c) i = [rq_post (rc_queue c)]"
  shows "rconn_inv (post_batch i c)"
proof -
  let ?c = "post_batch i c"
  have f: "filled ?c = filled c" "slot ?c = slot c" "came ?c = came c" "handled ?c = handled c"
    "rq (rc_queue ?c) = rq (rc_queue c)" "rq_head (rc_queue ?c) = rq_head (rc_queue c)"
    "rq_tail (rc_queue ?c) = rq_tail (rc_queue c)" "busy_value (rc_queue ?c) = busy_value (rc_queue c)"
    "completions ?c = completions c" "posted ?c = posted c @ [rq_post (rc_queue c)]"
    using assms(3) by (simp_all add: post_batch_def Let_def filled_def slot_def fun_eq_iff)
  have "rq_post (rc_queue ?c) = slot c (filled c + length (posted c) + 1)"
    using assms(1) by (simp add: post_batch_def Let_def rconn_inv_def slot_def mod_simps BatchingSize_def)
  moreover have "posted ?c = map (\<lambda>i. slot c (filled c + i)) [0..<length (posted ?c)]"
    using assms(1) unfolding f by (simp add: rconn_inv_def)
  moreover have "post_value (rc_queue ?c) = post_value (rc_queue c) + 1" "free_value (rc_queue ?c) = free_value (rc_queue c) - 1"
    by (simp_all add: post_batch_def Let_def BatchingSize_def)
  ultimately show ?thesis using assms(1,2) unfolding rconn_inv_def f by simp
qed

lemma check_flags_inv: "rconn_inv c \<Longrightarrow> rconn_inv (check_flags cqid c)"
proof -
  assume inv: "rconn_inv c"
  let ?i = "rq_post (rc_queue c) + cqid * QueueSize" and ?c = "c\<lparr>rc_wrs := prepare_recv_wr (rq_post (rc_queue c) + cqid * QueueSize) (rc_wrs c)\<rparr>"
  have "rconn_inv ?c" using inv by (simp add: rconn_inv_def slot_def filled_def)
  moreover have "?i mod QueueSize = rq_post (rc_queue c)" using inv by (simp add: rconn_inv_def)
  then have "chain_slots BatchingSize (rc_wrs ?c) ?i = [rq_post (rc_queue ?c)]" by (simp add: prepared_slot)
  ultimately have "rconn_inv (post_batch ?i ?c)" if "1 \<le> free_value (rc_queue c)"
    using post_batch_inv [of ?c ?i] that by simp
  then show "rconn_inv (check_flags cqid c)"
    using inv unfolding check_flags_def Let_def by (simp add: BatchingSize_def)
qed

lemma fill_inv:
  assumes inv: "rconn_inv c" and "posted c \<noteq> []"
  shows "rconn_inv (fill m c)"
proof -
  let ?c = "fill m c" and ?n = "length (posted c)" and ?k = "slot c (filled c)"
  have n: "0 < ?n" "filled c < QueueSize"
    using assms(2) rconn_inv_counts [OF inv] by (auto simp flip: length_greater_0_conv)
  have p: "posted c = map (\<lambda>i. slot c (filled c + i)) [0..<?n]" using inv by (simp add: rconn_inv_def)
  have pc: "posted c = ?k # map (\<lambda>i. slot c (filled c + 1 + i)) [0..<?n - 1]"
    using p map_upt_pos [OF n(1), of "\<lambda>i. slot c (filled c + i)"] by simp
  have hd: "hd (posted c) = ?k" and tl: "tl (posted c) = map (\<lambda>i. slot c (filled c + 1 + i)) [0..<?n - 1]"
    by (subst pc, simp)+
  have f: "filled ?c = filled c + 1" "slot ?c = slot c" "came ?c = came c @ [m]" "handled ?c = handled c"
    "rq (rc_queue ?c) = (rq (rc_queue c))(?k := m)" "rq_head (rc_queue ?c) = rq_head (rc_queue c)"
    "rq_tail (rc_queue ?c) = rq_tail (rc_queue c)" "rq_post (rc_queue ?c) = rq_post (rc_queue c)"
    "busy_value (rc_queue ?c) = busy_value (rc_queue c)" "post_value (rc_queue ?c) = post_value (rc_queue c)"
    "free_value (rc_queue ?c) = free_value (rc_queue c)" "completions ?c = completions c + 1" "posted ?c = tl (posted c)"
    by (simp_all add: fill_def Let_def hd filled_def slot_def fun_eq_iff)
  have l: "length (tl (posted c)) = ?n - 1" by simp
  have e: "Suc (filled c + (?n - Suc 0)) = filled c + ?n" using n(1) by linarith
  have "map (\<lambda>i. ((rq (rc_queue c))(?k := m)) (slot c i)) [0..<filled c + 1] =
      map (\<lambda>i. rq (rc_queue c) (slot c i)) [0..<filled c] @ [m]"
  proof -
    have "slot c i \<noteq> ?k" if "i < filled c" for i using slot_inj [of c i "filled c"] that n(2) by auto
    then show ?thesis by auto
  qed
  then show ?thesis
    using inv n(1) unfolding rconn_inv_def f l by (auto simp: tl e)
qed

lemma listen_poll_one:
  "0 < completions c \<Longrightarrow> listen_poll (int (min 1 (completions c))) True c =
     Inr (c\<lparr>completions := completions c - 1, polling := False, rc_queue := count_received (rc_queue c)\<rparr>)"
  by (simp add: listen_poll_def Let_def)

lemma listen_poll_inv:
  assumes inv: "rconn_inv c" and p: "listen_poll (int (min 1 (completions c))) True c = Inr d"
  shows "rconn_inv d"
proof (cases "completions c")
  case 0
  then have "d = c\<lparr>polling := False\<rparr>" using p by (simp add: listen_poll_def)
  then show ?thesis using inv by (simp add: rconn_inv_def slot_def filled_def)
next
  case (Suc k)
  then have d: "d = c\<lparr>completions := completions c - 1, polling := False, rc_queue := count_received (rc_queue c)\<rparr>"
    using p listen_poll_one [of c] by simp
  let ?c = d
  have f: "filled ?c = filled c" "slot ?c = slot c" "came ?c = came c" "handled ?c = handled c" "posted ?c = posted c"
    "rq (rc_queue ?c) = rq (rc_queue c)" "rq_head (rc_queue ?c) = rq_head (rc_queue c)" "rq_post (rc_queue ?c) = rq_post (rc_queue c)"
    "rq_tail (rc_queue ?c) = (rq_tail (rc_queue c) + 1) mod QueueSize" "busy_value (rc_queue ?c) = busy_value (rc_queue c) + 1"
    "free_value (rc_queue ?c) = free_value (rc_queue c)" "completions ?c = k" "post_value (rc_queue ?c) = post_value (rc_queue c) - 1"
    using Suc by (simp_all add: d count_received_def filled_def slot_def fun_eq_iff)
  have "post_value (rc_queue c) = k + 1 + length (posted c)" using inv Suc by (simp add: rconn_inv_def)
  moreover have "(rq_tail (rc_queue c) + 1) mod QueueSize = slot c (busy_value (rc_queue c) + 1)"
    using inv by (simp add: rconn_inv_def slot_def mod_simps)
  ultimately show ?thesis using inv unfolding rconn_inv_def f by auto
qed

lemma serve_inv:
  assumes inv: "rconn_inv c" and sv: "serve (rc_queue c) = Some (m, q)"
  shows "rconn_inv (c\<lparr>rc_queue := q, handled := handled c @ [m]\<rparr>)"
proof -
  define d where "d = c\<lparr>rc_queue := q, handled := handled c @ [m]\<rparr>"
  have b: "0 < busy_value (rc_queue c)" and m: "m = rq (rc_queue c) (rq_head (rc_queue c))"
    and q: "q = (rc_queue c)\<lparr>busy_value := busy_value (rc_queue c) - 1, free_value := free_value (rc_queue c) + 1,
       rq_head := (rq_head (rc_queue c) + 1) mod QueueSize\<rparr>"
    using sv by (auto simp: serve_def split: if_splits)
  have s: "slot d i = slot c (i + 1)" for i by (simp add: slot_def d_def q mod_simps)
  have fl: "filled c = filled d + 1" using b by (simp add: filled_def d_def q)
  have h: "rq_head (rc_queue c) = slot c 0" using inv by (simp add: rconn_inv_def slot_def)
  have ca: "came c = handled c @ m # map (\<lambda>i. rq (rc_queue c) (slot d i)) [0..<filled d]"
    using inv map_upt_pos [of "filled c" "\<lambda>i. rq (rc_queue c) (slot c i)"]
    unfolding rconn_inv_def s fl m h by simp
  have f: "rq (rc_queue d) = rq (rc_queue c)" "rq_tail (rc_queue d) = rq_tail (rc_queue c)" "posted d = posted c"
    "rq_post (rc_queue d) = rq_post (rc_queue c)" "completions d = completions c" "came d = came c"
    "post_value (rc_queue d) = post_value (rc_queue c)" "busy_value (rc_queue d) = busy_value (rc_queue c) - 1"
    "free_value (rc_queue d) = free_value (rc_queue c) + 1" "rq_head (rc_queue d) < QueueSize" "handled d = handled c @ [m]"
    by (simp_all add: d_def q)
  have sf: "slot d (filled d + i) = slot c (filled c + i)" for i unfolding s fl by simp
  have "slot d (busy_value (rc_queue c) - 1) = slot c (busy_value (rc_queue c))" unfolding s using b by simp
  then have "rconn_inv d"
    using inv b ca f(10) unfolding rconn_inv_def f(1-9,11) sf by simp
  then show ?thesis by (simp add: d_def)
qed


lemma post_batch_fields: "rc_wrs (post_batch i c) = rc_wrs c"
  "free_value (rc_queue (post_batch i c)) = free_value (rc_queue c) - 1"
  "rq_post (rc_queue (post_batch i c)) = (rq_post (rc_queue c) + 1) mod QueueSize"
  by (simp_all add: post_batch_def Let_def BatchingSize_def)

lemma init_post_recv_wr_inv: "rconn_inv (start_rconn cqid junk wl)"
proof -
  let ?is = "map (\<lambda>k. k + cqid * QueueSize) [0..<QueueSize]"
  let ?wl = "fold prepare_recv_wr ?is wl"
  have wl: "fold prepare_recv_wr (map (\<lambda>k. k + j) [0..<n]) wl (k + j) = \<lparr>wr_slot = (k + j) mod QueueSize, wr_next = None\<rparr>"
    if "k < n" for k n j
    using that
  proof (induction n)
    case (Suc n)
    have "(n + j) div QueueSize * QueueSize \<le> n + j" by simp
    then have "min 1 (((n + j) div QueueSize + 1) * QueueSize - (n + j)) = 1"
      using dividend_less_times_div [OF QueueSize_pos, of "n + j"] by (simp add: algebra_simps)
    then have one: "prepare_recv_wr (n + j) v i = (if i = n + j then \<lparr>wr_slot = (n + j) mod QueueSize, wr_next = None\<rparr> else v i)" for v i
      by (auto simp: wr_facts Let_def)
    show ?case using Suc by (cases "k = n") (simp_all add: one)
  qed simp
  have ch: "chain_slots BatchingSize ?wl (k + cqid * QueueSize) = [k]" if "k < QueueSize" for k
    using wl [OF that, of "cqid * QueueSize"] that by (simp add: BatchingSize_def)
  let ?c0 = "\<lparr>rc_queue = init_rdma_queue junk, rc_wrs = ?wl, posted = [], completions = 0, events = 0, armed = True,
     polling = False, came = [], handled = []\<rparr>"
  let ?g = "\<lambda>n. fold post_batch (map (\<lambda>k. k + cqid * QueueSize) [0..<n]) ?c0"
  have "rconn_inv (?g n) \<and> free_value (rc_queue (?g n)) = QueueSize - n \<and> rc_wrs (?g n) = ?wl \<and>
      rq_post (rc_queue (?g n)) = n mod QueueSize" if "n \<le> QueueSize" for n
    using that
  proof (induction n)
    case 0
    show ?case by (simp add: rconn_inv_def init_rdma_queue_def slot_def filled_def)
  next
    case (Suc n)
    have "rconn_inv (post_batch (n + cqid * QueueSize) (?g n))"
      by (rule post_batch_inv) (use Suc ch [of n] in simp_all)
    then show ?case using Suc by (simp add: post_batch_fields mod_Suc_eq)
  qed
  from this [of QueueSize] show ?thesis
    by (simp add: start_rconn_def init_post_recv_wr_def BatchingSize_def Let_def)
qed

lemma rreach_inv: "rreach cqid junk wl c \<Longrightarrow> rconn_inv c"
proof (induction rule: rreach.induct)
  case r_start
  show ?case by (rule init_post_recv_wr_inv)
next
  case (r_next c a d)
  have "rconn_inv (listen_event c)"
    using r_next.IH by (simp add: rconn_inv_def listen_event_def slot_def filled_def)
  then show ?case
    using r_next.hyps(2) r_next.IH
    by (auto elim!: rstep_cases intro: fill_inv listen_poll_inv serve_inv check_flags_inv)
qed

text \<open>
  C35: Receiving over RDMA neither loses nor repeats nor reorders: in every state that the adapter,
  the listen thread and the server thread can reach together, the messages that came are those the
  server thread has handled, in order, followed by those in the slots from the head on; no buffer
  that the adapter may write next holds one of these, or is posted twice; and busy, posted and free
  slots add up to the queue.
\<close>

theorem rdma_receives_in_order:
  assumes "rreach cqid junk wl c"
  shows "came c = handled c @ map (\<lambda>i. rq (rc_queue c) (slot c i)) [0..<filled c] \<and>
    set (posted c) \<inter> slot c ` {..<filled c} = {} \<and> distinct (posted c) \<and>
    busy_value (rc_queue c) + post_value (rc_queue c) + free_value (rc_queue c) = QueueSize"
proof -
  have inv: "rconn_inv c" by (rule rreach_inv [OF assms])
  note n = rconn_inv_counts [OF inv]
  have p: "posted c = map (\<lambda>i. slot c (filled c + i)) [0..<length (posted c)]"
    using inv by (simp add: rconn_inv_def)
  have "slot c (filled c + i) \<noteq> slot c j" if "i < length (posted c)" "j < filled c" for i j
    using slot_inj [of c "filled c + i" j] that n by auto
  moreover have "distinct (map (\<lambda>i. slot c (filled c + i)) [0..<length (posted c)])"
    using slot_inj n by (fastforce simp: distinct_map inj_on_def)
  ultimately have "set (posted c) \<inter> slot c ` {..<filled c} = {} \<and> distinct (posted c)"
    by (subst (1 2) p) auto
  then show ?thesis using inv by (simp add: rconn_inv_def)
qed

lemma start_rconn_fields: "posted (start_rconn cqid junk wl) = [0..<QueueSize]"
  "events (start_rconn cqid junk wl) = 0" "armed (start_rconn cqid junk wl)" "\<not> polling (start_rconn cqid junk wl)"
  "completions (start_rconn cqid junk wl) = 0" "busy_value (rc_queue (start_rconn cqid junk wl)) = 0"
  "handled (start_rconn cqid junk wl) = []" "came (start_rconn cqid junk wl) = []"
  "rq_head (rc_queue (start_rconn cqid junk wl)) = 0"
proof -
  have f: "events (fold post_batch is c) = events c" "armed (fold post_batch is c) = armed c"
    "polling (fold post_batch is c) = polling c" "completions (fold post_batch is c) = completions c"
    "busy_value (rc_queue (fold post_batch is c)) = busy_value (rc_queue c)"
    "handled (fold post_batch is c) = handled c" "came (fold post_batch is c) = came c"
    "rq_head (rc_queue (fold post_batch is c)) = rq_head (rc_queue c)"
    "free_value (rc_queue (fold post_batch is c)) = free_value (rc_queue c) - length is" for "is" and c :: "'a rconn"
    by (induction "is" arbitrary: c) (simp_all add: post_batch_def Let_def BatchingSize_def)
  show s: "events (start_rconn cqid junk wl) = 0" "armed (start_rconn cqid junk wl)" "\<not> polling (start_rconn cqid junk wl)"
    "completions (start_rconn cqid junk wl) = 0" "busy_value (rc_queue (start_rconn cqid junk wl)) = 0"
    "handled (start_rconn cqid junk wl) = []" "came (start_rconn cqid junk wl) = []"
    "rq_head (rc_queue (start_rconn cqid junk wl)) = 0"
    by (simp_all add: start_rconn_def init_post_recv_wr_def Let_def f init_rdma_queue_def)
  have fr: "free_value (rc_queue (start_rconn cqid junk wl)) = 0"
    by (simp add: start_rconn_def init_post_recv_wr_def Let_def f init_rdma_queue_def BatchingSize_def)
  note inv = init_post_recv_wr_inv [of cqid junk wl]
  have "length (posted (start_rconn cqid junk wl)) = QueueSize"
    using rconn_inv_counts [OF inv] s fr by (simp add: filled_def)
  then show "posted (start_rconn cqid junk wl) = [0..<QueueSize]"
    using inv s by (simp add: rconn_inv_def filled_def slot_def cong: map_cong) (auto intro!: map_idI)
qed

lemma rdma_receives_in_order_witness:
  "\<forall>wl. \<exists>c. rreach 3 (\<lambda>_. 0 :: nat) wl c \<and> came c = [7] \<and> handled c @ map (\<lambda>i. rq (rc_queue c) (slot c i)) [0..<filled c] = [7]"
proof
  fix wl :: "nat \<Rightarrow> recv_wr"
  let ?c = "fill 7 (start_rconn 3 (\<lambda>_. 0 :: nat) wl)"
  have "posted (start_rconn 3 (\<lambda>_. 0 :: nat) wl) \<noteq> []" by (simp add: start_rconn_fields QueueSize_def)
  then have r: "rreach 3 (\<lambda>_. 0 :: nat) wl ?c" by (rule r_next [OF r_start r_arrive [where m = 7]])
  moreover have "came ?c = [7]" by (simp add: fill_def Let_def start_rconn_fields)
  ultimately show "\<exists>c. rreach 3 (\<lambda>_. 0 :: nat) wl c \<and> came c = [7] \<and> handled c @ map (\<lambda>i. rq (rc_queue c) (slot c i)) [0..<filled c] = [7]" using rdma_receives_in_order [OF r] by auto
qed

text \<open>The steps of the host itself.\<close>

inductive host_steps :: "nat \<Rightarrow> 'm rconn \<Rightarrow> 'm rconn \<Rightarrow> bool" for cqid c where
  h_refl: "host_steps cqid c c"
| h_step: "host_steps cqid c d \<Longrightarrow> rstep cqid a d e \<Longrightarrow> (\<forall>m. a \<noteq> Arrive m) \<Longrightarrow> host_steps cqid c e"

text \<open>
  A message can be left behind: when two messages come before the listen thread has read the
  event of the first, there is one event for both, and as the thread polls one completion per
  event, a state is reached in which the second message has come and whatever the host does it
  is not handled, until another message comes.
\<close>

lemma rdma_completion_left:
  "\<exists>c. rreach cqid junk wl c \<and> came c = [a, b] \<and> handled c = [a] \<and>
     (\<forall>d. host_steps cqid c d \<longrightarrow> came d = [a, b] \<and> handled d = [a])"
proof -
  let ?s = "start_rconn cqid junk wl"
  let ?c1 = "fill a ?s" and ?c2 = "fill b (fill a ?s)"
  let ?c3 = "listen_event ?c2"
  define c4 where "c4 = ?c3\<lparr>completions := completions ?c3 - 1, polling := False, rc_queue := count_received (rc_queue ?c3)\<rparr>"
  have u: "[0..<QueueSize] = 0 # 1 # [2..<QueueSize]" by (simp add: QueueSize_def upt_rec)
  have c1: "posted ?c1 = 1 # [2..<QueueSize]" "events ?c1 = 1" "\<not> armed ?c1" "\<not> polling ?c1" "completions ?c1 = 1"
    "came ?c1 = [a]" "handled ?c1 = []" "rq (rc_queue ?c1) 0 = a" "rq_head (rc_queue ?c1) = 0" "busy_value (rc_queue ?c1) = 0"
    by (simp_all add: fill_def Let_def start_rconn_fields u)
  have c2: "events ?c2 = 1" "\<not> polling ?c2" "completions ?c2 = 2" "came ?c2 = [a, b]" "handled ?c2 = []"
    "rq (rc_queue ?c2) 0 = a" "rq_head (rc_queue ?c2) = 0" "busy_value (rc_queue ?c2) = 0"
    using c1 by (simp_all add: fill_def [of b] Let_def)
  have c4: "events c4 = 0" "\<not> polling c4" "came c4 = [a, b]" "handled c4 = []"
    "rq (rc_queue c4) 0 = a" "rq_head (rc_queue c4) = 0" "busy_value (rc_queue c4) = 1"
    using c2 by (simp_all add: c4_def listen_event_def count_received_def)
  let ?q4 = "rc_queue c4"
  define q where "q = ?q4\<lparr>busy_value := 0, free_value := free_value ?q4 + 1, rq_head := (rq_head ?q4 + 1) mod QueueSize\<rparr>"
  have q: "serve ?q4 = Some (a, q)" "busy_value q = 0"
    using c4 by (simp_all add: serve_def q_def)
  let ?c5 = "c4\<lparr>rc_queue := q, handled := handled c4 @ [a]\<rparr>"
  have p: "posted ?s \<noteq> []" "posted ?c1 \<noteq> []" using c1 by (simp_all add: start_rconn_fields u)
  have "rreach cqid junk wl ?c2" by (rule r_next [OF r_next [OF r_start r_arrive [OF p(1)]] r_arrive [OF p(2)]])
  then have "rreach cqid junk wl ?c3" by (rule r_next) (use c2 in \<open>auto intro: r_event\<close>)
  moreover have "listen_poll (int (min 1 (completions ?c3))) True ?c3 = Inr c4"
    unfolding c4_def using c2(3) by (intro listen_poll_one) (simp add: listen_event_def)
  then have "rstep cqid Poll ?c3 c4" by (intro r_poll) (simp add: listen_event_def)
  ultimately have "rreach cqid junk wl c4" by (rule r_next)
  then have "rreach cqid junk wl ?c5" by (rule r_next) (rule r_serve [OF q(1)])
  moreover have "came d = [a, b] \<and> handled d = [a] \<and> events d = 0 \<and> \<not> polling d \<and> busy_value (rc_queue d) = 0"
    if "host_steps cqid ?c5 d" for d
    using that
  proof (induction rule: host_steps.induct)
    case h_refl
    then show ?case using c4 q(2) by simp
  next
    case (h_step d x e)
    have "busy_value (rc_queue (check_flags cqid d)) = busy_value (rc_queue d)" "came (check_flags cqid d) = came d"
      "handled (check_flags cqid d) = handled d" "events (check_flags cqid d) = events d" "polling (check_flags cqid d) = polling d"
      by (simp_all add: check_flags_def post_batch_def Let_def)
    note keep = this and IH = h_step.IH
    from h_step.hyps(2) show ?case
    proof cases
      case r_arrive
      then show ?thesis using h_step.hyps(3) by simp
    qed (use IH in \<open>simp_all add: keep serve_def\<close>)
  qed
  ultimately show ?thesis using c4 by (intro exI [of _ ?c5]) auto
qed

lemma rdma_completion_left_witness:
  "\<exists>c. rreach 3 (\<lambda>_. 0 :: nat) (\<lambda>_. \<lparr>wr_slot = 0, wr_next = None\<rparr>) c \<and> came c = [7, 8] \<and> handled c = [7] \<and>
     handled (check_flags 3 c) = [7]"
proof -
  obtain c where c: "rreach 3 (\<lambda>_. 0 :: nat) (\<lambda>_. \<lparr>wr_slot = 0, wr_next = None\<rparr>) c" "came c = [7, 8]" "handled c = [7]"
    and s: "\<forall>d. host_steps 3 c d \<longrightarrow> came d = [7, 8] \<and> handled d = [7]"
    using rdma_completion_left [of 3 "\<lambda>_. 0 :: nat" "\<lambda>_. \<lparr>wr_slot = 0, wr_next = None\<rparr>" 7 8] by blast
  have "host_steps 3 c (check_flags 3 c)" by (rule h_step [OF h_refl r_post]) simp
  then show ?thesis using c s by blast
qed

section \<open>Sending\<close>

text \<open>
  What the verbs report during one call of \<open>post_send\<close> after \<open>ibv_post_send\<close> accepted the request:
  the results of \<open>ibv_get_cq_event\<close> and \<open>ibv_req_notify_cq\<close> and the \<open>errno\<close> they leave, those of
  \<open>ibv_poll_cq\<close>, and whether the completion has the status of success.
\<close>

record attempt =
  a_event :: int
  a_notify :: int
  a_errno :: int
  a_polls :: "int list"
  a_status :: bool

definition post_send :: "attempt \<Rightarrow> int res" where
  "post_send a =
     (if a_event a \<noteq> 0 then Inr (- a_errno a)
      else if a_notify a \<noteq> 0 then Inr (- a_errno a)
      else case find (\<lambda>ne. ne \<noteq> 0) (a_polls a) of
          None \<Rightarrow> Inl (WouldBlock ''ibv_poll_cq'')
        | Some ne \<Rightarrow> if ne < 0 then Inr (- 1) else if \<not> a_status a then Inr (- 1) else Inr 0)"

text \<open>\<open>while (post_send ())\<close>: how many times the message was posted.\<close>

fun post_until :: "attempt list \<Rightarrow> nat res" where
  "post_until [] = Inl (WouldBlock ''post_send'')"
| "post_until (a # as) = bindE (post_send a) (\<lambda>r.
     if r = 0 then Inr 1 else bindE (post_until as) (\<lambda>n. Inr (n + 1)))"

text \<open>\<open>r_wire h\<close>: the messages posted to host \<open>h\<close>; \<open>r_self\<close> the queue of the connection to oneself.\<close>

record rdma_ctx =
  r_out :: "jia_msg msg_queue"
  r_snd :: "nat \<Rightarrow> u32"
  r_self :: "jia_msg rdma_queue"
  r_wire :: "nat \<Rightarrow> jia_msg list"

text \<open>The message is copied before the count of free slots is looked at.\<close>

definition self_send :: "'m \<Rightarrow> 'm rdma_queue \<Rightarrow> 'm rdma_queue" where
  "self_send m q = (let q = q\<lparr>rq := (rq q)(rq_tail q := m)\<rparr>;
       q = (if free_value q = 0 then q else q\<lparr>free_value := free_value q - 1\<rparr>)
     in q\<lparr>busy_value := busy_value q + 1, rq_tail := (rq_tail q + 1) mod QueueSize\<rparr>)"

definition rdma_client_turn :: "nat \<Rightarrow> attempt list \<Rightarrow> rdma_ctx \<Rightarrow> rdma_ctx res" where
  "rdma_client_turn pid as c = bindE (sem_wait_busy (r_out c)) (\<lambda>q.
     let h = unat (head q); d = topid (queue q h); m = (queue q h)\<lparr>seqno := r_snd c d\<rparr>;
         q = q\<lparr>queue := (queue q)(h := m)\<rparr>
     in bindE (assertE (d < Maxhosts) (OutOfBounds ''connect_array'')) (\<lambda>_.
        bindE (if d = pid then Inr (c\<lparr>r_self := self_send m (r_self c)\<rparr>)
               else bindE (post_until as) (\<lambda>n. Inr (c\<lparr>r_wire := (r_wire c)(d := r_wire c d @ replicate n m)\<rparr>)))
          (\<lambda>c. Inr (c\<lparr>r_snd := (r_snd c)(d := r_snd c d + 1),
             r_out := sem_post_free (q\<lparr>head := (head q + 1) mod word_of_nat QueueSize\<rparr>)\<rparr>))))"

fun numbered :: "u32 \<Rightarrow> jia_msg list \<Rightarrow> jia_msg list" where
  "numbered n [] = []"
| "numbered n (m # ms) = m\<lparr>seqno := n\<rparr> # numbered (n + 1) ms"

lemma head_mod: "ring_size QueueSize \<Longrightarrow> (i + 1) mod word_of_nat QueueSize = next_slot QueueSize i"
proof -
  assume r: "ring_size QueueSize"
  have "unat ((i + 1) mod word_of_nat QueueSize :: u32) = unat (i + 1) mod 32"
    by (simp add: unat_mod QueueSize_def)
  also have "unat (i + 1) mod 32 = (unat i + 1) mod 2 ^ 32 mod 32" by (simp add: unat_word_ariths)
  also have "\<dots> = (unat i + 1) mod 32" by (rule mod_mod_cancel) simp
  finally have "unat ((i + 1) mod word_of_nat QueueSize :: u32) = unat (next_slot QueueSize i)"
    using next_slot_mod [OF r, of i] by (simp add: QueueSize_def)
  then show ?thesis by (simp add: word_unat_eq_iff)
qed

lemma ring_QueueSize: "ring_size QueueSize"
  unfolding ring_size_def QueueSize_def by (rule exI [of _ 5]) simp

lemma client_turn_run:
  assumes "queue_inv (r_out c)" "qsize (r_out c) = QueueSize" "contents (r_out c) = m # ms" "topid m < Maxhosts"
    "post_until as = Inr n"
  shows "\<exists>c'. rdma_client_turn pid as c = Inr c' \<and> queue_inv (r_out c') \<and> qsize (r_out c') = QueueSize \<and>
    contents (r_out c') = ms \<and> r_snd c' = (r_snd c)(topid m := r_snd c (topid m) + 1) \<and>
    (let m' = m\<lparr>seqno := r_snd c (topid m)\<rparr> in if topid m = pid
     then r_self c' = self_send m' (r_self c) \<and> r_wire c' = r_wire c
     else r_self c' = r_self c \<and> r_wire c' = (r_wire c)(topid m := r_wire c (topid m) @ replicate n m'))"
proof -
  let ?q = "r_out c" and ?h = "unat (head (r_out c))" and ?m' = "m\<lparr>seqno := r_snd c (topid m)\<rparr>"
  let ?p = "?q\<lparr>queue := (queue ?q)(?h := ?m')\<rparr>"
  obtain b where b: "busy_count ?q = Suc b" using assms(3) by (cases "busy_count ?q") (auto simp: contents_def ring_list_def)
  have h: "?h < QueueSize" and bc: "busy_count ?q \<le> QueueSize" using assms(1,2) by (auto simp: queue_inv_def)
  have c0: "contents ?q = queue ?q ?h # map (\<lambda>i. queue ?q ((?h + (i + 1)) mod QueueSize)) [0..<b]"
    using map_upt_pos [of "Suc b" "\<lambda>i. queue ?q ((?h + i) mod QueueSize)"] b assms(2) h
    by (simp add: contents_def ring_list_def)
  then have hd: "queue ?q ?h = m" and tl: "ms = map (\<lambda>i. queue ?q ((?h + (i + 1)) mod QueueSize)) [0..<b]"
    using assms(3) by simp_all
  have "(?h + (i + 1)) mod QueueSize \<noteq> ?h" if "i < b" for i
    using mod_shift_inj [of "i + 1" QueueSize 0 ?h] that b bc h by auto
  then have "map (\<lambda>i. queue ?p ((?h + (i + 1)) mod QueueSize)) [0..<b] = ms" unfolding tl by auto
  then have cp: "contents ?p = ?m' # ms"
    using map_upt_pos [of "Suc b" "\<lambda>i. queue ?p ((?h + i) mod QueueSize)"] b assms(2) h
    by (simp add: contents_def ring_list_def)
  have "queue_inv ?p" using assms(1) by (simp add: queue_inv_def)
  then obtain q' where q': "take_msg ?p = Inr (?m', q')" "queue_inv q'" "contents q' = ms" "qsize q' = QueueSize"
    using take_msg_contents [OF _ cp] assms(2) by auto
  have "q' = sem_post_free (?p\<lparr>busy_count := b, head := (head ?q + 1) mod word_of_nat QueueSize\<rparr>)"
    using q'(1) b assms(2) head_mod [OF ring_QueueSize]
    by (auto simp: take_msg_def sem_wait_busy_def dequeue_def Let_def sem_post_free_def)
  then have eq: "sem_post_free (?q\<lparr>busy_count := b, queue := (queue ?q)(?h := ?m'), head := (head ?q + 1) mod word_of_nat QueueSize\<rparr>) = q'"
    by (intro msg_queue.equality) (simp_all add: sem_post_free_def)
  let ?c1 = "if topid m = pid then c\<lparr>r_self := self_send ?m' (r_self c)\<rparr>
     else c\<lparr>r_wire := (r_wire c)(topid m := r_wire c (topid m) @ replicate n ?m')\<rparr>"
  have sw: "sem_wait_busy ?q = Inr (?q\<lparr>busy_count := b\<rparr>)" by (simp add: sem_wait_busy_def b)
  have "rdma_client_turn pid as c = Inr (?c1\<lparr>r_snd := (r_snd c)(topid m := r_snd c (topid m) + 1), r_out := q'\<rparr>)"
    using assms(4,5) by (simp add: rdma_client_turn_def sw hd Let_def flip: eq)
  then show ?thesis using q'(2-4) by (simp add: Let_def)
qed

text \<open>
  C36: Where no completion fails, the client thread sends to other hosts in order: with any messages
  in the output queue, as many turns as there are messages post, to each other host, exactly the
  messages to it, each once, in their order and numbered from the next number on, and the output
  queue is empty again. The messages to the host itself are put into its own queue one after the
  other, where they can overwrite some that were not handled (\<open>rdma_self_overrun\<close>). Where a
  completion fails the message is posted again (\<open>rdma_failure_repeats\<close>).
\<close>

theorem rdma_sends_in_order:
  assumes "queue_inv (r_out c)" "qsize (r_out c) = QueueSize" "contents (r_out c) = ms"
    "\<forall>m\<in>set ms. topid m < Maxhosts" "post_send a = Inr 0"
  shows "\<exists>c'. foldE (\<lambda>_. rdma_client_turn pid [a]) ms c = Inr c' \<and> queue_inv (r_out c') \<and> contents (r_out c') = [] \<and>
    (\<forall>d. d \<noteq> pid \<longrightarrow> r_wire c' d = r_wire c d @ numbered (r_snd c d) (filter (\<lambda>m. topid m = d) ms)) \<and>
    r_self c' = fold self_send (numbered (r_snd c pid) (filter (\<lambda>m. topid m = pid) ms)) (r_self c)"
  using assms
proof (induction ms arbitrary: c)
  case (Cons m ms)
  obtain c1 where c1: "rdma_client_turn pid [a] c = Inr c1" "queue_inv (r_out c1)" "qsize (r_out c1) = QueueSize"
    "contents (r_out c1) = ms" "r_snd c1 = (r_snd c)(topid m := r_snd c (topid m) + 1)"
    "let m' = m\<lparr>seqno := r_snd c (topid m)\<rparr> in if topid m = pid
     then r_self c1 = self_send m' (r_self c) \<and> r_wire c1 = r_wire c
     else r_self c1 = r_self c \<and> r_wire c1 = (r_wire c)(topid m := r_wire c (topid m) @ [m'])"
    using client_turn_run [OF Cons.prems(1-3), of "[a]" "Suc 0" pid] Cons.prems(4,5) by (auto simp: Let_def)
  obtain c' where c': "foldE (\<lambda>_. rdma_client_turn pid [a]) ms c1 = Inr c'" "queue_inv (r_out c')" "contents (r_out c') = []"
    "\<forall>d. d \<noteq> pid \<longrightarrow> r_wire c' d = r_wire c1 d @ numbered (r_snd c1 d) (filter (\<lambda>m. topid m = d) ms)"
    "r_self c' = fold self_send (numbered (r_snd c1 pid) (filter (\<lambda>m. topid m = pid) ms)) (r_self c1)"
    using Cons.IH [OF c1(2-4)] Cons.prems(4,5) by auto
  show ?case using c1(1,5,6) c' by (intro exI [of _ c']) (auto simp: Let_def split: if_splits)
qed simp


text \<open>A message whose first completion is reported as failed is posted twice, with one number.\<close>

lemma rdma_failure_repeats:
  assumes "queue_inv (r_out c)" "qsize (r_out c) = QueueSize" "contents (r_out c) = m # ms" "topid m < Maxhosts"
    "topid m \<noteq> pid" "post_send a = Inr r" "r \<noteq> 0" "post_send a' = Inr 0"
  shows "\<exists>c'. rdma_client_turn pid [a, a'] c = Inr c' \<and> contents (r_out c') = ms \<and>
    (let m' = m\<lparr>seqno := r_snd c (topid m)\<rparr> in r_wire c' (topid m) = r_wire c (topid m) @ [m', m'])"
  using client_turn_run [OF assms(1-4), of "[a, a']" 2 pid] assms(5-8)
  by (auto simp: Let_def numeral_2_eq_2)

definition good_attempt :: attempt where
  "good_attempt = \<lparr>a_event = 0, a_notify = 0, a_errno = 0, a_polls = [0, 1], a_status = True\<rparr>"

lemma good_attempt: "post_send good_attempt = Inr 0"
  by (simp add: post_send_def good_attempt_def)

definition demo_ctx :: rdma_ctx where
  "demo_ctx = \<lparr>r_out = (init_msg_queue 32 32 (\<lambda>i. clear_msg\<lparr>topid := i mod 2\<rparr>))\<lparr>busy_count := 2, tail := 2, free_count := 30\<rparr>,
     r_snd = (\<lambda>_. 5), r_self = init_rdma_queue (\<lambda>_. clear_msg), r_wire = (\<lambda>_. [])\<rparr>"

lemma rdma_sends_in_order_witness:
  "\<exists>c'. foldE (\<lambda>_. rdma_client_turn 0 [good_attempt]) [clear_msg\<lparr>topid := 0\<rparr>, clear_msg\<lparr>topid := 1\<rparr>] demo_ctx = Inr c' \<and>
     r_wire c' 1 = [clear_msg\<lparr>topid := 1, seqno := 5\<rparr>]"
proof -
  have q: "queue_inv (r_out demo_ctx)" "qsize (r_out demo_ctx) = QueueSize"
    using ring_QueueSize by (simp_all add: demo_ctx_def queue_inv_def init_msg_queue_def QueueSize_def)
  have c: "contents (r_out demo_ctx) = [clear_msg\<lparr>topid := 0\<rparr>, clear_msg\<lparr>topid := 1\<rparr>]"
    by (simp add: contents_def ring_list_def demo_ctx_def init_msg_queue_def upt_rec)
  have t: "\<forall>m\<in>set [clear_msg\<lparr>topid := 0\<rparr>, clear_msg\<lparr>topid := 1\<rparr>]. topid m < Maxhosts" by (simp add: Maxhosts_def)
  obtain c' where c': "foldE (\<lambda>_. rdma_client_turn 0 [good_attempt]) [clear_msg\<lparr>topid := 0\<rparr>, clear_msg\<lparr>topid := 1\<rparr>] demo_ctx = Inr c'"
    "\<forall>d. d \<noteq> 0 \<longrightarrow> r_wire c' d = r_wire demo_ctx d @ numbered (r_snd demo_ctx d)
       (filter (\<lambda>m. topid m = d) [clear_msg\<lparr>topid := 0\<rparr>, clear_msg\<lparr>topid := 1\<rparr>])"
    using rdma_sends_in_order [OF q c t good_attempt, of 0] by blast
  have "r_wire c' 1 = [clear_msg\<lparr>topid := 1, seqno := 5\<rparr>]"
    using spec [OF c'(2), of 1] by (simp add: demo_ctx_def)
  then show ?thesis using c'(1) by blast
qed

lemma self_sends:
  "length ms \<le> QueueSize \<Longrightarrow> (let q = fold self_send ms (init_rdma_queue junk) in rq_head q = 0 \<and>
     busy_value q = length ms \<and> rq_tail q = length ms mod QueueSize \<and> (\<forall>i<length ms. rq q i = ms ! i))"
proof (induction ms rule: rev_induct)
  case Nil
  show ?case by (simp add: init_rdma_queue_def)
next
  case (snoc m ms)
  then have "length ms mod QueueSize = length ms" by simp
  then show ?case
    using snoc by (auto simp: Let_def self_send_def nth_append mod_Suc_eq less_Suc_eq)
qed

text \<open>
  The queue of a host to itself overruns: as long as no more messages wait in it than it has
  slots, the first one sent is the next one handled; with one more, the last message has taken the
  place of the first, which is lost, as the message is written before the count of free slots is
  looked at, and counted even if it is zero.
\<close>

lemma rdma_self_overrun:
  assumes "ms \<noteq> []" "length ms \<le> QueueSize + 1"
  shows "\<exists>q. serve (fold self_send ms (init_rdma_queue junk)) =
    Some (if length ms \<le> QueueSize then hd ms else last ms, q)"
proof (cases "length ms \<le> QueueSize")
  case True
  then show ?thesis using self_sends [OF True, of junk] assms(1) by (simp add: Let_def serve_def hd_conv_nth)
next
  case False
  then obtain m ms' where ms: "ms = ms' @ [m]" "length ms' = QueueSize"
    using assms by (cases ms rule: rev_cases) auto
  have s: "rq_head (fold self_send ms' (init_rdma_queue junk)) = 0" "rq_tail (fold self_send ms' (init_rdma_queue junk)) = 0"
    using self_sends [of ms' junk] ms(2) by (simp_all add: Let_def)
  show ?thesis using False ms s by (simp add: serve_def self_send_def Let_def)
qed

lemma rdma_self_overrun_witness:
  "\<exists>q. serve (fold self_send [0 :: nat ..< 33] (init_rdma_queue (\<lambda>_. 0))) = Some (32, q)"
  using rdma_self_overrun [of "[0 ..< 33]" "\<lambda>_. 0"] by (simp add: QueueSize_def)

end
