(* ===== verification/Stat.thy ===== *)
theory Stat
  imports Barrier
begin

text \<open>
  The statistics that \<open>jia_exit\<close> collects: \<open>src/src/stat/stat.c\<close>, the record of
  \<open>src/src/include/stat.h\<close> and the exchange of \<open>src/src/exit/exit.c\<close>. Every host sends its
  counters to host 0, which keeps them per host and lets all go on when it has those of all. The
  printing of the table is not modelled.
\<close>

section \<open>Counters\<close>

text \<open>
  \<open>jiastat_t\<close> is a structure of unsigned integers only, so it is modelled as a function from the
  names of its members; \<open>stat_fields\<close> lists them in the order of the structure, which is their
  order in memory.
\<close>

type_synonym jiastat = "string \<Rightarrow> u32"

definition stat_fields :: "string list" where
  "stat_fields = [''kernelflag'', ''msgsndbytes'', ''msgrcvbytes'', ''msgrcvcnt'', ''msgsndcnt'', ''segvLcnt'',
    ''segvRcnt'', ''usersigiocnt'', ''synsigiocnt'', ''segvsigiocnt'', ''sigiocnt'', ''barrcnt'',
    ''lockcnt'', ''getpcnt'', ''prefetchcnt'', ''diffcnt'', ''invcnt'', ''mwdiffcnt'',
    ''repROcnt'', ''repRWcnt'', ''migincnt'', ''migoutcnt'', ''resendcnt'', ''segvLtime'',
    ''segvRtime'', ''barrtime'', ''locktime'', ''unlocktime'', ''usersigiotime'',
    ''synsigiotime'', ''segvsigiotime'', ''endifftime'', ''dedifftime'', ''difftime'',
    ''busytime'', ''datatime'', ''syntime'', ''othertime'', ''segvtime'', ''commtime'',
    ''commsofttime'', ''commhardtime'', ''largecnt'', ''smallcnt'', ''waittime'', ''inittime'',
    ''initset'', ''initcreat'', ''createdir'', ''copyfiles'', ''startprocs'', ''initmem'',
    ''initsyn'', ''initmsg'', ''initcomm'', ''initrdmacontext'', ''initrdmaconnection'',
    ''initrdmaresource'', ''alloctime'', ''exittime'']"

text \<open>The members that \<open>statserver\<close> takes over as they are.\<close>

definition copied_fields :: "string list" where
  "copied_fields = [''msgsndbytes'', ''msgrcvbytes'', ''msgsndcnt'', ''msgrcvcnt'', ''segvRcnt'', ''segvLcnt'',
    ''sigiocnt'', ''usersigiocnt'', ''synsigiocnt'', ''segvsigiocnt'', ''barrcnt'', ''lockcnt'',
    ''getpcnt'', ''prefetchcnt'', ''diffcnt'', ''invcnt'', ''mwdiffcnt'', ''repROcnt'',
    ''repRWcnt'', ''migincnt'', ''migoutcnt'', ''resendcnt'', ''barrtime'', ''segvRtime'',
    ''segvLtime'', ''locktime'', ''unlocktime'', ''synsigiotime'', ''segvsigiotime'',
    ''usersigiotime'', ''endifftime'', ''dedifftime'', ''largecnt'', ''smallcnt'', ''waittime'',
    ''inittime'', ''initset'', ''initcreat'', ''createdir'', ''copyfiles'', ''startprocs'',
    ''initmem'', ''initcomm'', ''initrdmacontext'', ''initrdmaconnection'', ''initrdmaresource'',
    ''initmsg'', ''alloctime'']"

text \<open>The members that \<open>jia_exit\<close> adds up over the hosts.\<close>

definition summed_fields :: "string list" where
  "summed_fields = [''msgsndcnt'', ''msgrcvcnt'', ''msgsndbytes'', ''msgrcvbytes'', ''segvLcnt'', ''segvRcnt'',
    ''lockcnt'', ''getpcnt'', ''prefetchcnt'', ''diffcnt'', ''invcnt'', ''mwdiffcnt'',
    ''repROcnt'', ''repRWcnt'', ''migincnt'', ''migoutcnt'', ''resendcnt'', ''usersigiocnt'',
    ''synsigiocnt'', ''segvsigiocnt'', ''segvLtime'', ''segvRtime'', ''barrtime'', ''locktime'',
    ''unlocktime'', ''usersigiotime'', ''synsigiotime'', ''segvsigiotime'', ''largecnt'',
    ''smallcnt'', ''syntime'', ''commsofttime'', ''commhardtime'', ''difftime'', ''waittime'',
    ''inittime'']"

text \<open>A structure in a message: its members one after the other.\<close>

definition stat_bytes :: "jiastat \<Rightarrow> u8 list" where
  "stat_bytes st = concat (map (\<lambda>f. itob (st f)) stat_fields)"

definition read_stat :: "(nat \<Rightarrow> u8) \<Rightarrow> jiastat" where
  "read_stat d f = (case map_of (zip stat_fields [0..<length stat_fields]) f of
     None \<Rightarrow> 0 | Some i \<Rightarrow> bytestoi d (4 * i))"

record stats =
  jiastat :: jiastat
  allstats :: "nat \<Rightarrow> jiastat"
  statcnt :: int
  waitstat :: int

definition clearstat :: "stats \<Rightarrow> stats" where
  "clearstat st = st\<lparr>jiastat := (\<lambda>_. 0)\<rparr>"

section \<open>Collecting\<close>

text \<open>
  What host 0 keeps of a host's counters; \<open>soft\<close> is the calculation of \<open>commsofttime\<close> in
  \<open>double\<close>, rounded to an unsigned integer.
\<close>

definition keep_stat :: "(u32 \<Rightarrow> u32 \<Rightarrow> u32 \<Rightarrow> u32 \<Rightarrow> u32) \<Rightarrow> jiastat \<Rightarrow> jiastat \<Rightarrow> jiastat" where
  "keep_stat soft st old = (\<lambda>f.
     if f \<in> set copied_fields then st f
     else if f = ''commsofttime'' then soft (st ''msgsndcnt'') (st ''msgsndbytes'') (st ''msgrcvcnt'') (st ''msgrcvbytes'')
     else if f = ''commhardtime'' then st ''msgsndcnt'' * 20 + 20 * st ''msgsndbytes''
     else if f = ''difftime'' then st ''endifftime'' + st ''dedifftime''
     else old f)"

definition statserver :: "(u32 \<Rightarrow> u32 \<Rightarrow> u32 \<Rightarrow> u32 \<Rightarrow> u32) \<Rightarrow> jia_msg \<Rightarrow> stats \<times> host \<Rightarrow> (stats \<times> host) res" where
  "statserver soft rep = (\<lambda>(st, s).
     bindE (assertE (is_op rep STAT \<and> topid rep = 0) (JiaAssert ''Incorrect STAT Message!'')) (\<lambda>_.
     bindE (assertE (frompid rep < Maxhosts) (OutOfBounds ''allstats'')) (\<lambda>_.
     let st = st\<lparr>allstats := (allstats st)(frompid rep :=
                keep_stat soft (read_stat (data rep)) (allstats st (frompid rep))),
              statcnt := statcnt st + 1\<rparr>
     in if statcnt st = int (hostc s)
        then let st = clearstat (st\<lparr>statcnt := 0\<rparr>)
          in bindE (freemsg_lock s) (\<lambda>(k, s).
             let s = set_slot k ((slot_msg (mbuf s ! k))\<lparr>frompid := jia_pid s, size := 0, op := op_num STATGRANT\<rparr>) s;
                 s = send_to k (rev [0..<hostc s]) s
             in Inr (st, freemsg_unlock k s))
        else Inr (st, s))))"

definition statgrantserver :: "jia_msg \<Rightarrow> stats \<times> host \<Rightarrow> (stats \<times> host) res" where
  "statgrantserver req = (\<lambda>(st, s).
     bindE (assertE (is_op req STATGRANT \<and> topid req = jia_pid s) (JiaAssert ''Incorrect STATGRANT Message!''))
       (\<lambda>_. Inr (st\<lparr>waitstat := 0\<rparr>, s)))"

text \<open>
  \<open>jia_exit\<close> up to its wait for the grant, and the whole; a host other than 0 gives up waiting after
  some time, which is what \<open>timeout\<close> stands for.
\<close>

definition stat_send :: "stats \<times> host \<Rightarrow> (stats \<times> host) res" where
  "stat_send = (\<lambda>(st, s). bindE (with_slot (\<lambda>reply. appendmsg (reply\<lparr>frompid := jia_pid s, topid := 0,
       size := 0, op := op_num STAT\<rparr>) (stat_bytes (jiastat st))) s) (\<lambda>s. Inr (st\<lparr>waitstat := 1\<rparr>, s)))"

definition jia_exit :: "(host \<Rightarrow> host res) \<Rightarrow> (stats \<times> host \<Rightarrow> (stats \<times> host) res) \<Rightarrow> bool \<Rightarrow>
    stats \<times> host \<Rightarrow> (stats \<times> host) res" where
  "jia_exit waitw waitg timeout = (\<lambda>(st, s). bindE (jia_wait waitw s) (\<lambda>s.
     if 1 < hostc s
     then bindE (stat_send (st, s)) (\<lambda>t. bindE (waitg t) (\<lambda>(st, s).
          if waitstat st = 0 \<or> jia_pid s \<noteq> 0 \<and> timeout then Inr (st, s) else Inl (WouldBlock ''waitstat'')))
     else Inr (st, s)))"

text \<open>The totals that host 0 prints; the number of barriers is that of the last host.\<close>

definition stat_total :: "nat \<Rightarrow> (nat \<Rightarrow> jiastat) \<Rightarrow> jiastat" where
  "stat_total n al = (\<lambda>f.
     if f \<in> set summed_fields then sum_list (map (\<lambda>i. al i f) [0..<n])
     else if f = ''barrcnt'' \<and> 0 < n then al (n - 1) f else 0)"

section \<open>What is collected\<close>

lemma stat_bytes_length: "length (stat_bytes st) = 4 * length stat_fields"
proof -
  have "length (concat (map (\<lambda>f. itob (st f)) fs)) = 4 * length fs" for fs by (induction fs) simp_all
  then show ?thesis by (simp add: stat_bytes_def)
qed

lemma stat_fields_distinct: "distinct stat_fields" "set copied_fields \<subseteq> set stat_fields" "length stat_fields = 60"
  by (simp_all add: stat_fields_def copied_fields_def)

lemma map_of_upt:
  assumes "distinct xs" "x \<in> set xs"
  shows "\<exists>i<length xs. map_of (zip xs [0..<length xs]) x = Some i \<and> xs ! i = x"
proof -
  obtain i where i: "i < length xs" "x = xs ! i" using assms(2) by (auto simp: in_set_conv_nth)
  then show ?thesis using map_of_zip_nth [of xs "[0..<length xs]" i] assms(1) by auto
qed

lemma read_stat_bytes:
  assumes "bslice d 0 (4 * length stat_fields) = stat_bytes st" "f \<in> set stat_fields"
  shows "read_stat d f = st f"
proof -
  obtain i where i: "i < length stat_fields" "map_of (zip stat_fields [0..<length stat_fields]) f = Some i"
    "stat_fields ! i = f"
    using map_of_upt [OF stat_fields_distinct(1) assms(2)] by blast
  have "bslice d (0 + 4 * i) 4 = itob (st (stat_fields ! i))"
    by (rule bslice_chunk [of d 0 4 stat_fields "\<lambda>f. itob (st f)"]) (use assms(1) i(1) in \<open>simp_all add: stat_bytes_def\<close>)
  then have "bytestoi d (4 * i) = st f" using bytestoi_bslice i(3) by simp
  then show ?thesis by (simp add: read_stat_def i(2))
qed

text \<open>The report of host \<open>p\<close>.\<close>

definition stat_msg_ok :: "(nat \<Rightarrow> jiastat) \<Rightarrow> jia_msg \<Rightarrow> bool" where
  "stat_msg_ok own m \<longleftrightarrow> is_op m STAT \<and> topid m = 0 \<and> frompid m < Maxhosts \<and>
     payload m = stat_bytes (own (frompid m))"

definition stat_inv :: "stats \<times> host \<Rightarrow> bool" where
  "stat_inv t \<longleftrightarrow> 0 \<le> statcnt (fst t) \<and> statcnt (fst t) < int (hostc (snd t)) \<and> mbuf_inv (snd t) \<and> 0 < mcount (snd t)"

lemma stat_msg_kept:
  assumes "stat_msg_ok own m"
  shows "keep_stat soft (read_stat (data m)) old = keep_stat soft (own (frompid m)) old"
proof -
  have "size m = 4 * length stat_fields"
    using assms payload_size [of m] stat_bytes_length by (auto simp: stat_msg_ok_def)
  then have "bslice (data m) 0 (4 * length stat_fields) = stat_bytes (own (frompid m))"
    using assms by (simp add: stat_msg_ok_def payload_def)
  note rd = read_stat_bytes [OF this]
  have "read_stat (data m) f = own (frompid m) f" if "f \<in> set copied_fields" for f
    using rd that stat_fields_distinct(2) by blast
  moreover have "{''msgsndcnt'', ''msgsndbytes'', ''msgrcvcnt'', ''msgrcvbytes'', ''endifftime'', ''dedifftime''} \<subseteq> set copied_fields"
    by (simp add: copied_fields_def)
  ultimately show ?thesis by (auto simp: keep_stat_def fun_eq_iff)
qed

lemma keep_stat_again:
  "keep_stat soft st (keep_stat soft st old) = keep_stat soft st old"
  by (simp add: keep_stat_def fun_eq_iff)

lemma statserver_run:
  assumes "stat_inv (st, s)" "stat_msg_ok own m"
  shows "\<exists>st' s'. statserver soft m (st, s) = Inr (st', s') \<and> stat_inv (st', s') \<and> hostc s' = hostc s \<and>
    nat (statcnt st') = (if nat (statcnt st) + 1 = hostc s then 0 else nat (statcnt st) + 1) \<and>
    grants_of STATGRANT s' = grants_of STATGRANT s @ (if nat (statcnt st) + 1 = hostc s then rev [0..<hostc s] else []) \<and>
    allstats st' = (allstats st)(frompid m := keep_stat soft (read_stat (data m)) (allstats st (frompid m))) \<and>
    waitstat st' = waitstat st"
proof -
  have ok: "is_op m STAT \<and> topid m = 0" "frompid m < Maxhosts" using assms(2) by (auto simp: stat_msg_ok_def)
  have c: "statcnt st + 1 = int (hostc s) \<longleftrightarrow> nat (statcnt st) + 1 = hostc s"
    using assms(1) by (auto simp: stat_inv_def)
  show ?thesis
  proof (cases "nat (statcnt st) + 1 = hostc s")
    case False
    then show ?thesis using ok c assms(1)
      by (auto simp: statserver_def Let_def stat_inv_def nat_add_distrib)
  next
    case True
    have i: "mbuf_inv s" "0 < mcount s" using assms(1) by (auto simp: stat_inv_def)
    obtain k s1 where lk: "freemsg_lock s = Inr (k, s1)" using freemsg_lock_total [OF i] by blast
    have h: "hostc s1 = hostc s" using lk by (auto simp: freemsg_lock_def split: if_splits option.splits)
    let ?m = "(slot_msg (mbuf s1 ! k))\<lparr>frompid := jia_pid s1, size := 0, op := op_num STATGRANT\<rparr>"
    obtain b where b: "mbuf_inv (freemsg_unlock k (send_to k (rev [0..<hostc s]) (set_slot k ?m s1)))"
      "freemsg_unlock k (send_to k (rev [0..<hostc s]) (set_slot k ?m s1)) =
        s\<lparr>mbuf := b, outq := outq s @ map (\<lambda>h. ?m\<lparr>topid := h\<rparr>) (rev [0..<hostc s])\<rparr>"
      using send_to_all [OF lk i(1)] by blast
    have "hostc (set_slot k ?m s1) = hostc s" using h by (simp add: set_slot_def)
    then have run: "statserver soft m (st, s) = Inr (clearstat (st\<lparr>allstats := (allstats st)(frompid m :=
        keep_stat soft (read_stat (data m)) (allstats st (frompid m))), statcnt := 0\<rparr>),
        s\<lparr>mbuf := b, outq := outq s @ map (\<lambda>h. ?m\<lparr>topid := h\<rparr>) (rev [0..<hostc s])\<rparr>)"
      using ok c True lk b(2) by (simp add: statserver_def Let_def)
    have "is_op ?m STATGRANT" by (simp add: is_op_def)
    from grants_of_each [OF this, of "rev [0..<hostc s]"] show ?thesis
      unfolding run using True b(1) assms(1) unfolding b(2)
      by (simp add: stat_inv_def grants_of_def clearstat_def)
  qed
qed

interpretation st: rendezvous n "rev [0..<n]" "\<lambda>t. nat (statcnt (fst t))" "\<lambda>t. grants_of STATGRANT (snd t)"
  "\<lambda>t. stat_inv t \<and> hostc (snd t) = n" "statserver soft" "stat_msg_ok own" for n soft own
proof
  fix t m
  show "nat (statcnt (fst t)) < n" if "stat_inv t \<and> hostc (snd t) = n"
    using that by (auto simp: stat_inv_def)
  show "\<exists>t'. statserver soft m t = Inr t' \<and> (stat_inv t' \<and> hostc (snd t') = n) \<and>
      nat (statcnt (fst t')) = (if nat (statcnt (fst t)) + 1 = n then 0 else nat (statcnt (fst t)) + 1) \<and>
      grants_of STATGRANT (snd t') = grants_of STATGRANT (snd t) @
        (if nat (statcnt (fst t)) + 1 = n then rev [0..<n] else [])"
    if "stat_inv t \<and> hostc (snd t) = n" "stat_msg_ok own m"
    using statserver_run [of "fst t" "snd t" own m soft] that by (cases t) fastforce
qed

lemma statserver_keeps:
  assumes "stat_inv (st, s)" "\<forall>m\<in>set ms. stat_msg_ok own m" "foldE (statserver soft) ms (st, s) = Inr (st', s')"
  shows "allstats st' p =
    (if p \<in> frompid ` set ms then keep_stat soft (own p) (allstats st p) else allstats st p)"
  using assms
proof (induction ms arbitrary: st s)
  case (Cons m ms)
  obtain st1 s1 where s1: "statserver soft m (st, s) = Inr (st1, s1)" "stat_inv (st1, s1)"
    "allstats st1 = (allstats st)(frompid m := keep_stat soft (read_stat (data m)) (allstats st (frompid m)))"
    using statserver_run [of st s own m soft] Cons.prems by auto
  have "keep_stat soft (read_stat (data m)) old = keep_stat soft (own (frompid m)) old" for old
    using stat_msg_kept Cons.prems(2) by simp
  then show ?case using Cons.IH [of st1 s1] Cons.prems s1 by (auto simp: keep_stat_again)
qed simp

text \<open>
  C37: The statistics are collected: when each host has reported once, in any order, host 0 has of
  every host exactly the values it sent for the members listed in the theorem, the time of the
  differences is the sum of the two it sent and the time of the network is computed from its counts,
  host 0 has queued one grant for each host, and its count of reports is back at zero. Nine members
  are sent and not taken over, the time for initialising synchronisation among them: they stay what
  they were.
\<close>

theorem stat_round:
  assumes "stat_inv (st, s)" "statcnt st = 0" "\<forall>m\<in>set ms. stat_msg_ok own m"
    "length ms = hostc s" "distinct (map frompid ms)" "frompid ` set ms = {..<hostc s}"
  shows "\<exists>st' s'. foldE (statserver soft) ms (st, s) = Inr (st', s') \<and> statcnt st' = 0 \<and>
    grants_of STATGRANT s' = grants_of STATGRANT s @ rev [0..<hostc s] \<and>
    (\<forall>p<hostc s. \<forall>f\<in>set [''msgsndbytes'', ''msgrcvbytes'', ''msgsndcnt'', ''msgrcvcnt'', ''segvRcnt'',
        ''segvLcnt'', ''sigiocnt'', ''usersigiocnt'', ''synsigiocnt'', ''segvsigiocnt'', ''barrcnt'',
        ''lockcnt'', ''getpcnt'', ''prefetchcnt'', ''diffcnt'', ''invcnt'', ''mwdiffcnt'', ''repROcnt'',
        ''repRWcnt'', ''migincnt'', ''migoutcnt'', ''resendcnt'', ''barrtime'', ''segvRtime'',
        ''segvLtime'', ''locktime'', ''unlocktime'', ''synsigiotime'', ''segvsigiotime'',
        ''usersigiotime'', ''endifftime'', ''dedifftime'', ''largecnt'', ''smallcnt'', ''waittime'',
        ''inittime'', ''initset'', ''initcreat'', ''createdir'', ''copyfiles'', ''startprocs'',
        ''initmem'', ''initcomm'', ''initrdmacontext'', ''initrdmaconnection'', ''initrdmaresource'',
        ''initmsg'', ''alloctime'']. allstats st' p f = own p f) \<and>
    (\<forall>p<hostc s. allstats st' p ''difftime'' = own p ''endifftime'' + own p ''dedifftime'' \<and>
      allstats st' p ''commhardtime'' = own p ''msgsndcnt'' * 20 + 20 * own p ''msgsndbytes'' \<and>
      allstats st' p ''commsofttime'' =
        soft (own p ''msgsndcnt'') (own p ''msgsndbytes'') (own p ''msgrcvcnt'') (own p ''msgrcvbytes'')) \<and>
    (\<forall>p. \<forall>f\<in>set [''kernelflag'', ''busytime'', ''datatime'', ''syntime'', ''othertime'', ''segvtime'',
        ''commtime'', ''initsyn'', ''exittime'']. allstats st' p f = allstats st p f)"
proof -
  obtain t where t: "foldE (statserver soft) ms (st, s) = Inr t" "stat_inv t" "nat (statcnt (fst t)) = length ms mod hostc s"
    "grants_of STATGRANT (snd t) = grants_of STATGRANT s @ concat (replicate (length ms div hostc s) (rev [0..<hostc s]))"
    using st.arrivals [of "(st, s)" "hostc s" ms own soft] assms(1-3) by auto
  have pos: "0 < hostc s" using assms(1) by (auto simp: stat_inv_def)
  have al: "allstats (fst t) p = (if p < hostc s then keep_stat soft (own p) (allstats st p) else allstats st p)" for p
    using statserver_keeps [OF assms(1,3), of soft "fst t" "snd t" p] t(1) unfolding assms(6) by simp
  have g: "grants_of STATGRANT (snd t) = grants_of STATGRANT s @ rev [0..<hostc s]" "statcnt (fst t) = 0"
    using t(2-4) assms(4) pos by (simp_all add: stat_inv_def)
  show ?thesis
    by (rule exI [of _ "fst t"], rule exI [of _ "snd t"], intro conjI)
      (use t(1) g in \<open>simp_all add: al keep_stat_def copied_fields_def\<close>)
qed

definition stat_msg :: "nat \<Rightarrow> jiastat \<Rightarrow> jia_msg" where
  "stat_msg p st = clear_msg\<lparr>op := op_num STAT, frompid := p, topid := 0, size := 240,
     data := put (\<lambda>_. 0) 0 (stat_bytes st)\<rparr>"

lemma stat_round_witness:
  "\<exists>st' s'. foldE (statserver (\<lambda>_ _ _ _. 0)) (map (\<lambda>p. stat_msg p (\<lambda>f. word_of_nat p)) [2, 0, 1])
      (\<lparr>jiastat = (\<lambda>_. 0), allstats = (\<lambda>_ _. 0), statcnt = 0, waitstat = 1\<rparr>, demo_manager) = Inr (st', s') \<and>
     allstats st' 2 ''barrcnt'' = 2 \<and> allstats st' 2 ''difftime'' = 4 \<and> allstats st' 2 ''initsyn'' = 0"
proof -
  let ?ms = "map (\<lambda>p. stat_msg p (\<lambda>f. word_of_nat p)) [2, 0, 1]"
  let ?own = "\<lambda>p f. word_of_nat p :: u32"
  have "stat_msg_ok ?own (stat_msg p (?own p))" if "p < 3" for p
    using that stat_bytes_length [of "?own p"] stat_fields_distinct(3)
    by (simp add: stat_msg_ok_def stat_msg_def is_op_def payload_def bytes_simps Maxhosts_def)
  from this [of 2] this [of 0] this [of 1] have ms: "\<forall>m\<in>set ?ms. stat_msg_ok ?own m" by simp
  have i: "stat_inv (\<lparr>jiastat = (\<lambda>_. 0), allstats = (\<lambda>_ _. 0), statcnt = 0, waitstat = 1\<rparr>, demo_manager)"
    using demo_manager_barr(1,3) by (simp add: stat_inv_def barr_inv_def)
  have h: "length ?ms = hostc demo_manager" "distinct (map frompid ?ms)" "frompid ` set ?ms = {..<hostc demo_manager}"
    by (auto simp: demo_manager_barr stat_msg_def)
  obtain st' s' where st': "foldE (statserver (\<lambda>_ _ _ _. 0)) ?ms
      (\<lparr>jiastat = (\<lambda>_. 0), allstats = (\<lambda>_ _. 0), statcnt = 0, waitstat = 1\<rparr>, demo_manager) = Inr (st', s')"
    "\<forall>p<hostc demo_manager. \<forall>f\<in>set [''barrcnt'']. allstats st' p f = ?own p f"
    "\<forall>p<hostc demo_manager. allstats st' p ''difftime'' = ?own p ''endifftime'' + ?own p ''dedifftime''"
    "\<forall>p. \<forall>f\<in>set [''initsyn'']. allstats st' p f = 0"
    using stat_round [OF i _ ms h, of "\<lambda>_ _ _ _. 0"] by auto
  have "allstats st' 2 ''barrcnt'' = 2 \<and> allstats st' 2 ''difftime'' = 4 \<and> allstats st' 2 ''initsyn'' = 0"
    using st'(2-4) demo_manager_barr(3) by simp
  then show ?thesis using st'(1) by blast
qed

end
