(* ===== verification/Server.thy ===== *)
theory Server
  imports Stat Load MsgPass Alloc Udp Setting Synuser
begin

text \<open>
  A process: the state of all components together, its initialisation (\<open>jia_init\<close> of
  \<open>src/src/init/init.c\<close>, \<open>init_udp_comm\<close> of \<open>src/src/udp/udp_comm.c\<close>, \<open>inittools\<close> and
  \<open>jia_config\<close> of \<open>src/src/tools/tools.c\<close>), the server thread that takes messages from the input
  queue (\<open>src/src/udp/udp_server.c\<close>), the dispatch of a message to its server (\<open>msg_handle\<close> of
  \<open>src/src/msg/msg.c\<close>), and how a failed \<open>jia_assert\<close> ends the program.
\<close>

section \<open>The state of a process\<close>

record 'f proc =
  p_host :: host
  p_packets :: packets
  p_loads :: "'f loads"
  p_stats :: stats
  p_comm :: comm_manager
  p_inqueue :: "jia_msg msg_queue"

text \<open>The arithmetic of \<open>float\<close> and the calculation of \<open>commsofttime\<close> in \<open>double\<close>.\<close>

record 'f machine =
  farith :: "'f farith"
  softtime :: "u32 \<Rightarrow> u32 \<Rightarrow> u32 \<Rightarrow> u32 \<Rightarrow> u32"

definition on_host :: "(host \<Rightarrow> host res) \<Rightarrow> 'f proc \<Rightarrow> 'f proc res" where
  "on_host f p = bindE (f (p_host p)) (\<lambda>s. Inr (p\<lparr>p_host := s\<rparr>))"

definition on_packets :: "(packets \<Rightarrow> packets res) \<Rightarrow> 'f proc \<Rightarrow> 'f proc res" where
  "on_packets f p = bindE (f (p_packets p)) (\<lambda>x. Inr (p\<lparr>p_packets := x\<rparr>))"

definition on_loads :: "('f loads \<times> host \<Rightarrow> ('f loads \<times> host) res) \<Rightarrow> 'f proc \<Rightarrow> 'f proc res" where
  "on_loads f p = bindE (f (p_loads p, p_host p)) (\<lambda>(x, s). Inr (p\<lparr>p_loads := x, p_host := s\<rparr>))"

definition on_stats :: "(stats \<times> host \<Rightarrow> (stats \<times> host) res) \<Rightarrow> 'f proc \<Rightarrow> 'f proc res" where
  "on_stats f p = bindE (f (p_stats p, p_host p)) (\<lambda>(x, s). Inr (p\<lparr>p_stats := x, p_host := s\<rparr>))"

section \<open>Handling a message\<close>

definition jiaexitserver :: "jia_msg \<Rightarrow> host \<Rightarrow> host res" where
  "jiaexitserver req s = Inl (Exit (-1))"

text \<open>The \<open>default\<close> of the \<open>switch\<close>.\<close>

definition other_msg :: "jia_msg \<Rightarrow> host \<Rightarrow> host res" where
  "other_msg m s = (if BCAST \<le> op m then bindE (bcastserver m s) (\<lambda>(_, s). Inr s)
     else Inl (LocalAssert ''msgserver(): Incorrect Message!''))"

text \<open>\<open>msg_handle\<close>; \<open>rnds\<close> are the numbers that \<open>random\<close> gives \<open>getpgrantserver\<close>.\<close>

definition msg_handle :: "'f machine \<Rightarrow> (nat \<Rightarrow> nat) \<Rightarrow> jia_msg \<Rightarrow> 'f proc \<Rightarrow> 'f proc res" where
  "msg_handle mc rnds m = (case op_of_num (op m) of
     Some DIFF \<Rightarrow> on_host (diffserver m)
   | Some DIFFGRANT \<Rightarrow> on_host (diffgrantserver m)
   | Some GETP \<Rightarrow> on_host (getpserver m)
   | Some GETPGRANT \<Rightarrow> on_host (getpgrantserver rnds m)
   | Some ACQ \<Rightarrow> on_host (acqserver m)
   | Some ACQGRANT \<Rightarrow> on_host (acqgrantserver m)
   | Some INVLD \<Rightarrow> on_host (invserver m)
   | Some BARR \<Rightarrow> on_host (barrserver m)
   | Some BARRGRANT \<Rightarrow> on_host (barrgrantserver m)
   | Some REL \<Rightarrow> on_host (relserver m)
   | Some WTNT \<Rightarrow> on_host (wtntserver m)
   | Some JIAEXIT \<Rightarrow> on_host (jiaexitserver m)
   | Some WAIT \<Rightarrow> on_host (waitserver m)
   | Some WAITGRANT \<Rightarrow> on_host (waitgrantserver m)
   | Some STAT \<Rightarrow> on_stats (statserver (softtime mc) m)
   | Some STATGRANT \<Rightarrow> on_stats (statgrantserver m)
   | Some SETCV \<Rightarrow> on_host (setcvserver m)
   | Some RESETCV \<Rightarrow> on_host (resetcvserver m)
   | Some WAITCV \<Rightarrow> on_host (waitcvserver m)
   | Some CVGRANT \<Rightarrow> on_host (cvgrantserver m)
   | Some MSGBODY \<Rightarrow> on_packets (msgrecvserver m)
   | Some MSGTAIL \<Rightarrow> on_packets (msgrecvserver m)
   | Some LOADREQ \<Rightarrow> on_loads (loadserver (farith mc) m)
   | Some LOADGRANT \<Rightarrow> on_loads (loadgrantserver (farith mc) m)
   | _ \<Rightarrow> on_host (other_msg m))"

text \<open>
  One turn of \<open>server_thread\<close>: the slot of a message is given back when the message was handled.
\<close>

definition server_thread :: "'f machine \<Rightarrow> (nat \<Rightarrow> nat) \<Rightarrow> 'f proc \<Rightarrow> 'f proc res" where
  "server_thread mc rnds p = bindE (sem_wait_busy (p_inqueue p)) (\<lambda>q.
     let (m, q) = dequeue q
     in bindE (msg_handle mc rnds m (p\<lparr>p_inqueue := q\<rparr>)) (\<lambda>p.
        Inr (p\<lparr>p_inqueue := sem_post_free (p_inqueue p)\<rparr>)))"

section \<open>Failed assertions\<close>

text \<open>
  What \<open>jia_assert\<close> does before \<open>exit (-1)\<close> when its condition is false; \<open>msg\<close> is the formatted
  text with its terminating zero, which \<open>vsprintf\<close> writes without a bound: a text longer than the
  data of a message, which would write past it, is not excluded here. The loop addresses the
  message to every other host; the statement after it sets \<open>topid\<close> of another message, so the
  message is sent once more as it is. The messages are queued; \<open>exit (-1)\<close>, which follows, may come
  before they are sent.
\<close>

definition jia_assert_send :: "u8 list \<Rightarrow> host \<Rightarrow> host res" where
  "jia_assert_send amsg s = bindE (freemsg_lock s) (\<lambda>(k, s).
     let m = slot_msg (mbuf s ! k);
         s = set_slot k (m\<lparr>data := put (data m) 0 amsg, op := op_num JIAEXIT, frompid := jia_pid s,
           size := length amsg\<rparr>) s;
         s = send_to k (filter (\<lambda>i. i \<noteq> jia_pid s) [0..<hostc s]) s
     in Inr (freemsg_unlock k (move_msg_to_outqueue k s)))"

section \<open>Optimisations\<close>

definition HMIG :: int where "HMIG = 0"
definition ADWD :: int where "ADWD = 1"
definition BROADCAST :: int where "BROADCAST = 2"
definition LOADBAL :: int where "LOADBAL = 3"
definition WVEC :: int where "WVEC = 4"

definition inittools :: "setting \<Rightarrow> host \<Rightarrow> host" where
  "inittools st s = s\<lparr>H_MIG := OFF, AD_WD := OFF, B_CAST := OFF, LOAD_BAL := OFF, W_VEC := OFF,
     prefetch_flag := set_prefetch st, prefetch_pages := set_prefetch_pages st,
     max_checking_pages := set_checking_pages st\<rparr>"

text \<open>
  Turning write vectors on: each home page gets a vector, whose contents are those of the allocated
  memory (\<open>junk\<close>) until \<open>setwtvect\<close> has written them.
\<close>

definition new_wtvects :: "(nat \<Rightarrow> u64) \<Rightarrow> host \<Rightarrow> host res" where
  "new_wtvects junk = foldE (\<lambda>i s. setwtvect i WVFULL (upd_home i (\<lambda>h. h\<lparr>h_wtvect := Some junk\<rparr>) s)) [0..<Homepages]"

definition free_wtvects :: "host \<Rightarrow> host" where
  "free_wtvects s = fold (\<lambda>i. upd_home i (\<lambda>h. h\<lparr>h_wtvect := None\<rparr>)) [0..<Homepages] s"

definition jia_config :: "'f farith \<Rightarrow> (nat \<Rightarrow> u64) \<Rightarrow> int \<Rightarrow> int \<Rightarrow> 'f loads \<times> host \<Rightarrow> ('f loads \<times> host) res" where
  "jia_config fa junk dest v = (\<lambda>(ld, s).
     if dest = HMIG then Inr (ld, s\<lparr>H_MIG := v\<rparr>)
     else if dest = ADWD then Inr (ld, s\<lparr>AD_WD := v\<rparr>)
     else if dest = BROADCAST then Inr (ld, s\<lparr>B_CAST := v\<rparr>)
     else if dest = LOADBAL
       then Inr ((if v = ON then ld\<lparr>firsttime := True\<rparr> else ld)\<lparr>caltime := fofint fa 0\<rparr>, s\<lparr>LOAD_BAL := v\<rparr>)
     else if dest = WVEC
       then bindE (if W_VEC s = OFF \<and> v = ON then new_wtvects junk s
                   else if W_VEC s = ON \<and> v = OFF then Inr (free_wtvects s) else Inr s)
             (\<lambda>s. Inr (ld, s\<lparr>W_VEC := v\<rparr>))
     else Inr (ld, s))"

section \<open>Initialisation\<close>

text \<open>
  The variables of a process before \<open>main\<close>, and what \<open>init_setting\<close> puts into those that the model
  keeps with the host.
\<close>

definition static_proc :: "jia_msg list \<Rightarrow> 'f loads \<Rightarrow> 'f proc" where
  "static_proc bufs ld = \<lparr>p_host = static_host,
     p_packets = \<lparr>msgbuf = bufs, msgseqno = 0, endofmsg = 0, recvwait = 0\<rparr>, p_loads = ld,
     p_stats = \<lparr>jiastat = (\<lambda>_. 0), allstats = (\<lambda>_ _. 0), statcnt = 0, waitstat = 0\<rparr>,
     p_comm = \<lparr>snd_seq = (\<lambda>_. 0), rcv_seq = (\<lambda>_. 0), last_ack_seq = (\<lambda>_. 0), snd_server_port = 0, ack_port = 0,
       rcv_ports = (\<lambda>_. 0)\<rparr>,
     p_inqueue = \<lparr>queue = (\<lambda>_. clear_msg), qsize = 0, head = 0, tail = 0, busy_count = 0, free_count = 0\<rparr>\<rparr>"

definition set_host :: "setting \<Rightarrow> host \<Rightarrow> host" where
  "set_host st s = s\<lparr>jia_pid := set_pid st, hostc := set_hostc st, global_start_addr := set_start_addr st\<rparr>"

text \<open>
  \<open>init_udp_comm\<close> without its sockets and threads; the output queue is the list \<open>outq\<close>. The message
  buffer is made a second time by \<open>initmsg\<close>.
\<close>

definition init_udp_comm :: "setting \<Rightarrow> int \<Rightarrow> (nat \<Rightarrow> jia_msg) \<Rightarrow> 'f proc \<Rightarrow> 'f proc" where
  "init_udp_comm st port junk p = p\<lparr>
     p_host := init_msg_buffer (set_buffer_size st) (set_buffer_size st) (p_host p),
     p_inqueue := init_msg_queue (set_queue_size st) (set_queue_size st) junk,
     p_comm := init_comm_manager port (set_pid st) (p_comm p)\<rparr>"

text \<open>
  \<open>jia_init\<close> of a host whose processes are started: \<open>jiacreat\<close> ends a program without hosts; the
  result of \<open>init_setting\<close> is not looked at. \<open>init_rdma\<close> is \<open>init_rdma_comm\<close>.
\<close>

definition jia_init :: "('f proc \<Rightarrow> 'f proc res) \<Rightarrow> 'f farith \<Rightarrow> (nat \<Rightarrow> jia_msg) \<Rightarrow> int \<Rightarrow>
    string option \<Rightarrow> string option \<Rightarrow> string list option \<Rightarrow> 'f proc \<Rightarrow> 'f proc res" where
  "jia_init init_rdma fa junk port conf hosts ifs p =
     bindE (init_setting conf hosts ifs system_setting) (\<lambda>(_, st).
     if set_hostc st = 0 then Inl (Exit 0)
     else bindE (on_host initmem (p\<lparr>p_stats := clearstat (p_stats p), p_host := set_host st (p_host p)\<rparr>)) (\<lambda>p.
          let p = p\<lparr>p_host := initsyn (p_host p)\<rparr>
          in bindE (case set_comm st of UDP \<Rightarrow> Inr (init_udp_comm st port junk p) | RDMA \<Rightarrow> init_rdma p
                    | TCP \<Rightarrow> Inr p) (\<lambda>p.
             let s = init_msg_buffer (set_buffer_size st) (set_buffer_size st) (p_host p);
                 s = inittools st s
             in Inr (p\<lparr>p_host := s, p_packets := initmsg (p_packets p), p_loads := initload fa (p_loads p)\<rparr>))))"

section \<open>The server thread\<close>

text \<open>A handler neither reads nor writes the input queue.\<close>

definition keeps_queue :: "('f proc \<Rightarrow> 'f proc res) \<Rightarrow> bool" where
  "keeps_queue h \<longleftrightarrow> (\<forall>p q. h (p\<lparr>p_inqueue := q\<rparr>) = bindE (h p) (\<lambda>p. Inr (p\<lparr>p_inqueue := q\<rparr>)))"

lemma keeps_queue_on:
  "keeps_queue (on_host f)" "keeps_queue (on_packets g)" "keeps_queue (on_loads k)" "keeps_queue (on_stats l)"
  by (auto simp: keeps_queue_def on_host_def on_packets_def on_loads_def on_stats_def bindE_def split: sum.split)

lemma msg_handle_keeps_queue: "keeps_queue (msg_handle mc rnds m)"
  by (auto simp: msg_handle_def keeps_queue_on split: option.split msg_op.split)

lemma server_thread_take:
  "server_thread mc rnds p = bindE (take_msg (p_inqueue p)) (\<lambda>(m, q).
     bindE (msg_handle mc rnds m p) (\<lambda>p. Inr (p\<lparr>p_inqueue := q\<rparr>)))"
  using msg_handle_keeps_queue [of mc rnds]
  by (auto simp: server_thread_def take_msg_def keeps_queue_def bindE_def Let_def split: sum.split prod.split)

lemma handle_all_keeps_queue: "keeps_queue (foldE (\<lambda>(r, m). msg_handle mc r m) xs)"
proof (induction xs)
  case Nil
  show ?case by (simp add: keeps_queue_def)
next
  case (Cons x xs)
  obtain r m where x: "x = (r, m)" by (cases x)
  show ?case
    using Cons msg_handle_keeps_queue [of mc r m]
    by (auto simp: keeps_queue_def x bindE_def split: sum.split)
qed

text \<open>
  The server thread handles the messages of the input queue in their order. Any number of its
  turns, up to the number of messages in the queue, has exactly the effect of handling these
  messages one after the other, stops where handling them stops, and leaves the rest in the queue.
\<close>

theorem server_in_order:
  assumes "queue_inv (p_inqueue p)" "length rs \<le> length (contents (p_inqueue p))"
  shows "\<exists>q. queue_inv q \<and> contents q = drop (length rs) (contents (p_inqueue p)) \<and>
    foldE (server_thread mc) rs p =
      bindE (foldE (\<lambda>(r, m). msg_handle mc r m) (zip rs (contents (p_inqueue p))) p)
        (\<lambda>p'. Inr (p'\<lparr>p_inqueue := q\<rparr>))"
  using assms
proof (induction rs arbitrary: p)
  case Nil
  then show ?case by (intro exI [of _ "p_inqueue p"]) simp
next
  case (Cons r rs)
  obtain m ms where c: "contents (p_inqueue p) = m # ms" using Cons.prems by (cases "contents (p_inqueue p)") auto
  obtain q where q: "take_msg (p_inqueue p) = Inr (m, q)" "queue_inv q" "contents q = ms"
    using mq.deq_ok [OF Cons.prems(1) c] by blast
  have s: "server_thread mc r p = bindE (msg_handle mc r m p) (\<lambda>p. Inr (p\<lparr>p_inqueue := q\<rparr>))"
    by (simp add: server_thread_take q)
  show ?case
  proof (cases "msg_handle mc r m p")
    case (Inl e)
    have "\<exists>q'. queue_inv q' \<and> contents q' = drop (length rs) ms"
      using Cons.IH [of "p\<lparr>p_inqueue := q\<rparr>"] q Cons.prems(2) c by auto
    then show ?thesis using s Inl c by auto
  next
    case (Inr p1)
    obtain q' where q': "queue_inv q'" "contents q' = drop (length rs) ms"
      "foldE (server_thread mc) rs (p1\<lparr>p_inqueue := q\<rparr>) =
        bindE (foldE (\<lambda>(r, m). msg_handle mc r m) (zip rs ms) (p1\<lparr>p_inqueue := q\<rparr>)) (\<lambda>p'. Inr (p'\<lparr>p_inqueue := q'\<rparr>))"
      using Cons.IH [of "p1\<lparr>p_inqueue := q\<rparr>"] q Cons.prems(2) c by auto
    have "bindE (foldE (\<lambda>(r, m). msg_handle mc r m) (zip rs ms) (p1\<lparr>p_inqueue := q\<rparr>)) (\<lambda>p'. Inr (p'\<lparr>p_inqueue := q'\<rparr>)) =
        bindE (foldE (\<lambda>(r, m). msg_handle mc r m) (zip rs ms) p1) (\<lambda>p'. Inr (p'\<lparr>p_inqueue := q'\<rparr>))"
      using handle_all_keeps_queue [of mc "zip rs ms"] by (auto simp: keeps_queue_def bindE_def split: sum.split)
    then show ?thesis using s Inr c q' by auto
  qed
qed

section \<open>Assertions\<close>

text \<open>Sending a message as it is once more is sending it to its last destination again.\<close>

lemma send_again:
  assumes "k < length (mbuf s)" "hs \<noteq> []"
  shows "move_msg_to_outqueue k (send_to k hs s) = send_to k (hs @ [last hs]) s"
proof -
  obtain hs' h where hs: "hs = hs' @ [h]" using assms(2) by (metis append_butlast_last_id)
  let ?t = "set_slot k ((slot_msg (mbuf (send_to k hs' s) ! k))\<lparr>topid := h\<rparr>) (send_to k hs' s)"
  obtain b where "send_to k hs' s = s\<lparr>mbuf := b, outq := outq s @ map (\<lambda>h. (slot_msg (mbuf s ! k))\<lparr>topid := h\<rparr>) hs'\<rparr>"
    "length b = length (mbuf s)" using send_to_each [OF assms(1), of hs'] by blast
  then have k: "k < length (mbuf (send_to k hs' s))" using assms(1) by simp
  have "send_to k hs s = move_msg_to_outqueue k ?t" by (simp add: hs send_to_def)
  moreover have "set_slot k ((slot_msg (mbuf ?t ! k))\<lparr>topid := h\<rparr>) (move_msg_to_outqueue k ?t) = move_msg_to_outqueue k ?t"
    using k by (simp add: set_slot_def move_msg_to_outqueue_def)
  ultimately show ?thesis using k by (simp add: hs send_to_def)
qed

text \<open>
  C40: A failed \<open>jia_assert\<close> tells every other host to exit, but the last of them is told twice, and
  the host itself, which the comment names as the last, is not told at all.
\<close>

theorem jia_assert_tells:
  assumes "mbuf_inv s" "0 < mcount s" "1 < hostc s" "jia_pid s < hostc s"
  shows "\<exists>s' ms. jia_assert_send amsg s = Inr s' \<and> mbuf_inv s' \<and> outq s' = outq s @ ms \<and>
    map topid ms = filter (\<lambda>i. i \<noteq> jia_pid s) [0..<hostc s] @
      [if jia_pid s = hostc s - 1 then hostc s - 2 else hostc s - 1] \<and>
    list_all (\<lambda>m. is_op m JIAEXIT \<and> frompid m = jia_pid s \<and> payload m = amsg) ms"
proof -
  let ?hs = "filter (\<lambda>i. i \<noteq> jia_pid s) [0..<hostc s]"
  obtain n where n: "hostc s = Suc (Suc n)" using that [of "hostc s - 2"] assms(3) by simp
  have l: "?hs \<noteq> []" "last ?hs = (if jia_pid s = hostc s - 1 then hostc s - 2 else hostc s - 1)"
    using assms(4) by (auto simp: n)
  obtain k s1 where lk: "freemsg_lock s = Inr (k, s1)" using freemsg_lock_total assms by blast
  have f: "hostc s1 = hostc s" "jia_pid s1 = jia_pid s"
    using lk by (auto simp: freemsg_lock_def split: if_splits option.splits)
  let ?m = "slot_msg (mbuf s1 ! k)"
  let ?m = "?m\<lparr>data := put (data ?m) 0 amsg, op := op_num JIAEXIT, frompid := jia_pid s, size := length amsg\<rparr>"
  have k: "k < length (mbuf (set_slot k m s1))" for m using freemsg_lock_inv(2) [OF lk assms(1)] by simp
  have h: "hostc (set_slot k m s1) = hostc s" "jia_pid (set_slot k m s1) = jia_pid s" for m by (simp_all add: set_slot_def f)
  obtain b where b: "mbuf_inv (freemsg_unlock k (send_to k (?hs @ [last ?hs]) (set_slot k ?m s1)))"
    "freemsg_unlock k (send_to k (?hs @ [last ?hs]) (set_slot k ?m s1)) =
      s\<lparr>mbuf := b, outq := outq s @ map (\<lambda>h. ?m\<lparr>topid := h\<rparr>) (?hs @ [last ?hs])\<rparr>"
    using send_to_all [OF lk assms(1)] by blast
  let ?u = "freemsg_unlock k (send_to k (?hs @ [last ?hs]) (set_slot k ?m s1))"
  let ?ms = "map (\<lambda>h. ?m\<lparr>topid := h\<rparr>) (?hs @ [last ?hs])"
  have run: "jia_assert_send amsg s = Inr ?u"
    using lk by (simp add: jia_assert_send_def Let_def f h send_again [OF k l(1)])
  have o: "outq ?u = outq s @ ?ms" unfolding b(2) by simp
  have to: "map topid (map (\<lambda>h. ?m\<lparr>topid := h\<rparr>) hs) = hs" for hs by (simp add: o_def)
  have "payload ?m = amsg" by (simp add: payload_def bytes_simps)
  then have all: "list_all (\<lambda>m. is_op m JIAEXIT \<and> frompid m = jia_pid s \<and> payload m = amsg) ?ms"
    by (auto simp: list_all_iff is_op_def payload_def)
  have tops: "map topid ?ms = ?hs @ [if jia_pid s = hostc s - 1 then hostc s - 2 else hostc s - 1]"
    unfolding to l(2) ..
  show ?thesis by (rule exI [of _ ?u], rule exI [of _ ?ms]) (intro conjI run b(1) o tops all)
qed

section \<open>After initialisation\<close>

lemma initmem_inv:
  assumes "initmem s = Inr t" "\<forall>i. homesize s i = 0"
  shows "cache_inv t" "mapped_inv t" "aligned (global_start_addr s) \<Longrightarrow> alloc_inv t"
  using assms
  by (auto simp: initmem_def cache_inv_def mapped_inv_def alloc_inv_def assertE_def split: if_splits)

text \<open>What the properties of the components start from, for a host that is about to run.\<close>

definition host_ready :: "nat set \<Rightarrow> host \<Rightarrow> bool" where
  "host_ready P s \<longleftrightarrow> jia_pid s < hostc s \<and> mbuf_inv s \<and> 0 < mcount s \<and> outq s = [] \<and>
     cache_inv s \<and> mapped_inv s \<and> alloc_inv s \<and> own_locks_ok s \<and> wait_inv s \<and> waitcounter s = 0 \<and>
     (\<forall>l<Maxlocks. l mod hostc s = jia_pid s \<longrightarrow> lock_inv l P s \<and> lock_queue l s = []) \<and>
     (hidelock mod hostc s = jia_pid s \<longrightarrow> barr_inv P s \<and> acqc (locks s hidelock) = 0)"

definition proc_ready :: "'f farith \<Rightarrow> nat set \<Rightarrow> 'f proc \<Rightarrow> bool" where
  "proc_ready fa P p \<longleftrightarrow> host_ready P (p_host p) \<and>
     load_inv fa (p_loads p, p_host p) \<and> loadcnt (p_loads p) = 0 \<and>
     stat_inv (p_stats p, p_host p) \<and> statcnt (p_stats p) = 0 \<and>
     list_all (\<lambda>m. is_op m ERRMSG) (msgbuf (p_packets p)) \<and>
     queue_inv (p_inqueue p) \<and> contents (p_inqueue p) = [] \<and>
     (\<forall>i<Maxhosts. snd_seq (p_comm p) i = 0 \<and> rcv_seq (p_comm p) i = 0)"

lemma jia_init_run:
  assumes "init_setting conf hosts ifs system_setting = Inr (r, st)" "set_hostc st \<noteq> 0" "set_comm st = UDP"
    "set_hostc st < Maxhosts"
  shows "\<exists>p s. jia_init rdma fa junk port conf hosts ifs (static_proc bufs ld) = Inr p \<and>
    initmem (set_host st static_host) = Inr s \<and>
    p_host p = inittools st (init_msg_buffer (set_buffer_size st) (set_buffer_size st)
      (init_msg_buffer (set_buffer_size st) (set_buffer_size st) (initsyn s))) \<and>
    p_loads p = initload fa ld \<and> statcnt (p_stats p) = 0 \<and>
    p_packets p = initmsg (p_packets (static_proc bufs ld)) \<and>
    p_inqueue p = init_msg_queue (set_queue_size st) (set_queue_size st) junk \<and>
    p_comm p = init_comm_manager port (set_pid st) (p_comm (static_proc bufs ld))"
  using assms
  by (simp add: jia_init_def on_host_def static_proc_def initmem_def set_host_def init_udp_comm_def Let_def clearstat_def)


definition shared_ok :: "nat set \<Rightarrow> host \<Rightarrow> bool" where
  "shared_ok P s \<longleftrightarrow> finite P \<and> card P \<le> 2555 \<and> (\<forall>a. pageno a \<in> P \<longrightarrow> pagei s a < Maxmempages)"

lemma replicate_ready: "0 < sz \<Longrightarrow> mbuf_inv (init_msg_buffer sz d s) \<and> 0 < mcount (init_msg_buffer sz d s)"
  by (simp add: mbuf_inv_def init_msg_buffer_def free_slots_def Let_def)

lemma init_msg_buffer_fields [simp]:
  "cache_inv (init_msg_buffer sz d s) = cache_inv s" "mapped_inv (init_msg_buffer sz d s) = mapped_inv s"
  "alloc_inv (init_msg_buffer sz d s) = alloc_inv s" "own_locks_ok (init_msg_buffer sz d s) = own_locks_ok s"
  "locks (init_msg_buffer sz d s) = locks s" "hostc (init_msg_buffer sz d s) = hostc s"
  "jia_pid (init_msg_buffer sz d s) = jia_pid s" "outq (init_msg_buffer sz d s) = outq s"
  "waitcounter (init_msg_buffer sz d s) = waitcounter s" "pagei (init_msg_buffer sz d s) = pagei s"
  by (simp_all add: init_msg_buffer_def Let_def cache_inv_def mapped_inv_def alloc_inv_def own_locks_ok_def
      entry_ok_def pagei_def fun_eq_iff)

lemma inittools_fields [simp]:
  "cache_inv (inittools st s) = cache_inv s" "mapped_inv (inittools st s) = mapped_inv s"
  "alloc_inv (inittools st s) = alloc_inv s" "own_locks_ok (inittools st s) = own_locks_ok s"
  "locks (inittools st s) = locks s" "hostc (inittools st s) = hostc s" "mbuf_inv (inittools st s) = mbuf_inv s"
  "jia_pid (inittools st s) = jia_pid s" "outq (inittools st s) = outq s" "mcount (inittools st s) = mcount s"
  "waitcounter (inittools st s) = waitcounter s" "pagei (inittools st s) = pagei s" "B_CAST (inittools st s) = OFF"
  by (simp_all add: inittools_def cache_inv_def mapped_inv_def alloc_inv_def own_locks_ok_def
      entry_ok_def pagei_def fun_eq_iff mbuf_inv_def)

lemma initsyn_fields [simp]:
  "cache_inv (initsyn s) = cache_inv s" "mapped_inv (initsyn s) = mapped_inv s" "alloc_inv (initsyn s) = alloc_inv s"
  "hostc (initsyn s) = hostc s" "jia_pid (initsyn s) = jia_pid s" "outq (initsyn s) = outq s"
  "waitcounter (initsyn s) = 0" "pagei (initsyn s) = pagei s" "own_locks_ok (initsyn s)"
  "i \<le> Maxlocks \<Longrightarrow> acqc (locks (initsyn s) i) = 0"
  "i \<le> Maxlocks \<Longrightarrow> i mod hostc s = jia_pid s \<Longrightarrow> wtntp (locks (initsyn s) i) = newwtnt"
  by (simp_all add: initsyn_def cache_inv_def mapped_inv_def alloc_inv_def own_locks_ok_def
      entry_ok_def pagei_def fun_eq_iff newwtnt_def WNULL_def)

lemma host_ready_init:
  assumes "initmem (set_host st static_host) = Inr s" "set_pid st < set_hostc st" "aligned (set_start_addr st)"
    "0 < set_buffer_size st" "shared_ok P s"
  shows "host_ready P (inittools st (init_msg_buffer (set_buffer_size st) (set_buffer_size st)
      (init_msg_buffer (set_buffer_size st) (set_buffer_size st) (initsyn s))))"
    (is "host_ready P (inittools st ?b)")
proof -
  have b: "mbuf_inv ?b" "0 < mcount ?b" using replicate_ready [OF assms(4)] by blast+
  have s: "hostc s = set_hostc st" "jia_pid s = set_pid st" "outq s = []"
    using assms(1) by (auto simp: initmem_def set_host_def static_host_def)
  have m: "cache_inv s" "mapped_inv s" "alloc_inv s"
    using initmem_inv [OF assms(1)] assms(3) by (simp_all add: set_host_def static_host_def)
  have n: "notices newwtnt = Map.empty" by (simp add: notices_def)
  have P: "finite P" "card P \<le> 2555" "\<forall>a. pageno a \<in> P \<longrightarrow> pagei s a < Maxmempages"
    using assms(5) by (auto simp: shared_ok_def)
  have h: "hidelock \<le> Maxlocks" by (simp add: hidelock_def)
  show ?thesis
    unfolding host_ready_def using b m s assms(2) P h n
    by (simp add: wait_inv_def lock_inv_def barr_inv_def lock_queue_def)
qed


text \<open>
  C39: A host that has found its setting and uses UDP comes out of \<open>jia_init\<close> ready: the invariants
  of all components hold. Its message buffer is free, the cache and the home table agree with the
  empty page table, the locks it manages are free and without notices, barrier, wait, load and
  statistics wait for all hosts, the packet buffer and the input queue are empty, and all sequence
  numbers are zero. This needs settings that \<open>init_setting\<close> does not check: a message buffer with
  at least one slot, a queue size that is a positive power of two, at most fifteen hosts, as
  \<open>initmem\<close> writes past its array of sixteen, and a start address on a page boundary. \<open>P\<close> is the
  set of pages that notices may name, all inside the shared memory and no more than a table of
  notices holds, and a \<open>float\<close> takes four bytes.
\<close>

theorem jia_init_ready:
  assumes "init_setting conf hosts ifs system_setting = Inr (0, st)" "set_comm st = UDP"
    "set_hostc st < Maxhosts" "aligned (set_start_addr st)" "0 < set_buffer_size st"
    "0 < set_queue_size st" "ring_size (nat (set_queue_size st))"
    "shared_ok P (set_host st static_host)" "\<forall>x. length (fbytes fa x) = 4"
  shows "\<exists>p. jia_init rdma fa junk port conf hosts ifs (static_proc bufs ld) = Inr p \<and> proc_ready fa P p \<and>
    jia_pid (p_host p) = set_pid st \<and> hostc (p_host p) = set_hostc st"
proof -
  have st: "set_pid st < set_hostc st" "set_hostc st \<noteq> 0"
    using init_setting_run(1) [OF assms(1)] by (simp_all add: setting_ok_def system_setting_def)
  obtain p s where p: "jia_init rdma fa junk port conf hosts ifs (static_proc bufs ld) = Inr p"
    "initmem (set_host st static_host) = Inr s"
    "p_host p = inittools st (init_msg_buffer (set_buffer_size st) (set_buffer_size st)
      (init_msg_buffer (set_buffer_size st) (set_buffer_size st) (initsyn s)))"
    "p_loads p = initload fa ld" "statcnt (p_stats p) = 0"
    "p_packets p = initmsg (p_packets (static_proc bufs ld))"
    "p_inqueue p = init_msg_queue (set_queue_size st) (set_queue_size st) junk"
    "p_comm p = init_comm_manager port (set_pid st) (p_comm (static_proc bufs ld))"
    using jia_init_run [OF assms(1) st(2) assms(2,3), of rdma fa junk port bufs ld] by blast
  have s: "hostc s = set_hostc st" "jia_pid s = set_pid st" "pagei s = pagei (set_host st static_host)"
    using p(2) by (auto simp: initmem_def set_host_def pagei_def fun_eq_iff)
  have "shared_ok P s" using assms(8) s(3) by (simp add: shared_ok_def)
  then have h: "host_ready P (p_host p)"
    unfolding p(3) using host_ready_init [OF p(2) st(1) assms(4,5)] by blast
  have hc: "hostc (p_host p) = set_hostc st" "jia_pid (p_host p) = set_pid st" "B_CAST (p_host p) = OFF"
    unfolding p(3) by (simp_all add: s)
  have l: "load_inv fa (p_loads p, p_host p)" "loadcnt (p_loads p) = 0"
    using h hc assms(3,9) st(2) by (simp_all add: load_inv_def p(4) initload_def host_ready_def)
  have t: "stat_inv (p_stats p, p_host p)"
    using h hc st(2) by (simp add: stat_inv_def p(5) host_ready_def)
  have k: "list_all (\<lambda>m. is_op m ERRMSG) (msgbuf (p_packets p))"
    by (simp add: p(6) initmsg_def static_proc_def list_all_iff is_op_def)
  have q: "queue_inv (p_inqueue p)" "contents (p_inqueue p) = []"
    unfolding p(7) using assms(6,7) by (auto intro!: init_msg_queue_inv)
  have c: "\<forall>i<Maxhosts. snd_seq (p_comm p) i = 0 \<and> rcv_seq (p_comm p) i = 0"
    by (simp add: p(8) init_comm_manager_def)
  have "proc_ready fa P p" unfolding proc_ready_def by (intro conjI h l t p(5) k q c)
  then show ?thesis using p(1) hc by blast
qed

lemma init_setting_agree:
  assumes "init_setting conf hosts ifs system_setting = Inr (0, s1)"
    "init_setting conf hosts ifs' system_setting = Inr (0, s2)"
  shows "\<exists>i. s2 = s1\<lparr>set_pid := i\<rparr>"
proof -
  obtain u where u: "\<forall>ifs. init_setting conf hosts ifs system_setting =
      Inr (case get_id ifs u of (ret, s) \<Rightarrow> (if ret \<noteq> 0 then - 1 else 0, s))"
    using init_setting_run(3) [OF assms(1)] by (auto simp: system_setting_def)
  have "\<exists>i. s = u\<lparr>set_pid := i\<rparr>" if "init_setting conf hosts ifs system_setting = Inr (0, s)" for ifs s
    using that u find_id_Some by (fastforce simp: get_id_def split: option.splits prod.splits if_splits)
  from this [OF assms(1)] this [OF assms(2)] show ?thesis by auto
qed

text \<open>
  Hosts that start from the same files, with different addresses, come out of \<open>jia_init\<close> with
  different numbers and the same, empty, layout of the shared memory.
\<close>

lemma jia_init_agree:
  assumes "init_setting conf hosts (Some l1) system_setting = Inr (0, s1)"
    "init_setting conf hosts (Some l2) system_setting = Inr (0, s2)" "set l1 \<inter> set l2 = {}"
    "set_comm s1 = UDP" "set_hostc s1 < Maxhosts"
  shows "\<exists>p1 p2. jia_init rdma fa junk port conf hosts (Some l1) (static_proc bufs ld) = Inr p1 \<and>
    jia_init rdma fa' junk' port conf hosts (Some l2) (static_proc bufs' ld') = Inr p2 \<and>
    jia_pid (p_host p1) \<noteq> jia_pid (p_host p2) \<and> same_layout (p_host p1) (p_host p2) \<and>
    globaladdr (p_host p1) = 0"
proof -
  obtain i where e: "s2 = s1\<lparr>set_pid := i\<rparr>" using init_setting_agree [OF assms(1,2)] by blast
  have s1: "set_hostc s1 \<noteq> 0"
    using init_setting_run(1) [OF assms(1)] by (simp add: setting_ok_def system_setting_def)
  have s2: "set_hostc s2 = set_hostc s1" "set_comm s2 = UDP" "set_start_addr s2 = set_start_addr s1"
    by (simp_all add: e set_hostc_def assms(4))
  have "set_hosts s2 = set_hosts s1" by (simp add: e)
  moreover have "ip (set_hosts s1 ! set_pid s1) \<in> set l1" "ip (set_hosts s2 ! set_pid s2) \<in> set l2"
    using init_setting_run(2) [OF assms(1)] init_setting_run(2) [OF assms(2)] by (simp_all add: system_setting_def)
  ultimately have d: "set_pid s1 \<noteq> set_pid s2" using assms(3) by auto
  obtain p1 t1 where p1: "jia_init rdma fa junk port conf hosts (Some l1) (static_proc bufs ld) = Inr p1"
    "initmem (set_host s1 static_host) = Inr t1"
    "p_host p1 = inittools s1 (init_msg_buffer (set_buffer_size s1) (set_buffer_size s1)
      (init_msg_buffer (set_buffer_size s1) (set_buffer_size s1) (initsyn t1)))"
    using jia_init_run [OF assms(1) s1 assms(4,5), of rdma fa junk port bufs ld] by blast
  obtain p2 t2 where p2: "jia_init rdma fa' junk' port conf hosts (Some l2) (static_proc bufs' ld') = Inr p2"
    "initmem (set_host s2 static_host) = Inr t2"
    "p_host p2 = inittools s2 (init_msg_buffer (set_buffer_size s2) (set_buffer_size s2)
      (init_msg_buffer (set_buffer_size s2) (set_buffer_size s2) (initsyn t2)))"
    using jia_init_run [OF assms(2) _ s2(2), of rdma fa' junk' port bufs' ld'] s1 assms(5) unfolding s2(1) by blast
  have "jia_pid (p_host p1) = set_pid s1" "jia_pid (p_host p2) = set_pid s2" "globaladdr (p_host p1) = 0"
    "same_layout (p_host p1) (p_host p2)"
    using p1(2) p2(2) unfolding p1(3) p2(3)
    by (auto simp: initmem_def set_host_def same_layout_def inittools_def init_msg_buffer_def initsyn_def Let_def
        s2 static_host_def)
  then show ?thesis using p1(1) p2(1) d by metis
qed


lemma apply_option_pid [simp]: "set_pid (apply_option opt s) = set_pid s"
  by (simp add: apply_option_def)

lemma apply_options_pid [simp]: "set_pid (apply_options i s) = set_pid s"
proof (induction i s rule: apply_options.induct)
  case (1 i s)
  then show ?case by (subst apply_options.simps) simp
qed

lemma read_options_pid: "read_options inp s = Inr t \<Longrightarrow> set_pid t = set_pid s"
proof (induction inp s arbitrary: t rule: read_options.induct)
  case (1 inp s)
  show ?case
  proof (cases "inp = []")
    case True
    then show ?thesis using 1(2) by (simp add: read_options.simps)
  next
    case False
    obtain l r where lr: "fgets (MAX_LINE_LEN - 1) inp = (l, r)" by fastforce
    obtain opt u where u: "parse_option (chomp l) = Inr opt"
      "(case opt of None \<Rightarrow> Inr s | Some opt \<Rightarrow> add_option opt s) = Inr u" "read_options r u = Inr t"
      using 1(2) False lr by (subst (asm) read_options.simps) auto
    have "set_pid u = set_pid s"
      using u(2) by (auto simp: add_option_def split: option.splits)
    then show ?thesis using 1(1) [OF False lr [symmetric] refl u(1) u(2) u(3)] by simp
  qed
qed

lemma read_hosts_pid: "set_pid (read_hosts inp s) = set_pid s"
proof (induction inp s rule: read_hosts.induct)
  case (1 inp s)
  have "set_pid (add_host l s) = set_pid s" for l by (auto simp: add_host_def split: option.splits)
  then show ?case using 1 by (subst read_hosts.simps) (auto simp: Let_def split: prod.splits)
qed

lemma find_id_keeps: "set_hosts (snd (find_id l s)) = set_hosts s"
  by (induction l) (auto split: option.splits)

lemma find_id_None: "\<forall>h\<in>set (set_hosts s). ip h \<notin> set l \<Longrightarrow> find_id l s = (- 1, s)"
proof (induction l)
  case (Cons a l)
  have "host_index a hs = None" if "\<forall>h\<in>set hs. ip h \<noteq> a" for hs using that by (induction hs) auto
  then show ?case using Cons by auto
qed simp

lemma init_setting_unlisted:
  assumes "init_setting conf hosts (Some l) s0 = Inr (r, st)" "\<forall>h\<in>set (set_hosts st). ip h \<notin> set l"
  shows "r = - 1" "set_pid st = set_pid s0"
proof -
  obtain s1 where s1: "get_options conf s0 = Inr s1" using assms(1) by (auto simp: init_setting_def)
  then have p1: "set_pid s1 = set_pid s0"
    by (auto simp: get_options_def read_options_pid split: option.splits)
  obtain ret t where t: "get_hosts hosts s1 = (ret, t)" by fastforce
  then have pt: "set_pid t = set_pid s0" using p1 by (auto simp: get_hosts_def Let_def read_hosts_pid split: option.splits)
  let ?u = "if set_hostc t = 1 \<and> set_comm t = RDMA then t\<lparr>set_comm := UDP\<rparr> else t"
  show "r = - 1" "set_pid st = set_pid s0"
  proof -
    have "r = - 1 \<and> set_pid st = set_pid s0"
    proof (cases "ret = 0")
      case False
      then show ?thesis using assms(1) s1 t pt by (auto simp: init_setting_def)
    next
      case True
      then have g: "(r, st) = (case find_id l ?u of (ret, s) \<Rightarrow> (if ret \<noteq> 0 then - 1 else 0, s))"
        using assms(1) s1 t by (auto simp: init_setting_def get_id_def Let_def split: prod.splits)
      have "set_hosts st = set_hosts ?u"
        using g find_id_keeps [of l ?u] by (auto split: prod.splits)
      then have "find_id l ?u = (- 1, ?u)" using assms(2) by (intro find_id_None) simp
      then show ?thesis using g pt by simp
    qed
    then show "r = - 1" "set_pid st = set_pid s0" by blast+
  qed
qed

text \<open>
  \<open>jia_init\<close> does not look at the result of \<open>init_setting\<close>: a host none of whose addresses is
  in the host file goes on, as host 0.
\<close>

lemma jia_init_unlisted:
  assumes "init_setting conf hosts (Some l) system_setting = Inr (r, st)" "\<forall>h\<in>set (set_hosts st). ip h \<notin> set l"
    "0 < set_hostc st" "set_hostc st < Maxhosts" "set_comm st = UDP"
  shows "r = - 1 \<and> (\<exists>p. jia_init rdma fa junk port conf hosts (Some l) (static_proc bufs ld) = Inr p \<and> jia_pid (p_host p) = 0)"
proof -
  have u: "r = - 1" "set_pid st = 0"
    using init_setting_unlisted [OF assms(1,2)] by (simp_all add: system_setting_def)
  have "set_hostc st \<noteq> 0" using assms(3) by simp
  then obtain p s where p: "jia_init rdma fa junk port conf hosts (Some l) (static_proc bufs ld) = Inr p"
    "initmem (set_host st static_host) = Inr s"
    "p_host p = inittools st (init_msg_buffer (set_buffer_size st) (set_buffer_size st)
      (init_msg_buffer (set_buffer_size st) (set_buffer_size st) (initsyn s)))"
    using jia_init_run [OF assms(1) _ assms(5,4), of rdma fa junk port bufs ld] by blast
  have "jia_pid (p_host p) = 0" using p(2) u(2) unfolding p(3) by (auto simp: initmem_def set_host_def)
  then show ?thesis using u(1) p(1) by blast
qed

section \<open>Witnesses\<close>

definition demo_proc :: "u32 loads \<Rightarrow> u32 proc" where
  "demo_proc ld = (static_proc [] ld)\<lparr>p_host := demo_manager,
     p_inqueue := \<lparr>queue = (\<lambda>i. lock_msg WAIT i 1 0), qsize = 4, head = 0, tail = 2, busy_count = 2, free_count = 2\<rparr>\<rparr>"

lemma server_in_order_witness:
  "\<forall>mc ld. \<exists>p. foldE (server_thread mc) [\<lambda>_. 0, \<lambda>_. 0] (demo_proc ld) = Inr p \<and> waitcounter (p_host p) = 2"
proof (intro allI)
  fix mc :: "u32 machine" and ld
  have "ring_size 4" by (auto simp: ring_size_def intro!: exI [of _ 2])
  then have q: "queue_inv (p_inqueue (demo_proc ld))" by (simp add: demo_proc_def queue_inv_def)
  have c: "contents (p_inqueue (demo_proc ld)) = [lock_msg WAIT 0 1 0, lock_msg WAIT 1 1 0]"
    by (simp add: demo_proc_def contents_def ring_list_def upt_rec)
  have w: "waitcounter demo_manager = 0" "hostc demo_manager = 3" "jia_pid demo_manager = 1"
    using demo_manager_barr by (simp_all add: demo_manager_def initsyn_def)
  have m: "msg_handle mc r (lock_msg WAIT p k 0) = on_host (waitserver (lock_msg WAIT p k 0))" for r p k
    by (simp add: msg_handle_def lock_msg_def del: op_num.simps)
  have h: "waitserver (lock_msg WAIT p k 0) s = Inr (s\<lparr>waitcounter := waitcounter s + 1\<rparr>)"
    if "jia_pid s = k" "waitcounter s + 1 \<noteq> int (hostc s)" for p s k
    using that by (simp add: waitserver_def lock_msg_def is_op_def)
  have "foldE (\<lambda>(r, m). msg_handle mc r m) (zip [\<lambda>_. 0, \<lambda>_. 0] (contents (p_inqueue (demo_proc ld)))) (demo_proc ld) =
      Inr ((demo_proc ld)\<lparr>p_host := demo_manager\<lparr>waitcounter := 2\<rparr>\<rparr>)"
    unfolding c using w by (simp add: m on_host_def demo_proc_def h)
  then show "\<exists>p. foldE (server_thread mc) [\<lambda>_. 0, \<lambda>_. 0] (demo_proc ld) = Inr p \<and> waitcounter (p_host p) = 2"
    using server_in_order [OF q, of "[\<lambda>_. 0, \<lambda>_. 0]" mc] c by auto
qed

lemma jia_assert_tells_witness:
  "\<exists>s' ms. jia_assert_send [0x62, 0] demo_manager = Inr s' \<and> outq s' = ms \<and> map topid ms = [0, 2, 2]"
proof -
  have m: "mbuf_inv demo_manager" "0 < mcount demo_manager" "1 < hostc demo_manager"
    "jia_pid demo_manager < hostc demo_manager" "outq demo_manager = []"
    using demo_manager_barr by (simp_all add: barr_inv_def) (simp add: demo_manager_def initsyn_def static_host_def)
  have "filter (\<lambda>i. i \<noteq> jia_pid demo_manager) [0..<hostc demo_manager] = [0, 2]"
    by (simp add: demo_manager_barr upt_rec)
  then show ?thesis using jia_assert_tells [OF m(1-4), of "[0x62, 0]"] m(5) by (auto simp: demo_manager_barr)
qed

lemma demo_init_setting:
  assumes "a = ''10.0.0.2'' \<and> i = 1 \<and> r = 0 \<or> a = ''10.0.0.1'' \<and> i = 0 \<and> r = 0 \<or> a = ''10.0.0.9'' \<and> i = 0 \<and> r = - 1"
  shows "init_setting (Some []) (Some (concat (map host_line demo_hosts))) (Some [a]) system_setting =
    Inr (r, system_setting\<lparr>set_hosts := host_entries 0 demo_hosts, set_pid := i\<rparr>)"
  using assms read_hosts_lines [OF demo_hosts_ok, of "system_setting\<lparr>set_hosts := []\<rparr>"]
  by (auto simp: init_setting_def get_options_def read_options.simps apply_options.simps system_setting_def
      get_hosts_def Let_def set_hostc_def Maxhosts_def get_id_def demo_hosts_def host_entries_def)

lemma demo_setting:
  "set_hostc (system_setting\<lparr>set_hosts := host_entries 0 demo_hosts, set_pid := i\<rparr>) = 2"
  "set_comm (system_setting\<lparr>set_hosts := host_entries 0 demo_hosts, set_pid := i\<rparr>) = UDP"
  by (simp_all add: set_hostc_def host_entries_def demo_hosts_def system_setting_def)

lemma jia_init_ready_witness:
  "\<forall>ld junk. \<exists>p. jia_init Inr byte_arith junk 10000 (Some []) (Some (concat (map host_line demo_hosts))) (Some [''10.0.0.2''])
     (static_proc [] ld) = Inr p \<and> proc_ready byte_arith {} p \<and> jia_pid (p_host p) = 1"
proof (intro allI)
  fix ld :: "u32 loads" and junk
  let ?st = "system_setting\<lparr>set_hosts := host_entries 0 demo_hosts, set_pid := 1\<rparr>"
  have i: "init_setting (Some []) (Some (concat (map host_line demo_hosts))) (Some [''10.0.0.2'']) system_setting = Inr (0, ?st)"
    by (rule demo_init_setting) simp
  have r: "ring_size (nat (set_queue_size ?st))" by (auto simp: ring_size_def system_setting_def intro!: exI [of _ 5])
  have s: "set_hostc ?st < Maxhosts" "aligned (set_start_addr ?st)" "0 < set_buffer_size ?st" "0 < set_queue_size ?st"
    unfolding demo_setting(1) by (simp_all add: Maxhosts_def aligned_def system_setting_def)
  have h: "shared_ok {} (set_host ?st static_host)" "\<forall>x. length (fbytes byte_arith x) = 4"
    by (simp_all add: shared_ok_def byte_arith_def)
  have p: "set_pid ?st = 1" by simp
  show "\<exists>p. jia_init Inr byte_arith junk 10000 (Some []) (Some (concat (map host_line demo_hosts))) (Some [''10.0.0.2''])
     (static_proc [] ld) = Inr p \<and> proc_ready byte_arith {} p \<and> jia_pid (p_host p) = 1"
    using jia_init_ready [OF i demo_setting(2) s r h, of Inr junk 10000 "[]" ld] unfolding p by blast
qed

lemma jia_init_agree_witness:
  "\<forall>ld junk. \<exists>p1 p2. jia_init Inr byte_arith junk 10000 (Some []) (Some (concat (map host_line demo_hosts))) (Some [''10.0.0.1''])
     (static_proc [] ld) = Inr p1 \<and> jia_init Inr byte_arith junk 10000 (Some []) (Some (concat (map host_line demo_hosts)))
     (Some [''10.0.0.2'']) (static_proc [] ld) = Inr p2 \<and> same_layout (p_host p1) (p_host p2)"
proof (intro allI)
  fix ld :: "u32 loads" and junk
  let ?st = "\<lambda>i. system_setting\<lparr>set_hosts := host_entries 0 demo_hosts, set_pid := i\<rparr>"
  have i: "init_setting (Some []) (Some (concat (map host_line demo_hosts))) (Some [''10.0.0.1'']) system_setting = Inr (0, ?st 0)"
    "init_setting (Some []) (Some (concat (map host_line demo_hosts))) (Some [''10.0.0.2'']) system_setting = Inr (0, ?st 1)"
    by (rule demo_init_setting; simp)+
  have d: "set [''10.0.0.1''] \<inter> set [''10.0.0.2''] = {}" by simp
  have h: "set_hostc (?st 0) < Maxhosts" unfolding demo_setting(1) by (simp add: Maxhosts_def)
  show "\<exists>p1 p2. jia_init Inr byte_arith junk 10000 (Some []) (Some (concat (map host_line demo_hosts))) (Some [''10.0.0.1''])
     (static_proc [] ld) = Inr p1 \<and> jia_init Inr byte_arith junk 10000 (Some []) (Some (concat (map host_line demo_hosts)))
     (Some [''10.0.0.2'']) (static_proc [] ld) = Inr p2 \<and> same_layout (p_host p1) (p_host p2)"
    using jia_init_agree [OF i d demo_setting(2) h] by blast
qed

lemma jia_init_unlisted_witness:
  "\<forall>ld junk. \<exists>p. jia_init Inr byte_arith junk 10000 (Some []) (Some (concat (map host_line demo_hosts))) (Some [''10.0.0.9''])
     (static_proc [] ld) = Inr p \<and> jia_pid (p_host p) = 0"
proof (intro allI)
  fix ld :: "u32 loads" and junk
  let ?st = "system_setting\<lparr>set_hosts := host_entries 0 demo_hosts, set_pid := 0\<rparr>"
  have i: "init_setting (Some []) (Some (concat (map host_line demo_hosts))) (Some [''10.0.0.9'']) system_setting = Inr (- 1, ?st)"
    by (rule demo_init_setting) simp
  have n: "\<forall>h\<in>set (set_hosts ?st). ip h \<notin> set [''10.0.0.9'']" by (simp add: host_entries_def demo_hosts_def)
  have h: "0 < set_hostc ?st" "set_hostc ?st < Maxhosts" unfolding demo_setting(1) by (simp_all add: Maxhosts_def)
  show "\<exists>p. jia_init Inr byte_arith junk 10000 (Some []) (Some (concat (map host_line demo_hosts))) (Some [''10.0.0.9''])
     (static_proc [] ld) = Inr p \<and> jia_pid (p_host p) = 0"
    using jia_init_unlisted [OF i n h demo_setting(2), of Inr byte_arith junk 10000 "[]" ld] by blast
qed

end
