(* ===== verification/Start.thy ===== *)
theory Start
  imports Setting
begin

text \<open>
  The start of the processes, \<open>jiacreat\<close> and its parts in \<open>src/src/init/init.c\<close>, \<open>open_logfile\<close> of
  \<open>src/src/tools/tools.c\<close>: the commands that host 0 has the shell run on the other hosts, the port
  it passes to them and how they read it. The commands are the strings given to \<open>system\<close>, in
  order; what they return is a parameter. Formats that print a string into itself, which C leaves
  undefined, are read as appending to it, as the GNU library does. Of the variants the one that is
  built is modelled (\<open>LINUX\<close>, not \<open>NFS\<close>); there \<open>riofd\<close> is never set and its check holds.
\<close>

section \<open>The C library\<close>

definition basename :: "string \<Rightarrow> string" where
  "basename p = (if p = [] then ''.''
     else let q = rev (dropWhile (\<lambda>c. c = CHR ''/'') (rev p))
       in if q = [] then ''/'' else rev (takeWhile (\<lambda>c. c \<noteq> CHR ''/'') (rev q)))"

fun digits :: "nat \<Rightarrow> nat \<Rightarrow> string" where
  "digits 0 n = []"
| "digits (Suc k) n = (if n < 10 then [char_of (48 + n)] else digits k (n div 10) @ [char_of (48 + n mod 10)])"

definition show_long :: "int \<Rightarrow> string" where
  "show_long i = (if i < 0 then ''-'' @ digits 20 (nat (- i)) else digits 20 (nat i))"

definition atol :: "string \<Rightarrow> int" where
  "atol s = (case sign_of (dropWhile isspace s) of (neg, t) \<Rightarrow>
     let v = (if neg then - int (read_digits 10 0 t) else int (read_digits 10 0 t))
     in max (- (2 ^ 63)) (min (2 ^ 63 - 1) v))"

text \<open>
  \<open>getopt\<close> with the options \<open>"P:"\<close>, which looks for options behind other arguments too; the letters
  of one argument, and the argument of the last \<open>P\<close>.
\<close>

fun cluster :: "string \<Rightarrow> string option" where
  "cluster [] = None"
| "cluster (c # cs) = (if c = CHR ''P'' then Some cs else cluster cs)"

fun port_opts :: "string list \<Rightarrow> int \<Rightarrow> int" where
  "port_opts [] port = port"
| "port_opts (a # as) port =
     (if a = ''--'' then port
      else if a = [] \<or> hd a \<noteq> CHR ''-'' \<or> length a = 1 then port_opts as port
      else case cluster (tl a) of
          None \<Rightarrow> port_opts as port
        | Some (c # cs) \<Rightarrow> port_opts as (atol (c # cs))
        | Some [] \<Rightarrow> (case as of [] \<Rightarrow> port | v # rest \<Rightarrow> port_opts rest (atol v)))"

section \<open>Commands\<close>

definition Linesize :: nat where "Linesize = 200"
definition Wordsize :: nat where "Wordsize = 80"

definition sq :: string where "sq = [CHR 0x27]"
definition dq :: string where "dq = [CHR 0x22]"

text \<open>\<open>sprintf\<close> into an array of \<open>n\<close> characters.\<close>

definition print_to :: "nat \<Rightarrow> string \<Rightarrow> string res" where
  "print_to n s = (if length s < n then Inr s else Inl (OutOfBounds ''sprintf''))"

definition at_host :: "host_conf \<Rightarrow> string" where
  "at_host h = username h @ ''@'' @ ip h"

definition createdir :: "string \<Rightarrow> setting \<Rightarrow> string list \<Rightarrow> string list res" where
  "createdir prog st = foldE (\<lambda>h done.
     bindE (print_to Linesize (''ssh '' @ at_host h @ '' '' @ dq @ ''[ ! -d '' @ sq @ ''jianode/'' @ basename prog @ sq @
       '' ] && mkdir -p '' @ sq @ ''jianode/'' @ prog @ sq @ dq)) (\<lambda>cmd. Inr (done @ [cmd])))
     (tl (set_hosts st))"

definition copyfiles :: "(string \<Rightarrow> int) \<Rightarrow> string \<Rightarrow> setting \<Rightarrow> string list \<Rightarrow> string list res" where
  "copyfiles ret prog st = foldE (\<lambda>h done.
     bindE (print_to Linesize (''scp .jiahosts .jiaconf '' @ at_host h @ '':~/'')) (\<lambda>cmd1.
     bindE (print_to Linesize (''scp '' @ basename prog @ '' '' @ at_host h @ '':~/jianode/'' @ basename prog @ ''/'')) (\<lambda>cmd2.
     if ret cmd2 = 0 then Inr (done @ [cmd1, cmd2]) else Inl (LocalAssert ''Copy system files failed''))))
     (tl (set_hosts st))"

definition start_port :: "int \<Rightarrow> int" where
  "start_port pid = 10000 + pid mod 20000"

definition start_shell :: "string \<Rightarrow> int \<Rightarrow> string res" where
  "start_shell prog port = bindE (print_to Linesize (''~/jianode/'' @ basename prog @ ''/'' @ basename prog))
     (\<lambda>shell. print_to Linesize (shell @ '' -P '' @ show_long port @ '' &''))"

definition start_cmd :: "string \<Rightarrow> string list \<Rightarrow> int \<Rightarrow> host_conf \<Rightarrow> string res" where
  "start_cmd prog args port h = bindE (print_to Linesize (''ssh '' @ at_host h)) (\<lambda>cmd.
     bindE (foldE (\<lambda>a cmd. print_to Linesize (cmd @ '' '' @ a)) args cmd) (\<lambda>cmd.
     bindE (start_shell prog port) (\<lambda>shell.
     print_to Linesize (cmd @ '' '' @ sq @ shell @ sq))))"

definition startprocs :: "int \<Rightarrow> string list \<Rightarrow> setting \<Rightarrow> string list \<Rightarrow> (int \<times> string list) res" where
  "startprocs pid argv st done = bindE (assertE (pid \<noteq> - 1) (LocalAssert ''getpid() error'')) (\<lambda>_.
     bindE (foldE (\<lambda>h done. bindE (start_cmd (hd argv) (tl argv) (start_port pid) h) (\<lambda>cmd. Inr (done @ [cmd])))
       (tl (set_hosts st)) done) (\<lambda>done. Inr (start_port pid, done)))"

text \<open>The start port, and the commands that were run; \<open>argv\<close> has the program's name.\<close>

definition jiacreat :: "(string \<Rightarrow> int) \<Rightarrow> int \<Rightarrow> string list \<Rightarrow> int \<Rightarrow> setting \<Rightarrow> (int \<times> string list) res" where
  "jiacreat ret pid argv port st =
     (if set_hostc st = 0 then Inl (Exit 0)
      else if set_pid st = 0
      then bindE (createdir (hd argv) st []) (\<lambda>done.
           bindE (copyfiles ret (hd argv) st done) (startprocs pid argv st))
      else Inr (port_opts (tl argv) port, []))"

text \<open>The names of the files that the output goes to.\<close>

definition redirect_slave_io :: "string \<Rightarrow> (string \<times> string) res" where
  "redirect_slave_io prog = bindE (print_to Wordsize (prog @ ''.log'')) (\<lambda>out.
     bindE (print_to Wordsize (prog @ ''.err'')) (\<lambda>err. Inr (out, err)))"

definition open_logfile :: "string \<Rightarrow> string \<Rightarrow> setting \<Rightarrow> string res" where
  "open_logfile name prog st = (if set_pid st = 0 then Inr name
     else print_to 30 (''./jianode/'' @ basename prog @ ''/'' @ name))"

section \<open>The port reaches the other hosts\<close>

lemma digit_char: "n < 10 \<Longrightarrow> digit (char_of (48 + n :: nat)) = Some n" "n < 10 \<Longrightarrow> digit (char_of (n + 48 :: nat)) = Some n"
  by (simp_all add: digit_def)

lemma read_digits_append:
  "n < 10 ^ k \<Longrightarrow> read_digits 10 acc (digits k n @ r) = read_digits 10 (acc * 10 ^ length (digits k n) + n) r"
proof (induction k arbitrary: n acc r)
  case (Suc k)
  show ?case
  proof (cases "n < 10")
    case True
    then show ?thesis by (simp add: digit_char ac_simps)
  next
    case False
    have "n div 10 < 10 ^ k" using Suc.prems by (simp add: div_less_iff_less_mult mult.commute)
    from Suc.IH [OF this] show ?thesis using False digit_char [of "n mod 10"]
      by (simp add: algebra_simps)
  qed
qed simp

lemma digits_head: "\<exists>d r. digits (Suc k) n = char_of (48 + d :: nat) # r \<and> d < 10"
proof (induction k arbitrary: n)
  case 0
  then show ?case by (cases "n < 10") (auto intro: exI [of _ "n mod 10"])
next
  case (Suc k)
  show ?case
  proof (cases "n < 10")
    case False
    obtain d r where d: "digits (Suc k) (n div 10) = char_of (48 + d :: nat) # r" "d < 10" using Suc.IH by blast
    then have "digits (Suc (Suc k)) n = char_of (48 + d :: nat) # (r @ [char_of (48 + n mod 10)])"
      using False by (simp del: digits.simps(2) add: digits.simps(2) [of "Suc k"])
    then show ?thesis using d(2) by blast
  next
    case True
    then show ?thesis by (intro exI [of _ n]) simp
  qed
qed

lemma digit_not_space:
  assumes "d < 10"
  shows "\<not> isspace (char_of (48 + d :: nat)) \<and> char_of (48 + d :: nat) \<noteq> CHR ''-'' \<and> char_of (48 + d :: nat) \<noteq> CHR ''+''"
proof -
  have n: "(of_char (char_of (48 + d :: nat)) :: nat) = 48 + d" using assms by simp
  have small: "(of_char c :: nat) \<le> 45" if "isspace c \<or> c = CHR ''-'' \<or> c = CHR ''+''" for c
    using that by (auto simp: isspace_def)
  obtain c where c: "c = char_of (48 + d :: nat)" by blast
  have "48 + d = (of_char c :: nat)" unfolding c by (rule n [symmetric])
  then have "\<not> (isspace c \<or> c = CHR ''-'' \<or> c = CHR ''+'')" using small [of c] by linarith
  then show ?thesis unfolding c by blast
qed

lemma atol_show:
  assumes "0 \<le> i" "i < 10 ^ 18"
  shows "atol (show_long i) = i"
proof -
  obtain d r where h: "digits 20 (nat i) = char_of (48 + d :: nat) # r" "d < 10"
    using digits_head [of 19 "nat i"] unfolding Suc_numeral by auto
  then have s: "sign_of (dropWhile isspace (digits 20 (nat i))) = (False, digits 20 (nat i))"
    using digit_not_space [OF h(2)] by (simp add: sign_of_def)
  have "nat i < 10 ^ 18" using assms by (simp add: nat_less_iff)
  also have "(10 :: nat) ^ 18 < 10 ^ 20" by simp
  finally have "read_digits 10 0 (digits 20 (nat i)) = nat i"
    using read_digits_append [of "nat i" 20 0 "[]"] by simp
  then show ?thesis using assms s by (simp add: atol_def show_long_def)
qed

text \<open>The options that host 0 puts behind the program's name carry its port.\<close>

lemma port_reaches:
  assumes "0 \<le> pid"
  shows "port_opts [''-P'', show_long (start_port pid)] port = start_port pid"
proof -
  have "pid mod 20000 < 20000" "0 \<le> pid mod 20000" by simp_all
  then have "0 \<le> start_port pid" "start_port pid < 10 ^ 18" by (simp_all add: start_port_def)
  from atol_show [OF this] show ?thesis by simp
qed

lemma start_cmd_plain:
  assumes "start_cmd prog [] port h = Inr cmd"
  shows "cmd = ''ssh '' @ at_host h @ '' '' @ sq @ ''~/jianode/'' @ basename prog @ ''/'' @ basename prog @
     '' -P '' @ show_long port @ '' &'' @ sq"
  using assms by (auto simp: start_cmd_def start_shell_def print_to_def bindE_def split: if_splits)

text \<open>
  The program's arguments come before the line that starts it, so that with arguments the other host
  is asked to run the first argument.
\<close>

lemma start_cmd_args:
  assumes "start_cmd prog (a # as) port h = Inr cmd"
  shows "\<exists>rest. cmd = ''ssh '' @ at_host h @ '' '' @ a @ rest"
proof -
  have grow: "\<exists>r. c' = c @ r" if "foldE (\<lambda>a cmd. print_to Linesize (cmd @ '' '' @ a)) as c = Inr c'" for as c c'
    using that
  proof (induction as arbitrary: c)
    case (Cons a as)
    then have "foldE (\<lambda>a cmd. print_to Linesize (cmd @ '' '' @ a)) as (c @ '' '' @ a) = Inr c'"
      by (auto simp: print_to_def split: if_splits)
    from Cons.IH [OF this] show ?case by (metis append_assoc)
  qed simp
  obtain c shell where c: "foldE (\<lambda>a cmd. print_to Linesize (cmd @ '' '' @ a)) as (''ssh '' @ at_host h @ '' '' @ a) = Inr c"
    "cmd = c @ '' '' @ sq @ shell @ sq"
    using assms by (auto simp: start_cmd_def print_to_def split: if_splits)
  obtain r where "c = (''ssh '' @ at_host h @ '' '' @ a) @ r" using grow [OF c(1)] by blast
  with c(2) show ?thesis by (intro exI [of _ "r @ '' '' @ sq @ shell @ sq"]) (simp only: append_assoc)
qed

text \<open>On the other hosts the name of the log file fits only for programs of at most eight characters.\<close>

lemma open_logfile_overflow:
  "set_pid st \<noteq> 0 \<Longrightarrow> (\<exists>f. open_logfile ''jiajia.log'' prog st = Inr f) \<longleftrightarrow> length (basename prog) \<le> 8"
  by (auto simp: open_logfile_def print_to_def)

text \<open>Host 0 makes one directory, copies twice and starts one process on each other host, in this order.\<close>

lemma foldE_count:
  assumes "foldE f xs done = Inr done'" "\<And>x d d'. f x d = Inr d' \<Longrightarrow> length d' = length d + k"
  shows "length done' = length done + k * length xs"
  using assms(1)
proof (induction xs arbitrary: "done")
  case (Cons x xs)
  then obtain d where d: "f x done = Inr d" "foldE f xs d = Inr done'" by auto
  from Cons.IH [OF d(2)] assms(2) [OF d(1)] show ?case by simp
qed simp

lemma jiacreat_commands:
  assumes "jiacreat ret pid argv port st = Inr (port', cmds)" "set_pid st = 0"
  shows "port' = start_port pid" "length cmds = 4 * (set_hostc st - 1)"
proof -
  obtain d c where run: "createdir (hd argv) st [] = Inr d" "copyfiles ret (hd argv) st d = Inr c"
    "startprocs pid argv st c = Inr (port', cmds)"
    using assms by (auto simp: jiacreat_def split: if_splits)
  have d: "length d = length ([] :: string list) + 1 * length (tl (set_hosts st))"
    by (rule foldE_count [OF run(1) [unfolded createdir_def]]) auto
  have c: "length c = length d + 2 * length (tl (set_hosts st))"
    by (rule foldE_count [OF run(2) [unfolded copyfiles_def]]) (auto split: if_splits)
  obtain p: "port' = start_port pid" and s: "foldE (\<lambda>h done. bindE (start_cmd (hd argv) (tl argv) (start_port pid) h)
      (\<lambda>cmd. Inr (done @ [cmd]))) (tl (set_hosts st)) c = Inr cmds"
    using run(3) by (auto simp: startprocs_def)
  have "length cmds = length c + 1 * length (tl (set_hosts st))"
    by (rule foldE_count [OF s]) auto
  then show "port' = start_port pid" "length cmds = 4 * (set_hostc st - 1)"
    using p d c by (simp_all add: set_hostc_def)
qed

end
