(* ===== verification/Clock.thy ===== *)
theory Clock
  imports Stat
begin

text \<open>
  The clocks of \<open>src/src/tools/tools.c\<close>, and the program's own measurement of its time,
  \<open>jia_startstat\<close> and \<open>jia_stopstat\<close> of \<open>src/src/init/init.c\<close>. What \<open>gettimeofday\<close> and
  \<open>clock_gettime\<close> report is an argument.
\<close>

record timeval =
  tv_sec :: int
  tv_usec :: int

text \<open>\<open>base\<close> is the static variable, zero at first.\<close>

definition get_usecs :: "timeval \<Rightarrow> timeval \<Rightarrow> u32 \<times> timeval" where
  "get_usecs now base = (let base = (if tv_usec base = 0 then now else base)
     in (word_of_int ((tv_sec now - tv_sec base) * 1000000 + (tv_usec now - tv_usec base)), base))"

definition jia_current_time :: "int \<Rightarrow> int \<Rightarrow> u64" where
  "jia_current_time sec nsec = word_of_int (1000000000 * sec + nsec)"

definition jia_startstat :: "timeval \<Rightarrow> timeval \<Rightarrow> stats \<Rightarrow> (u32 \<times> bool) \<times> timeval \<times> stats" where
  "jia_startstat now base st = (let st = clearstat st; (t, base) = get_usecs now base in ((t, True), base, st))"

definition jia_stopstat :: "timeval \<Rightarrow> timeval \<Rightarrow> (u32 \<times> bool) \<times> timeval" where
  "jia_stopstat now base = (let (t, base) = get_usecs now base in ((t, False), base))"

definition micros :: "timeval \<Rightarrow> int" where
  "micros t = tv_sec t * 1000000 + tv_usec t"

text \<open>The base is kept once it was taken at a time that is not at the start of a second.\<close>

lemma get_usecs_base: "tv_usec now \<noteq> 0 \<or> tv_usec base \<noteq> 0 \<Longrightarrow> tv_usec (snd (get_usecs now base)) \<noteq> 0"
  by (auto simp: get_usecs_def Let_def)

lemma get_usecs_value: "tv_usec base \<noteq> 0 \<Longrightarrow> get_usecs now base = (word_of_int (micros now - micros base), base)"
  by (simp add: get_usecs_def micros_def algebra_simps)

text \<open>Then the difference of two readings is the time between them, up to the wrap-around of 32 bits.\<close>

lemma usecs_elapsed:
  assumes "jia_startstat t1 base st = ((a, f), base', st')" "jia_stopstat t2 base' = ((b, g), base'')"
    "tv_usec t1 \<noteq> 0 \<or> tv_usec base \<noteq> 0"
  shows "b - a = word_of_int (micros t2 - micros t1)"
proof -
  have s: "get_usecs t1 base = (a, base')" using assms(1) by (auto simp: jia_startstat_def Let_def split: prod.splits)
  then have n: "tv_usec base' \<noteq> 0" using get_usecs_base [OF assms(3)] by simp
  have b: "b = word_of_int (micros t2 - micros base')"
    using assms(2) get_usecs_value [OF n, of t2] by (auto simp: jia_stopstat_def)
  have "a = word_of_int (micros t1 - micros base')"
    using s n get_usecs_value [of base t1] by (cases "tv_usec base = 0") (auto simp: get_usecs_def micros_def Let_def algebra_simps)
  then show ?thesis unfolding b by (simp flip: wi_hom_sub)
qed

text \<open>A base at the start of a second is taken again, so that the clock starts over.\<close>

lemma get_usecs_restarts: "tv_usec base = 0 \<Longrightarrow> get_usecs now base = (0, now)"
  by (simp add: get_usecs_def)

end
