(* ===== verification/Frame.thy ===== *)
theory Frame
  imports Lockq
begin

text \<open>
  What operations leave alone. An observer of the synchronisation state looks at the numbers and
  flags that locks, barriers and waits use and at the messages of certain operations that a host
  queues; the interface \<open>quiet\<close> says what such an observer may rely on, and the lemmas of this
  theory show that no operation on pages, diffs, notices or invalidations is noticed by it. The
  theory of the whole system instantiates it with the invariant of the locks.
\<close>

section \<open>Results that satisfy a predicate\<close>

definition ensures :: "('a \<Rightarrow> bool) \<Rightarrow> 'a res \<Rightarrow> bool" where
  "ensures Q r \<longleftrightarrow> (\<forall>x. r = Inr x \<longrightarrow> Q x)"

lemma ensures_simps [simp]:
  "ensures Q (Inl e)" "ensures Q (Inr x) = Q x"
  "ensures Q (bindE r f) = ensures (\<lambda>x. ensures Q (f x)) r"
  by (auto simp: ensures_def)

lemma ensures_assert [simp]: "ensures Q (assertE c e) = (c \<longrightarrow> Q ())"
  by (auto simp: ensures_def)

lemma ensures_any: "(\<And>x. Q x) \<Longrightarrow> ensures Q r"
  by (simp add: ensures_def)

lemma ensuresD: "ensures Q r \<Longrightarrow> r = Inr x \<Longrightarrow> Q x"
  by (simp add: ensures_def)

lemma ensures_mono: "ensures Q r \<Longrightarrow> (\<And>x. Q x \<Longrightarrow> R x) \<Longrightarrow> ensures R r"
  by (simp add: ensures_def)

lemma ensures_fold:
  assumes "J s" "\<And>x s. x \<in> set xs \<Longrightarrow> J s \<Longrightarrow> ensures J (f x s)" "\<And>s. J s \<Longrightarrow> Q s"
  shows "ensures Q (foldE f xs s)"
proof -
  have "J t" if "foldE f xs s = Inr t" for t
    using foldE_inv [of f xs s t J] that assms(1,2) by (auto simp: ensures_def)
  then show ?thesis using assms(3) by (auto simp: ensures_def)
qed

lemma ensures_bindI: "ensures (\<lambda>x. ensures Q (f x)) r \<Longrightarrow> ensures Q (bindE r f)"
  by simp

lemma ensures_if: "(c \<Longrightarrow> ensures Q a) \<Longrightarrow> (\<not> c \<Longrightarrow> ensures Q b) \<Longrightarrow> ensures Q (if c then a else b)"
  by simp

lemma append_ensures:
  "(\<And>m'. op m' = op m \<Longrightarrow> frompid m' = frompid m \<Longrightarrow> topid m' = topid m \<Longrightarrow> scope m' = scope m \<Longrightarrow> Q m') \<Longrightarrow>
     ensures Q (appendmsg m bs)"
  by (auto simp: ensures_def appendmsg_Inr)

text \<open>Operations that only read: nothing is known of what they return.\<close>

lemma reads:
  "(\<And>x. Q x) \<Longrightarrow> ensures Q (homehost s a)" "(\<And>x. Q x) \<Longrightarrow> ensures Q (homepage s a)"
  "(\<And>x. Q x) \<Longrightarrow> ensures Q (cachepage s a)"
  "(\<And>x. R x) \<Longrightarrow> ensures R (home_at s i)" "(\<And>x. R1 x) \<Longrightarrow> ensures R1 (cache_at s i)"
  "(\<And>x. R2 x) \<Longrightarrow> ensures R2 (page_at s a)" "(\<And>x. R3 x) \<Longrightarrow> ensures R3 (mem_load a n s)"
  "(\<And>x. Q x) \<Longrightarrow> ensures Q (top_at s)" "(\<And>x. Q x) \<Longrightarrow> ensures Q (lock_at s l)"
  "(\<And>x. Q x) \<Longrightarrow> ensures Q (cv_at l)" "(\<And>x. R3 x) \<Longrightarrow> ensures R3 (encodediff i s)"
  "(\<And>x. R4 x) \<Longrightarrow> ensures R4 (savewtnt w a mig p sc)" "(\<And>x. R4 x) \<Longrightarrow> ensures R4 (freewtntspace w)"
  "(\<And>x. R3 x) \<Longrightarrow> ensures R3 (msg_bytes m k n)" "(\<And>x. R5 x) \<Longrightarrow> ensures R5 (mapE f ys)"
  "(\<And>x. R6 x) \<Longrightarrow> ensures R6 (home_diff_blocks h s)"
  by (simp_all add: ensures_def)

section \<open>The observer\<close>

definition same_sync :: "host \<Rightarrow> host \<Rightarrow> bool" where
  "same_sync s t \<longleftrightarrow> jia_pid t = jia_pid s \<and> hostc t = hostc s \<and> stackptr t = stackptr s \<and>
     (\<forall>i. lockid (lockstack t i) = lockid (lockstack s i)) \<and>
     (\<forall>l. acqs (locks t l) = acqs (locks s l) \<and> acqc (locks t l) = acqc (locks s l)) \<and>
     acqwait t = acqwait s \<and> barrwait t = barrwait s \<and> waitwait t = waitwait s \<and>
     waitcounter t = waitcounter s"

text \<open>The slots that collect diffs are taken and hold DIFF messages.\<close>

definition diff_slots :: "host \<Rightarrow> bool" where
  "diff_slots s \<longleftrightarrow> (\<forall>h k. diffmsg s h = Some k \<longrightarrow> k < length (mbuf s) \<and>
     slot_st (mbuf s ! k) = SLOT_BUSY \<and> op (slot_msg (mbuf s ! k)) = op_num DIFF \<and>
     (\<forall>h'. diffmsg s h' = Some k \<longrightarrow> h' = h))"

text \<open>A slot that an operation has taken for itself.\<close>

definition mine :: "nat \<Rightarrow> host \<Rightarrow> bool" where
  "mine k s \<longleftrightarrow> k < length (mbuf s) \<and> slot_st (mbuf s ! k) = SLOT_BUSY \<and> (\<forall>h. diffmsg s h \<noteq> Some k)"

text \<open>The last thing an operation does is to queue \<open>m\<close>.\<close>

definition emits :: "jia_msg \<Rightarrow> host \<Rightarrow> host \<Rightarrow> bool" where
  "emits m s t \<longleftrightarrow> same_sync s t \<and> outq t = outq s @ [m] \<and> diff_slots t"

text \<open>What a message with notices keeps while it is filled and sent.\<close>

definition headed :: "nat \<Rightarrow> nat \<Rightarrow> int \<Rightarrow> jia_msg \<Rightarrow> bool" where
  "headed f t l m \<longleftrightarrow> frompid m = f \<and> topid m = t \<and> msg_lock m = l \<and> Intbytes \<le> size m"

lemma headed_append:
  "headed f t l m \<Longrightarrow> (\<And>m'. headed f t l m' \<Longrightarrow> op m' = op m \<Longrightarrow> Q m') \<Longrightarrow> ensures Q (appendmsg m bs)"
  by (auto simp: ensures_def appendmsg_Inr headed_def msg_lock_def msg_int_bytestoi bytestoi_def msg_consts)

lemma headed_simps [simp]:
  "headed f t l (m\<lparr>op := x\<rparr>) = headed f t l m"
  "headed f t l m \<Longrightarrow> headed f t l (m\<lparr>size := Intbytes\<rparr>)"
  by (auto simp: headed_def msg_lock_def msg_int_def)

lemma headed_first:
  assumes "l < 2 ^ 31" "size m = 0"
  shows "ensures (\<lambda>m'. headed (frompid m) (topid m) (int l) m' \<and> op m' = op m) (appendmsg m (itob (word_of_nat l)))"
proof -
  have "headed (frompid m) (topid m) (int l) m' \<and> op m' = op m" if a: "appendmsg m (itob (word_of_nat l)) = Inr m'" for m'
  proof -
    have "payload m' = itob (word_of_nat l) @ []"
      using appendmsg_payload [OF a] assms(2) by (simp add: payload_def)
    then have "msg_lock m' = int l" by (rule msg_lock_payload) (rule assms(1))
    then show ?thesis using assms(2) by (simp add: headed_def appendmsg_header [OF a] Intbytes_def)
  qed
  then show ?thesis unfolding ensures_def by blast
qed

text \<open>The loops that append notices keep the head of the message and its operation.\<close>

lemma append_nodes_headed:
  assumes "\<And>e m. headed f t l m \<Longrightarrow> ensures (\<lambda>m'. headed f t l m' \<and> op m' = op m) (app e m)" "headed f t l m"
  shows "ensures (\<lambda>(m', w'). headed f t l m' \<and> op m' = op m) (append_nodes room app m w)"
  using assms(2)
proof (induction w arbitrary: m)
  case (Cons node rest)
  have "ensures (\<lambda>m'. headed f t l m' \<and> op m' = op m) (foldE app node m)"
    by (rule ensures_fold [where J = "\<lambda>m'. headed f t l m' \<and> op m' = op m"])
      (use Cons.prems in \<open>auto intro!: ensures_mono [OF assms(1)]\<close>)
  note fold = this
  have rest: "ensures (\<lambda>(m', w'). headed f t l m' \<and> op m' = op m) (append_nodes room app m1 rest)"
    if "headed f t l m1 \<and> op m1 = op m" for m1
    by (rule ensures_mono [OF Cons.IH]) (use that in auto)
  show ?case
    unfolding append_nodes.simps
    by (intro ensures_if ensures_bindI ensures_mono [OF fold] rest) (use Cons.prems in simp_all)
qed simp

lemma append_lists_headed:
  assumes "headed f t l m"
  shows "ensures (\<lambda>(m', w'). headed f t l m' \<and> op m' = op m) (appendlockwtnts s sc m w)"
    "ensures (\<lambda>(m', w'). headed f t l m' \<and> op m' = op m) (appendbarrwtnts m w)"
    "ensures (\<lambda>(m', w'). headed f t l m' \<and> op m' = op m) (appendstackwtnts m w)"
proof -
  have e: "headed f t l m \<Longrightarrow> ensures (\<lambda>m'. headed f t l m' \<and> op m' = op m) (append_notice e m)" for e m
    by (auto simp: append_notice_def intro!: headed_append)
  have k: "headed f t l m \<Longrightarrow> ensures (\<lambda>m'. headed f t l m' \<and> op m' = op m) (append_lock_notice s sc e m)" for e m
    by (auto simp: append_lock_notice_def intro!: reads e)
  have b: "headed f t l m \<Longrightarrow> ensures (\<lambda>m'. headed f t l m' \<and> op m' = op m) (append_stack_notice e m)" for e m
    by (auto simp: append_stack_notice_def intro!: headed_append)
  show "ensures (\<lambda>(m', w'). headed f t l m' \<and> op m' = op m) (appendlockwtnts s sc m w)"
    unfolding appendlockwtnts_def by (rule append_nodes_headed [OF k assms])
  show "ensures (\<lambda>(m', w'). headed f t l m' \<and> op m' = op m) (appendbarrwtnts m w)"
    unfolding appendbarrwtnts_def by (rule append_nodes_headed [OF e assms])
  show "ensures (\<lambda>(m', w'). headed f t l m' \<and> op m' = op m) (appendstackwtnts m w)"
    unfolding appendstackwtnts_def by (rule append_nodes_headed [OF b assms])
qed

locale quiet =
  fixes I :: "host \<Rightarrow> bool"
    and ops :: "nat set"
  assumes quiet_step: "I s \<Longrightarrow> same_sync s t \<Longrightarrow> outq t = outq s \<Longrightarrow> diff_slots t \<Longrightarrow> I t"
    and quiet_diff: "I s \<Longrightarrow> diff_slots s"
    and quiet_send: "I s \<Longrightarrow> op m \<in> ops \<Longrightarrow> I (s\<lparr>outq := outq s @ [m]\<rparr>)"
    and quiet_ops: "x \<in> {DIFF, DIFFGRANT, GETP, GETPGRANT, INVLD, WTNT} \<Longrightarrow> op_num x \<in> ops"
    and quiet_bcast: "n \<in> ops \<longleftrightarrow> n + BCAST \<in> ops"
begin

lemma quiet_iff: "same_sync s t \<Longrightarrow> outq t = outq s \<Longrightarrow> diffmsg t = diffmsg s \<Longrightarrow> mbuf t = mbuf s \<Longrightarrow> I t = I s"
proof -
  assume a: "same_sync s t" "outq t = outq s" "diffmsg t = diffmsg s" "mbuf t = mbuf s"
  then have d: "diff_slots t = diff_slots s" by (simp add: diff_slots_def)
  have "same_sync t s" using a(1) by (simp add: same_sync_def)
  then show ?thesis using quiet_step [OF _ a(1,2)] quiet_step [of t s] a(2) d quiet_diff by metis
qed

lemma op_quiet: "op_num DIFF \<in> ops" "op_num DIFFGRANT \<in> ops" "op_num GETP \<in> ops"
  "op_num GETPGRANT \<in> ops" "op_num INVLD \<in> ops" "op_num WTNT \<in> ops"
  by (simp_all only: quiet_ops insert_iff simp_thms)

lemmas op_quiet_num [simp] = op_quiet [simplified]

lemma fields [simp]:
  "I (s\<lparr>vmem := v\<rparr>) = I s" "I (s\<lparr>vprot := vp\<rparr>) = I s" "I (s\<lparr>home := h\<rparr>) = I s"
  "I (s\<lparr>cache := c\<rparr>) = I s" "I (s\<lparr>page := p\<rparr>) = I s" "I (s\<lparr>getpwait := i\<rparr>) = I s"
  "I (s\<lparr>diffwait := i\<rparr>) = I s" "I (s\<lparr>repcnt := r\<rparr>) = I s" "I (s\<lparr>homesize := z\<rparr>) = I s"
  "I (s\<lparr>globaladdr := n\<rparr>) = I s" "I (s\<lparr>mcount := n\<rparr>) = I s" "I (s\<lparr>noclearlocks := i\<rparr>) = I s"
  "I (s\<lparr>cvwait := i\<rparr>) = I s" "I (s\<lparr>condvars := cv\<rparr>) = I s"
  "I (s\<lparr>H_MIG := i\<rparr>) = I s" "I (s\<lparr>AD_WD := i\<rparr>) = I s" "I (s\<lparr>B_CAST := i\<rparr>) = I s"
  "I (s\<lparr>LOAD_BAL := i\<rparr>) = I s" "I (s\<lparr>W_VEC := i\<rparr>) = I s"
  by (rule quiet_iff; simp add: same_sync_def)+

lemma tables [simp]:
  "I (upd_home i f s) = I s" "I (upd_cache i g s) = I s" "I (upd_page i p s) = I s"
  "I (set_top_wtnt t w s) = I s" "I (upd_cv c q s) = I s"
  by (simp_all add: upd_home_def upd_cache_def upd_page_def upd_cv_def)
    (rule quiet_iff; simp add: same_sync_def set_top_wtnt_def)

lemma lock_table [simp]:
  "(\<And>k. acqs (f k) = acqs k \<and> acqc (f k) = acqc k) \<Longrightarrow> I (upd_lock l f s) = I s"
  by (rule quiet_iff) (simp_all add: same_sync_def upd_lock_def)

lemma quiet_op:
  assumes "ensures I r" "\<And>t. I t \<Longrightarrow> Q t"
  shows "ensures Q r"
  using assms by (rule ensures_mono)

text \<open>Message slots.\<close>

lemma lock_quiet:
  assumes "I s" "\<And>k t. I t \<Longrightarrow> mine k t \<Longrightarrow> Q (k, t)"
  shows "ensures Q (freemsg_lock s)"
proof -
  have "I t \<and> mine k t" if l: "freemsg_lock s = Inr (k, t)" for k t
  proof -
    from l obtain fs: "free_slot (mbuf s) = Some k"
      and t: "t = s\<lparr>mcount := mcount s - 1, mbuf := (mbuf s)[k := (mbuf s ! k)\<lparr>slot_st := SLOT_BUSY\<rparr>]\<rparr>"
      by (auto simp: freemsg_lock_def split: if_splits option.splits)
    note k = free_slot_Some [OF fs]
    have n: "diffmsg s h \<noteq> Some k" for h
      using quiet_diff [OF assms(1)] k by (auto simp: diff_slots_def)
    have "diff_slots t"
      unfolding diff_slots_def
    proof (intro allI impI)
      fix h j assume "diffmsg t h = Some j"
      then have d: "diffmsg s h = Some j" "j \<noteq> k" using n by (auto simp: t)
      then show "j < length (mbuf t) \<and> slot_st (mbuf t ! j) = SLOT_BUSY \<and> op (slot_msg (mbuf t ! j)) = op_num DIFF \<and>
          (\<forall>h'. diffmsg t h' = Some j \<longrightarrow> h' = h)"
        using quiet_diff [OF assms(1)] by (simp add: diff_slots_def t)
    qed
    moreover have "same_sync s t" "outq t = outq s" by (simp_all add: t same_sync_def)
    moreover have "mine k t" using n k by (simp add: mine_def t)
    ultimately show ?thesis using quiet_step [OF assms(1)] by blast
  qed
  then show ?thesis using assms(2) by (auto simp: ensures_def)
qed

lemma my_slots:
  assumes "mine k s" "I s" "same_sync s t" "outq t = outq s" "diffmsg t = diffmsg s" "mbuf t = (mbuf s)[k := x]"
  shows "I t"
proof (rule quiet_step [OF assms(2-4)])
  show "diff_slots t"
    unfolding diff_slots_def
  proof (intro allI impI)
    fix h j assume "diffmsg t h = Some j"
    then have d: "diffmsg s h = Some j" "j \<noteq> k" using assms(1,5) by (auto simp: mine_def)
    then show "j < length (mbuf t) \<and> slot_st (mbuf t ! j) = SLOT_BUSY \<and> op (slot_msg (mbuf t ! j)) = op_num DIFF \<and>
        (\<forall>h'. diffmsg t h' = Some j \<longrightarrow> h' = h)"
      using quiet_diff [OF assms(2)] assms(5) by (simp add: diff_slots_def assms(6))
  qed
qed

lemma slots [simp]:
  "mine k s \<Longrightarrow> I s \<Longrightarrow> I (set_slot k m s)" "mine k s \<Longrightarrow> I s \<Longrightarrow> I (freemsg_unlock k s)"
  "mine k s \<Longrightarrow> mine k (set_slot k m s)" "mine k (move_msg_to_outqueue k s) = mine k s"
  by (erule (1) my_slots; simp add: same_sync_def set_slot_def freemsg_unlock_def)+
    (simp_all add: mine_def set_slot_def move_msg_to_outqueue_def)

lemma move_quiet: "I s \<Longrightarrow> op (slot_msg (mbuf s ! k)) \<in> ops \<Longrightarrow> I (move_msg_to_outqueue k s)"
  by (simp add: move_msg_to_outqueue_def quiet_send)

lemma my_slot [simp]: "mine k s \<Longrightarrow> slot_msg (mbuf (set_slot k m s) ! k) = m"
  by (simp add: mine_def)

lemma with_slot_quiet:
  assumes "I s" "\<And>m. ensures (\<lambda>m. op m \<in> ops) (f m)" "\<And>t. I t \<Longrightarrow> Q t"
  shows "ensures Q (with_slot f s)"
proof -
  have *: "ensures (\<lambda>m. Q (freemsg_unlock k (move_msg_to_outqueue k (set_slot k m t)))) (f x)"
    if "I t" "mine k t" for k t x
    by (rule ensures_mono [OF assms(2)]) (use that in \<open>auto intro!: assms(3) move_quiet slots(2)\<close>)
  have "ensures (\<lambda>(k, t). ensures Q (bindE (f (slot_msg (mbuf t ! k)))
      (\<lambda>m. Inr (freemsg_unlock k (move_msg_to_outqueue k (set_slot k m t)))))) (freemsg_lock s)"
    by (rule lock_quiet [OF assms(1)]) (simp add: *)
  then show ?thesis by (simp add: with_slot_def case_prod_unfold)
qed

text \<open>Memory and the cache.\<close>

lemma mem_quiet:
  "I s \<Longrightarrow> (\<And>t. I t \<Longrightarrow> Q t) \<Longrightarrow> ensures Q (memprotect a n p s)"
  "I s \<Longrightarrow> (\<And>t. I t \<Longrightarrow> Q t) \<Longrightarrow> ensures Q (memmap a n p s)"
  "I s \<Longrightarrow> (\<And>t. I t \<Longrightarrow> Q t) \<Longrightarrow> ensures Q (memunmap a n s)"
  "I s \<Longrightarrow> (\<And>t. I t \<Longrightarrow> Q t) \<Longrightarrow> ensures Q (mem_store a bs s)"
  "I s \<Longrightarrow> (\<And>t. I t \<Longrightarrow> Q t) \<Longrightarrow> ensures Q (set_cachepage a i s)"
  by (auto simp: memprotect_def memmap_def memunmap_def mem_store_def set_cachepage_def intro!: reads)

lemma flushpage_quiet: "I s \<Longrightarrow> (\<And>t. I t \<Longrightarrow> Q t) \<Longrightarrow> ensures Q (flushpage i s)"
  by (auto simp: flushpage_def intro!: reads mem_quiet)

lemma replacei_quiet: "I s \<Longrightarrow> replacei rnd i s = (r, t) \<Longrightarrow> I t"
  by (auto simp: replacei_def Let_def split: if_splits)

lemma findposition_quiet: "I s \<Longrightarrow> (\<And>i t. I t \<Longrightarrow> Q (i, t)) \<Longrightarrow> ensures Q (findposition rnd a s)"
  by (auto simp: findposition_def Let_def split: prod.splits if_splits dest: replacei_quiet
      intro!: mem_quiet flushpage_quiet)

lemma getpage_quiet: "I s \<Longrightarrow> (\<And>t. I t \<Longrightarrow> Q t) \<Longrightarrow> ensures Q (getpage a f s)"
  by (auto simp: getpage_def intro!: reads with_slot_quiet append_ensures)

lemma home_fault_quiet: "I s \<Longrightarrow> (\<And>t. I t \<Longrightarrow> Q t) \<Longrightarrow> ensures Q (home_fault a s)"
  by (auto simp: home_fault_def Let_def split: if_splits intro!: reads mem_quiet)

lemma fault_fetch_quiet: "I s \<Longrightarrow> (\<And>i t. I t \<Longrightarrow> Q (i, t)) \<Longrightarrow> ensures Q (fault_fetch rnd a w s)"
  unfolding fault_fetch_def
  by (auto intro!: reads mem_quiet getpage_quiet findposition_quiet)

lemma fault_request_quiet: "I s \<Longrightarrow> (\<And>i t. I t \<Longrightarrow> Q (i, t)) \<Longrightarrow> ensures Q (fault_request rnd c a s)"
  unfolding fault_request_def Let_def
  by (auto intro!: reads home_fault_quiet fault_fetch_quiet split: option.split)

lemma fault_resume_quiet: "I s \<Longrightarrow> (\<And>t. I t \<Longrightarrow> Q t) \<Longrightarrow> ensures Q (fault_resume c a i s)"
  by (auto simp: fault_resume_def Let_def intro!: reads mem_quiet)

text \<open>The slots that collect diffs.\<close>

lemma diff_slot_new:
  assumes "I s" "mine k s" "op m = op_num DIFF"
  shows "I (set_slot k m (s\<lparr>diffmsg := (diffmsg s)(h \<mapsto> k)\<rparr>))"
  by (rule quiet_step [OF assms(1)])
    (use quiet_diff [OF assms(1)] assms(2,3) in
      \<open>auto simp: same_sync_def set_slot_def diff_slots_def mine_def nth_list_update split: if_splits\<close>)

lemma diff_slot_old:
  assumes "I s" "diffmsg s h = Some k" "op m = op_num DIFF"
  shows "I (set_slot k m s)"
proof (rule quiet_step [OF assms(1)])
  show "diff_slots (set_slot k m s)"
    unfolding diff_slots_def
  proof (intro allI impI)
    fix i j assume d: "diffmsg (set_slot k m s) i = Some j"
    then have "diffmsg s i = Some j" by (simp add: set_slot_def)
    then show "j < length (mbuf (set_slot k m s)) \<and> slot_st (mbuf (set_slot k m s) ! j) = SLOT_BUSY \<and>
        op (slot_msg (mbuf (set_slot k m s) ! j)) = op_num DIFF \<and>
        (\<forall>h'. diffmsg (set_slot k m s) h' = Some j \<longrightarrow> h' = i)"
      using quiet_diff [OF assms(1)] assms(3) by (cases "j = k") (auto simp: diff_slots_def set_slot_def)
  qed
qed (simp_all add: same_sync_def set_slot_def)

lemma diff_slot_op: "I s \<Longrightarrow> diffmsg s h = Some k \<Longrightarrow> op (slot_msg (mbuf s ! k)) = op_num DIFF"
  using quiet_diff [of s] by (auto simp: diff_slots_def)

lemma diff_append_quiet:
  assumes "I s" "diffmsg s h = Some k" "slot = None \<or> slot = Some k" "\<And>t. I t \<Longrightarrow> Q t"
  shows "ensures Q (bindE (encodediff ci s) (\<lambda>diff.
     if Maxmsgsize < size (slot_msg (mbuf s ! k)) + length diff
     then (case slot of None \<Rightarrow> Inl (Uninitialised ''slot'')
       | Some k' \<Rightarrow>
         let s = move_msg_to_outqueue k' (s\<lparr>diffwait := diffwait s + 1\<rparr>)
         in bindE (appendmsg ((slot_msg (mbuf s ! k))\<lparr>size := 0\<rparr>) diff) (\<lambda>m.
            bindE (assertE (diffwait s = 0) (WouldBlock ''diffwait'')) (\<lambda>_.
            Inr (set_slot k m s))))
     else bindE (appendmsg (slot_msg (mbuf s ! k)) diff) (\<lambda>m. Inr (set_slot k m s))))"
proof -
  note o = diff_slot_op [OF assms(1,2)]
  let ?t = "move_msg_to_outqueue k (s\<lparr>diffwait := diffwait s + 1\<rparr>)"
  have "I ?t" by (rule move_quiet) (use assms(1) o in simp_all)
  moreover have "diffmsg ?t h = Some k" "op (slot_msg (mbuf ?t ! k)) = op_num DIFF"
    using assms(2) o by (simp_all add: move_msg_to_outqueue_def)
  ultimately show ?thesis
    using assms o by (auto simp: Let_def intro!: reads append_ensures assms(4) diff_slot_old [of _ h])
qed

lemma savediff_quiet:
  assumes "I s" "\<And>t. I t \<Longrightarrow> Q t"
  shows "ensures Q (savediff ci s)"
proof -
  have *: "ensures (\<lambda>(k, slot, t). I t \<and> diffmsg t h = Some k \<and> (slot = None \<or> slot = Some k))
      (case diffmsg s h of
         Some k \<Rightarrow> Inr (k, None, s)
       | None \<Rightarrow> bindE (freemsg_lock s) (\<lambda>(k, s).
           Inr (k, Some k, set_slot k ((slot_msg (mbuf s ! k))\<lparr>op := op_num DIFF,
             frompid := jia_pid s, topid := h, size := 0\<rparr>)
             (s\<lparr>diffmsg := (diffmsg s)(h \<mapsto> k)\<rparr>))))" for h
  proof (cases "diffmsg s h")
    case None
    have d: "diffmsg (set_slot k m u) = diffmsg u" for k m u by (simp add: set_slot_def)
    show ?thesis unfolding None option.case
      by (rule ensures_bindI, rule lock_quiet [OF assms(1)]) (simp add: diff_slot_new d)
  qed (use assms in simp)
  show ?thesis unfolding savediff_def
    apply (rule ensures_bindI, rule reads, rule ensures_bindI, rule reads, rule ensures_bindI)
    apply (simp only: ensures_assert, rule impI, rule ensures_bindI, rule ensures_mono [OF *], clarify)
    by (rule diff_append_quiet [OF _ _ _ assms(2)])
qed

lemma send_diff_quiet: "I s \<Longrightarrow> I (send_diff h s)"
proof (cases "diffmsg s h")
  case (Some k)
  assume s: "I s"
  note o = diff_slot_op [OF s Some]
  let ?t = "move_msg_to_outqueue k (s\<lparr>diffwait := diffwait s + 1\<rparr>)"
  have t: "I ?t" by (rule move_quiet) (use s o in simp_all)
  show ?thesis
  proof (cases "0 < size (slot_msg (mbuf s ! k))")
    case True
    have "diff_slots (send_diff h s)"
      unfolding diff_slots_def
    proof (intro allI impI)
      fix i j assume "diffmsg (send_diff h s) i = Some j"
      then have d: "diffmsg s i = Some j" "j \<noteq> k"
        using True Some quiet_diff [OF s]
        by (auto simp: send_diff_def Let_def freemsg_unlock_def move_msg_to_outqueue_def diff_slots_def split: if_splits)
      then show "j < length (mbuf (send_diff h s)) \<and> slot_st (mbuf (send_diff h s) ! j) = SLOT_BUSY \<and>
          op (slot_msg (mbuf (send_diff h s) ! j)) = op_num DIFF \<and>
          (\<forall>h'. diffmsg (send_diff h s) h' = Some j \<longrightarrow> h' = i)"
        using True Some quiet_diff [OF s]
        by (auto simp: send_diff_def Let_def freemsg_unlock_def move_msg_to_outqueue_def diff_slots_def)
    qed
    then show ?thesis using True Some
      by (intro quiet_step [OF t])
        (simp_all add: send_diff_def Let_def same_sync_def freemsg_unlock_def move_msg_to_outqueue_def)
  next
    case False
    then show ?thesis using quiet_diff [OF s] Some
      by (intro quiet_step [OF s]) (auto simp: send_diff_def same_sync_def diff_slots_def)
  qed
qed (simp add: send_diff_def fun_upd_idem)

lemma senddiffs_quiet: "I s \<Longrightarrow> I (senddiffs s)"
proof -
  have "I s \<Longrightarrow> I (fold send_diff hs s)" for hs by (induction hs arbitrary: s) (simp_all add: send_diff_quiet)
  then show "I s \<Longrightarrow> I (senddiffs s)" by (simp add: senddiffs_def)
qed

text \<open>Notices and the end and start of an interval.\<close>

lemma save_top_quiet: "I s \<Longrightarrow> (\<And>t. I t \<Longrightarrow> Q t) \<Longrightarrow> ensures Q (save_top a mig p sc s)"
  by (auto simp: save_top_def intro!: reads)

lemma savepage_quiet: "I s \<Longrightarrow> (\<And>t. I t \<Longrightarrow> Q t) \<Longrightarrow> ensures Q (savepage ci s)"
  by (auto simp: savepage_def intro!: savediff_quiet save_top_quiet)

lemma wtvect_quiet:
  "I s \<Longrightarrow> (\<And>t. I t \<Longrightarrow> Q t) \<Longrightarrow> ensures Q (addwtvect hi wv p s)"
  "I s \<Longrightarrow> (\<And>t. I t \<Longrightarrow> Q t) \<Longrightarrow> ensures Q (setwtvect hi wv s)"
  by (auto simp: addwtvect_def setwtvect_def Let_def split: option.split)

lemma save_home_quiet: "I s \<Longrightarrow> (\<And>t. I t \<Longrightarrow> Q t) \<Longrightarrow> ensures Q (save_home x i s)"
  by (auto simp: save_home_def intro!: reads save_top_quiet wtvect_quiet)

lemma endinterval_send_quiet: "I s \<Longrightarrow> (\<And>t. I t \<Longrightarrow> Q t) \<Longrightarrow> ensures Q (endinterval_send x s)"
  by (auto simp: endinterval_send_def Let_def intro!: ensures_fold [where J = I] savepage_quiet save_home_quiet
      senddiffs_quiet)

lemma startinterval_quiet: "I s \<Longrightarrow> (\<And>t. I t \<Longrightarrow> Q t) \<Longrightarrow> ensures Q (startinterval x s)"
proof -
  have c: "I s \<Longrightarrow> ensures I (clean_cache i s)" for i s
    by (auto simp: clean_cache_def intro!: mem_quiet)
  have h: "I s \<Longrightarrow> ensures I (clean_home i s)" for i s
    by (auto simp: clean_home_def intro!: reads mem_quiet)
  have t: "I s \<Longrightarrow> ensures I (home_twin i s)" for i s
    by (auto simp: home_twin_def Let_def intro!: reads)
  have d: "I s \<Longrightarrow> ensures I (detect_home i s)" for i s
    by (auto simp: detect_home_def Let_def intro!: reads mem_quiet t)
  show "I s \<Longrightarrow> (\<And>t. I t \<Longrightarrow> Q t) \<Longrightarrow> ensures Q (startinterval x s)"
    by (auto simp: startinterval_def intro!: ensures_fold [where J = I] c h d)
qed

lemma clearlocks_quiet: "I s \<Longrightarrow> (\<And>t. I t \<Longrightarrow> Q t) \<Longrightarrow> ensures Q (clearlocks s)"
  by (auto simp: clearlocks_def intro!: ensures_fold [where J = I] reads)

lemma recordwtnts_quiet: "I s \<Longrightarrow> (\<And>t. I t \<Longrightarrow> Q t) \<Longrightarrow> ensures Q (recordwtnts m s)"
  by (auto simp: recordwtnts_def intro!: ensures_fold [where J = I] reads)

lemma merge_notices_quiet: "I s \<Longrightarrow> (\<And>t. I t \<Longrightarrow> Q t) \<Longrightarrow> ensures Q (merge_notices w s)"
  by (auto simp: merge_notices_def intro!: ensures_fold [where J = I] save_top_quiet)

text \<open>Home migration and invalidation.\<close>

lemma migcheckcache_quiet: "I s \<Longrightarrow> (\<And>t. I t \<Longrightarrow> Q t) \<Longrightarrow> ensures Q (migcheckcache s)"
  by (auto simp: migcheckcache_def intro!: reads)

lemma move_home_quiet: "I s \<Longrightarrow> (\<And>t. I t \<Longrightarrow> Q t) \<Longrightarrow> ensures Q (move_home i j s)"
  by (auto simp: move_home_def Let_def intro!: reads)

lemma arrange_loop_quiet: "I s \<Longrightarrow> (\<And>i t. I t \<Longrightarrow> Q (i, t)) \<Longrightarrow> ensures Q (arrange_loop i n s)"
  by (induction n arbitrary: i s) (auto split: option.split intro!: move_home_quiet)

lemma migarrangehome_quiet: "I s \<Longrightarrow> (\<And>t. I t \<Longrightarrow> Q t) \<Longrightarrow> ensures Q (migarrangehome s)"
  by (auto simp: migarrangehome_def intro!: arrange_loop_quiet)

lemma migpage_quiet: "I s \<Longrightarrow> (\<And>t. I t \<Longrightarrow> Q t) \<Longrightarrow> ensures Q (migpage a h p s)"
proof -
  have n: "I s \<Longrightarrow> ensures I (mig_new_home p a s)" for p s
    by (auto simp: mig_new_home_def Let_def split: option.split intro!: wtvect_quiet)
  have o: "I s \<Longrightarrow> ensures I (mig_old_home p a s)" for p s
    by (auto simp: mig_old_home_def Let_def split: option.split intro!: wtvect_quiet flushpage_quiet mem_quiet)
  show "I s \<Longrightarrow> (\<And>t. I t \<Longrightarrow> Q t) \<Longrightarrow> ensures Q (migpage a h p s)"
    by (auto simp: migpage_def Let_def intro!: reads quiet_op [OF n] quiet_op [OF o])
qed

lemma inv_page_quiet: "I s \<Longrightarrow> (\<And>t. I t \<Longrightarrow> Q t) \<Longrightarrow> ensures Q (inv_page i s)"
  by (auto simp: inv_page_def intro!: mem_quiet)

lemma inv_notice_quiet:
  assumes "I s" "\<And>t. I t \<Longrightarrow> Q t"
  shows "ensures Q (inv_notice l a p g s)"
proof -
  have c: "ensures I (if p \<noteq> jia_pid s \<and> h \<noteq> jia_pid s
      then bindE (cachepage s a) (\<lambda>ci. if ci < Cachepages then inv_page ci s else Inr s) else Inr s)" for h
    by (intro ensures_if ensures_bindI reads inv_page_quiet) (use assms(1) in simp_all)
  have m: "ensures I (if H_MIG s = ON \<and> l = int hidelock \<and> p \<noteq> Maxhosts \<and> g \<noteq> 0
      then bindE (homehost s a) (\<lambda>h. migpage a h p s) else Inr s)" if "I s" for s
    by (intro ensures_if ensures_bindI reads migpage_quiet) (use that in simp_all)
  show ?thesis unfolding inv_notice_def
    by (rule ensures_bindI, rule reads, rule ensures_bindI, rule ensures_mono [OF c], rule ensures_bindI,
        rule ensures_mono [OF m]) (auto intro!: reads assms(2))
qed

lemma invalidate_quiet: "I s \<Longrightarrow> (\<And>t. I t \<Longrightarrow> Q t) \<Longrightarrow> ensures Q (invalidate m s)"
  by (auto simp: invalidate_def intro!: ensures_fold [where J = I] inv_notice_quiet)

text \<open>The servers of pages, diffs, notices and invalidations.\<close>

lemma copy_runs_quiet:
  "I s \<Longrightarrow> (\<And>k v t. I t \<Longrightarrow> Q (k, v, t)) \<Longrightarrow> ensures Q (copy_runs m a k stop wv s)"
proof (induction "stop - k" arbitrary: k wv s rule: less_induct)
  case less
  show ?case
    unfolding copy_runs.simps [of m a k] Let_def
    by (intro ensures_if ensures_bindI mem_quiet)
      (use less in \<open>auto intro!: mem_quiet simp: Intbytes_def\<close>)
qed

lemma diff_page_quiet: "I s \<Longrightarrow> (\<And>k t. I t \<Longrightarrow> Q (k, t)) \<Longrightarrow> ensures Q (diff_page m k s)"
  by (auto simp: diff_page_def Let_def intro!: reads mem_quiet copy_runs_quiet wtvect_quiet)

lemma diff_pages_quiet: "I s \<Longrightarrow> (\<And>t. I t \<Longrightarrow> Q t) \<Longrightarrow> ensures Q (diff_pages m k s)"
proof (induction m k s rule: diff_pages.induct)
  case (1 req datai s)
  show ?case
    unfolding diff_pages.simps [of req datai s]
  proof (intro ensures_if ensures_bindI)
    assume c: "datai < size req"
    have "ensures (\<lambda>x. I (snd x)) (diff_page req datai s)"
      by (rule diff_page_quiet) (use 1 in simp_all)
    then show "ensures (\<lambda>x. ensures Q (diff_pages req (fst x) (snd x))) (diff_page req datai s)"
      using 1 c by (auto simp: ensures_def)
  qed (use 1 in simp)
qed

lemma diffserver_quiet: "I s \<Longrightarrow> ensures I (diffserver m s)"
  by (auto simp: diffserver_def intro!: diff_pages_quiet with_slot_quiet)

lemma diffgrantserver_quiet: "I s \<Longrightarrow> ensures I (diffgrantserver m s)"
  by (auto simp: diffgrantserver_def)

lemma prefetch_loop_quiet:
  "I s \<Longrightarrow> (\<And>as h t. I t \<Longrightarrow> Q (as, h, t)) \<Longrightarrow> ensures Q (prefetch_loop p e as h s)"
proof (induction p e as h s rule: prefetch_loop.induct)
  case (1 paddr endaddr addrs hi s)
  show ?case
    unfolding prefetch_loop.simps [of paddr endaddr addrs] Let_def
    by (intro ensures_if ensures_bindI) (use 1 in \<open>auto simp: ensures_def Let_def\<close>)
qed

lemma getp_pages_quiet: "I s \<Longrightarrow> (\<And>as h t. I t \<Longrightarrow> Q (as, h, t)) \<Longrightarrow> ensures Q (getp_pages m s)"
  by (auto simp: getp_pages_def Let_def intro!: reads prefetch_loop_quiet)

lemma getp_reply_op: "ensures (\<lambda>m. op m \<in> ops) (getp_reply req as hidx s rep)"
proof -
  have mem: "op m = x \<Longrightarrow> ensures (\<lambda>m. op m = x) (append_mem a n s m)" for a n m x
    by (auto simp: append_mem_def intro!: reads append_ensures)
  have bl: "op m = x \<Longrightarrow> ensures (\<lambda>m. op (snd m) = x) (append_blocks wv a s m)" for wv a m x
    unfolding append_blocks_def
    by (rule ensures_fold [where J = "\<lambda>m. op (snd m) = x"]) (auto intro!: ensures_mono [OF mem])
  have "ensures (\<lambda>m. op m = op_num GETPGRANT) (getp_reply req as hidx s rep)"
    unfolding getp_reply_def Let_def
    by (intro ensures_bindI append_ensures ensures_if ensures_fold [where J = "\<lambda>m. op m = op_num GETPGRANT"])
      (auto split: option.split intro!: mem append_ensures ensures_mono [OF mem]
         ensures_mono [OF bl [where x = "op_num GETPGRANT"]] ensures_fold [where J = "\<lambda>m. op m = op_num GETPGRANT"])
  then show ?thesis by (rule ensures_mono) simp
qed

lemma getpserver_quiet: "I s \<Longrightarrow> ensures I (getpserver m s)"
  by (auto simp: getpserver_def intro!: getp_pages_quiet with_slot_quiet getp_reply_op)

lemma grant_first_quiet: "I s \<Longrightarrow> (\<And>t. I t \<Longrightarrow> Q t) \<Longrightarrow> ensures Q (grant_first m a s)"
proof -
  have b: "I s \<Longrightarrow> ensures (\<lambda>x. I (snd x)) (grant_blocks m wv a k s)" for wv k s
    unfolding grant_blocks_def
    by (rule ensures_fold [where J = "\<lambda>x. I (snd x)"]) (auto intro!: reads mem_quiet)
  show "I s \<Longrightarrow> (\<And>t. I t \<Longrightarrow> Q t) \<Longrightarrow> ensures Q (grant_first m a s)"
    by (auto simp: grant_first_def Let_def intro!: reads mem_quiet ensures_mono [OF b])
qed

lemma grant_prefetched_quiet: "I s \<Longrightarrow> ensures I (grant_prefetched rnds m i s)"
  by (auto simp: grant_prefetched_def Let_def split: option.split intro!: reads mem_quiet findposition_quiet)

lemma getpgrantserver_quiet: "I s \<Longrightarrow> ensures I (getpgrantserver rnds m s)"
  by (auto simp: getpgrantserver_def Let_def intro!: grant_first_quiet ensures_fold [where J = I]
      grant_prefetched_quiet)

lemma invserver_quiet: "I s \<Longrightarrow> ensures I (invserver m s)"
  by (auto simp: invserver_def intro!: invalidate_quiet)

lemma wtntserver_quiet: "I s \<Longrightarrow> ensures I (wtntserver m s)"
  by (auto simp: wtntserver_def intro!: recordwtnts_quiet)

text \<open>Operations whose last message the observer may notice.\<close>

lemma unlock_emits:
  assumes "I s" "mine k s"
  shows "emits (slot_msg (mbuf s ! k)) s (freemsg_unlock k (move_msg_to_outqueue k s))"
proof -
  let ?u = "s\<lparr>mbuf := (mbuf s)[k := (mbuf s ! k)\<lparr>slot_st := SLOT_FREE\<rparr>]\<rparr>"
  have "I ?u" by (rule my_slots [OF assms(2,1)]) (simp_all add: same_sync_def)
  then have "diff_slots ?u" by (rule quiet_diff)
  then have "diff_slots (freemsg_unlock k (move_msg_to_outqueue k s))"
    by (simp add: diff_slots_def freemsg_unlock_def move_msg_to_outqueue_def)
  then show ?thesis by (simp add: emits_def same_sync_def freemsg_unlock_def move_msg_to_outqueue_def)
qed

lemma with_slot_emits:
  assumes "I s" "\<And>m. ensures R (f m)" "\<And>u m t. I u \<Longrightarrow> R m \<Longrightarrow> emits m u t \<Longrightarrow> Q t"
  shows "ensures Q (with_slot f s)"
proof -
  have *: "ensures (\<lambda>m. Q (freemsg_unlock k (move_msg_to_outqueue k (set_slot k m t)))) (f x)"
    if "I t" "mine k t" for k t x
  proof (rule ensures_mono [OF assms(2)])
    fix m assume "R m"
    moreover have "emits m (set_slot k m t) (freemsg_unlock k (move_msg_to_outqueue k (set_slot k m t)))"
      using unlock_emits [of "set_slot k m t" k] that by simp
    ultimately show "Q (freemsg_unlock k (move_msg_to_outqueue k (set_slot k m t)))"
      using assms(3) [of "set_slot k m t" m] that by simp
  qed
  have "ensures (\<lambda>(k, t). ensures Q (bindE (f (slot_msg (mbuf t ! k)))
      (\<lambda>m. Inr (freemsg_unlock k (move_msg_to_outqueue k (set_slot k m t)))))) (freemsg_lock s)"
    by (rule lock_quiet [OF assms(1)]) (simp add: *)
  then show ?thesis by (simp add: with_slot_def case_prod_unfold)
qed

lemma send_rest_quiet:
  assumes "\<And>m w. H m \<Longrightarrow> ensures (\<lambda>(m', w'). H m' \<and> op m' = op m) (app m w)"
    "\<And>t. I t \<Longrightarrow> mine k t \<Longrightarrow> H (slot_msg (mbuf t ! k)) \<Longrightarrow> op (slot_msg (mbuf t ! k)) \<in> ops \<Longrightarrow>
       ensures (\<lambda>t'. I t' \<and> mine k t' \<and> H (slot_msg (mbuf t' ! k))) (send k t)"
    "op_num more_op \<in> ops" "\<And>m x. H m \<Longrightarrow> H (m\<lparr>op := x\<rparr>)" "\<And>m. H m \<Longrightarrow> H (m\<lparr>size := Intbytes\<rparr>)"
  shows "I s \<Longrightarrow> mine k s \<Longrightarrow> H (slot_msg (mbuf s ! k)) \<Longrightarrow>
    ensures (\<lambda>t. I t \<and> mine k t \<and> H (slot_msg (mbuf t ! k))) (send_rest app send more_op k w s)"
proof (induction "length w" arbitrary: w s rule: less_induct)
  case less
  let ?J = "\<lambda>t. I t \<and> mine k t \<and> H (slot_msg (mbuf t ! k))"
  let ?s = "set_slot k ((slot_msg (mbuf s ! k))\<lparr>op := op_num more_op\<rparr>) s"
  have s: "ensures ?J (send k ?s)"
    by (rule assms(2)) (use less.prems assms(3,4) in simp_all)
  have step: "ensures ?J (send_rest app send more_op k w' (set_slot k m t))"
    if "?J t" "H m" "length w' < length w" for t m w'
    by (rule less.hyps [OF that(3)]) (use that in simp_all)
  have body: "ensures (\<lambda>(m, w'). ensures ?J (if length w' < length w
      then send_rest app send more_op k w' (set_slot k m t) else Inl (Diverges ''write notices'')))
      (app ((slot_msg (mbuf t ! k))\<lparr>size := Intbytes\<rparr>) w)" if "?J t" for t
    by (rule ensures_mono [OF assms(1)]) (use that assms(5) step in \<open>auto\<close>)
  show ?case
    unfolding send_rest.simps [of app send more_op k w s]
    by (intro ensures_if ensures_bindI ensures_mono [OF s] ensures_mono [OF body])
      (use less.prems in \<open>auto\<close>)
qed

lemma send_slot_quiet:
  "I t \<Longrightarrow> mine k t \<Longrightarrow> H (slot_msg (mbuf t ! k)) \<Longrightarrow> op (slot_msg (mbuf t ! k)) \<in> ops \<Longrightarrow>
     ensures (\<lambda>t'. I t' \<and> mine k t' \<and> H (slot_msg (mbuf t' ! k))) (send_slot k t)"
  by (simp add: send_slot_def move_quiet)

lemma send_notices_emits:
  assumes "I s" "\<And>m w. headed f d (int lock) m \<Longrightarrow> ensures (\<lambda>(m', w'). headed f d (int lock) m' \<and> op m' = op m) (app m w)"
    "op_num more_op \<in> ops" "lock < 2 ^ 31" "\<And>m. frompid (hdr m) = f \<and> topid (hdr m) = d"
    "\<And>u m t. I u \<Longrightarrow> headed f d (int lock) m \<Longrightarrow> is_op m last_op \<Longrightarrow> emits m u t \<Longrightarrow> Q t"
  shows "ensures Q (send_notices app send_slot more_op last_op hdr lock w s)"
proof -
  let ?H = "headed f d (int lock)"
  let ?J = "\<lambda>k t. I t \<and> mine k t \<and> ?H (slot_msg (mbuf t ! k))"
  have first: "ensures ?H (appendmsg ((hdr m)\<lparr>size := 0\<rparr>) (itob (word_of_nat lock)))" for m
    by (rule ensures_mono [OF headed_first [OF assms(4)]]) (use assms(5) in auto)
  have app: "ensures (\<lambda>(m', w'). ?H m') (app m w)" if "?H m" for m w
    by (rule ensures_mono [OF assms(2) [OF that]]) auto
  have rest: "ensures (?J k) (send_rest app send_slot more_op k w t)" if "?J k t" for k w t
    by (rule send_rest_quiet [OF assms(2) send_slot_quiet assms(3)]) (use that in auto)
  have last: "Q (freemsg_unlock k (move_msg_to_outqueue k (set_slot k ((slot_msg (mbuf t ! k))\<lparr>op := op_num last_op\<rparr>) t)))"
    if "?J k t" for k t
    by (rule assms(6) [OF _ _ _ unlock_emits]) (use that in \<open>simp_all add: is_op_def\<close>)
  show ?thesis
    unfolding send_notices_def
    by (rule ensures_bindI, rule lock_quiet [OF assms(1)], simp only: prod.case)
      (intro ensures_bindI ensures_mono [OF first] ensures_mono [OF app] ensures_mono [OF rest]; 
        auto intro!: ensures_mono [OF app] ensures_mono [OF rest] last simp: send_slot_def)
qed

lemma bsendmsg_quiet:
  assumes "I s" "mine k s" "op (slot_msg (mbuf s ! k)) \<in> ops"
  shows "ensures (\<lambda>(m, t). I (set_slot k m t) \<and> mine k (set_slot k m t)) (bsendmsg (slot_msg (mbuf s ! k)) s)"
proof -
  have send: "I s \<Longrightarrow> mine k s \<Longrightarrow> \<forall>m\<in>set ms. op m \<in> ops \<Longrightarrow> I (s\<lparr>outq := outq s @ ms\<rparr>)" for ms s
  proof (induction ms arbitrary: s)
    case (Cons m ms)
    from Cons.IH [of "s\<lparr>outq := outq s @ [m]\<rparr>"] Cons.prems quiet_send [of s m] show ?case by (simp add: mine_def)
  qed simp
  have step: "\<forall>x\<in>set ms. op x \<in> ops" if "bcast_step p n m = Inr (m', ms)" "BCAST \<le> op m" "op m - BCAST \<in> ops" for p n m m' ms
    using that quiet_bcast [of "op m - BCAST"] by (auto simp: bcast_step_def Let_def split: if_splits)
  let ?m = "slot_msg (mbuf s ! k)"
  have "I (set_slot k m' t) \<and> mine k (set_slot k m' t)" if b: "bsendmsg ?m s = Inr (m', t)" for m' t
  proof -
    let ?b = "?m\<lparr>op := op ?m + BCAST, temp := bcast_temp (jia_pid s) (if hostc s = 1 then 1 else bcast_level (hostc s) 0)\<rparr>"
    obtain ms where st: "bcast_step (jia_pid s) (hostc s) ?b = Inr (m', ms)" and t: "t = s\<lparr>outq := outq s @ ms\<rparr>"
      using b unfolding bsendmsg_def bcastserver_def by auto
    have "\<forall>x\<in>set ms. op x \<in> ops" by (rule step [OF st]) (use assms(3) in simp_all)
    then have "I (s\<lparr>outq := outq s @ ms\<rparr>)" by (rule send [OF assms(1,2)])
    moreover have "mine k (s\<lparr>outq := outq s @ ms\<rparr>)" using assms(2) by (simp add: mine_def)
    ultimately show ?thesis unfolding t by simp
  qed
  then show ?thesis by (auto simp: ensures_def)
qed

lemma broadcast_quiet:
  assumes "I s" "mine k s" "op (slot_msg (mbuf s ! k)) \<in> ops"
  shows "ensures (\<lambda>t. I t \<and> mine k t) (broadcast k s)"
proof (cases "B_CAST s = OFF")
  case True
  let ?f = "\<lambda>hosti s. let s = set_slot k ((slot_msg (mbuf s ! k))\<lparr>topid := hosti\<rparr>) s in move_msg_to_outqueue k s"
  have "I s \<Longrightarrow> mine k s \<Longrightarrow> op (slot_msg (mbuf s ! k)) \<in> ops \<Longrightarrow> I (fold ?f hs s) \<and> mine k (fold ?f hs s)" for hs
  proof (induction hs arbitrary: s)
    case (Cons h hs)
    show ?case unfolding fold.simps comp_apply
      by (rule Cons.IH) (use Cons.prems in \<open>simp_all add: Let_def move_quiet\<close>)
  qed simp
  then show ?thesis using True assms by (simp add: broadcast_def)
next
  case False
  then show ?thesis using ensures_mono [OF bsendmsg_quiet [OF assms]] by (auto simp: broadcast_def)
qed

end

end
