(* ===== verification/Userparts.thy ===== *)
theory Userparts
  imports Server
begin

text \<open>
  The calls of a program cut where they wait for other threads: what a call does between two waits
  is one step of the program's thread. Each call of \<open>src/src/syn/synuser.c\<close> is the sequence of its
  parts.
\<close>

lemma bindE_assoc: "bindE (bindE m f) g = bindE m (\<lambda>x. bindE (f x) g)"
  by (cases m) simp_all

section \<open>Locks\<close>

definition lock_begin :: "nat \<Rightarrow> host \<Rightarrow> host res" where
  "lock_begin l s = bindE (assertE (l < Maxlocks) (JiaAssert ''lock out of range'')) (\<lambda>_.
     bindE (assertE (list_all (\<lambda>i. lockid (lockstack s i) \<noteq> l) [0..<nat (stackptr s + 1)])
       (JiaAssert ''Embeding of the same lock is not allowed!'')) (\<lambda>_. endinterval_send ACQ s))"

definition lock_ask :: "nat \<Rightarrow> host \<Rightarrow> host res" where
  "lock_ask l s = acquire l (s\<lparr>acqwait := 1\<rparr>)"

definition lock_enter :: "nat \<Rightarrow> host \<Rightarrow> host res" where
  "lock_enter l s = bindE (startinterval ACQ s) (pushstack l)"

lemma jia_lock_parts:
  assumes "hostc s \<noteq> 1"
  shows "jia_lock waitd waita (int l) s = bindE (lock_begin l s) (\<lambda>s.
     bindE (wait_until (\<lambda>s. diffwait s = 0) waitd ''diffwait'' s) (\<lambda>s.
     bindE (lock_ask l s) (\<lambda>s.
     bindE (wait_until (\<lambda>s. acqwait s = 0) waita ''acqwait'' s) (lock_enter l))))"
  using assms
  by (simp add: jia_lock_def lock_begin_def lock_ask_def lock_enter_def [abs_def] endinterval_def bindE_assoc)

definition unlock_begin :: "nat \<Rightarrow> host \<Rightarrow> host res" where
  "unlock_begin l s = bindE (assertE (l < Maxlocks) (JiaAssert ''lock out of range'')) (\<lambda>_.
     bindE (top_at s) (\<lambda>t.
     bindE (assertE (l = lockid (lockstack s t)) (JiaAssert ''lock and unlock should be used in pair!'')) (\<lambda>_.
     endinterval_send REL s)))"

definition unlock_end :: "host \<Rightarrow> host res" where
  "unlock_end s = bindE (sendwtnts REL s) (\<lambda>s. bindE (startinterval REL s) popstack)"

lemma jia_unlock_parts:
  assumes "hostc s \<noteq> 1"
  shows "jia_unlock waitd (int l) s = bindE (unlock_begin l s) (\<lambda>s.
     bindE (wait_until (\<lambda>s. diffwait s = 0) waitd ''diffwait'' s) unlock_end)"
  using assms by (simp add: jia_unlock_def unlock_begin_def unlock_end_def [abs_def] endinterval_def bindE_assoc)

section \<open>Barriers and condition variables\<close>

definition barrier_begin :: "host \<Rightarrow> host res" where
  "barrier_begin s = bindE (assertE (stackptr s = 0) (JiaAssert ''barrier can not be used in CS!''))
     (\<lambda>_. endinterval_send BARR s)"

definition barrier_send :: "host \<Rightarrow> host res" where
  "barrier_send s = bindE (if H_MIG s = ON then migcheckcache s else Inr s) (\<lambda>s.
     bindE (sendwtnts BARR (s\<lparr>barrwait := 1\<rparr>)) (\<lambda>s.
     bindE (top_at s) (\<lambda>t.
     bindE (freewtntspace (swtntp (lockstack s t))) (\<lambda>w. Inr (set_top_wtnt t w s)))))"

definition barrier_end :: "(host \<Rightarrow> host res) \<Rightarrow> host \<Rightarrow> host res" where
  "barrier_end waitw s = (if H_MIG s = ON \<and> W_VEC s = ON
     then bindE (wait_send s) (\<lambda>s. bindE (wait_until (\<lambda>s. waitwait s = 0) waitw ''waitwait'' s) (startinterval BARR))
     else startinterval BARR s)"

lemma jia_wait_parts: "hostc s \<noteq> 1 \<Longrightarrow> jia_wait waitw s =
    bindE (wait_send s) (wait_until (\<lambda>s. waitwait s = 0) waitw ''waitwait'')"
  by (simp add: jia_wait_def)

lemma jia_waitcv_parts: "hostc s \<noteq> 1 \<Longrightarrow> jia_waitcv waitv cvnum s =
    bindE (cv_send WAITCV cvnum (s\<lparr>cvwait := 1\<rparr>)) (wait_until (\<lambda>s. cvwait s = 0) waitv ''cvwait'')"
  by (simp add: jia_waitcv_def)

text \<open>The number of hosts does not change while the other threads run.\<close>

lemma bindE_cong_Inr: "(\<And>x. m = Inr x \<Longrightarrow> f x = g x) \<Longrightarrow> bindE m f = bindE m g"
  by (cases m) simp_all

lemma jia_barrier_parts:
  assumes "hostc s \<noteq> 1" "\<And>s t. waitb s = Inr t \<Longrightarrow> hostc t \<noteq> 1"
  shows "jia_barrier waitd waitb waitw s = bindE (barrier_begin s) (\<lambda>s.
     bindE (wait_until (\<lambda>s. diffwait s = 0) waitd ''diffwait'' s) (\<lambda>s.
     bindE (barrier_send s) (\<lambda>s.
     bindE (wait_until (\<lambda>s. barrwait s = 0) waitb ''barrwait'' s) (barrier_end waitw))))"
proof -
  have e: "bindE (wait_until (\<lambda>s. barrwait s = 0) waitb ''barrwait'' u) (\<lambda>s.
      bindE (if H_MIG s = ON \<and> W_VEC s = ON then jia_wait waitw s else Inr s) (startinterval BARR)) =
    bindE (wait_until (\<lambda>s. barrwait s = 0) waitb ''barrwait'' u) (barrier_end waitw)" for u
  proof (rule bindE_cong_Inr)
    fix x assume x: "wait_until (\<lambda>s. barrwait s = 0) waitb ''barrwait'' u = Inr x"
    then have "waitb u = Inr x" by (auto simp: wait_until_def split: if_splits)
    then have "hostc x \<noteq> 1" by (rule assms(2))
    from jia_wait_parts [OF this, of waitw] show "bindE (if H_MIG x = ON \<and> W_VEC x = ON then jia_wait waitw x else Inr x)
        (startinterval BARR) = barrier_end waitw x"
      by (simp add: barrier_end_def bindE_assoc)
  qed
  show ?thesis
    using assms(1)
    by (simp add: jia_barrier_def barrier_begin_def barrier_send_def endinterval_def bindE_assoc e)
qed

section \<open>The program's thread\<close>

text \<open>Where the thread waits: for grants of diffs, of a lock, of a barrier, for all hosts, for a page,
  for the loads, for the statistics.\<close>

datatype thread = Running | AtLockDiffs nat | AtLockGrant nat | AtUnlockDiffs nat
  | AtBarrDiffs | AtBarrGrant | AtBarrWait | AtWait | AtCv | AtFault u32 addr nat | AtLoad | AtStat

inductive user_step :: "thread \<times> host \<Rightarrow> thread \<times> host \<Rightarrow> bool" where
  Write: "(\<And>a. v a \<noteq> vmem s a \<Longrightarrow> vprot s (page_base a) = Some PROT_RW) \<Longrightarrow>
    user_step (Running, s) (Running, s\<lparr>vmem := v\<rparr>)"
| Fault: "fault_request rnd c a s = Inr (r, t) \<Longrightarrow>
    user_step (Running, s) (case r of None \<Rightarrow> Running | Some i \<Rightarrow> AtFault c a i, t)"
| Resume: "fault_resume c a i s = Inr t \<Longrightarrow> user_step (AtFault c a i, s) (Running, t)"
| Lock: "lock_begin l s = Inr t \<Longrightarrow> user_step (Running, s) (AtLockDiffs l, t)"
| LockAsk: "diffwait s = 0 \<Longrightarrow> lock_ask l s = Inr t \<Longrightarrow> user_step (AtLockDiffs l, s) (AtLockGrant l, t)"
| LockEnter: "acqwait s = 0 \<Longrightarrow> lock_enter l s = Inr t \<Longrightarrow> user_step (AtLockGrant l, s) (Running, t)"
| Unlock: "unlock_begin l s = Inr t \<Longrightarrow> user_step (Running, s) (AtUnlockDiffs l, t)"
| UnlockEnd: "diffwait s = 0 \<Longrightarrow> unlock_end s = Inr t \<Longrightarrow> user_step (AtUnlockDiffs l, s) (Running, t)"
| Barrier: "barrier_begin s = Inr t \<Longrightarrow> user_step (Running, s) (AtBarrDiffs, t)"
| BarrierSend: "diffwait s = 0 \<Longrightarrow> barrier_send s = Inr t \<Longrightarrow> user_step (AtBarrDiffs, s) (AtBarrGrant, t)"
| BarrierEnd: "barrwait s = 0 \<Longrightarrow> \<not> (H_MIG s = ON \<and> W_VEC s = ON) \<Longrightarrow> startinterval BARR s = Inr t \<Longrightarrow>
    user_step (AtBarrGrant, s) (Running, t)"
| BarrierWait: "barrwait s = 0 \<Longrightarrow> H_MIG s = ON \<Longrightarrow> W_VEC s = ON \<Longrightarrow> wait_send s = Inr t \<Longrightarrow>
    user_step (AtBarrGrant, s) (AtBarrWait, t)"
| BarrierWaited: "waitwait s = 0 \<Longrightarrow> startinterval BARR s = Inr t \<Longrightarrow> user_step (AtBarrWait, s) (Running, t)"
| Wait: "wait_send s = Inr t \<Longrightarrow> user_step (Running, s) (AtWait, t)"
| Waited: "waitwait s = 0 \<Longrightarrow> user_step (AtWait, s) (Running, s)"
| SetCv: "x \<in> {SETCV, RESETCV} \<Longrightarrow> cv_send x c s = Inr t \<Longrightarrow> user_step (Running, s) (Running, t)"
| WaitCv: "cv_send WAITCV c (s\<lparr>cvwait := 1\<rparr>) = Inr t \<Longrightarrow> user_step (Running, s) (AtCv, t)"
| WaitedCv: "cvwait s = 0 \<Longrightarrow> user_step (AtCv, s) (Running, s)"
| SendMsg: "jia_send buf p tag s = Inr t \<Longrightarrow> user_step (Running, s) (Running, t)"
| Bcast: "bcast_send buf r s = Inr t \<Longrightarrow> user_step (Running, s) (Running, t)"
| Alloc: "jia_alloc4 n bs k h s = Inr (a, t) \<Longrightarrow> user_step (Running, s) (Running, t)"

text \<open>
  The calls that also use the packets, the loads or the statistics of the process: one round of
  \<open>jia_recv\<close>, \<open>jia_loadcheck\<close>, \<open>jia_config\<close> and the report of \<open>jia_exit\<close>.
\<close>

inductive proc_step :: "'f machine \<Rightarrow> thread \<times> 'f proc \<Rightarrow> thread \<times> 'f proc \<Rightarrow> bool" for mc where
  OnHost: "user_step (k, p_host P) (k', s) \<Longrightarrow> proc_step mc (k, P) (k', P\<lparr>p_host := s\<rparr>)"
| Receive: "next_step len got q tag (p_packets P) = Inr (i, bs, x) \<Longrightarrow>
    proc_step mc (Running, P) (Running, P\<lparr>p_packets := x\<rparr>)"
| Balance: "LOAD_BAL (p_host P) = ON \<Longrightarrow>
    loadbalance_send (farith mc) ((p_loads P)\<lparr>endtime := now, caltime := fadd (farith mc) (caltime (p_loads P))
      (fsub (farith mc) now (starttime (p_loads P)))\<rparr>, p_host P) = Inr (ld, s) \<Longrightarrow>
    proc_step mc (Running, P) (AtLoad, P\<lparr>p_loads := ld, p_host := s\<rparr>)"
| Balanced: "loadwait (p_loads P) = 0 \<Longrightarrow> proc_step mc (AtLoad, P) (Running,
    P\<lparr>p_loads := (p_loads P)\<lparr>caltime := fofint (farith mc) 0, starttime := now\<rparr>\<rparr>)"
| Config: "jia_config (farith mc) junk d v (p_loads P, p_host P) = Inr (ld, s) \<Longrightarrow>
    proc_step mc (Running, P) (Running, P\<lparr>p_loads := ld, p_host := s\<rparr>)"
| Report: "stat_send (p_stats P, p_host P) = Inr (st, s) \<Longrightarrow>
    proc_step mc (Running, P) (AtStat, P\<lparr>p_stats := st, p_host := s\<rparr>)"
| Reported: "waitstat (p_stats P) = 0 \<Longrightarrow> proc_step mc (AtStat, P) (Running, P)"

end
