(* ===== verification/Framesync.thy ===== *)
theory Framesync
  imports Frame Userparts
begin

text \<open>
  The synchronisation servers and calls, seen by an observer of the locks or of the barrier. The
  interface \<open>wait_quiet\<close> extends \<open>quiet\<close> by what both ignore: waits, condition variables, loads and
  statistics. \<open>sync_quiet\<close> adds what the observer of locks ignores, the servers and the call of the
  barrier; \<open>bar_quiet\<close> adds what the observer of the barrier ignores, those of the locks. What is left
  is what each of them notices.
\<close>

lemma append_nodes_ensures:
  assumes "\<And>e m. J m \<Longrightarrow> ensures J (app e m)" "J m"
  shows "ensures (\<lambda>(m', w'). J m') (append_nodes room app m w)"
  using assms(2)
proof (induction w arbitrary: m)
  case (Cons node rest)
  have "ensures J (foldE app node m)"
    by (rule ensures_fold [where J = J]) (use Cons.prems assms(1) in auto)
  then show ?case
    unfolding append_nodes.simps
    by (intro ensures_if ensures_bindI) (use Cons in \<open>auto intro: ensures_mono\<close>)
qed simp

lemma appendbarrwtnts_op: "ensures (\<lambda>(m', w'). op m' = op m) (appendbarrwtnts m w)"
  unfolding appendbarrwtnts_def
  by (rule append_nodes_ensures [where J = "\<lambda>m'. op m' = op m"])
    (auto simp: append_notice_def intro!: append_ensures)

lemma appendstackwtnts_op: "ensures (\<lambda>(m', w'). op m' = op m) (appendstackwtnts m w)"
  unfolding appendstackwtnts_def
  by (rule append_nodes_ensures [where J = "\<lambda>m'. op m' = op m"])
    (auto simp: append_stack_notice_def intro!: append_ensures)

text \<open>The number of a lock at the head of a message stays when notices are appended and when it is sent.\<close>

definition names_lock :: "nat \<Rightarrow> jia_msg \<Rightarrow> bool" where
  "names_lock l m \<longleftrightarrow> msg_lock m = int l \<and> Intbytes \<le> size m"

lemma names_lock_headed: "names_lock l m \<longleftrightarrow> headed (frompid m) (topid m) (int l) m"
  by (simp add: names_lock_def headed_def)

lemma names_lock_simps [simp]:
  "names_lock l (m\<lparr>op := x\<rparr>) = names_lock l m" "names_lock l (m\<lparr>topid := h\<rparr>) = names_lock l m"
  "names_lock l (m\<lparr>frompid := h\<rparr>) = names_lock l m" "names_lock l (m\<lparr>temp := y\<rparr>) = names_lock l m"
  "names_lock l m \<Longrightarrow> names_lock l (m\<lparr>size := Intbytes\<rparr>)"
  by (simp_all add: names_lock_def msg_lock_def msg_int_def)

lemma names_lock_first: "l < 2 ^ 31 \<Longrightarrow> size m = 0 \<Longrightarrow> ensures (names_lock l) (appendmsg m (itob (word_of_nat l)))"
  by (rule ensures_mono [OF headed_first]) (auto simp: names_lock_def headed_def)

lemma appendbarrwtnts_names: "names_lock l m \<Longrightarrow> ensures (\<lambda>(m', w'). names_lock l m' \<and> op m' = op m) (appendbarrwtnts m w)"
  by (rule ensures_mono [OF append_lists_headed(2)]) (auto simp: names_lock_def headed_def)

lemma bcast_step_names:
  assumes "bcast_step p n m = Inr (m', ms)" "names_lock l m"
  shows "names_lock l m'" "\<forall>x\<in>set ms. names_lock l x"
  using assms by (auto simp: bcast_step_def Let_def split: if_splits)

lemma broadcast_names:
  assumes "broadcast k s = Inr t" "k < length (mbuf s)" "names_lock l (slot_msg (mbuf s ! k))"
  shows "names_lock l (slot_msg (mbuf t ! k)) \<and> (\<exists>ms. outq t = outq s @ ms \<and> (\<forall>x\<in>set ms. names_lock l x))"
proof (cases "B_CAST s = OFF")
  case True
  let ?f = "\<lambda>hosti s. let s = set_slot k ((slot_msg (mbuf s ! k))\<lparr>topid := hosti\<rparr>) s in move_msg_to_outqueue k s"
  have keep: "k < length (mbuf s) \<Longrightarrow> names_lock l (slot_msg (mbuf s ! k)) \<Longrightarrow> names_lock l (slot_msg (mbuf (fold ?f hs s) ! k)) \<and>
      (\<exists>ms. outq (fold ?f hs s) = outq s @ ms \<and> (\<forall>x\<in>set ms. names_lock l x))" for hs s
  proof (induction hs arbitrary: s)
    case (Cons h hs)
    let ?s = "?f h s"
    have "k < length (mbuf ?s)" "names_lock l (slot_msg (mbuf ?s ! k))"
      "outq ?s = outq s @ [(slot_msg (mbuf s ! k))\<lparr>topid := h\<rparr>]"
      using Cons.prems by (simp_all add: move_msg_to_outqueue_def set_slot_def Let_def)
    with Cons.IH [of ?s] Cons.prems(2) show ?case by fastforce
  qed simp
  have "t = fold ?f [0..<hostc s] s" using True assms(1) by (simp add: broadcast_def Let_def)
  then show ?thesis by (simp only: keep [OF assms(2,3)])
next
  case False
  let ?m = "slot_msg (mbuf s ! k)"
  let ?b = "?m\<lparr>op := op ?m + BCAST, temp := bcast_temp (jia_pid s) (if hostc s = 1 then 1 else bcast_level (hostc s) 0)\<rparr>"
  obtain m' ms where st: "bcast_step (jia_pid s) (hostc s) ?b = Inr (m', ms)" and t: "t = set_slot k m' (s\<lparr>outq := outq s @ ms\<rparr>)"
    using False assms(1) unfolding broadcast_def bsendmsg_def bcastserver_def by auto
  have "names_lock l ?b" using assms(3) by simp
  note n = bcast_step_names [OF st this]
  have "mbuf t ! k = (mbuf s ! k)\<lparr>slot_msg := m'\<rparr>" "outq t = outq s @ ms"
    using assms(2) by (simp_all add: t set_slot_def)
  then show ?thesis using n by simp
qed

locale wait_quiet = quiet +
  assumes wait_flags: "I s \<Longrightarrow> I (s\<lparr>waitwait := i\<rparr>)" "I s \<Longrightarrow> I (s\<lparr>waitcounter := i\<rparr>)"
    and wait_ops: "x \<notin> {ACQ, ACQGRANT, REL, BARR, BARRGRANT} \<Longrightarrow> op_num x \<in> ops"
begin

lemma other_quiet: "op_num JIAEXIT \<in> ops" "op_num WAIT \<in> ops"
  "op_num WAITGRANT \<in> ops" "op_num STAT \<in> ops" "op_num STATGRANT \<in> ops" "op_num SETCV \<in> ops"
  "op_num RESETCV \<in> ops" "op_num WAITCV \<in> ops" "op_num CVGRANT \<in> ops" "op_num MSGBODY \<in> ops"
  "op_num MSGTAIL \<in> ops" "op_num LOADREQ \<in> ops" "op_num LOADGRANT \<in> ops"
  by (rule wait_ops; simp)+

lemmas other_quiet_num [simp] = other_quiet [simplified]

section \<open>Waits and condition variables\<close>

text \<open>Messages with notices whose last one the observer may notice; \<open>H\<close> is what they keep of the first on.\<close>

lemma send_notices_last:
  assumes "I s" "\<And>m w. H m \<Longrightarrow> ensures (\<lambda>(m', w'). H m' \<and> op m' = op m) (app m w)"
    "\<And>k t. I t \<Longrightarrow> mine k t \<Longrightarrow> H (slot_msg (mbuf t ! k)) \<Longrightarrow> op (slot_msg (mbuf t ! k)) \<in> ops \<Longrightarrow>
       ensures (\<lambda>t'. I t' \<and> mine k t' \<and> H (slot_msg (mbuf t' ! k))) (send k t)"
    "op_num more_op \<in> ops" "\<And>m x. H m \<Longrightarrow> H (m\<lparr>op := x\<rparr>)" "\<And>m. H m \<Longrightarrow> H (m\<lparr>size := Intbytes\<rparr>)"
    "\<And>m. ensures H (appendmsg ((hdr m)\<lparr>size := 0\<rparr>) (itob (word_of_nat lock)))"
    "\<And>k t. I t \<and> mine k t \<Longrightarrow> H (slot_msg (mbuf t ! k)) \<Longrightarrow> is_op (slot_msg (mbuf t ! k)) last_op \<Longrightarrow>
       ensures (\<lambda>t. Q (freemsg_unlock k t)) (send k t)"
  shows "ensures Q (send_notices app send more_op last_op hdr lock w s)"
proof -
  let ?J = "\<lambda>k t. I t \<and> mine k t \<and> H (slot_msg (mbuf t ! k))"
  have app: "ensures (\<lambda>(m', w'). H m') (app m w)" if "H m" for m w by (rule ensures_mono [OF assms(2) [OF that]]) auto
  have rest: "ensures (?J k) (send_rest app send more_op k w t)" if "?J k t" for k w t
    by (rule send_rest_quiet [OF assms(2,3,4,5,6)]) (use that in auto)
  have last: "ensures (\<lambda>t. Q (freemsg_unlock k t)) (send k (set_slot k ((slot_msg (mbuf t ! k))\<lparr>op := op_num last_op\<rparr>) t))"
    if "?J k t" for k t
    by (rule assms(8)) (use that assms(5) in \<open>simp_all add: is_op_def\<close>)
  have body: "ensures Q (bindE (app m w) (\<lambda>(m, w). bindE (send_rest app send more_op k w (set_slot k m t)) (\<lambda>s.
      bindE (send k (set_slot k ((slot_msg (mbuf s ! k))\<lparr>op := op_num last_op\<rparr>) s)) (\<lambda>s. Inr (freemsg_unlock k s)))))"
    if "I t" "mine k t" "H m" for k t m
    by (rule ensures_bindI, rule ensures_mono [OF app [OF that(3)]], clarify, rule ensures_bindI, rule ensures_mono [OF rest])
      (use that in \<open>auto simp del: op_num.simps intro!: last\<close>)
  show ?thesis
    unfolding send_notices_def
    by (rule ensures_bindI, rule lock_quiet [OF assms(1)], simp only: prod.case)
      (rule ensures_bindI, rule ensures_mono [OF assms(7)], rule body, blast)
qed

lemma send_notices_quiet:
  assumes "I s" "\<And>m w. ensures (\<lambda>(m', w'). op m' = op m) (app m w)"
    "\<And>k t. I t \<Longrightarrow> mine k t \<Longrightarrow> op (slot_msg (mbuf t ! k)) \<in> ops \<Longrightarrow> ensures (\<lambda>t'. I t' \<and> mine k t') (send k t)"
    "op_num more_op \<in> ops" "op_num last_op \<in> ops" "\<And>t. I t \<Longrightarrow> Q t"
  shows "ensures Q (send_notices app send more_op last_op hdr lock w s)"
proof (rule send_notices_last [where H = "\<lambda>_. True"])
  fix k t assume t: "I t \<and> mine k t" "is_op (slot_msg (mbuf t ! k)) last_op"
  have "ensures (\<lambda>t'. I t' \<and> mine k t') (send k t)"
    by (rule assms(3)) (use t assms(5) in \<open>simp_all add: is_op_def\<close>)
  then show "ensures (\<lambda>t. Q (freemsg_unlock k t)) (send k t)" by (rule ensures_mono) (simp add: assms(6))
qed (use assms(1-4) in \<open>auto intro: ensures_any\<close>)

lemma with_broadcast_quiet:
  assumes "I s" "\<And>t k. I t \<Longrightarrow> mine k t \<Longrightarrow> ensures (\<lambda>m. op m \<in> ops) (f k t)" "\<And>t k. I t \<Longrightarrow> mine k t \<Longrightarrow> I (g t) \<and> mine k (g t)"
    "\<And>t. I t \<Longrightarrow> Q t"
  shows "ensures Q (bindE (freemsg_lock s) (\<lambda>(k, s). bindE (f k s) (\<lambda>m. bindE (broadcast k (set_slot k m (g s))) (\<lambda>s.
     Inr (freemsg_unlock k s)))))"
proof (rule ensures_bindI, rule lock_quiet [OF assms(1)], simp only: prod.case)
  fix k t assume t: "I t" "mine k t"
  have b: "ensures (\<lambda>t. I t \<and> mine k t) (broadcast k (set_slot k m (g t)))" if "op m \<in> ops" for m
    by (rule broadcast_quiet) (use t assms(3) that in simp_all)
  show "ensures Q (bindE (f k t) (\<lambda>m. bindE (broadcast k (set_slot k m (g t))) (\<lambda>s. Inr (freemsg_unlock k s))))"
    by (rule ensures_bindI, rule ensures_mono [OF assms(2) [OF t]], rule ensures_bindI, rule ensures_mono [OF b])
      (simp_all add: assms(4))
qed

lemma waitserver_quiet: "I s \<Longrightarrow> ensures I (waitserver m s)"
proof -
  assume s: "I s"
  let ?f = "\<lambda>k s. Inr ((slot_msg (mbuf s ! k))\<lparr>frompid := jia_pid s, size := 0, op := op_num WAITGRANT\<rparr>)"
  have "ensures I (bindE (freemsg_lock (s\<lparr>waitcounter := waitcounter s + 1\<rparr>)) (\<lambda>(k, s). bindE (?f k s) (\<lambda>m.
      bindE (broadcast k (set_slot k m (s\<lparr>waitcounter := 0\<rparr>))) (\<lambda>s. Inr (freemsg_unlock k s)))))"
    by (rule with_broadcast_quiet) (auto simp: s wait_flags mine_def)
  then show ?thesis by (auto simp: waitserver_def Let_def wait_flags s)
qed

lemma waitgrantserver_quiet: "I s \<Longrightarrow> ensures I (waitgrantserver m s)"
  by (auto simp: waitgrantserver_def wait_flags)

lemma grantcondv_quiet: "I s \<Longrightarrow> (\<And>t. I t \<Longrightarrow> Q t) \<Longrightarrow> ensures Q (grantcondv c p s)"
  by (auto simp: grantcondv_def intro!: with_slot_quiet append_ensures)

lemma grant_waiters_quiet: "I s \<Longrightarrow> (\<And>t. I t \<Longrightarrow> Q t) \<Longrightarrow> ensures Q (grant_waiters c s)"
  by (auto simp: grant_waiters_def intro!: ensures_fold [where J = I] grantcondv_quiet)

lemma cv_servers_quiet: "I s \<Longrightarrow> ensures I (setcvserver m s)" "I s \<Longrightarrow> ensures I (resetcvserver m s)"
  "I s \<Longrightarrow> ensures I (waitcvserver m s)" "I s \<Longrightarrow> ensures I (cvgrantserver m s)"
  by (auto simp: setcvserver_def resetcvserver_def waitcvserver_def cvgrantserver_def Let_def
      intro!: reads grant_waiters_quiet)

text \<open>Passing a message down the tree does not make it one the observer notices.\<close>

lemma other_msg_quiet:
  assumes "I s" "op m \<in> ops"
  shows "ensures I (other_msg m s)"
proof -
  have "I t" if t: "bcastserver m s = Inr (m', t)" "BCAST \<le> op m" for m' t
  proof -
    obtain ms where ms: "bcast_step (jia_pid s) (hostc s) m = Inr (m', ms)" "t = s\<lparr>outq := outq s @ ms\<rparr>"
      using t(1) by (auto simp: bcastserver_def)
    have "op m - BCAST \<in> ops" using quiet_bcast [of "op m - BCAST"] assms(2) t(2) by simp
    then have ops: "\<forall>x\<in>set ms. op x \<in> ops"
      using ms(1) assms(2) by (auto simp: bcast_step_def Let_def split: if_splits)
    have "I s \<Longrightarrow> \<forall>x\<in>set ms. op x \<in> ops \<Longrightarrow> I (s\<lparr>outq := outq s @ ms\<rparr>)" for ms s
    proof (induction ms arbitrary: s)
      case (Cons x xs)
      from Cons.IH [of "s\<lparr>outq := outq s @ [x]\<rparr>"] Cons.prems quiet_send [of s x] show ?case by simp
    qed simp
    then show ?thesis using ops assms(1) ms(2) by blast
  qed
  then show ?thesis by (auto simp: other_msg_def ensures_def)
qed

section \<open>Load balancing and statistics\<close>

lemma append_powers_op: "op m = x \<Longrightarrow> ensures (\<lambda>m. op m = x) (append_powers fa ld n m)"
  unfolding append_powers_def by (rule ensures_fold [where J = "\<lambda>m. op m = x"]) (auto intro!: append_ensures)

lemma loadserver_quiet: "I s \<Longrightarrow> ensures (\<lambda>t. I (snd t)) (loadserver fa m (ld, s))"
proof -
  assume s: "I s"
  have b: "ensures I (bindE (freemsg_lock s) (\<lambda>(k, s). bindE (append_powers fa ld' (hostc s) ((slot_msg (mbuf s ! k))\<lparr>
        frompid := jia_pid s, op := op_num LOADGRANT, size := 0\<rparr>)) (\<lambda>m.
      bindE (broadcast k (set_slot k m s)) (\<lambda>s. Inr (freemsg_unlock k s)))))" for ld'
    by (rule with_broadcast_quiet [OF s, where g = id, simplified id_apply])
      (auto intro!: ensures_mono [OF append_powers_op])
  show ?thesis
    using s b by (fastforce simp: loadserver_def Let_def ensures_def)
qed

lemma loadgrantserver_quiet: "I s \<Longrightarrow> ensures (\<lambda>t. I (snd t)) (loadgrantserver fa m (ld, s))"
  by (auto simp: loadgrantserver_def)

lemma send_to_quiet: "I s \<Longrightarrow> mine k s \<Longrightarrow> op (slot_msg (mbuf s ! k)) \<in> ops \<Longrightarrow> I (send_to k hs s) \<and> mine k (send_to k hs s)"
proof (induction hs arbitrary: s)
  case (Cons h hs)
  show ?case unfolding send_to_def fold.simps comp_apply
    by (rule Cons.IH [unfolded send_to_def]) (use Cons.prems in \<open>simp_all add: move_quiet\<close>)
qed (simp add: send_to_def)

lemma statserver_quiet: "I s \<Longrightarrow> ensures (\<lambda>t. I (snd t)) (statserver f m (st, s))"
  unfolding statserver_def
  by (auto simp: Let_def send_to_quiet intro!: lock_quiet)

lemma statgrantserver_quiet: "I s \<Longrightarrow> ensures (\<lambda>t. I (snd t)) (statgrantserver m (st, s))"
  by (auto simp: statgrantserver_def)

section \<open>The parts of the calls\<close>

lemma send_packets_quiet:
  assumes "\<And>t. I t \<Longrightarrow> mine k t \<Longrightarrow> op (slot_msg (mbuf t ! k)) \<in> ops \<Longrightarrow> ensures (\<lambda>t'. I t' \<and> mine k t') (send k t)"
  shows "I s \<Longrightarrow> mine k s \<Longrightarrow> ensures (\<lambda>t. I t \<and> mine k t) (send_packets send k bs s)"
proof (induction "length bs" arbitrary: bs s rule: less_induct)
  case less
  have p: "ensures (\<lambda>t. I t \<and> mine k t) (send_packet send x k cs s)" if "x \<in> {MSGBODY, MSGTAIL}" "I s" "mine k s" for x cs s
    using that by (auto simp: send_packet_def intro!: append_ensures assms)
  have d: "length (drop Maxmsgsize bs) < length bs" if "Maxmsgsize < length bs" using that by (simp add: Maxmsgsize_eq)
  show ?case
    unfolding send_packets.simps [of send k bs]
    by (intro ensures_if ensures_bindI ensures_mono [OF p])
      (use less d in \<open>auto intro!: less.hyps p\<close>)
qed

lemma jia_send_quiet: "I s \<Longrightarrow> ensures I (jia_send buf p tag s)"
  unfolding jia_send_def
  by (auto intro!: lock_quiet ensures_mono [OF send_packets_quiet] send_slot_quiet [of _ _ "\<lambda>_. True", simplified])

lemma bcast_send_quiet: "I s \<Longrightarrow> ensures I (bcast_send buf r s)"
proof -
  assume s: "I s"
  have b: "ensures (\<lambda>t'. I t' \<and> mine k t') (bsend_slot k t)" if "I t" "mine k t" "op (slot_msg (mbuf t ! k)) \<in> ops" for k t
    using ensures_mono [OF bsendmsg_quiet [OF that]] by (auto simp: bsend_slot_def)
  show "ensures I (bcast_send buf r s)"
    unfolding bcast_send_def using s
    by (auto intro!: lock_quiet ensures_mono [OF send_packets_quiet] b)
qed

lemma load_stat_send_quiet:
  "I s \<Longrightarrow> ensures (\<lambda>t. I (snd t)) (loadbalance_send fa (ld, s))"
  "I s \<Longrightarrow> ensures (\<lambda>t. I (snd t)) (stat_send (st, s))"
  by (auto simp: loadbalance_send_def stat_send_def intro!: with_slot_quiet append_ensures)

lemma jia_config_quiet: "I s \<Longrightarrow> ensures (\<lambda>t. I (snd t)) (jia_config fa junk d v (ld, s))"
proof -
  assume s: "I s"
  have n: "ensures I (new_wtvects junk s)"
    unfolding new_wtvects_def by (rule ensures_fold [where J = I]) (auto simp: s intro!: wtvect_quiet)
  have "I (fold (\<lambda>i. upd_home i f) xs s)" for f xs using s by (induction xs arbitrary: s) auto
  then have f: "I (free_wtvects s)" by (simp add: free_wtvects_def)
  show "ensures (\<lambda>t. I (snd t)) (jia_config fa junk d v (ld, s))"
    using s f by (auto simp: jia_config_def intro!: ensures_mono [OF n])
qed

lemma wait_send_quiet: "I s \<Longrightarrow> ensures I (wait_send s)"
  by (auto simp: wait_send_def wait_flags intro!: with_slot_quiet)

lemma cv_send_quiet: "x \<in> {SETCV, RESETCV, WAITCV} \<Longrightarrow> I s \<Longrightarrow> ensures I (cv_send x c s)"
  by (auto simp: cv_send_def intro!: with_slot_quiet append_ensures)

lemma alloc_block_quiet: "I s \<Longrightarrow> ensures I (alloc_block hp m s)"
proof -
  have e: "I s \<Longrightarrow> ensures I (enter_home hp i s)" "I s \<Longrightarrow> ensures I (enter_own hp i s)" for hp i s
    by (auto simp: enter_home_def enter_own_def Let_def)
  have o: "I s \<Longrightarrow> ensures I (alloc_own hp m s)" for hp s
    by (auto simp: alloc_own_def intro!: mem_quiet ensures_fold [where J = I] e)
  have a: "I s \<Longrightarrow> ensures I (alloc_advance hp m s)" for hp s by (simp add: alloc_advance_def)
  show "I s \<Longrightarrow> ensures I (alloc_block hp m s)"
    unfolding alloc_block_def
    by (auto intro!: ensures_mono [OF o] ensures_fold [where J = I] e a)
qed

lemma jia_alloc4_quiet: "I s \<Longrightarrow> ensures (\<lambda>(a, t). I t) (jia_alloc4 n bs k h s)"
proof -
  assume s: "I s"
  let ?P = "\<lambda>st. ensures (\<lambda>(_, _, _, s). I s) (st :: alloc_state)"
  have r: "?P (alloc4_round bs k st)" if p: "?P st" for st
  proof (cases st)
    case (Inr x)
    obtain a i hp t where x: "x = (a, i, hp, t)" by (cases x) auto
    have "I u" if "alloc_block hp m t = Inr u" for m u
      by (rule ensuresD [OF alloc_block_quiet that]) (use p Inr x in simp)
    then show ?thesis using p Inr x
      by (auto simp: alloc4_round_def ensures_def Let_def split: if_splits)
  qed (simp add: alloc4_round_def)
  have "ensures I (alloc_loop (alloc4_round bs k) n' h s)" for n'
  proof (cases "while_option alloc_more (alloc4_round bs k) (Inr (n', 0, h, s))")
    case (Some st)
    have "?P st" by (rule while_option_rule [where P = ?P, OF r Some]) (use s in simp_all)
    then show ?thesis using Some by (auto simp: alloc_loop_def ensures_def)
  qed (simp add: alloc_loop_def)
  note l = this
  have "I t" if "alloc_loop (alloc4_round bs k) n' h s = Inr t" for n' t by (rule ensuresD [OF l that])
  then show ?thesis by (auto simp: jia_alloc4_def ensures_def)
qed

lemma barrier_begin_quiet: "I s \<Longrightarrow> ensures I (barrier_begin s)"
  by (auto simp: barrier_begin_def intro!: endinterval_send_quiet)

end

section \<open>Observers of locks\<close>

locale sync_quiet = wait_quiet +
  assumes quiet_flag: "I s \<Longrightarrow> I (s\<lparr>barrwait := i\<rparr>)"
    and quiet_barr: "I s \<Longrightarrow> I (upd_lock hidelock f s)"
    and barr_ops: "op_num BARR \<in> ops" "op_num BARRGRANT \<in> ops"
begin

lemmas barr_ops_num [simp] = barr_ops [simplified]

lemma grantbarr_quiet: "I s \<Longrightarrow> (\<And>t. I t \<Longrightarrow> Q t) \<Longrightarrow> ensures Q (grantbarr l s)"
  unfolding grantbarr_def
  by (rule send_notices_quiet) (auto intro: appendbarrwtnts_op broadcast_quiet)

lemma barrserver_quiet: "I s \<Longrightarrow> ensures I (barrserver m s)"
  unfolding barrserver_def
  by (auto simp: Let_def intro!: recordwtnts_quiet grantbarr_quiet reads quiet_barr)

lemma barrgrantserver_quiet: "I s \<Longrightarrow> ensures I (barrgrantserver m s)"
  unfolding barrgrantserver_def
  by (auto intro!: clearlocks_quiet invalidate_quiet migarrangehome_quiet reads quiet_flag)

lemma sendwtnts_barr_quiet: "I s \<Longrightarrow> ensures I (sendwtnts BARR s)"
  unfolding sendwtnts_def
  by (rule ensures_bindI, rule ensures_any)
    (auto simp: Let_def intro!: send_notices_quiet appendstackwtnts_op send_slot_quiet [of _ _ "\<lambda>_. True", simplified])

lemma barrier_send_quiet: "I s \<Longrightarrow> ensures I (barrier_send s)"
proof -
  assume s: "I s"
  have last: "ensures (\<lambda>x. ensures (\<lambda>i. ensures (\<lambda>_. I x) (freewtntspace (swtntp (lockstack x i)))) (top_at x))
      (sendwtnts BARR (t\<lparr>barrwait := 1\<rparr>))" if "I t" for t
    by (rule ensures_mono [OF sendwtnts_barr_quiet [OF quiet_flag [OF that]]]) (simp add: ensures_any)
  show "ensures I (barrier_send s)"
    unfolding barrier_send_def using s
    by (auto intro!: migcheckcache_quiet last)
qed

end

section \<open>Observers of barriers\<close>

lemma appendlockwtnts_op: "ensures (\<lambda>(m', w'). op m' = op m) (appendlockwtnts s sc m w)"
  unfolding appendlockwtnts_def
  by (rule append_nodes_ensures [where J = "\<lambda>m'. op m' = op m"])
    (auto simp: append_lock_notice_def append_notice_def intro!: append_ensures reads)

locale bar_quiet = wait_quiet +
  assumes lock_flag: "I s \<Longrightarrow> I (s\<lparr>acqwait := i\<rparr>)"
    and quiet_stack: "I s \<Longrightarrow> I (s\<lparr>stackptr := p, lockstack := k\<rparr>)"
    and quiet_locks: "l < Maxlocks \<Longrightarrow> I s \<Longrightarrow> I (upd_lock l f s)"
    and lock_ops: "op_num ACQ \<in> ops" "op_num ACQGRANT \<in> ops" "op_num REL \<in> ops"
begin

lemmas lock_ops_num [simp] = lock_ops [simplified]

lemma grantlock_quiet: "I s \<Longrightarrow> (\<And>t. I t \<Longrightarrow> Q t) \<Longrightarrow> ensures Q (grantlock l p sc s)"
  unfolding grantlock_def
  by (rule send_notices_quiet) (auto intro: appendlockwtnts_op send_slot_quiet [of _ _ "\<lambda>_. True", simplified])

lemma grant_first_acq_quiet: "I s \<Longrightarrow> ensures I (grant_first_acq l s)"
  by (simp add: grant_first_acq_def grantlock_quiet)

lemma lock_at_below: "lock_at s (int l) = Inr k \<Longrightarrow> k = l"
  by (auto simp: lock_at_def split: if_splits)

lemma lock_servers_quiet:
  assumes "I s" "msg_lock m = int l" "l < Maxlocks"
  shows "ensures I (acqserver m s)" "ensures I (relserver m s)"
proof -
  have at: "lock_at s (int l) = Inr l" using assms(3) by (simp add: lock_at_def)
  have g: "ensures I (if c t then grant_first_acq l t else Inr t)" if "I t" for c t
    using that by (simp add: grant_first_acq_quiet)
  show "ensures I (acqserver m s)"
    unfolding acqserver_def assms(2) at
    by (auto simp: Let_def intro!: grant_first_acq_quiet quiet_locks assms)
  show "ensures I (relserver m s)"
    unfolding relserver_def assms(2) at
    by (auto simp: Let_def assms(1) intro!: recordwtnts_quiet grant_first_acq_quiet quiet_locks assms(3))
qed

lemma acqgrantserver_quiet: "I s \<Longrightarrow> ensures I (acqgrantserver m s)"
  unfolding acqgrantserver_def by (auto intro!: invalidate_quiet reads lock_flag)

lemma lock_parts_quiet:
  assumes "I s"
  shows "ensures I (lock_begin l s)" "ensures I (lock_ask l s)" "ensures I (lock_enter l s)" "ensures I (unlock_begin l s)"
proof -
  have p: "ensures I (pushstack l t)" if "I t" for t
    using quiet_stack [OF that] by (auto simp: pushstack_def Let_def intro!: ensures_any)
  show "ensures I (lock_begin l s)" "ensures I (unlock_begin l s)"
    by (auto simp: lock_begin_def unlock_begin_def intro!: endinterval_send_quiet reads assms)
  show "ensures I (lock_ask l s)"
    unfolding lock_ask_def acquire_def by (rule with_slot_quiet) (auto intro!: append_ensures lock_flag assms)
  show "ensures I (lock_enter l s)"
    unfolding lock_enter_def by (rule ensures_bindI, rule ensures_mono [OF startinterval_quiet [OF assms]]) (rule p)
qed

lemma sendwtnts_quiet: "op_num x \<in> ops \<Longrightarrow> I s \<Longrightarrow> ensures I (sendwtnts x s)"
  unfolding sendwtnts_def
  by (rule ensures_bindI, rule ensures_any)
    (auto simp: Let_def intro!: send_notices_quiet appendstackwtnts_op send_slot_quiet [of _ _ "\<lambda>_. True", simplified])

lemma popstack_quiet: "I s \<Longrightarrow> ensures I (popstack s)"
proof -
  assume s: "I s"
  have "I (s\<lparr>stackptr := stackptr s - 1\<rparr>)" using quiet_stack [OF s, where p = "stackptr s - 1" and k = "lockstack s"] by simp
  then show "ensures I (popstack s)"
    by (auto simp: popstack_def Let_def intro!: reads merge_notices_quiet)
qed

lemma unlock_end_quiet: "I s \<Longrightarrow> ensures I (unlock_end s)"
  unfolding unlock_end_def
  by (intro ensures_bindI ensures_mono [OF sendwtnts_quiet] ensures_mono [OF startinterval_quiet] popstack_quiet) simp_all

end

end
