(* ===== verification/Lockproto.thy ===== *)
theory Lockproto
  imports Prelude
begin

text \<open>
  What the locks promise, without messages, buffers and memory: the protocol between the hosts and
  the manager of one lock. A host is out, has asked and waits, has been granted the lock, or is in.
  Requests and releases travel to the manager in order, grants travel back.
\<close>

section \<open>The protocol\<close>

datatype lock_client = Out | Waits | Granted | Holds
datatype lock_request = Asks | Releases

record lock_state =
  queue_of :: "nat list"
  asked :: "nat \<Rightarrow> lock_request list"
  granting :: "nat \<Rightarrow> nat"
  client :: "nat \<Rightarrow> lock_client"

text \<open>The manager sends a grant to the first of the queue.\<close>

definition grant_head :: "lock_state \<Rightarrow> lock_state" where
  "grant_head a = (case queue_of a of [] \<Rightarrow> a
     | p # ps \<Rightarrow> a\<lparr>granting := (granting a)(p := granting a p + 1)\<rparr>)"

definition ask :: "nat \<Rightarrow> lock_state \<Rightarrow> lock_state" where
  "ask p a = a\<lparr>client := (client a)(p := Waits), asked := (asked a)(p := asked a p @ [Asks])\<rparr>"

definition release :: "nat \<Rightarrow> lock_state \<Rightarrow> lock_state" where
  "release p a = a\<lparr>client := (client a)(p := Out), asked := (asked a)(p := asked a p @ [Releases])\<rparr>"

text \<open>The manager takes the next message of \<open>p\<close>.\<close>

definition take_ask :: "nat \<Rightarrow> lock_state \<Rightarrow> lock_state" where
  "take_ask p a = (let b = a\<lparr>asked := (asked a)(p := tl (asked a p)), queue_of := queue_of a @ [p]\<rparr>
     in if queue_of a = [] then grant_head b else b)"

definition take_release :: "nat \<Rightarrow> lock_state \<Rightarrow> lock_state" where
  "take_release p a = grant_head (a\<lparr>asked := (asked a)(p := tl (asked a p)), queue_of := tl (queue_of a)\<rparr>)"

inductive lock_step :: "lock_state \<Rightarrow> lock_state \<Rightarrow> bool" where
  Ask: "client a p = Out \<Longrightarrow> lock_step a (ask p a)"
| TakeAsk: "asked a p = Asks # rs \<Longrightarrow> lock_step a (take_ask p a)"
| TakeRelease: "asked a p = Releases # rs \<Longrightarrow> queue_of a = p # ps \<Longrightarrow> lock_step a (take_release p a)"
| Grant: "0 < granting a p \<Longrightarrow>
    lock_step a (a\<lparr>granting := (granting a)(p := granting a p - 1), client := (client a)(p := Granted)\<rparr>)"
| Enter: "client a p = Granted \<Longrightarrow> lock_step a (a\<lparr>client := (client a)(p := Holds)\<rparr>)"
| Release: "client a p = Holds \<Longrightarrow> lock_step a (release p a)"

inductive_cases lock_stepE: "lock_step a b"

definition lock_free :: "lock_state" where
  "lock_free = \<lparr>queue_of = [], asked = (\<lambda>_. []), granting = (\<lambda>_. 0), client = (\<lambda>_. Out)\<rparr>"

section \<open>Mutual exclusion\<close>

text \<open>
  Where the request, the place in the queue, the grant and the release of a host are.
\<close>

definition at_head :: "nat \<Rightarrow> nat list \<Rightarrow> bool" where
  "at_head p q \<longleftrightarrow> (\<exists>ps. q = p # ps)"

fun place_ok :: "lock_client \<Rightarrow> lock_request list \<Rightarrow> nat \<Rightarrow> nat list \<Rightarrow> nat \<Rightarrow> bool" where
  "place_ok Out rs g q p \<longleftrightarrow> g = 0 \<and> (rs = [] \<and> p \<notin> set q \<or> rs = [Releases] \<and> at_head p q)"
| "place_ok Waits rs g q p \<longleftrightarrow> rs = [Asks] \<and> p \<notin> set q \<and> g = 0 \<or> rs = [Releases, Asks] \<and> at_head p q \<and> g = 0 \<or>
     rs = [] \<and> p \<in> set q \<and> g = (if at_head p q then 1 else 0)"
| "place_ok Granted rs g q p \<longleftrightarrow> rs = [] \<and> at_head p q \<and> g = 0"
| "place_ok Holds rs g q p \<longleftrightarrow> rs = [] \<and> at_head p q \<and> g = 0"

definition lock_ok :: "lock_state \<Rightarrow> bool" where
  "lock_ok a \<longleftrightarrow> distinct (queue_of a) \<and> (\<forall>p. place_ok (client a p) (asked a p) (granting a p) (queue_of a) p)"

lemma lock_okD: "lock_ok a \<Longrightarrow> place_ok (client a p) (asked a p) (granting a p) (queue_of a) p"
  by (simp add: lock_ok_def)

lemma at_head_simps [simp]: "\<not> at_head p []" "at_head p (q # qs) \<longleftrightarrow> p = q"
  "at_head p (qs @ [r]) \<longleftrightarrow> (if qs = [] then p = r else at_head p qs)"
  by (auto simp: at_head_def Cons_eq_append_conv append_eq_Cons_conv neq_Nil_conv)

lemma at_head_in: "at_head p q \<Longrightarrow> p \<in> set q"
  by (auto simp: at_head_def)

lemma lock_free_ok: "lock_ok lock_free"
  by (simp add: lock_ok_def lock_free_def)

text \<open>What the first message of a host says of its place.\<close>

lemma place_asks: "place_ok c (Asks # rs) g q p \<Longrightarrow> c = Waits \<and> rs = [] \<and> g = 0 \<and> p \<notin> set q"
  by (cases c) auto

lemma place_releases: "place_ok c (Releases # rs) g q p \<Longrightarrow>
    g = 0 \<and> (c = Out \<and> rs = [] \<or> c = Waits \<and> rs = [Asks]) \<and> at_head p q"
  by (cases c) auto

lemma place_granting: "place_ok c rs g q p \<Longrightarrow> 0 < g \<Longrightarrow> c = Waits \<and> rs = [] \<and> g = 1 \<and> at_head p q"
  by (cases c) (auto split: if_splits)

text \<open>A host elsewhere in the queue, when another joins it or its head leaves.\<close>

lemma place_join: "place_ok c rs g q r \<Longrightarrow> r \<noteq> p \<Longrightarrow> place_ok c rs g (q @ [p]) r"
  by (cases c; cases "q = []"; auto)

lemma place_leave: "place_ok c rs g (p # ps) r \<Longrightarrow> r \<noteq> p \<Longrightarrow> distinct (p # ps) \<Longrightarrow>
    place_ok c rs (if at_head r ps then g + 1 else g) ps r"
  by (cases c) (auto dest: at_head_in)

lemma granting_head: "granting (grant_head a) r = (if at_head r (queue_of a) then granting a r + 1 else granting a r)"
  by (auto simp: grant_head_def split: list.split)

lemma grant_head_rest [simp]: "queue_of (grant_head a) = queue_of a" "asked (grant_head a) = asked a"
  "client (grant_head a) = client a"
  by (auto simp: grant_head_def split: list.split)

lemma lock_ok_step: "lock_step a b \<Longrightarrow> lock_ok a \<Longrightarrow> lock_ok b"
proof (induction rule: lock_step.induct)
  case (Ask a p)
  then have "place_ok Out (asked a p) (granting a p) (queue_of a) p" by (auto simp: lock_ok_def dest: spec [of _ p])
  then show ?case using Ask by (auto simp: lock_ok_def ask_def)
next
  case (TakeAsk a p rs)
  have ok: "distinct (queue_of a)" "\<And>r. place_ok (client a r) (asked a r) (granting a r) (queue_of a) r"
    using TakeAsk by (auto simp: lock_ok_def)
  have p: "client a p = Waits" "rs = []" "granting a p = 0" "p \<notin> set (queue_of a)"
    using place_asks [of "client a p" rs] ok(2) [of p] TakeAsk(1) by auto
  have "place_ok (client (take_ask p a) r) (asked (take_ask p a) r) (granting (take_ask p a) r) (queue_of (take_ask p a)) r" for r
    using ok(2) [of r] p TakeAsk(1) place_join [of "client a r" "asked a r" "granting a r" "queue_of a" r p]
    by (cases "r = p"; cases "queue_of a = []") (auto simp: take_ask_def Let_def granting_head dest: at_head_in)
  then show ?case using ok(1) p(4) by (simp add: lock_ok_def) (simp add: take_ask_def Let_def)
next
  case (TakeRelease a p rs ps)
  have ok: "distinct (p # ps)" "\<And>r. place_ok (client a r) (asked a r) (granting a r) (p # ps) r"
    using TakeRelease by (auto simp: lock_ok_def)
  have p: "granting a p = 0" "client a p = Out \<and> rs = [] \<or> client a p = Waits \<and> rs = [Asks]"
    using place_releases [of "client a p" rs] ok(2) [of p] TakeRelease(1) by auto
  have "place_ok (client (take_release p a) r) (asked (take_release p a) r) (granting (take_release p a) r) ps r" for r
    using p TakeRelease(1,2) place_leave [OF ok(2) _ ok(1), of r] ok(1)
    by (cases "r = p") (auto simp: take_release_def granting_head dest: at_head_in)
  then show ?case using ok(1) TakeRelease(2) by (simp add: lock_ok_def) (simp add: take_release_def)
next
  case (Grant a p)
  then have "client a p = Waits \<and> asked a p = [] \<and> granting a p = 1 \<and> at_head p (queue_of a)"
    using place_granting [OF lock_okD] by blast
  then show ?case using Grant by (auto simp: lock_ok_def)
next
  case (Enter a p)
  then have "place_ok Granted (asked a p) (granting a p) (queue_of a) p" by (auto simp: lock_ok_def dest: spec [of _ p])
  then show ?case using Enter by (auto simp: lock_ok_def)
next
  case (Release a p)
  then have "place_ok Holds (asked a p) (granting a p) (queue_of a) p" by (auto simp: lock_ok_def dest: spec [of _ p])
  then show ?case using Release by (auto simp: lock_ok_def release_def)
qed

text \<open>A message whose turn it is can be taken: a release comes from the head of the queue.\<close>

lemma lock_ok_releases: "lock_ok a \<Longrightarrow> asked a p = Releases # rs \<Longrightarrow> \<exists>ps. queue_of a = p # ps"
  using place_releases [of "client a p" rs "granting a p" "queue_of a" p] lock_okD [of a p]
  by (auto simp: at_head_def)

lemma lock_ok_grant: "lock_ok a \<Longrightarrow> 0 < granting a p \<Longrightarrow> client a p = Waits"
  using place_granting [OF lock_okD] by blast

lemma lock_ok_excludes:
  assumes "lock_ok a" "client a p \<in> {Granted, Holds}" "client a q \<in> {Granted, Holds}"
  shows "p = q"
proof -
  have "at_head r (queue_of a)" if "client a r \<in> {Granted, Holds}" for r
  proof -
    have "place_ok (client a r) (asked a r) (granting a r) (queue_of a) r" using assms(1) by (simp add: lock_ok_def)
    then show ?thesis using that by auto
  qed
  from this [OF assms(2)] this [OF assms(3)] show ?thesis by (auto simp: at_head_def)
qed

end
