(* ===== verification/Lockmsgs.thy ===== *)
theory Lockmsgs
  imports Framesync Lockproto
begin

text \<open>
  Which operations touch the locks, and how: every handler and every part of a call of the program
  is either silent, that is, it changes neither queues of locks nor the stack of held locks and
  sends no message of a lock, or its effect is one step of the protocol.
\<close>

section \<open>Messages of locks\<close>

definition lock_op :: "jia_msg \<Rightarrow> bool" where
  "lock_op m \<longleftrightarrow> op m mod BCAST \<in> {op_num ACQ, op_num ACQGRANT, op_num REL}"

definition sends :: "host \<Rightarrow> jia_msg list \<Rightarrow> host \<Rightarrow> bool" where
  "sends s gs t \<longleftrightarrow> (\<exists>ms. outq t = outq s @ ms \<and> filter lock_op ms = gs)"

definition same_stack :: "host \<Rightarrow> host \<Rightarrow> bool" where
  "same_stack s t \<longleftrightarrow> stackptr t = stackptr s \<and> (\<forall>i. lockid (lockstack t i) = lockid (lockstack s i))"

definition same_queues :: "nat set \<Rightarrow> host \<Rightarrow> host \<Rightarrow> bool" where
  "same_queues L s t \<longleftrightarrow> (\<forall>l<Maxlocks. l \<notin> L \<longrightarrow> acqs (locks t l) = acqs (locks s l) \<and> acqc (locks t l) = acqc (locks s l))"

text \<open>The entries of the queue of a lock are numbers of hosts.\<close>

definition queue_ok :: "nat \<Rightarrow> host \<Rightarrow> bool" where
  "queue_ok l s \<longleftrightarrow> 0 \<le> acqc (locks s l) \<and> (\<forall>i<nat (acqc (locks s l)). 0 \<le> acqs (locks s l) i)"

lemma same_queues_at:
  assumes "same_queues L s t" "l < Maxlocks" "l \<notin> L"
  shows "lock_queue l t = lock_queue l s" "queue_ok l t = queue_ok l s"
  using assms by (simp_all add: same_queues_def lock_queue_def queue_ok_def)

text \<open>An operation that sends the messages \<open>gs\<close> of locks.\<close>

definition acts :: "host \<Rightarrow> jia_msg list \<Rightarrow> host \<Rightarrow> bool" where
  "acts s gs t \<longleftrightarrow> jia_pid t = jia_pid s \<and> hostc t = hostc s \<and> sends s gs t \<and> diff_slots t"

definition silent :: "host \<Rightarrow> host \<Rightarrow> bool" where
  "silent s t \<longleftrightarrow> acts s [] t \<and> same_stack s t \<and> acqwait t = acqwait s \<and>
     (\<forall>l<Maxlocks. acqs (locks t l) = acqs (locks s l) \<and> acqc (locks t l) = acqc (locks s l))"

lemma silent_queues: "silent s t \<Longrightarrow> same_queues {} s t"
  by (simp add: silent_def same_queues_def)

lemma silent_refl: "diff_slots s \<Longrightarrow> silent s s"
  by (auto simp: silent_def acts_def sends_def same_stack_def)

lemma sends_trans: "sends s gs t \<Longrightarrow> sends t hs u \<Longrightarrow> sends s (gs @ hs) u"
  by (auto simp: sends_def)

interpretation lv: sync_quiet "silent s" "{n. n mod BCAST \<notin> {op_num ACQ, op_num ACQGRANT, op_num REL}}" for s
proof
  fix t u m
  show "silent s u" if "silent s t" "same_sync t u" "outq u = outq t" "diff_slots u"
    using that by (auto simp: silent_def acts_def sends_def same_stack_def same_sync_def)
  show "diff_slots t" if "silent s t" using that by (simp add: silent_def acts_def)
  show "silent s (t\<lparr>outq := outq t @ [m]\<rparr>)" if "silent s t"
    "op m \<in> {n. n mod BCAST \<notin> {op_num ACQ, op_num ACQGRANT, op_num REL}}"
  proof -
    have "\<not> lock_op m" using that(2) by (simp add: lock_op_def)
    moreover have "diff_slots (t\<lparr>outq := outq t @ [m]\<rparr>)" using that(1) by (simp add: silent_def acts_def diff_slots_def)
    ultimately show ?thesis using that(1) by (auto simp: silent_def acts_def sends_def same_stack_def)
  qed
  show "op_num x \<in> {n. n mod BCAST \<notin> {op_num ACQ, op_num ACQGRANT, op_num REL}}"
    if "x \<in> {DIFF, DIFFGRANT, GETP, GETPGRANT, INVLD, WTNT}" for x using that by (auto simp: BCAST_def)
  show "(n \<in> {n. n mod BCAST \<notin> {op_num ACQ, op_num ACQGRANT, op_num REL}}) =
      (n + BCAST \<in> {n. n mod BCAST \<notin> {op_num ACQ, op_num ACQGRANT, op_num REL}})" for n
    by simp
  show "silent s (t\<lparr>barrwait := i\<rparr>)" "silent s (t\<lparr>waitwait := i\<rparr>)" "silent s (t\<lparr>waitcounter := i\<rparr>)" if "silent s t" for i
    using that by (simp_all add: silent_def acts_def sends_def same_stack_def diff_slots_def)
  show "silent s (upd_lock hidelock f t)" if "silent s t" for f
    using that by (simp add: silent_def acts_def sends_def same_stack_def diff_slots_def upd_lock_def hidelock_def)
  show "op_num x \<in> {n. n mod BCAST \<notin> {op_num ACQ, op_num ACQGRANT, op_num REL}}" if "x \<notin> {ACQ, ACQGRANT, REL, BARR, BARRGRANT}" for x
    using that by (cases x) (simp_all add: BCAST_def)
  show "op_num BARR \<in> {n. n mod BCAST \<notin> {op_num ACQ, op_num ACQGRANT, op_num REL}}"
    "op_num BARRGRANT \<in> {n. n mod BCAST \<notin> {op_num ACQ, op_num ACQGRANT, op_num REL}}" by (simp_all add: BCAST_def)
qed

text \<open>An operation whose last message is one of a lock.\<close>

lemma silent_emits:
  assumes "silent s u" "emits g u t" "lock_op g"
  shows "acts s [g] t" "same_stack s t" "acqwait t = acqwait s"
    "l < Maxlocks \<Longrightarrow> acqs (locks t l) = acqs (locks s l) \<and> acqc (locks t l) = acqc (locks s l)"
  using assms by (auto simp: silent_def emits_def acts_def sends_def same_stack_def same_sync_def)

lemma lock_op_is: "is_op m ACQ \<Longrightarrow> lock_op m" "is_op m ACQGRANT \<Longrightarrow> lock_op m" "is_op m REL \<Longrightarrow> lock_op m"
  by (simp_all add: lock_op_def is_op_def BCAST_def)

section \<open>The handlers\<close>

lemma silent_handlers:
  assumes "diff_slots s" "\<not> lock_op m"
  shows "h \<in> {diffserver, diffgrantserver, getpserver, getpgrantserver rnds, invserver, wtntserver, barrserver,
      barrgrantserver, waitserver, waitgrantserver, setcvserver, resetcvserver, waitcvserver, cvgrantserver, other_msg} \<Longrightarrow>
    ensures (silent s) (h m s)"
proof -
  note i = silent_refl [OF assms(1)]
  have o: "op m \<in> {n. n mod BCAST \<notin> {op_num ACQ, op_num ACQGRANT, op_num REL}}"
    using assms(2) by (simp add: lock_op_def)
  show "h \<in> {diffserver, diffgrantserver, getpserver, getpgrantserver rnds, invserver, wtntserver, barrserver,
      barrgrantserver, waitserver, waitgrantserver, setcvserver, resetcvserver, waitcvserver, cvgrantserver, other_msg} \<Longrightarrow>
    ensures (silent s) (h m s)"
    using lv.diffserver_quiet [OF i] lv.diffgrantserver_quiet [OF i] lv.getpserver_quiet [OF i]
      lv.getpgrantserver_quiet [OF i] lv.invserver_quiet [OF i] lv.wtntserver_quiet [OF i] lv.barrserver_quiet [OF i]
      lv.barrgrantserver_quiet [OF i] lv.waitserver_quiet [OF i] lv.waitgrantserver_quiet [OF i]
      lv.cv_servers_quiet [OF i] lv.other_msg_quiet [OF i o]
    by (elim insertE emptyE) simp_all
qed

lemma on_host_silent: "ensures (silent (p_host p)) (h (p_host p)) \<Longrightarrow> ensures (\<lambda>q. silent (p_host p) (p_host q)) (on_host h p)"
  by (auto simp: on_host_def ensures_def)

lemma msg_handle_silent:
  assumes "diff_slots (p_host p)" "\<not> lock_op m"
  shows "ensures (\<lambda>q. silent (p_host p) (p_host q)) (msg_handle mc rnds m p)"
proof -
  have n: "op_of_num (op m) \<noteq> Some ACQ" "op_of_num (op m) \<noteq> Some ACQGRANT" "op_of_num (op m) \<noteq> Some REL"
    using assms(2) by (auto simp: lock_op_def op_of_num_def op_table_def BCAST_def nth_Cons split: if_splits nat.splits)
  note i = silent_refl [OF assms(1)]
  note h = on_host_silent [OF silent_handlers [OF assms, where rnds = rnds]]
  have l: "ensures (\<lambda>q. silent (p_host p) (p_host q)) (on_loads k p)"
    if "ensures (\<lambda>t. silent (p_host p) (snd t)) (k (p_loads p, p_host p))" for k
    using that by (auto simp: on_loads_def ensures_def)
  have s: "ensures (\<lambda>q. silent (p_host p) (p_host q)) (on_stats k p)"
    if "ensures (\<lambda>t. silent (p_host p) (snd t)) (k (p_stats p, p_host p))" for k
    using that by (auto simp: on_stats_def ensures_def)
  have k: "ensures (\<lambda>q. silent (p_host p) (p_host q)) (on_packets k p)" for k
    by (auto simp: on_packets_def ensures_def i)
  have j: "ensures (\<lambda>q. silent (p_host p) (p_host q)) (on_host (jiaexitserver m) p)"
    by (simp add: on_host_def jiaexitserver_def)
  show ?thesis
  proof (cases "op_of_num (op m)")
    case None
    then show ?thesis by (simp add: msg_handle_def) (rule h, simp)
  next
    case (Some x)
    then show ?thesis using n
      by (cases x) (simp_all add: msg_handle_def j k l s lv.loadserver_quiet [OF i] lv.loadgrantserver_quiet [OF i]
        lv.statserver_quiet [OF i] lv.statgrantserver_quiet [OF i], (rule h, simp)+)
  qed
qed


text \<open>The three servers of locks.\<close>

definition grant_msg :: "nat \<Rightarrow> nat \<Rightarrow> jia_msg \<Rightarrow> bool" where
  "grant_msg l p m \<longleftrightarrow> is_op m ACQGRANT \<and> msg_lock m = int l \<and> topid m = p"

definition request_msg :: "msg_op \<Rightarrow> nat \<Rightarrow> nat \<Rightarrow> nat \<Rightarrow> jia_msg \<Rightarrow> bool" where
  "request_msg x l p k m \<longleftrightarrow> is_op m x \<and> msg_lock m = int l \<and> frompid m = p \<and> topid m = k"

lemma grantlock_acts:
  assumes "diff_slots s" "l < 2 ^ 31"
  shows "ensures (\<lambda>t. \<exists>g. grant_msg l p g \<and> acts s [g] t \<and> same_stack s t \<and> acqwait t = acqwait s \<and> same_queues {} s t)
    (grantlock l p sc s)"
  unfolding grantlock_def
proof (rule lv.send_notices_emits [where f = "jia_pid s" and d = p, OF silent_refl [OF assms(1)]])
  show "ensures (\<lambda>(m', w'). headed (jia_pid s) p (int l) m' \<and> op m' = op m) (appendlockwtnts s sc m w)"
    if "headed (jia_pid s) p (int l) m" for m w by (rule append_lists_headed(1) [OF that])
  fix u g t assume g: "silent s u" "headed (jia_pid s) p (int l) g" "is_op g ACQGRANT" "emits g u t"
  note e = silent_emits [OF g(1,4) lock_op_is(2) [OF g(3)]]
  show "\<exists>g. grant_msg l p g \<and> acts s [g] t \<and> same_stack s t \<and> acqwait t = acqwait s \<and> same_queues {} s t"
    using e g by (intro exI [of _ g]) (auto simp: grant_msg_def headed_def same_queues_def)
qed (use assms(2) lv.quiet_ops in \<open>auto simp: BCAST_def\<close>)

lemma acqserver_acts:
  assumes "diff_slots s" "acqserver m s = Inr t" "msg_lock m = int l" "l < Maxlocks"
  shows "\<exists>gs. acts s gs t \<and> same_stack s t \<and> acqwait t = acqwait s \<and> same_queues {l} s t \<and> (queue_ok l s \<longrightarrow> queue_ok l t) \<and>
    lock_queue l t = lock_queue l s @ [frompid m] \<and> l mod hostc s = jia_pid s \<and>
    (if lock_queue l s = [] then \<exists>g. gs = [g] \<and> grant_msg l (frompid m) g else gs = [])"
proof -
  let ?n = "nat (acqc (locks s l))"
  let ?s = "upd_lock l (\<lambda>k. k\<lparr>acqs := (acqs k)(?n := int (frompid m)),
     acqscope := (acqscope k)(?n := scope m), acqc := acqc k + 1\<rparr>) s"
  have la: "lock_at s (int l) = Inr l" using assms(4) by (simp add: lock_at_def)
  have r: "home_of s (int l)" "0 \<le> acqc (locks s l)"
    "(if acqc (locks ?s l) = 1 then grant_first_acq l ?s else Inr ?s) = Inr t"
    using assms(2) la unfolding acqserver_def assms(3) by (auto simp: Let_def)
  have home: "l mod hostc s = jia_pid s" using r(1) by (simp add: home_of_def)
  have d: "diff_slots ?s" using assms(1) by (simp add: diff_slots_def upd_lock_def)
  have q: "lock_queue l ?s = lock_queue l s @ [frompid m]"
    using r(2) by (simp add: lock_queue_def upd_lock_def nat_add_distrib)
  have qs: "same_queues {l} s ?s" by (simp add: same_queues_def upd_lock_def)
  have ok: "queue_ok l s \<Longrightarrow> queue_ok l ?s" by (auto simp: queue_ok_def upd_lock_def less_Suc_eq nat_add_distrib)
  have one: "acqc (locks ?s l) = 1 \<longleftrightarrow> lock_queue l s = []"
    using r(2) lock_queue_length [of l s] by (auto simp: upd_lock_def)
  have same: "outq ?s = outq s" "jia_pid ?s = jia_pid s" "hostc ?s = hostc s" "same_stack s ?s" "acqwait ?s = acqwait s"
    by (simp_all add: upd_lock_def same_stack_def)
  show ?thesis
  proof (cases "lock_queue l s = []")
    case False
    then have "t = ?s" using r(3) one by simp
    then show ?thesis using False home q qs ok same d by (auto simp: acts_def sends_def)
  next
    case True
    then have "acqs (locks ?s l) 0 = int (frompid m)"
      using r(2) by (cases "acqc (locks s l) = 0") (auto simp: lock_queue_def upd_lock_def)
    then have "grantlock l (frompid m) (acqscope (locks ?s l) 0) ?s = Inr t"
      using r(3) one True by (simp add: grant_first_acq_def)
    moreover have "l < 2 ^ 31" using assms(4) by (simp add: Maxlocks_def)
    ultimately obtain g where g: "grant_msg l (frompid m) g" "acts ?s [g] t" "same_stack ?s t" "acqwait t = acqwait ?s"
      "same_queues {} ?s t"
      using ensuresD [OF grantlock_acts [OF d]] by blast
    have "same_queues {l} s t" "lock_queue l t = lock_queue l s @ [frompid m]" "queue_ok l s \<longrightarrow> queue_ok l t"
      using same_queues_at [OF g(5) assms(4)] g(5) qs q ok by (simp_all add: same_queues_def)
    moreover have "acts s [g] t" "same_stack s t" "acqwait t = acqwait s"
      using g(2-4) same by (simp_all add: acts_def sends_def same_stack_def)
    ultimately show ?thesis using True home g(1) by auto
  qed
qed

lemma relserver_acts:
  assumes "diff_slots s" "relserver m s = Inr t" "msg_lock m = int l" "l < Maxlocks" "lock_queue l s = q # qs"
  shows "\<exists>gs. acts s gs t \<and> same_stack s t \<and> acqwait t = acqwait s \<and> same_queues {l} s t \<and> (queue_ok l s \<longrightarrow> queue_ok l t) \<and>
    lock_queue l t = qs \<and> l mod hostc s = jia_pid s \<and> q = frompid m \<and>
    (case qs of [] \<Rightarrow> gs = [] | p # ps \<Rightarrow> \<exists>g. gs = [g] \<and> grant_msg l p g)"
proof -
  let ?s0 = "if scope m > myscope (locks s hidelock) then s\<lparr>noclearlocks := 1\<rparr> else s"
  let ?shift = "\<lambda>k. k\<lparr>lscope := lscope k + 1,
     acqs := (\<lambda>i. if int i < acqc k - 1 then acqs k (i + 1) else acqs k i),
     acqscope := (\<lambda>i. if int i < acqc k - 1 then acqscope k (i + 1) else acqscope k i),
     acqc := acqc k - 1\<rparr>"
  have la: "lock_at s (int l) = Inr l" using assms(4) by (simp add: lock_at_def)
  obtain u where r: "home_of s (int l)" "int (frompid m) = acqs (locks s l) 0" "recordwtnts m ?s0 = Inr u"
    "(if 0 < acqc (locks (upd_lock l ?shift u) l) then grant_first_acq l (upd_lock l ?shift u)
      else Inr (upd_lock l ?shift u)) = Inr t"
    using assms(2) la unfolding relserver_def assms(3) by (auto simp: Let_def)
  let ?u = "upd_lock l ?shift u"
  have home: "l mod hostc s = jia_pid s" using r(1) by (simp add: home_of_def)
  have s0: "silent s ?s0" using silent_refl [OF assms(1)] by (cases "scope m > myscope (locks s hidelock)") simp_all
  have u: "silent s u" by (rule ensuresD [OF lv.recordwtnts_quiet [OF s0] r(3)])
  then have k: "acqs (locks u l) = acqs (locks s l)" "acqc (locks u l) = acqc (locks s l)"
    using assms(4) by (auto simp: silent_def)
  obtain n where n: "nat (acqc (locks s l)) = Suc n"
    using assms(5) lock_queue_length [of l s] by (cases "nat (acqc (locks s l))") auto
  then have c: "acqc (locks s l) = int (Suc n)" by simp
  have "nat (acqs (locks s l) 0) = frompid m" by (simp only: r(2) [symmetric] nat_int)
  then have hd: "q = frompid m" "map (\<lambda>i. nat (acqs (locks s l) (Suc i))) [0..<n] = qs"
    using assms(5) n by (simp_all add: lock_queue_def map_upt_Suc del: upt_Suc)
  have q: "lock_queue l ?u = qs" using hd(2) c k by (auto simp: lock_queue_def upd_lock_def)
  have qs: "same_queues {l} s ?u"
    using silent_queues [OF u] by (simp add: same_queues_def upd_lock_def)
  have ok: "queue_ok l s \<Longrightarrow> queue_ok l ?u" using k c by (auto simp: queue_ok_def upd_lock_def)
  have d: "diff_slots ?u" using u by (simp add: silent_def acts_def diff_slots_def upd_lock_def)
  have same: "acts s [] ?u" "same_stack s ?u" "acqwait ?u = acqwait s"
    using u by (simp_all add: silent_def acts_def sends_def upd_lock_def same_stack_def diff_slots_def)
  have pos: "0 < acqc (locks ?u l) \<longleftrightarrow> qs \<noteq> []" using hd(2) c k by (auto simp: upd_lock_def)
  show ?thesis
  proof (cases qs)
    case Nil
    then have "t = ?u" using r(4) pos by simp
    then show ?thesis using Nil home hd(1) q qs ok same by auto
  next
    case (Cons p ps)
    have "nat (acqs (locks ?u l) 0) = p"
      using q Cons lock_queue_length [of l ?u] by (cases "nat (acqc (locks ?u l))") (auto simp: lock_queue_def map_upt_Suc simp del: upt_Suc)
    then have "grantlock l p (acqscope (locks ?u l) 0) ?u = Inr t" using r(4) pos Cons by (simp add: grant_first_acq_def)
    moreover have "l < 2 ^ 31" using assms(4) by (simp add: Maxlocks_def)
    ultimately obtain g where g: "grant_msg l p g" "acts ?u [g] t" "same_stack ?u t" "acqwait t = acqwait ?u"
      "same_queues {} ?u t"
      using ensuresD [OF grantlock_acts [OF d]] by blast
    have "same_queues {l} s t" "lock_queue l t = qs" "queue_ok l s \<longrightarrow> queue_ok l t"
      using same_queues_at [OF g(5) assms(4)] g(5) qs q ok by (simp_all add: same_queues_def)
    moreover have "acts s [g] t" using sends_trans [of s "[]" ?u "[g]" t] g(2) same(1) by (simp add: acts_def)
    moreover have "same_stack s t" "acqwait t = acqwait s"
      using g(3,4) same(2,3) by (simp_all add: same_stack_def)
    ultimately show ?thesis using Cons home hd(1) g(1) by auto
  qed
qed

lemma acqgrantserver_acts:
  assumes "diff_slots s" "acqgrantserver m s = Inr t"
  shows "acts s [] t" "same_stack s t" "acqwait t = 0" "same_queues {} s t"
proof -
  obtain u l where u: "invalidate m s = Inr u" "t = upd_lock l (\<lambda>k. k\<lparr>myscope := scope m\<rparr>) u\<lparr>acqwait := 0\<rparr>"
    using assms(2) by (auto simp: acqgrantserver_def)
  have "silent s u" by (rule ensuresD [OF lv.invalidate_quiet [OF silent_refl [OF assms(1)]] u(1)])
  then show "acts s [] t" "same_stack s t" "acqwait t = 0" "same_queues {} s t"
    unfolding u(2)
    by (auto simp: silent_def acts_def sends_def same_stack_def diff_slots_def upd_lock_def same_queues_def)
qed


section \<open>The parts of lock and unlock\<close>

lemma lock_begin_acts:
  assumes "diff_slots s" "lock_begin l s = Inr t"
  shows "silent s t" "l < Maxlocks" "int i \<le> stackptr s \<Longrightarrow> lockid (lockstack s i) \<noteq> l"
proof -
  have b: "endinterval_send ACQ s = Inr t" "l < Maxlocks"
    "\<forall>i<nat (stackptr s + 1). lockid (lockstack s i) \<noteq> l"
    using assms(2) by (auto simp: lock_begin_def list_all_iff)
  show "silent s t" by (rule ensuresD [OF lv.endinterval_send_quiet [OF silent_refl [OF assms(1)]] b(1)])
  show "l < Maxlocks" by (rule b(2))
  show "lockid (lockstack s i) \<noteq> l" if "int i \<le> stackptr s" using b(3) that by (metis zless_nat_eq_int_zless zle_add1_eq_le)
qed

lemma unlock_begin_acts:
  assumes "diff_slots s" "unlock_begin l s = Inr t"
  shows "silent s t" "l < Maxlocks" "0 \<le> stackptr s" "lockid (lockstack s (nat (stackptr s))) = l"
proof -
  have b: "endinterval_send REL s = Inr t" "l < Maxlocks" "0 \<le> stackptr s" "lockid (lockstack s (nat (stackptr s))) = l"
    using assms(2) by (auto simp: unlock_begin_def top_at_def split: if_splits)
  show "silent s t" by (rule ensuresD [OF lv.endinterval_send_quiet [OF silent_refl [OF assms(1)]] b(1)])
  show "l < Maxlocks" "0 \<le> stackptr s" "lockid (lockstack s (nat (stackptr s))) = l" by (rule b)+
qed

lemma lock_ask_acts:
  assumes "diff_slots s" "lock_ask l s = Inr t" "l < Maxlocks"
  shows "\<exists>g. request_msg ACQ l (jia_pid s) (l mod hostc s) g \<and> acts s [g] t \<and> same_stack s t \<and> acqwait t = 1 \<and> same_queues {} s t"
proof -
  let ?s = "s\<lparr>acqwait := 1\<rparr>"
  let ?R = "\<lambda>m. headed (jia_pid s) (l mod hostc s) (int l) m \<and> is_op m ACQ"
  have d: "diff_slots ?s" using assms(1) by (simp add: diff_slots_def)
  have R: "ensures ?R (appendmsg (m\<lparr>op := op_num ACQ, frompid := jia_pid ?s, topid := l mod hostc ?s,
      scope := myscope (locks ?s l), size := 0\<rparr>) (itob (word_of_nat l)))" for m
    by (rule ensures_mono [OF headed_first]) (use assms(3) in \<open>simp_all add: Maxlocks_def is_op_def\<close>)
  have "ensures (\<lambda>t. \<exists>u g. silent ?s u \<and> ?R g \<and> emits g u t) (acquire l ?s)"
    unfolding acquire_def by (rule lv.with_slot_emits [OF silent_refl [OF d] R]) blast
  then obtain u g where g: "silent ?s u" "?R g" "emits g u t"
    using ensuresD [OF _ assms(2) [unfolded lock_ask_def]] by blast
  then have "lock_op g" by (simp add: lock_op_is)
  note e = silent_emits [OF g(1,3) this]
  show ?thesis using e g(2)
    by (intro exI [of _ g]) (auto simp: request_msg_def headed_def same_queues_def acts_def sends_def same_stack_def)
qed

lemma lock_enter_acts:
  assumes "diff_slots s" "lock_enter l s = Inr t" "0 \<le> stackptr s"
  shows "acts s [] t" "stackptr t = stackptr s + 1" "lockid (lockstack t (nat (stackptr t))) = l"
    "i \<noteq> nat (stackptr t) \<Longrightarrow> lockid (lockstack t i) = lockid (lockstack s i)" "acqwait t = acqwait s" "same_queues {} s t"
proof -
  obtain u where u: "startinterval ACQ s = Inr u" "pushstack l u = Inr t" using assms(2) by (auto simp: lock_enter_def)
  have s: "silent s u" by (rule ensuresD [OF lv.startinterval_quiet [OF silent_refl [OF assms(1)]] u(1)])
  have t: "t = u\<lparr>stackptr := stackptr u + 1, lockstack := (lockstack u)(nat (stackptr u + 1) :=
      (lockstack u (nat (stackptr u + 1)))\<lparr>lockid := l\<rparr>)\<rparr>"
    using u(2) by (auto simp: pushstack_def top_at_def Let_def split: if_splits)
  show "acts s [] t" "stackptr t = stackptr s + 1" "lockid (lockstack t (nat (stackptr t))) = l"
    "i \<noteq> nat (stackptr t) \<Longrightarrow> lockid (lockstack t i) = lockid (lockstack s i)" "acqwait t = acqwait s" "same_queues {} s t"
    using s unfolding t
    by (auto simp: silent_def acts_def sends_def same_stack_def same_queues_def diff_slots_def)
qed

lemma popstack_silent:
  assumes "diff_slots s" "popstack s = Inr t"
  shows "silent (s\<lparr>stackptr := stackptr s - 1\<rparr>) t"
proof -
  let ?s = "s\<lparr>stackptr := stackptr s - 1\<rparr>"
  have d: "silent ?s ?s" by (rule silent_refl) (use assms(1) in \<open>simp add: diff_slots_def\<close>)
  obtain u w where u: "(if 0 \<le> stackptr ?s then merge_notices (swtntp (lockstack ?s (nat (stackptr ?s + 1)))) ?s else Inr ?s) = Inr u"
    "t = set_top_wtnt (nat (stackptr ?s + 1)) w u"
    using assms(2) by (auto simp: popstack_def Let_def)
  have "silent ?s u"
    using u(1) d ensuresD [OF lv.merge_notices_quiet [OF d, where Q = "silent ?s"]] by (auto split: if_splits)
  then show ?thesis unfolding u(2) by simp
qed

lemma sendwtnts_acts:
  assumes "diff_slots s" "sendwtnts REL s = Inr t" "lockid (lockstack s (nat (stackptr s))) = l" "l < Maxlocks"
  shows "\<exists>g. request_msg REL l (jia_pid s) (l mod hostc s) g \<and> acts s [g] t \<and> same_stack s t \<and> acqwait t = acqwait s \<and> same_queues {} s t"
proof -
  let ?G = "\<lambda>t. \<exists>g. request_msg REL l (jia_pid s) (l mod hostc s) g \<and> acts s [g] t \<and> same_stack s t \<and> acqwait t = acqwait s \<and> same_queues {} s t"
  have "top_at s = Inr (nat (stackptr s))" using assms(2) by (auto simp: sendwtnts_def top_at_def split: if_splits)
  then have n: "send_notices appendstackwtnts send_slot WTNT REL
      (\<lambda>m. m\<lparr>frompid := jia_pid s, topid := l mod hostc s, scope := myscope (locks s (if REL = BARR then hidelock else l))\<rparr>)
      l (swtntp (lockstack s (nat (stackptr s)))) s = Inr t"
    using assms(2,3) by (simp add: sendwtnts_def Let_def)
  have "ensures ?G (send_notices appendstackwtnts send_slot WTNT REL
      (\<lambda>m. m\<lparr>frompid := jia_pid s, topid := l mod hostc s, scope := myscope (locks s (if REL = BARR then hidelock else l))\<rparr>)
      l (swtntp (lockstack s (nat (stackptr s)))) s)"
  proof (rule lv.send_notices_emits [where f = "jia_pid s" and d = "l mod hostc s", OF silent_refl [OF assms(1)]])
    show "ensures (\<lambda>(m', w'). headed (jia_pid s) (l mod hostc s) (int l) m' \<and> op m' = op m) (appendstackwtnts m w)"
      if "headed (jia_pid s) (l mod hostc s) (int l) m" for m w by (rule append_lists_headed(3) [OF that])
    fix u g t assume g: "silent s u" "headed (jia_pid s) (l mod hostc s) (int l) g" "is_op g REL" "emits g u t"
    note e = silent_emits [OF g(1,4) lock_op_is(3) [OF g(3)]]
    show "?G t" using e g by (intro exI [of _ g]) (auto simp: request_msg_def headed_def same_queues_def)
  qed (use assms(4) lv.quiet_ops in \<open>auto simp: BCAST_def Maxlocks_def\<close>)
  then show ?thesis using n by (rule ensuresD)
qed

lemma unlock_end_acts:
  assumes "diff_slots s" "unlock_end s = Inr t" "lockid (lockstack s (nat (stackptr s))) = l" "l < Maxlocks"
  shows "\<exists>g. request_msg REL l (jia_pid s) (l mod hostc s) g \<and> acts s [g] t \<and> stackptr t = stackptr s - 1 \<and>
    (\<forall>i. lockid (lockstack t i) = lockid (lockstack s i)) \<and> acqwait t = acqwait s \<and> same_queues {} s t"
proof -
  obtain u v where u: "sendwtnts REL s = Inr u" "startinterval REL u = Inr v" "popstack v = Inr t"
    using assms(2) by (auto simp: unlock_end_def)
  obtain g where g: "request_msg REL l (jia_pid s) (l mod hostc s) g" "acts s [g] u" "same_stack s u" "acqwait u = acqwait s"
    "same_queues {} s u" using sendwtnts_acts [OF assms(1) u(1) assms(3,4)] by blast
  have "diff_slots u" using g(2) by (simp add: acts_def)
  then have v: "silent u v" by (rule ensuresD [OF lv.startinterval_quiet [OF silent_refl] u(2)])
  then have "diff_slots v" by (simp add: silent_def acts_def)
  note t = popstack_silent [OF this u(3)]
  have "sends s ([g] @ [] @ []) t"
    by (rule sends_trans [of s "[g]" u], use g(2) in \<open>simp add: acts_def\<close>, rule sends_trans [of u "[]" v])
      (use v t in \<open>simp_all add: silent_def acts_def sends_def\<close>)
  then show ?thesis using g v t
    by (intro exI [of _ g]) (auto simp: silent_def acts_def same_stack_def same_queues_def)
qed

section \<open>A step of the thread\<close>

text \<open>The locks that a host holds are those on its stack, above the entry of the barrier.\<close>

definition held :: "host \<Rightarrow> nat set" where
  "held s = (\<lambda>i. lockid (lockstack s i)) ` {1..nat (stackptr s)}"

definition stack_ok :: "host \<Rightarrow> bool" where
  "stack_ok s \<longleftrightarrow> 0 \<le> stackptr s \<and> lockid (lockstack s 0) = hidelock \<and>
     inj_on (\<lambda>i. lockid (lockstack s i)) {1..nat (stackptr s)}"

fun thread_ok :: "thread \<Rightarrow> host \<Rightarrow> bool" where
  "thread_ok (AtLockDiffs l) s \<longleftrightarrow> l < Maxlocks \<and> l \<notin> held s"
| "thread_ok (AtLockGrant l) s \<longleftrightarrow> l < Maxlocks \<and> l \<notin> held s"
| "thread_ok (AtUnlockDiffs l) s \<longleftrightarrow> l < Maxlocks \<and> 0 < stackptr s \<and> lockid (lockstack s (nat (stackptr s))) = l"
| "thread_ok AtBarrDiffs s \<longleftrightarrow> stackptr s = 0"
| "thread_ok _ s \<longleftrightarrow> True"

lemma same_stack_held: "same_stack s t \<Longrightarrow> held t = held s" "same_stack s t \<Longrightarrow> stack_ok t = stack_ok s"
  "same_stack s t \<Longrightarrow> thread_ok k t = thread_ok k s"
  by (auto simp: same_stack_def held_def stack_ok_def thread_ok.simps split: thread.split; cases k; auto simp: held_def)+

lemma held_push:
  assumes "stack_ok s" "l \<notin> held s" "stackptr t = stackptr s + 1" "lockid (lockstack t (nat (stackptr t))) = l"
    "\<And>i. i \<noteq> nat (stackptr t) \<Longrightarrow> lockid (lockstack t i) = lockid (lockstack s i)"
  shows "held t = insert l (held s)" "stack_ok t"
proof -
  have n: "nat (stackptr t) = Suc (nat (stackptr s))" using assms(1,3) by (auto simp: stack_ok_def nat_add_distrib)
  have e: "lockid (lockstack t (Suc (nat (stackptr s)))) = l"
    "i \<le> nat (stackptr s) \<Longrightarrow> lockid (lockstack t i) = lockid (lockstack s i)" for i
    using assms(4,5) [unfolded n] by auto
  have i: "{1..Suc (nat (stackptr s))} = insert (Suc (nat (stackptr s))) {1..nat (stackptr s)}" by auto
  show "held t = insert l (held s)"
    unfolding held_def n i image_insert e(1) using e(2) by (auto intro!: arg_cong2 [where f = insert] image_cong)
  have "inj_on (\<lambda>i. lockid (lockstack t i)) {1..nat (stackptr s)}"
    using assms(1) e(2) by (auto simp: stack_ok_def inj_on_def)
  then show "stack_ok t"
    using assms(1-3) e n unfolding stack_ok_def i n
    by (auto simp: inj_on_insert held_def image_iff)
qed

lemma held_pop:
  assumes "stack_ok s" "0 < stackptr s" "stackptr t = stackptr s - 1" "\<And>i. lockid (lockstack t i) = lockid (lockstack s i)"
  shows "held t = held s - {lockid (lockstack s (nat (stackptr s)))}" "stack_ok t" "lockid (lockstack s (nat (stackptr s))) \<in> held s"
proof -
  obtain n where n: "nat (stackptr s) = Suc n" using assms(2) by (cases "nat (stackptr s)") auto
  have m: "nat (stackptr t) = n" using n assms(3) by simp
  have i: "{1..Suc n} = insert (Suc n) {1..n}" by auto
  show "held t = held s - {lockid (lockstack s (nat (stackptr s)))}" "stack_ok t" "lockid (lockstack s (nat (stackptr s))) \<in> held s"
    using assms unfolding held_def stack_ok_def m n i by (auto simp: inj_on_insert)
qed


text \<open>What a step of the thread does: nothing with locks, or ask for a lock, enter it, or leave it.\<close>

datatype lock_effect = Nothing | Asks_for nat | Enters nat | Leaves nat

fun effect_ok :: "lock_effect \<Rightarrow> thread \<times> host \<Rightarrow> thread \<times> host \<Rightarrow> bool" where
  "effect_ok Nothing (k, s) (k', t) \<longleftrightarrow> silent s t \<and> (\<forall>l. k \<noteq> AtLockGrant l) \<and> (\<forall>l. k' \<noteq> AtLockGrant l)"
| "effect_ok (Asks_for l) (k, s) (k', t) \<longleftrightarrow> k = AtLockDiffs l \<and> k' = AtLockGrant l \<and> acqwait t = 1 \<and> held t = held s \<and>
     same_queues {} s t \<and> (\<exists>g. request_msg ACQ l (jia_pid s) (l mod hostc s) g \<and> acts s [g] t)"
| "effect_ok (Enters l) (k, s) (k', t) \<longleftrightarrow> k = AtLockGrant l \<and> k' = Running \<and> acqwait s = 0 \<and>
     held t = insert l (held s) \<and> same_queues {} s t \<and> acts s [] t"
| "effect_ok (Leaves l) (k, s) (k', t) \<longleftrightarrow> k = AtUnlockDiffs l \<and> k' = Running \<and> l \<in> held s \<and>
     held t = held s - {l} \<and> same_queues {} s t \<and> (\<exists>g. request_msg REL l (jia_pid s) (l mod hostc s) g \<and> acts s [g] t)"

lemma effect_queues: "effect_ok e (k, s) (k', t) \<Longrightarrow> same_queues {} s t"
  by (cases e) (auto simp: silent_queues)

lemma silent_stack: "silent s t \<Longrightarrow> same_stack s t"
  by (simp add: silent_def)

lemma user_step_effect:
  assumes "user_step (k, s) (k', t)" "diff_slots s" "stack_ok s" "thread_ok k s"
  shows "\<exists>e. effect_ok e (k, s) (k', t) \<and> stack_ok t \<and> thread_ok k' t"
proof -
  note i = silent_refl [OF assms(2)]
  have quiet: ?thesis if "silent s t" "\<And>l. k \<noteq> AtLockGrant l" "\<And>l. k' \<noteq> AtLockGrant l" "thread_ok k' s"
    using that same_stack_held [OF silent_stack [OF that(1)]] assms(3) by (intro exI [of _ Nothing]) simp
  have flag: "silent s (s\<lparr>cvwait := x\<rparr>)" "silent s (s\<lparr>vmem := v\<rparr>)" for x v
    using i by (simp_all add: silent_def acts_def sends_def same_stack_def diff_slots_def)
  from assms(1) show ?thesis
  proof cases
    case (Write v)
    show ?thesis by (rule quiet) (use Write flag in auto)
  next
    case (Fault rnd c a r)
    have "silent s t" by (rule ensuresD [OF lv.fault_request_quiet [OF i, where Q = "\<lambda>x. silent s (snd x)"] Fault(3), simplified])
    then show ?thesis by (rule quiet) (use Fault in \<open>auto split: option.splits\<close>)
  next
    case (Resume c a j)
    have "silent s t" by (rule ensuresD [OF lv.fault_resume_quiet [OF i] Resume(3)])
    then show ?thesis by (rule quiet) (use Resume in auto)
  next
    case (Lock l)
    note b = lock_begin_acts [OF assms(2) Lock(3)]
    have "lockid (lockstack s i) \<noteq> l" if "i \<le> nat (stackptr s)" for i
      using b(3) [of i] that assms(3) by (simp add: stack_ok_def le_nat_iff)
    then have "l \<notin> held s" unfolding held_def by (metis atLeastAtMost_iff imageE)
    then show ?thesis by (intro quiet b(1)) (use Lock b(2) in auto)
  next
    case (LockAsk l)
    then have l: "l < Maxlocks" "l \<notin> held s" using assms(4) by auto
    obtain g where g: "request_msg ACQ l (jia_pid s) (l mod hostc s) g" "acts s [g] t" "same_stack s t" "acqwait t = 1"
      "same_queues {} s t" using lock_ask_acts [OF assms(2) LockAsk(4) l(1)] by blast
    then show ?thesis using LockAsk(1,2) l same_stack_held [OF g(3)] assms(3)
      by (intro exI [of _ "Asks_for l"]) auto
  next
    case (LockEnter l)
    then have l: "l < Maxlocks" "l \<notin> held s" using assms(4) by auto
    have "0 \<le> stackptr s" using assms(3) by (simp add: stack_ok_def)
    note e = lock_enter_acts [OF assms(2) LockEnter(4) this]
    show ?thesis using LockEnter(1,2,3) e(1,6) held_push [OF assms(3) l(2) e(2,3,4)]
      by (intro exI [of _ "Enters l"]) simp
  next
    case (Unlock l)
    note b = unlock_begin_acts [OF assms(2) Unlock(3)]
    have "stackptr s \<noteq> 0" using b(2,4) assms(3) by (auto simp: stack_ok_def hidelock_def)
    then show ?thesis by (intro quiet b(1)) (use Unlock b in auto)
  next
    case (UnlockEnd l)
    then have l: "l < Maxlocks" "0 < stackptr s" "lockid (lockstack s (nat (stackptr s))) = l" using assms(4) by auto
    obtain g where g: "request_msg REL l (jia_pid s) (l mod hostc s) g" "acts s [g] t" "stackptr t = stackptr s - 1"
      "\<forall>i. lockid (lockstack t i) = lockid (lockstack s i)" "same_queues {} s t"
      using unlock_end_acts [OF assms(2) UnlockEnd(4) l(3,1)] by blast
    have h: "held t = held s - {l}" "stack_ok t" "l \<in> held s"
      using held_pop [OF assms(3) l(2) g(3)] g(4) l(3) by auto
    show ?thesis using UnlockEnd(1,2) g(1,2,5) h
      by (intro exI [of _ "Leaves l"]) auto
  next
    case Barrier
    have "silent s t" by (rule ensuresD [OF lv.barrier_begin_quiet [OF i] Barrier(3)])
    moreover have "stackptr s = 0" using Barrier(3) by (simp add: barrier_begin_def)
    ultimately show ?thesis by (intro quiet) (use Barrier in auto)
  next
    case BarrierSend
    have "silent s t" by (rule ensuresD [OF lv.barrier_send_quiet [OF i] BarrierSend(4)])
    then show ?thesis by (rule quiet) (use BarrierSend in auto)
  next
    case BarrierEnd
    have "silent s t" by (rule ensuresD [OF lv.startinterval_quiet [OF i] BarrierEnd(5)])
    then show ?thesis by (rule quiet) (use BarrierEnd in auto)
  next
    case BarrierWait
    have "silent s t" by (rule ensuresD [OF lv.wait_send_quiet [OF i] BarrierWait(6)])
    then show ?thesis by (rule quiet) (use BarrierWait in auto)
  next
    case BarrierWaited
    have "silent s t" by (rule ensuresD [OF lv.startinterval_quiet [OF i] BarrierWaited(4)])
    then show ?thesis by (rule quiet) (use BarrierWaited in auto)
  next
    case Wait
    have "silent s t" by (rule ensuresD [OF lv.wait_send_quiet [OF i] Wait(3)])
    then show ?thesis by (rule quiet) (use Wait in auto)
  next
    case Waited
    show ?thesis by (rule quiet) (use Waited i in auto)
  next
    case (SetCv x c)
    have "silent s t" by (rule ensuresD [OF lv.cv_send_quiet [OF _ i] SetCv(4)]) (use SetCv(3) in blast)
    then show ?thesis by (rule quiet) (use SetCv in auto)
  next
    case (WaitCv c)
    have "silent s t" by (rule ensuresD [OF lv.cv_send_quiet [OF _ flag(1)] WaitCv(3)]) simp
    then show ?thesis by (rule quiet) (use WaitCv in auto)
  next
    case WaitedCv
    show ?thesis by (rule quiet) (use WaitedCv i in auto)
  next
    case (SendMsg buf p tag)
    have "silent s t" by (rule ensuresD [OF lv.jia_send_quiet [OF i] SendMsg(3)])
    then show ?thesis by (rule quiet) (use SendMsg in auto)
  next
    case (Bcast buf r)
    have "silent s t" by (rule ensuresD [OF lv.bcast_send_quiet [OF i] Bcast(3)])
    then show ?thesis by (rule quiet) (use Bcast in auto)
  next
    case (Alloc n bs j h a)
    have "silent s t" by (rule ensuresD [OF lv.jia_alloc4_quiet [OF i] Alloc(3), simplified])
    then show ?thesis by (rule quiet) (use Alloc in auto)
  qed
qed


lemma proc_step_effect:
  assumes "proc_step mc (k, P) (k', P')" "diff_slots (p_host P)" "stack_ok (p_host P)" "thread_ok k (p_host P)"
  shows "\<exists>e. effect_ok e (k, p_host P) (k', p_host P') \<and> stack_ok (p_host P') \<and> thread_ok k' (p_host P')"
proof -
  note i = silent_refl [OF assms(2)]
  have quiet: ?thesis if "silent (p_host P) (p_host P')" "k \<in> {Running, AtLoad, AtStat}" "k' \<in> {Running, AtLoad, AtStat}"
    using that same_stack_held(2) [OF silent_stack [OF that(1)]] assms(3) by (intro exI [of _ Nothing]) auto
  from assms(1) show ?thesis
  proof cases
    case (OnHost s)
    then show ?thesis using user_step_effect [OF _ assms(2-4), of k' s] by simp
  next
    case (Balance now ld s)
    have "silent (p_host P) s" by (rule ensuresD [OF lv.load_stat_send_quiet(1) [OF i] Balance(5), simplified])
    then show ?thesis using Balance by (intro quiet) auto
  next
    case (Config junk d v ld s)
    have "silent (p_host P) s" by (rule ensuresD [OF lv.jia_config_quiet [OF i] Config(4), simplified])
    then show ?thesis using Config by (intro quiet) auto
  next
    case (Report st s)
    have "silent (p_host P) s" by (rule ensuresD [OF lv.load_stat_send_quiet(2) [OF i] Report(4), simplified])
    then show ?thesis using Report by (intro quiet) auto
  qed (rule quiet; use i in auto)+
qed

end
