(* ===== verification/Locksys.thy ===== *)
theory Locksys
  imports Lockmsgs
begin

text \<open>
  All processes of a program together: the thread of the program and the server thread of each
  process, and the network between them, which delivers the messages of one process to another in
  order. Each lock then follows the protocol of \<open>Lockproto\<close>, so no two processes hold it at once.
\<close>

section \<open>The system\<close>

record 'f system =
  procs :: "nat \<Rightarrow> 'f proc"
  threads :: "nat \<Rightarrow> thread"
  chan :: "nat \<Rightarrow> nat \<Rightarrow> jia_msg list"

abbreviation host_of :: "'f system \<Rightarrow> nat \<Rightarrow> host" where
  "host_of S p \<equiv> p_host (procs S p)"

definition set_host_of :: "nat \<Rightarrow> host \<Rightarrow> 'f system \<Rightarrow> 'f system" where
  "set_host_of p s S = S\<lparr>procs := (procs S)(p := (procs S p)\<lparr>p_host := s\<rparr>)\<rparr>"

definition set_chan :: "nat \<Rightarrow> nat \<Rightarrow> jia_msg list \<Rightarrow> 'f system \<Rightarrow> 'f system" where
  "set_chan p q ms S = S\<lparr>chan := (chan S)(p := (chan S p)(q := ms))\<rparr>"

inductive sys_step :: "'f machine \<Rightarrow> nat \<Rightarrow> 'f system \<Rightarrow> 'f system \<Rightarrow> bool" for mc n where
  Send: "p < n \<Longrightarrow> outq (host_of S p) = m # ms \<Longrightarrow>
    sys_step mc n S (set_chan p (topid m) (chan S p (topid m) @ [m]) (set_host_of p ((host_of S p)\<lparr>outq := ms\<rparr>) S))"
| Serve: "p < n \<Longrightarrow> q < n \<Longrightarrow> chan S q p = m # ms \<Longrightarrow> msg_handle mc rnds m (procs S p) = Inr P \<Longrightarrow>
    sys_step mc n S (set_chan q p ms (S\<lparr>procs := (procs S)(p := P)\<rparr>))"
| Thread: "p < n \<Longrightarrow> proc_step mc (threads S p, procs S p) (k, P) \<Longrightarrow>
    sys_step mc n S (S\<lparr>threads := (threads S)(p := k), procs := (procs S)(p := P)\<rparr>)"

definition fresh_host :: "nat \<Rightarrow> nat \<Rightarrow> host \<Rightarrow> bool" where
  "fresh_host n p s \<longleftrightarrow> jia_pid s = p \<and> hostc s = n \<and> outq s = [] \<and> diff_slots s \<and> stackptr s = 0 \<and>
     lockid (lockstack s 0) = hidelock \<and> (\<forall>l\<le>Maxlocks. acqc (locks s l) = 0)"

definition sys_start :: "nat \<Rightarrow> 'f system \<Rightarrow> bool" where
  "sys_start n S \<longleftrightarrow> 1 < n \<and> n \<le> Maxhosts \<and> (\<forall>p<n. threads S p = Running \<and> fresh_host n p (host_of S p) \<and> (\<forall>q. chan S p q = []))"

section \<open>The protocol of a lock in the system\<close>

text \<open>The messages of locks on their way from \<open>j\<close> to \<open>h\<close>, oldest first.\<close>

definition on_way :: "'f system \<Rightarrow> nat \<Rightarrow> nat \<Rightarrow> jia_msg list" where
  "on_way S j h = filter lock_op (chan S j h @ filter (\<lambda>m. topid m = h) (outq (host_of S j)))"

definition asks_for :: "nat \<Rightarrow> jia_msg \<Rightarrow> bool" where
  "asks_for l m \<longleftrightarrow> (is_op m ACQ \<or> is_op m REL) \<and> msg_lock m = int l"

definition request_of :: "jia_msg \<Rightarrow> lock_request" where
  "request_of m = (if is_op m ACQ then Asks else Releases)"

definition client_of :: "nat \<Rightarrow> thread \<Rightarrow> host \<Rightarrow> lock_client" where
  "client_of l k s = (if k = AtLockGrant l then (if acqwait s = 0 then Granted else Waits)
     else if l \<in> held s then Holds else Out)"

definition lock_view :: "nat \<Rightarrow> nat \<Rightarrow> 'f system \<Rightarrow> lock_state" where
  "lock_view n l S = \<lparr>queue_of = lock_queue l (host_of S (l mod n)),
     asked = (\<lambda>p. if p < n then map request_of (filter (asks_for l) (on_way S p (l mod n))) else []),
     granting = (\<lambda>p. if p < n then length (filter (grant_msg l p) (on_way S (l mod n) p)) else 0),
     client = (\<lambda>p. if p < n then client_of l (threads S p) (host_of S p) else Out)\<rparr>"

text \<open>Every message of a lock is well-formed and goes between its manager and a client.\<close>

definition way_ok :: "nat \<Rightarrow> nat \<Rightarrow> nat \<Rightarrow> jia_msg \<Rightarrow> bool" where
  "way_ok n j h m \<longleftrightarrow> (\<exists>l<Maxlocks. (\<exists>x\<in>{ACQ, REL}. request_msg x l j h m \<and> h = l mod n) \<or> grant_msg l h m \<and> j = l mod n)"

definition proc_ok :: "nat \<Rightarrow> 'f system \<Rightarrow> nat \<Rightarrow> bool" where
  "proc_ok n S p \<longleftrightarrow> jia_pid (host_of S p) = p \<and> hostc (host_of S p) = n \<and> diff_slots (host_of S p) \<and>
     stack_ok (host_of S p) \<and> thread_ok (threads S p) (host_of S p) \<and>
     (\<forall>l<Maxlocks. queue_ok l (host_of S p)) \<and> (\<forall>h. \<forall>m\<in>set (on_way S p h). way_ok n p h m)"

definition sys_inv :: "nat \<Rightarrow> 'f system \<Rightarrow> bool" where
  "sys_inv n S \<longleftrightarrow> (\<forall>p<n. proc_ok n S p) \<and> (\<forall>l<Maxlocks. lock_ok (lock_view n l S))"

lemma sys_start_view:
  assumes "sys_start n S" "l < Maxlocks"
  shows "lock_view n l S = lock_free"
proof -
  have p: "threads S p = Running" "fresh_host n p (host_of S p)" "chan S p q = []" if "p < n" for p q
    using assms(1) that by (auto simp: sys_start_def)
  then have w: "on_way S p q = []" "held (host_of S p) = {}" if "p < n" for p q
    using that by (auto simp: on_way_def fresh_host_def held_def)
  have "l mod n < n" using assms(1) by (simp add: sys_start_def)
  from p [OF this] w [OF this] show ?thesis
    using assms(2) w p(1) by (auto simp: lock_view_def lock_free_def fun_eq_iff client_of_def lock_queue_def fresh_host_def)
qed

lemma sys_start_inv:
  assumes "sys_start n S"
  shows "sys_inv n S"
proof -
  have p: "threads S p = Running" "fresh_host n p (host_of S p)" "chan S p q = []" if "p < n" for p q
    using assms that by (auto simp: sys_start_def)
  then have w: "on_way S p q = []" "held (host_of S p) = {}" if "p < n" for p q
    using that by (auto simp: on_way_def fresh_host_def held_def)
  have "proc_ok n S p" if "p < n" for p
    using p [OF that] w [OF that] by (auto simp: proc_ok_def fresh_host_def stack_ok_def queue_ok_def)
  then show ?thesis using sys_start_view [OF assms] by (simp add: sys_inv_def lock_free_ok)
qed

section \<open>One host changes\<close>

definition host_change :: "nat \<Rightarrow> thread \<Rightarrow> host \<Rightarrow> 'f system \<Rightarrow> 'f system \<Rightarrow> bool" where
  "host_change p k t S S' \<longleftrightarrow> threads S' = (threads S)(p := k) \<and> chan S' = chan S \<and>
     (\<forall>j. host_of S' j = (if j = p then t else host_of S j))"

lemma on_way_change:
  assumes "host_change p k t S S'" "acts (host_of S p) gs t"
  shows "on_way S' j h = on_way S j h @ (if j = p then filter (\<lambda>m. topid m = h) gs else [])"
proof -
  obtain ms where "outq t = outq (host_of S p) @ ms" "gs = filter lock_op ms"
    using assms(2) by (auto simp: acts_def sends_def)
  then show ?thesis using assms(1) by (simp add: on_way_def host_change_def conj_commute)
qed

lemma proc_ok_change:
  assumes "host_change p k t S S'" "acts (host_of S p) gs t" "\<forall>j<n. proc_ok n S j" "j < n"
    "stack_ok t" "thread_ok k t" "\<forall>l<Maxlocks. queue_ok l t" "\<forall>g\<in>set gs. way_ok n p (topid g) g"
  shows "proc_ok n S' j"
proof (cases "j = p")
  case True
  have "way_ok n p h m" if "m \<in> set (on_way S' p h)" for h m
    using that assms(3,4,8) True unfolding on_way_change [OF assms(1,2)] proc_ok_def by auto
  then show ?thesis
    using True assms(1-7) by (auto simp: proc_ok_def host_change_def acts_def)
next
  case False
  then show ?thesis
    using assms(1,3,4) on_way_change [OF assms(1,2), of j] by (auto simp: proc_ok_def host_change_def)
qed

lemma view_change:
  assumes "host_change p k t S S'" "acts (host_of S p) gs t" "p < n" "V = lock_view n l S"
  shows "lock_view n l S' = \<lparr>queue_of = if l mod n = p then lock_queue l t else queue_of V,
     asked = (asked V)(p := asked V p @ map request_of (filter (\<lambda>m. asks_for l m \<and> topid m = l mod n) gs)),
     granting = (if l mod n = p then \<lambda>q. granting V q + (if q < n then length (filter (grant_msg l q) gs) else 0) else granting V),
     client = (client V)(p := client_of l k t)\<rparr>"
proof -
  have f: "filter (\<lambda>m. topid m = q \<and> grant_msg l q m) gs = filter (grant_msg l q) gs" for q
    by (rule filter_cong) (auto simp: grant_msg_def)
  show ?thesis
    using assms(1,3) unfolding lock_view_def on_way_change [OF assms(1,2)] assms(4)
    by (auto simp: host_change_def fun_eq_iff f conj_commute)
qed

lemma view_same:
  assumes "host_change p k t S S'" "acts (host_of S p) gs t" "p < n"
    "\<And>g. g \<in> set gs \<Longrightarrow> \<not> asks_for l g \<and> (\<forall>q. \<not> grant_msg l q g)"
    "l mod n = p \<Longrightarrow> lock_queue l t = lock_queue l (host_of S p)"
    "client_of l k t = client_of l (threads S p) (host_of S p)"
  shows "lock_view n l S' = lock_view n l S"
proof -
  have "filter (\<lambda>m. asks_for l m \<and> topid m = l mod n) gs = []" "filter (grant_msg l q) gs = []" for q
    using assms(4) by (auto simp: filter_empty_conv)
  then show ?thesis
    unfolding view_change [OF assms(1-3) refl] using assms(3,5,6)
    by (auto simp: lock_view_def fun_eq_iff)
qed

section \<open>A message is taken\<close>

lemma on_way_take:
  assumes "chan S q p = m # ms"
  shows "on_way (set_chan q p ms S) j h = (if j = q \<and> h = p \<and> lock_op m then tl (on_way S q p) else on_way S j h)"
    "lock_op m \<Longrightarrow> on_way S q p = m # tl (on_way S q p)"
  using assms by (auto simp: on_way_def set_chan_def)

lemma way_ok_take: "chan S q p = m # ms \<Longrightarrow> proc_ok n S q \<Longrightarrow> lock_op m \<Longrightarrow> way_ok n q p m"
  using on_way_take(2) [of S q p m ms] unfolding proc_ok_def by (metis list.set_intros(1))

lemma proc_ok_take:
  assumes "chan S q p = m # ms" "\<forall>j<n. proc_ok n S j" "j < n"
  shows "proc_ok n (set_chan q p ms S) j"
proof -
  have "set (tl (on_way S q p)) \<subseteq> set (on_way S q p)" by (cases "on_way S q p") auto
  then show ?thesis
    using assms(2,3) unfolding proc_ok_def on_way_take(1) [OF assms(1)] by (auto simp: set_chan_def)
qed

lemma view_take_other:
  assumes "chan S q p = m # ms" "lock_op m \<Longrightarrow> \<not> asks_for l m \<and> (\<forall>h. \<not> grant_msg l h m)"
  shows "lock_view n l (set_chan q p ms S) = lock_view n l S"
proof (cases "lock_op m")
  case True
  obtain xs where x: "on_way S q p = m # xs" using on_way_take(2) [OF assms(1) True] by blast
  have "lock_view n l (set_chan q p ms S) = lock_view n l S"
    unfolding lock_view_def on_way_take(1) [OF assms(1)] using True assms(2) x
    by (auto simp: set_chan_def fun_eq_iff)
  then show ?thesis .
next
  case False
  then show ?thesis unfolding lock_view_def on_way_take(1) [OF assms(1)] by (simp add: set_chan_def fun_eq_iff)
qed

lemma view_take_request:
  assumes "chan S q p = m # ms" "q < n" "lock_op m" "asks_for l m" "p = l mod n" "\<And>h. \<not> grant_msg l h m"
    "V = lock_view n l S"
  shows "asked V q = request_of m # tl (asked V q)"
    "lock_view n l (set_chan q p ms S) = V\<lparr>asked := (asked V)(q := tl (asked V q))\<rparr>"
proof -
  obtain xs where x: "on_way S q p = m # xs" using on_way_take(2) [OF assms(1,3)] by blast
  show "asked V q = request_of m # tl (asked V q)"
    using x assms by (simp add: lock_view_def)
  show "lock_view n l (set_chan q p ms S) = V\<lparr>asked := (asked V)(q := tl (asked V q))\<rparr>"
    unfolding assms(7) lock_view_def on_way_take(1) [OF assms(1)] using x assms(2-6)
    by (auto simp: set_chan_def fun_eq_iff)
qed

lemma view_take_grant:
  assumes "chan S q p = m # ms" "p < n" "lock_op m" "\<not> asks_for l m" "q = l mod n" "grant_msg l p m"
    "V = lock_view n l S"
  shows "0 < granting V p"
    "lock_view n l (set_chan q p ms S) = V\<lparr>granting := (granting V)(p := granting V p - 1)\<rparr>"
proof -
  obtain xs where x: "on_way S q p = m # xs" using on_way_take(2) [OF assms(1,3)] by blast
  show "0 < granting V p" using x assms by (simp add: lock_view_def)
  show "lock_view n l (set_chan q p ms S) = V\<lparr>granting := (granting V)(p := granting V p - 1)\<rparr>"
    unfolding assms(7) lock_view_def on_way_take(1) [OF assms(1)] using x assms(2-6)
    by (auto simp: set_chan_def fun_eq_iff)
qed


section \<open>Steps\<close>

lemma request_msg_is:
  assumes "request_msg x l' p h g" "x \<in> {ACQ, REL}"
  shows "asks_for l g \<longleftrightarrow> l = l'" "\<not> grant_msg l q g" "request_of g = (if x = ACQ then Asks else Releases)"
    "topid g = h" "frompid g = p" "lock_op g"
  using assms by (auto simp: request_msg_def asks_for_def grant_msg_def is_op_def request_of_def lock_op_def BCAST_def)

lemma grant_msg_is:
  assumes "grant_msg l' h g"
  shows "\<not> asks_for l g" "grant_msg l q g \<longleftrightarrow> l = l' \<and> q = h" "topid g = h" "lock_op g"
  using assms by (auto simp: grant_msg_def asks_for_def is_op_def lock_op_def BCAST_def)

definition follows :: "nat \<Rightarrow> 'f system \<Rightarrow> 'f system \<Rightarrow> bool" where
  "follows n S S' \<longleftrightarrow> (\<forall>j<n. proc_ok n S' j) \<and>
     (\<forall>l<Maxlocks. lock_view n l S' = lock_view n l S \<or> lock_step (lock_view n l S) (lock_view n l S'))"

lemma follows_inv: "follows n S S' \<Longrightarrow> sys_inv n S \<Longrightarrow> sys_inv n S'"
  using lock_ok_step unfolding follows_def sys_inv_def by metis

lemma client_view: "p < n \<Longrightarrow> client (lock_view n l S) p = client_of l (threads S p) (host_of S p)"
  by (simp add: lock_view_def)

lemma thread_follows:
  assumes "sys_inv n S" "p < n" "proc_step mc (threads S p, procs S p) (k, P)" "host_change p k (p_host P) S S'"
  shows "follows n S S'"
proof -
  define t where "t = p_host P"
  have ok: "\<forall>j<n. proc_ok n S j" using assms(1) by (simp add: sys_inv_def)
  then have p: "jia_pid (host_of S p) = p" "hostc (host_of S p) = n" "diff_slots (host_of S p)"
    "stack_ok (host_of S p)" "thread_ok (threads S p) (host_of S p)" using assms(2) by (simp_all add: proc_ok_def)
  obtain e where e: "effect_ok e (threads S p, host_of S p) (k, t)" "stack_ok t" "thread_ok k t"
    using proc_step_effect [OF assms(3) p(3-5)] unfolding t_def by blast
  have h: "host_change p k t S S'" using assms(4) by (simp add: t_def)
  have "queue_ok l (host_of S p)" if "l < Maxlocks" for l using ok assms(2) that by (simp add: proc_ok_def)
  then have qok: "\<forall>l<Maxlocks. queue_ok l t" using same_queues_at(2) [OF effect_queues [OF e(1)]] by simp
  note change = view_change [OF h _ assms(2) refl] and same = view_same [OF h _ assms(2)]
    and keep = proc_ok_change [OF h _ ok _ e(2,3) qok]
  show ?thesis
  proof (cases e)
    case Nothing
    then have s: "silent (host_of S p) t" "\<And>l. threads S p \<noteq> AtLockGrant l" "\<And>l. k \<noteq> AtLockGrant l" using e(1) by auto
    then have a: "acts (host_of S p) [] t" by (simp add: silent_def)
    have "lock_view n l S' = lock_view n l S" if "l < Maxlocks" for l
      by (rule same [OF a]) (use s same_stack_held(1) [OF silent_stack [OF s(1)]] same_queues_at(1) [OF silent_queues [OF s(1)] that]
          in \<open>auto simp: client_of_def\<close>)
    then show ?thesis using keep [OF a] by (simp add: follows_def)
  next
    case (Asks_for l')
    then obtain g where g: "request_msg ACQ l' p (l' mod n) g" "acts (host_of S p) [g] t" "threads S p = AtLockDiffs l'"
      "k = AtLockGrant l'" "acqwait t = 1" "held t = held (host_of S p)" "same_queues {} (host_of S p) t"
      using e(1) p(1,2) by auto
    have l': "l' < Maxlocks" "l' \<notin> held (host_of S p)" using p(5) g(3) by auto
    note r = request_msg_is [OF g(1)]
    have "lock_view n l S' = lock_view n l S \<or> lock_step (lock_view n l S) (lock_view n l S')" if "l < Maxlocks" for l
    proof (cases "l = l'")
      case True
      have c: "client (lock_view n l S) p = Out" using g(3) l'(2) True by (simp add: client_view [OF assms(2)] client_of_def)
      have "lock_view n l S' = ask p (lock_view n l S)"
        unfolding change [OF g(2)] ask_def using same_queues_at(1) [OF g(7) that] r True g(4,5)
        by (auto simp: client_of_def lock_view_def fun_eq_iff)
      then show ?thesis using lock_step.Ask [of "lock_view n l S" p] c by simp
    next
      case False
      have "lock_view n l S' = lock_view n l S"
        by (rule same [OF g(2)]) (use r False same_queues_at(1) [OF g(7) that] g(3,4,6) in \<open>auto simp: client_of_def\<close>)
      then show ?thesis by simp
    qed
    moreover have "way_ok n p (topid g) g" using g(1) l'(1) r(4) by (auto simp: way_ok_def)
    ultimately show ?thesis using keep [OF g(2)] by (simp add: follows_def)
  next
    case (Enters l')
    then have g: "acts (host_of S p) [] t" "threads S p = AtLockGrant l'"
      "k = Running" "acqwait (host_of S p) = 0" "held t = insert l' (held (host_of S p))" "same_queues {} (host_of S p) t"
      using e(1) by auto
    have "lock_view n l S' = lock_view n l S \<or> lock_step (lock_view n l S) (lock_view n l S')" if "l < Maxlocks" for l
    proof (cases "l = l'")
      case True
      have c: "client (lock_view n l S) p = Granted" using g(2,4) True by (simp add: client_view [OF assms(2)] client_of_def)
      have "lock_view n l S' = (lock_view n l S)\<lparr>client := (client (lock_view n l S))(p := Holds)\<rparr>"
        unfolding change [OF g(1)] using same_queues_at(1) [OF g(6) that] True g(3,5)
        by (auto simp: client_of_def lock_view_def fun_eq_iff)
      then show ?thesis using lock_step.Enter [of "lock_view n l S" p] c by simp
    next
      case False
      have "lock_view n l S' = lock_view n l S"
        by (rule same [OF g(1)]) (use False same_queues_at(1) [OF g(6) that] g(2,3,5) in \<open>auto simp: client_of_def\<close>)
      then show ?thesis by simp
    qed
    then show ?thesis using keep [OF g(1)] by (simp add: follows_def)
  next
    case (Leaves l')
    then obtain g where g: "request_msg REL l' p (l' mod n) g" "acts (host_of S p) [g] t" "threads S p = AtUnlockDiffs l'"
      "k = Running" "l' \<in> held (host_of S p)" "held t = held (host_of S p) - {l'}" "same_queues {} (host_of S p) t"
      using e(1) p(1,2) by auto
    have l': "l' < Maxlocks" using p(5) g(3) by auto
    note r = request_msg_is [OF g(1)]
    have "lock_view n l S' = lock_view n l S \<or> lock_step (lock_view n l S) (lock_view n l S')" if "l < Maxlocks" for l
    proof (cases "l = l'")
      case True
      have c: "client (lock_view n l S) p = Holds" using g(3,5) True by (simp add: client_view [OF assms(2)] client_of_def)
      have "lock_view n l S' = release p (lock_view n l S)"
        unfolding change [OF g(2)] release_def using same_queues_at(1) [OF g(7) that] r True g(4,6)
        by (auto simp: client_of_def lock_view_def fun_eq_iff)
      then show ?thesis using lock_step.Release [of "lock_view n l S" p] c by simp
    next
      case False
      have "lock_view n l S' = lock_view n l S"
        by (rule same [OF g(2)]) (use r False same_queues_at(1) [OF g(7) that] g(3,4,6) in \<open>auto simp: client_of_def\<close>)
      then show ?thesis by simp
    qed
    moreover have "way_ok n p (topid g) g" using g(1) l' r(4) by (auto simp: way_ok_def)
    ultimately show ?thesis using keep [OF g(2)] by (simp add: follows_def)
  qed
qed


lemma send_follows:
  assumes "sys_inv n S" "p < n" "outq (host_of S p) = m # ms"
    "S' = set_chan p (topid m) (chan S p (topid m) @ [m]) (set_host_of p ((host_of S p)\<lparr>outq := ms\<rparr>) S)"
  shows "follows n S S'"
proof -
  have w: "on_way S' j h = on_way S j h" for j h
    using assms(3) by (auto simp: assms(4) on_way_def set_chan_def set_host_of_def)
  have h: "host_of S' j = (if j = p then (host_of S p)\<lparr>outq := ms\<rparr> else host_of S j)" "threads S' = threads S" for j
    by (auto simp: assms(4) set_chan_def set_host_of_def)
  have s: "diff_slots ((host_of S p)\<lparr>outq := ms\<rparr>) = diff_slots (host_of S p)" "held ((host_of S p)\<lparr>outq := ms\<rparr>) = held (host_of S p)"
    "stack_ok ((host_of S p)\<lparr>outq := ms\<rparr>) = stack_ok (host_of S p)"
    "thread_ok k ((host_of S p)\<lparr>outq := ms\<rparr>) = thread_ok k (host_of S p)"
    "queue_ok l ((host_of S p)\<lparr>outq := ms\<rparr>) = queue_ok l (host_of S p)" for k l
    by (cases k; simp add: diff_slots_def held_def stack_ok_def queue_ok_def)+
  have "proc_ok n S' j" if "j < n" for j
    using that assms(1) by (auto simp: proc_ok_def w h s sys_inv_def)
  moreover have "lock_view n l S' = lock_view n l S" for l
    by (auto simp: lock_view_def w h s client_of_def lock_queue_def fun_eq_iff)
  ultimately show ?thesis by (simp add: follows_def)
qed

lemma msg_handle_lock:
  "is_op m ACQ \<Longrightarrow> msg_handle mc rnds m = on_host (acqserver m)"
  "is_op m ACQGRANT \<Longrightarrow> msg_handle mc rnds m = on_host (acqgrantserver m)"
  "is_op m REL \<Longrightarrow> msg_handle mc rnds m = on_host (relserver m)"
  by (simp_all add: msg_handle_def is_op_def op_of_num_def op_table_def)

lemma set_chan_fields [simp]: "procs (set_chan q p ms S) = procs S" "threads (set_chan q p ms S) = threads S"
  by (simp_all add: set_chan_def)

text \<open>What is common to the messages of locks: the effect on lock \<open>l\<close> is a step, other locks do not notice.\<close>

lemma serve_follows_by:
  assumes "sys_inv n S" "p < n" "chan S q p = m # ms" "host_change p (threads S p) t (set_chan q p ms S) S'"
    "acts (host_of S p) gs t" "same_stack (host_of S p) t" "\<And>g. g \<in> set gs \<Longrightarrow> \<exists>h. grant_msg l h g \<and> p = l mod n"
    "\<And>l'. l' \<noteq> l \<Longrightarrow> lock_op m \<Longrightarrow> \<not> asks_for l' m \<and> (\<forall>h. \<not> grant_msg l' h m)"
    "same_queues {l} (host_of S p) t" "queue_ok l (host_of S p) \<longrightarrow> queue_ok l t"
    "\<And>l'. l' \<noteq> l \<Longrightarrow> threads S p = AtLockGrant l' \<Longrightarrow> acqwait t = acqwait (host_of S p)"
    "l < Maxlocks" "lock_step (lock_view n l S) (lock_view n l S')"
  shows "follows n S S'"
proof -
  have ok: "\<forall>j<n. proc_ok n S j" using assms(1) by (simp add: sys_inv_def)
  have a: "acts (host_of (set_chan q p ms S) p) gs t" using assms(5) by simp
  have "stack_ok t" "thread_ok (threads S p) t"
    using ok assms(2) same_stack_held(2,3) [OF assms(6)] by (simp_all add: proc_ok_def)
  moreover have "queue_ok l' t" if "l' < Maxlocks" for l'
    using ok assms(2,10) same_queues_at(2) [OF assms(9) that] that by (cases "l' = l") (auto simp: proc_ok_def)
  moreover have "way_ok n p (topid g) g" if "g \<in> set gs" for g
    using assms(7) [OF that] assms(12) grant_msg_is(3) by (auto simp: way_ok_def)
  ultimately have "proc_ok n S' j" if "j < n" for j
    using proc_ok_change [OF assms(4) a _ that] proc_ok_take [OF assms(3) ok] by blast
  moreover have "lock_view n l' S' = lock_view n l' S" if "l' \<noteq> l" "l' < Maxlocks" for l'
  proof -
    have "lock_view n l' S' = lock_view n l' (set_chan q p ms S)"
    proof (rule view_same [OF assms(4) a assms(2)])
      show "\<not> asks_for l' g \<and> (\<forall>q. \<not> grant_msg l' q g)" if "g \<in> set gs" for g
        using assms(7) [OF that] grant_msg_is \<open>l' \<noteq> l\<close> by blast
      show "client_of l' (threads S p) t = client_of l' (threads (set_chan q p ms S) p) (host_of (set_chan q p ms S) p)"
        using assms(11) [OF that(1)] same_stack_held(1) [OF assms(6)] by (auto simp: client_of_def)
    qed (use same_queues_at(1) [OF assms(9)] that in simp)
    also have "\<dots> = lock_view n l' S" by (rule view_take_other [OF assms(3) assms(8) [OF that(1)]])
    finally show ?thesis .
  qed
  ultimately show ?thesis using assms(13) unfolding follows_def by metis
qed

lemma view_served:
  assumes "host_change p (threads S p) t (set_chan q p ms S) S'" "acts (host_of S p) gs t" "p < n"
    "\<forall>g\<in>set gs. \<exists>h. grant_msg l h g" "p = l mod n"
    "client_of l (threads S p) t = client_of l (threads S p) (host_of S p)"
  shows "lock_view n l S' = (lock_view n l (set_chan q p ms S))\<lparr>queue_of := lock_queue l t,
     granting := \<lambda>h. granting (lock_view n l (set_chan q p ms S)) h + (if h < n then length (filter (grant_msg l h) gs) else 0)\<rparr>"
proof -
  have "filter (\<lambda>m. asks_for l m \<and> topid m = l mod n) gs = []"
    using assms(4) grant_msg_is(1) by (fastforce simp: filter_empty_conv)
  moreover have "acts (host_of (set_chan q p ms S) p) gs t" using assms(2) by simp
  moreover have "client (lock_view n l (set_chan q p ms S)) p = client_of l (threads S p) t"
    using assms(3,6) by (simp add: lock_view_def)
  ultimately show ?thesis
    using view_change [OF assms(1) _ assms(3) refl, of gs l] assms(5) by (simp add: fun_upd_idem)
qed

lemma serve_silent_follows:
  assumes "sys_inv n S" "p < n" "chan S q p = m # ms" "\<not> lock_op m" "msg_handle mc rnds m (procs S p) = Inr P"
    "host_change p (threads S p) (p_host P) (set_chan q p ms S) S'"
  shows "follows n S S'"
proof -
  have ok: "\<forall>j<n. proc_ok n S j" using assms(1) by (simp add: sys_inv_def)
  have d: "diff_slots (host_of S p)" using ok assms(2) by (simp add: proc_ok_def)
  have t: "silent (host_of S p) (p_host P)"
    by (rule ensuresD [OF msg_handle_silent [OF d assms(4)] assms(5)])
  then have a: "acts (host_of (set_chan q p ms S) p) [] (p_host P)" by (simp add: silent_def)
  note st = silent_stack [OF t]
  have "stack_ok (p_host P)" "thread_ok (threads S p) (p_host P)"
    using ok assms(2) same_stack_held(2,3) [OF st] by (simp_all add: proc_ok_def)
  moreover have "queue_ok l (p_host P)" if "l < Maxlocks" for l
    using ok assms(2) same_queues_at(2) [OF silent_queues [OF t] that] that by (simp add: proc_ok_def)
  ultimately have "proc_ok n S' j" if "j < n" for j
    using proc_ok_change [OF assms(6) a _ that] proc_ok_take [OF assms(3) ok] by simp
  moreover have "lock_view n l S' = lock_view n l S" if "l < Maxlocks" for l
  proof -
    have "lock_view n l S' = lock_view n l (set_chan q p ms S)"
      by (rule view_same [OF assms(6) a assms(2)])
        (use t same_queues_at(1) [OF silent_queues [OF t] that] same_stack_held(1) [OF st] in \<open>auto simp: client_of_def silent_def\<close>)
    also have "\<dots> = lock_view n l S" by (rule view_take_other [OF assms(3)]) (use assms(4) in simp)
    finally show ?thesis .
  qed
  ultimately show ?thesis by (simp add: follows_def)
qed

lemma serve_acq_follows:
  assumes "sys_inv n S" "p < n" "q < n" "chan S q p = m # ms" "acqserver m (host_of S p) = Inr t"
    "host_change p (threads S p) t (set_chan q p ms S) S'" "request_msg ACQ l q p m" "p = l mod n" "l < Maxlocks"
  shows "follows n S S'"
proof -
  have ok: "\<forall>j<n. proc_ok n S j" using assms(1) by (simp add: sys_inv_def)
  have d: "diff_slots (host_of S p)" using ok assms(2) by (simp add: proc_ok_def)
  have m: "msg_lock m = int l" "frompid m = q" using assms(7) by (simp_all add: request_msg_def)
  note r = request_msg_is [OF assms(7)]
  obtain gs where g: "acts (host_of S p) gs t" "same_stack (host_of S p) t" "acqwait t = acqwait (host_of S p)"
    "same_queues {l} (host_of S p) t" "lock_queue l t = lock_queue l (host_of S p) @ [q]"
    "if lock_queue l (host_of S p) = [] then \<exists>g. gs = [g] \<and> grant_msg l q g else gs = []"
    and go: "queue_ok l (host_of S p) \<longrightarrow> queue_ok l t"
    using acqserver_acts [OF d assms(5) m(1) assms(9)] m(2) by blast
  let ?V = "lock_view n l S"
  have take: "asked ?V q = Asks # tl (asked ?V q)"
    "lock_view n l (set_chan q p ms S) = ?V\<lparr>asked := (asked ?V)(q := tl (asked ?V q))\<rparr>"
    using view_take_request [OF assms(4,3) r(6) _ assms(8) r(2) refl] r(1,3) by auto
  have c: "client_of l (threads S p) t = client_of l (threads S p) (host_of S p)"
    using g(3) same_stack_held(1) [OF g(2)] by (simp add: client_of_def)
  have q: "queue_of ?V = lock_queue l (host_of S p)" using assms(8) by (simp add: lock_view_def)
  have n: "length (filter (grant_msg l h) gs) = (if queue_of ?V = [] \<and> h = q then 1 else 0)" for h
    using g(6) grant_msg_is by (auto simp: q split: if_splits)
  have gr: "\<forall>x\<in>set gs. \<exists>h. grant_msg l h x" using g(6) by (auto split: if_splits)
  have "lock_view n l S' = take_ask q ?V"
    unfolding view_served [OF assms(6) g(1) assms(2) gr assms(8) c] take(2) n g(5) q [symmetric]
    using assms(3) by (auto simp: take_ask_def Let_def grant_head_def fun_eq_iff)
  then have "lock_step ?V (lock_view n l S')" using lock_step.TakeAsk take(1) by metis
  then show ?thesis
    by (rule serve_follows_by [OF assms(1,2,4,6) g(1,2) _ _ _ _ _ assms(9), rotated -1])
      (use g go r assms(8) in \<open>auto split: if_splits\<close>)
qed

lemma view_members:
  assumes "lock_ok (lock_view n l S)" "h \<in> set (queue_of (lock_view n l S))"
  shows "h < n"
proof (rule ccontr)
  assume "\<not> h < n"
  then have "client (lock_view n l S) h = Out" "asked (lock_view n l S) h = []" by (simp_all add: lock_view_def)
  then show False using lock_okD [OF assms(1), of h] assms(2) by simp
qed

lemma serve_rel_follows:
  assumes "sys_inv n S" "p < n" "q < n" "chan S q p = m # ms" "relserver m (host_of S p) = Inr t"
    "host_change p (threads S p) t (set_chan q p ms S) S'" "request_msg REL l q p m" "p = l mod n" "l < Maxlocks"
  shows "follows n S S'"
proof -
  let ?V = "lock_view n l S"
  have ok: "\<forall>j<n. proc_ok n S j" "lock_ok ?V" using assms(1,9) by (simp_all add: sys_inv_def)
  have d: "diff_slots (host_of S p)" using ok assms(2) by (simp add: proc_ok_def)
  have m: "msg_lock m = int l" "frompid m = q" using assms(7) by (simp_all add: request_msg_def)
  note r = request_msg_is [OF assms(7)]
  have take: "asked ?V q = Releases # tl (asked ?V q)"
    "lock_view n l (set_chan q p ms S) = ?V\<lparr>asked := (asked ?V)(q := tl (asked ?V q))\<rparr>"
    using view_take_request [OF assms(4,3) r(6) _ assms(8) r(2) refl] r(1,3) by auto
  obtain ps where ps: "queue_of ?V = q # ps" using lock_ok_releases [OF ok(2) take(1)] by blast
  have q: "lock_queue l (host_of S p) = q # ps" using ps assms(8) by (simp add: lock_view_def)
  obtain gs where g: "acts (host_of S p) gs t" "same_stack (host_of S p) t" "acqwait t = acqwait (host_of S p)"
    "same_queues {l} (host_of S p) t" "lock_queue l t = ps"
    "case ps of [] \<Rightarrow> gs = [] | h # hs \<Rightarrow> \<exists>g. gs = [g] \<and> grant_msg l h g"
    and go: "queue_ok l (host_of S p) \<longrightarrow> queue_ok l t"
    using relserver_acts [OF d assms(5) m(1) assms(9) q] by blast
  have c: "client_of l (threads S p) t = client_of l (threads S p) (host_of S p)"
    using g(3) same_stack_held(1) [OF g(2)] by (simp add: client_of_def)
  have n: "length (filter (grant_msg l h) gs) = (if at_head h ps then 1 else 0)" for h
    using g(6) grant_msg_is by (auto split: list.splits)
  have gr: "\<forall>x\<in>set gs. \<exists>h. grant_msg l h x" using g(6) by (auto split: list.splits)
  have hd: "h < n" if "at_head h ps" for h
    by (rule view_members [OF ok(2)]) (use ps at_head_in [OF that] in simp)
  have "lock_view n l S' = take_release q ?V"
    unfolding view_served [OF assms(6) g(1) assms(2) gr assms(8) c] take(2) n g(5)
    using hd by (cases ps) (auto simp: take_release_def grant_head_def fun_eq_iff ps)
  then have "lock_step ?V (lock_view n l S')" using lock_step.TakeRelease take(1) ps by metis
  then show ?thesis
    by (rule serve_follows_by [OF assms(1,2,4,6) g(1,2) _ _ _ _ _ assms(9), rotated -1])
      (use g go r assms(8) gr in auto)
qed

lemma serve_grant_follows:
  assumes "sys_inv n S" "p < n" "chan S q p = m # ms" "acqgrantserver m (host_of S p) = Inr t"
    "host_change p (threads S p) t (set_chan q p ms S) S'" "grant_msg l p m" "q = l mod n" "l < Maxlocks"
  shows "follows n S S'"
proof -
  let ?V = "lock_view n l S"
  have ok: "\<forall>j<n. proc_ok n S j" "lock_ok ?V" using assms(1,8) by (simp_all add: sys_inv_def)
  have d: "diff_slots (host_of S p)" using ok assms(2) by (simp add: proc_ok_def)
  note r = grant_msg_is [OF assms(6)] and g = acqgrantserver_acts [OF d assms(4)]
  have take: "0 < granting ?V p" "lock_view n l (set_chan q p ms S) = ?V\<lparr>granting := (granting ?V)(p := granting ?V p - 1)\<rparr>"
    using view_take_grant [OF assms(3,2) r(4,1) assms(7,6) refl] by auto
  have "client ?V p = Waits" by (rule lock_ok_grant [OF ok(2) take(1)])
  then have k: "threads S p = AtLockGrant l"
    using client_view [OF assms(2), of l S] by (simp add: client_of_def split: if_splits)
  have a: "acts (host_of (set_chan q p ms S) p) [] t" using g(1) by simp
  have q: "queue_of ?V = lock_queue l t" if "l mod n = p"
    using same_queues_at(1) [OF g(4) assms(8)] that by (simp add: lock_view_def)
  have "lock_view n l S' = ?V\<lparr>granting := (granting ?V)(p := granting ?V p - 1), client := (client ?V)(p := Granted)\<rparr>"
    unfolding view_change [OF assms(5) a assms(2) refl] take(2)
    using k g(3) q by (auto simp: client_of_def fun_eq_iff)
  then have "lock_step ?V (lock_view n l S')" using lock_step.Grant take(1) by metis
  then show ?thesis
    by (rule serve_follows_by [OF assms(1,2,3,5) g(1,2) _ _ _ _ _ assms(8), rotated -1])
      (use g r assms(8) k same_queues_at(2) [OF g(4) assms(8)] in \<open>auto simp: same_queues_def\<close>)
qed

lemma serve_follows:
  assumes "sys_inv n S" "p < n" "q < n" "chan S q p = m # ms" "msg_handle mc rnds m (procs S p) = Inr P"
    "S' = set_chan q p ms (S\<lparr>procs := (procs S)(p := P)\<rparr>)"
  shows "follows n S S'"
proof -
  have h: "host_change p (threads S p) (p_host P) (set_chan q p ms S) S'"
    by (auto simp: assms(6) host_change_def set_chan_def)
  have b: "f (host_of S p) = Inr (p_host P)" if "msg_handle mc rnds m = on_host f" for f
    using assms(5) that by (auto simp: on_host_def)
  show ?thesis
  proof (cases "lock_op m")
    case False
    then show ?thesis by (rule serve_silent_follows [OF assms(1,2,4) _ assms(5) h])
  next
    case True
    then have "way_ok n q p m" using way_ok_take [OF assms(4)] assms(1,3) by (simp add: sys_inv_def)
    then consider l where "l < Maxlocks" "request_msg ACQ l q p m" "p = l mod n"
      | l where "l < Maxlocks" "request_msg REL l q p m" "p = l mod n"
      | l where "l < Maxlocks" "grant_msg l p m" "q = l mod n"
      by (auto simp: way_ok_def)
    then show ?thesis
    proof cases
      case 1
      then have "is_op m ACQ" by (simp add: request_msg_def)
      then show ?thesis by (intro serve_acq_follows [OF assms(1-4) _ h 1(2,3,1)] b msg_handle_lock)
    next
      case 2
      then have "is_op m REL" by (simp add: request_msg_def)
      then show ?thesis by (intro serve_rel_follows [OF assms(1-4) _ h 2(2,3,1)] b msg_handle_lock)
    next
      case 3
      then have "is_op m ACQGRANT" by (simp add: grant_msg_def)
      then show ?thesis by (intro serve_grant_follows [OF assms(1,2,4) _ h 3(2,3,1)] b msg_handle_lock)
    qed
  qed
qed

lemma sys_step_follows:
  assumes "sys_step mc n S S'" "sys_inv n S"
  shows "follows n S S'"
  using assms(1)
proof cases
  case (Send p m ms)
  show ?thesis by (rule send_follows [OF assms(2) Send(2,3,1)])
next
  case (Serve p q m ms rnds P)
  show ?thesis by (rule serve_follows [OF assms(2) Serve(2-5,1)])
next
  case (Thread p k P)
  have "host_change p k (p_host P) S S'" by (auto simp: Thread(1) host_change_def)
  then show ?thesis by (rule thread_follows [OF assms(2) Thread(2,3)])
qed

lemma sys_run_inv: "(sys_step mc n)\<^sup>*\<^sup>* S S' \<Longrightarrow> sys_inv n S \<Longrightarrow> sys_inv n S'"
  by (induction rule: rtranclp_induct) (auto dest: sys_step_follows follows_inv)

text \<open>The system of processes refines the protocol: each of its runs is a run of the protocol of every lock.\<close>

lemma sys_run_refines:
  assumes "(sys_step mc n)\<^sup>*\<^sup>* S S'" "sys_inv n S" "l < Maxlocks"
  shows "lock_step\<^sup>*\<^sup>* (lock_view n l S) (lock_view n l S')"
  using assms(1)
proof (induction rule: rtranclp_induct)
  case (step T U)
  have "sys_inv n T" by (rule sys_run_inv [OF step(1) assms(2)])
  then have "lock_view n l U = lock_view n l T \<or> lock_step (lock_view n l T) (lock_view n l U)"
    using sys_step_follows [OF step(2)] assms(3) by (simp add: follows_def)
  then show ?case using step(3) by (auto intro: rtranclp.rtrancl_into_rtrancl)
qed simp

lemma sys_exclusion:
  assumes "sys_start n S" "(sys_step mc n)\<^sup>*\<^sup>* S S'" "l < Maxlocks" "p < n" "q < n"
    "l \<in> held (host_of S' p)" "l \<in> held (host_of S' q)"
  shows "p = q"
proof -
  have i: "sys_inv n S'" by (rule sys_run_inv [OF assms(2) sys_start_inv [OF assms(1)]])
  then have "lock_ok (lock_view n l S')" using assms(3) by (simp add: sys_inv_def)
  moreover have "client (lock_view n l S') r \<in> {Granted, Holds}" if "r < n" "l \<in> held (host_of S' r)" for r
  proof -
    have "thread_ok (threads S' r) (host_of S' r)" using i that(1) by (simp add: sys_inv_def proc_ok_def)
    then show ?thesis using that by (auto simp: client_view client_of_def)
  qed
  ultimately show ?thesis using lock_ok_excludes assms(4-7) by blast
qed

section \<open>What the servers do with the next message\<close>

text \<open>
  The message that a process takes next from another, and the process that takes it: a request is in
  a queue that has room, a release comes from the head of the queue, a grant to a waiting process.
\<close>

lemma sys_next_message:
  assumes "sys_inv n S" "n \<le> Maxhosts" "p < n" "q < n" "chan S q p = m # ms" "lock_op m"
  obtains (request) l where "l < Maxlocks" "request_msg ACQ l q p m" "home_of (host_of S p) (int l)"
      "acqc (locks (host_of S p) l) = int (length (lock_queue l (host_of S p)))" "length (lock_queue l (host_of S p)) < Maxhosts"
    | (release) l qs where "l < Maxlocks" "request_msg REL l q p m" "home_of (host_of S p) (int l)"
      "acqc (locks (host_of S p) l) = int (length (lock_queue l (host_of S p)))" "lock_queue l (host_of S p) = q # qs"
      "acqs (locks (host_of S p) l) 0 = int q"
    | (grant) l where "l < Maxlocks" "grant_msg l p m" "threads S p = AtLockGrant l" "acqwait (host_of S p) \<noteq> 0"
proof -
  let ?s = "host_of S p"
  have p: "jia_pid ?s = p" "hostc ?s = n" "\<And>l. l < Maxlocks \<Longrightarrow> queue_ok l ?s"
    using assms(1,3) by (auto simp: sys_inv_def proc_ok_def)
  have "way_ok n q p m" using way_ok_take [OF assms(5) _ assms(6)] assms(1,4) by (simp add: sys_inv_def)
  then obtain l where l: "l < Maxlocks" and w: "request_msg ACQ l q p m \<and> p = l mod n \<or> request_msg REL l q p m \<and> p = l mod n \<or>
      grant_msg l p m \<and> q = l mod n" by (auto simp: way_ok_def)
  let ?V = "lock_view n l S"
  have ok: "lock_ok ?V" using assms(1) l by (simp add: sys_inv_def)
  have q: "queue_of ?V = lock_queue l ?s" "home_of ?s (int l)" if "p = l mod n"
    using that p(1,2) by (simp_all add: lock_view_def home_of_def)
  have c: "acqc (locks ?s l) = int (length (lock_queue l ?s))"
    using p(3) [OF l] lock_queue_length [of l ?s] by (simp add: queue_ok_def)
  from w show thesis
  proof (elim disjE conjE)
    assume a: "request_msg ACQ l q p m" "p = l mod n"
    note r = request_msg_is [OF a(1)]
    have "asked ?V q = Asks # tl (asked ?V q)"
      using view_take_request(1) [OF assms(5,4) r(6) _ a(2) r(2) refl] r(1,3) by auto
    then have "q \<notin> set (queue_of ?V)" using lock_okD [OF ok, of q] place_asks by metis
    moreover have "distinct (queue_of ?V)" using ok by (simp add: lock_ok_def)
    moreover have "set (queue_of ?V) \<subseteq> {..<n}" using view_members [OF ok] by blast
    ultimately have "distinct (q # queue_of ?V)" "set (q # queue_of ?V) \<subseteq> {..<n}" using assms(4) by auto
    then have "length (q # queue_of ?V) \<le> n" using distinct_card card_mono by (metis card_lessThan finite_lessThan)
    then show thesis using request [OF l a(1) q(2) [OF a(2)] c] q(1) [OF a(2)] assms(2) by simp
  next
    assume a: "request_msg REL l q p m" "p = l mod n"
    note r = request_msg_is [OF a(1)]
    have "asked ?V q = Releases # tl (asked ?V q)"
      using view_take_request(1) [OF assms(5,4) r(6) _ a(2) r(2) refl] r(1,3) by auto
    from lock_ok_releases [OF ok this] obtain ps where ps: "lock_queue l ?s = q # ps" using q(1) [OF a(2)] by auto
    have pos: "0 < acqc (locks ?s l)" using c ps by simp
    have "lock_queue l ?s ! 0 = nat (acqs (locks ?s l) 0)" using pos by (simp add: lock_queue_def)
    then have "nat (acqs (locks ?s l) 0) = q" using ps by simp
    moreover have "0 \<le> acqs (locks ?s l) 0" using p(3) [OF l] pos by (simp add: queue_ok_def)
    ultimately show thesis using release [OF l a(1) q(2) [OF a(2)] c ps] by simp
  next
    assume a: "grant_msg l p m" "q = l mod n"
    note r = grant_msg_is [OF a(1)]
    have "client ?V p = Waits"
      by (rule lock_ok_grant [OF ok]) (use view_take_grant(1) [OF assms(5,3) r(4,1) a(2,1) refl] in simp)
    then have "threads S p = AtLockGrant l" "acqwait ?s \<noteq> 0"
      using client_view [OF assms(3), of l S] by (auto simp: client_of_def split: if_splits)
    then show thesis by (rule grant [OF l a(1)])
  qed
qed

text \<open>The servers at such messages.\<close>

lemma acqserver_at_room:
  assumes "request_msg ACQ l q (jia_pid s) m" "l < Maxlocks" "home_of s (int l)"
    "acqc (locks s l) = int (length (lock_queue l s))" "length (lock_queue l s) < Maxhosts"
  shows "acqserver m s =
    (let k = length (lock_queue l s);
         t = upd_lock l (\<lambda>j. j\<lparr>acqs := (acqs j)(k := int q), acqscope := (acqscope j)(k := scope m), acqc := acqc j + 1\<rparr>) s
     in if lock_queue l s = [] then grantlock l q (scope m) t else Inr t)"
proof -
  have m: "is_op m ACQ" "topid m = jia_pid s" "msg_lock m = int l" "frompid m = q" using assms(1) by (simp_all add: request_msg_def)
  have "lock_at s (int l) = Inr l" using assms(2) by (simp add: lock_at_def)
  then show ?thesis
    using assms(3-5) unfolding acqserver_def m(3)
    by (simp add: m Let_def grant_first_acq_def) (simp add: upd_lock_def)
qed

lemma relserver_at_head:
  assumes "diff_slots s" "request_msg REL l q (jia_pid s) m" "l < Maxlocks" "home_of s (int l)" "lock_queue l s = q # qs"
    "acqc (locks s l) = int (length (lock_queue l s))" "acqs (locks s l) 0 = int q"
  shows "relserver m s =
    bindE (recordwtnts m (if myscope (locks s hidelock) < scope m then s\<lparr>noclearlocks := 1\<rparr> else s)) (\<lambda>t.
      let u = upd_lock l (\<lambda>j. j\<lparr>lscope := lscope j + 1,
             acqs := (\<lambda>i. if i < length qs then acqs j (i + 1) else acqs j i),
             acqscope := (\<lambda>i. if i < length qs then acqscope j (i + 1) else acqscope j i), acqc := int (length qs)\<rparr>) t
      in case qs of [] \<Rightarrow> Inr u | h # _ \<Rightarrow> grantlock l h (acqscope (locks t l) 1) u)"
proof -
  let ?s0 = "if scope m > myscope (locks s hidelock) then s\<lparr>noclearlocks := 1\<rparr> else s"
  have m: "is_op m REL" "topid m = jia_pid s" "msg_lock m = int l" "frompid m = q" using assms(2) by (simp_all add: request_msg_def)
  have la: "lock_at s (int l) = Inr l" using assms(3) by (simp add: lock_at_def)
  have s0: "silent s ?s0" using silent_refl [OF assms(1)] by (cases "scope m > myscope (locks s hidelock)") simp_all
  have c: "acqc (locks s l) = int (Suc (length qs))" using assms(5,6) by simp
  have n: "nat (acqc (locks s l)) = Suc (length qs)" using c by simp
  have "map (\<lambda>i. nat (acqs (locks s l) (Suc i))) [0..<length qs] = qs"
    using assms(5) unfolding lock_queue_def n by (simp add: map_upt_Suc del: upt_Suc)
  then have h: "nat (acqs (locks s l) 1) = hd qs" if "qs \<noteq> []"
    using that by (cases qs) (auto simp: map_upt_Suc simp del: upt_Suc)
  let ?shift = "\<lambda>k. k\<lparr>lscope := lscope k + 1,
     acqs := (\<lambda>i. if int i < acqc k - 1 then acqs k (i + 1) else acqs k i),
     acqscope := (\<lambda>i. if int i < acqc k - 1 then acqscope k (i + 1) else acqscope k i),
     acqc := acqc k - 1\<rparr>"
  let ?next = "\<lambda>u. if 0 < acqc (locks u l) then grant_first_acq l u else Inr u"
  have run: "relserver m s = bindE (recordwtnts m ?s0) (\<lambda>t. ?next (upd_lock l ?shift t))"
    using la assms(4,7) unfolding relserver_def m(3) by (simp add: m(1,2,4) Let_def)
  show ?thesis
  proof (cases "recordwtnts m ?s0")
    case (Inl e)
    then show ?thesis unfolding run by simp
  next
    case (Inr t)
    have "silent s t" by (rule ensuresD [OF lv.recordwtnts_quiet [OF s0] Inr])
    then have k: "acqs (locks t l) = acqs (locks s l)" "acqc (locks t l) = int (Suc (length qs))"
      using assms(3) c by (auto simp: silent_def)
    let ?u = "upd_lock l (\<lambda>j. j\<lparr>lscope := lscope j + 1,
      acqs := (\<lambda>i. if i < length qs then acqs j (i + 1) else acqs j i),
      acqscope := (\<lambda>i. if i < length qs then acqscope j (i + 1) else acqscope j i), acqc := int (length qs)\<rparr>) t"
    have u: "upd_lock l ?shift t = ?u" by (simp add: upd_lock_def k(2))
    have "?next ?u = (case qs of [] \<Rightarrow> Inr ?u | h # _ \<Rightarrow> grantlock l h (acqscope (locks t l) 1) ?u)"
    proof (cases qs)
      case Nil
      then show ?thesis by (simp add: upd_lock_def)
    next
      case (Cons g gs)
      have "nat (acqs (locks ?u l) 0) = g" "acqscope (locks ?u l) 0 = acqscope (locks t l) 1"
        using h k(1) Cons by (simp_all add: upd_lock_def)
      then show ?thesis using Cons by (simp add: grant_first_acq_def) (simp add: upd_lock_def)
    qed
    then show ?thesis unfolding run Inr by (simp only: bindE_Inr u Let_def)
  qed
qed

lemma acqgrantserver_at_waiting:
  assumes "grant_msg l (jia_pid s) m" "l < Maxlocks"
  shows "acqgrantserver m s = bindE (invalidate m s) (\<lambda>t. Inr (upd_lock l (\<lambda>j. j\<lparr>myscope := scope m\<rparr>) t\<lparr>acqwait := 0\<rparr>))"
  using assms by (cases "invalidate m s") (simp_all add: acqgrantserver_def grant_msg_def lock_at_def)

section \<open>The start of the system\<close>

text \<open>A process that comes out of \<open>jia_init\<close> is fresh.\<close>

lemma jia_init_fresh:
  assumes "init_setting conf hosts ifs system_setting = Inr (0, st)" "set_comm st = UDP" "set_hostc st < Maxhosts"
    "jia_init rdma fa junk port conf hosts ifs (static_proc bufs ld) = Inr p"
  shows "fresh_host (set_hostc st) (set_pid st) (p_host p)"
proof -
  have st: "set_hostc st \<noteq> 0"
    using init_setting_run(1) [OF assms(1)] by (simp add: setting_ok_def system_setting_def)
  obtain s where p: "initmem (set_host st static_host) = Inr s"
    "p_host p = inittools st (init_msg_buffer (set_buffer_size st) (set_buffer_size st)
      (init_msg_buffer (set_buffer_size st) (set_buffer_size st) (initsyn s)))"
    using jia_init_run [OF assms(1) st assms(2,3), of rdma fa junk port bufs ld] assms(4) by auto
  have "jia_pid s = set_pid st" "hostc s = set_hostc st" "outq s = []" "diffmsg s = Map.empty"
    using p(1) by (auto simp: initmem_def set_host_def static_host_def)
  then show ?thesis
    unfolding p(2) by (simp add: fresh_host_def diff_slots_def)
      (simp add: inittools_def init_msg_buffer_def Let_def initsyn_def Maxstacksize_def)
qed

section \<open>A run\<close>

text \<open>Two processes; process 1 asks for lock 0, which process 0 manages, and enters.\<close>

definition duo_host :: "nat \<Rightarrow> host" where
  "duo_host p = init_msg_buffer 4 4 (initsyn (static_host\<lparr>jia_pid := p, hostc := 2\<rparr>))"

definition duo :: "u32 loads \<Rightarrow> host \<Rightarrow> host \<Rightarrow> thread \<Rightarrow> jia_msg list \<Rightarrow> jia_msg list \<Rightarrow> u32 system" where
  "duo ld s t k out back = \<lparr>procs = (\<lambda>_. static_proc [] ld)(0 := (static_proc [] ld)\<lparr>p_host := s\<rparr>, 1 := (static_proc [] ld)\<lparr>p_host := t\<rparr>),
     threads = (\<lambda>_. Running)(1 := k),
     chan = (\<lambda>p q. if p = 1 \<and> q = 0 then out else if p = 0 \<and> q = 1 then back else [])\<rparr>"

lemma idle_interval:
  assumes "diffmsg s = Map.empty" "home_pages s = 0" "\<And>i. c_wtnt (cache s i) = 0"
  shows "endinterval_send x s = Inr s" "startinterval x s = Inr s"
proof -
  have "foldE (\<lambda>ci s. if c_wtnt (cache s ci) = 1 then savepage ci s else Inr s) xs s = Inr s"
    "foldE clean_cache xs s = Inr s" for xs
    by (induction xs) (simp_all add: assms(3) clean_cache_def)
  moreover have "fold send_diff hs s = s" for hs
    by (induction hs) (simp_all add: assms(1) send_diff_def)
  then have "senddiffs s = s" by (simp add: senddiffs_def)
  ultimately show "endinterval_send x s = Inr s" "startinterval x s = Inr s"
    by (simp_all add: endinterval_send_def startinterval_def assms(2))
qed


lemma duo_fields [simp]:
  "host_of (duo ld s t k out back) 0 = s" "host_of (duo ld s t k out back) 1 = t" "threads (duo ld s t k out back) 1 = k"
  "chan (duo ld s t k out back) 1 0 = out" "chan (duo ld s t k out back) 0 1 = back"
  "set_host_of 0 s' (duo ld s t k out back) = duo ld s' t k out back"
  "set_host_of 1 t' (duo ld s t k out back) = duo ld s t' k out back"
  "set_chan 1 0 ms (duo ld s t k out back) = duo ld s t k ms back"
  "set_chan 0 1 ms (duo ld s t k out back) = duo ld s t k out ms"
  "duo ld s t k out back\<lparr>threads := (threads (duo ld s t k out back))(1 := k')\<rparr> = duo ld s t k' out back"
  by (auto simp: duo_def set_host_of_def set_chan_def fun_eq_iff)

lemma set_host_fold: "S\<lparr>procs := (procs S)(p := (procs S p)\<lparr>p_host := s'\<rparr>)\<rparr> = set_host_of p s' S"
  by (simp add: set_host_of_def)

lemma duo_thread: "duo ld s t k' out back\<lparr>procs := (procs (duo ld s t k out back))
    (1 := (procs (duo ld s t k out back) 1)\<lparr>p_host := t'\<rparr>)\<rparr> = duo ld s t' k' out back"
  by (simp add: duo_def fun_eq_iff)

lemma duo_steps:
  "user_step (k, t) (k', t') \<Longrightarrow> sys_step mc 2 (duo ld s t k out back) (duo ld s t' k' out back)"
  "outq t = m # ms \<Longrightarrow> topid m = 0 \<Longrightarrow> sys_step mc 2 (duo ld s t k out back) (duo ld s (t\<lparr>outq := ms\<rparr>) k (out @ [m]) back)"
  "outq s = m # ms \<Longrightarrow> topid m = 1 \<Longrightarrow> sys_step mc 2 (duo ld s t k out back) (duo ld (s\<lparr>outq := ms\<rparr>) t k out (back @ [m]))"
  "acqserver m s = Inr s' \<Longrightarrow> is_op m ACQ \<Longrightarrow> sys_step mc 2 (duo ld s t k (m # out) back) (duo ld s' t k out back)"
  "acqgrantserver m t = Inr t' \<Longrightarrow> is_op m ACQGRANT \<Longrightarrow> sys_step mc 2 (duo ld s t k out (m # back)) (duo ld s t' k out back)"
proof -
  show "user_step (k, t) (k', t') \<Longrightarrow> sys_step mc 2 (duo ld s t k out back) (duo ld s t' k' out back)"
    using sys_step.Thread [of 1 2 mc "duo ld s t k out back" k' "(procs (duo ld s t k out back) 1)\<lparr>p_host := t'\<rparr>"]
      proc_step.OnHost [of k "procs (duo ld s t k out back) 1" k' t' mc]
    by (simp add: duo_thread del: One_nat_def)
  show "outq t = m # ms \<Longrightarrow> topid m = 0 \<Longrightarrow> sys_step mc 2 (duo ld s t k out back) (duo ld s (t\<lparr>outq := ms\<rparr>) k (out @ [m]) back)"
    using sys_step.Send [of 1 2 "duo ld s t k out back" m ms mc] by (simp del: One_nat_def)
  show "outq s = m # ms \<Longrightarrow> topid m = 1 \<Longrightarrow> sys_step mc 2 (duo ld s t k out back) (duo ld (s\<lparr>outq := ms\<rparr>) t k out (back @ [m]))"
    using sys_step.Send [of 0 2 "duo ld s t k out back" m ms mc] by (simp del: One_nat_def)
  show "acqserver m s = Inr s' \<Longrightarrow> is_op m ACQ \<Longrightarrow> sys_step mc 2 (duo ld s t k (m # out) back) (duo ld s' t k out back)"
    using sys_step.Serve [of 0 2 1 "duo ld s t k (m # out) back" m out mc _ "(procs (duo ld s t k (m # out) back) 0)\<lparr>p_host := s'\<rparr>"]
    by (simp add: msg_handle_lock on_host_def set_host_fold del: One_nat_def)
  show "acqgrantserver m t = Inr t' \<Longrightarrow> is_op m ACQGRANT \<Longrightarrow> sys_step mc 2 (duo ld s t k out (m # back)) (duo ld s t' k out back)"
    using sys_step.Serve [of 1 2 0 "duo ld s t k out (m # back)" m "back" mc _ "(procs (duo ld s t k out (m # back)) 1)\<lparr>p_host := t'\<rparr>"]
    by (simp add: msg_handle_lock on_host_def set_host_fold del: One_nat_def)
qed

lemma duo_host_fields:
  "diffmsg (duo_host p) = Map.empty" "home_pages (duo_host p) = 0" "c_wtnt (cache (duo_host p) i) = 0"
  "mbuf_inv (duo_host p)" "0 < mcount (duo_host p)" "jia_pid (duo_host p) = p" "hostc (duo_host p) = 2"
  "outq (duo_host p) = []" "stackptr (duo_host p) = 0" "lockid (lockstack (duo_host p) 0) = hidelock"
  "l \<le> Maxlocks \<Longrightarrow> acqc (locks (duo_host p) l) = 0" "wtntp (locks (duo_host 0) 0) = newwtnt"
  by (simp_all add: duo_host_def init_msg_buffer_def Let_def initsyn_def static_host_def home_pages_def mbuf_inv_def
      free_slots_def Maxstacksize_def)

lemma duo_start: "sys_start 2 (duo ld (duo_host 0) (duo_host 1) Running [] [])"
  by (auto simp: sys_start_def duo_def fresh_host_def duo_host_fields diff_slots_def less_2_cases_iff Maxhosts_def)

lemma acquire_run:
  assumes "mbuf_inv s" "0 < mcount s" "l < Maxlocks"
  shows "\<exists>m b. acquire l s = Inr (s\<lparr>mbuf := b, outq := outq s @ [m]\<rparr>) \<and>
    request_msg ACQ l (jia_pid s) (l mod hostc s) m"
proof -
  let ?f = "\<lambda>req. appendmsg (req\<lparr>op := op_num ACQ, frompid := jia_pid s, topid := l mod hostc s,
     scope := myscope (locks s l), size := 0\<rparr>) (itob (word_of_nat l))"
  have l: "l < 2 ^ 31" using assms(3) by (simp add: Maxlocks_def)
  have "\<exists>m. ?f old = Inr m \<and> request_msg ACQ l (jia_pid s) (l mod hostc s) m" for old
  proof -
    have "\<exists>m. ?f old = Inr m" by (simp add: appendmsg_Inr msg_consts)
    then obtain m where m: "?f old = Inr m" by blast
    then show ?thesis using ensuresD [OF headed_first [OF l] m] by (auto simp: headed_def is_op_def request_msg_def)
  qed
  then have f: "\<And>old. \<exists>m. ?f old = Inr m \<and> request_msg ACQ l (jia_pid s) (l mod hostc s) m" .
  from with_slot_run [where f = ?f, OF assms(1,2) f] show ?thesis
    unfolding acquire_def by blast
qed

lemma acqserver_first:
  assumes "request_msg ACQ l q (jia_pid s) m" "l < Maxlocks" "l mod hostc s = jia_pid s" "acqc (locks s l) = 0"
    "mbuf_inv s" "0 < mcount s" "wtntp (locks s l) = newwtnt"
  shows "\<exists>g b. acqserver m s = Inr (upd_lock l (\<lambda>k. k\<lparr>acqs := (acqs k)(0 := int q), acqscope := (acqscope k)(0 := scope m), acqc := 1\<rparr>) s
       \<lparr>mbuf := b, outq := outq s @ [g]\<rparr>) \<and> is_op g ACQGRANT \<and> topid g = q \<and> msg_lock g = int l \<and> payload g = itob (word_of_nat l)"
proof -
  let ?s = "upd_lock l (\<lambda>k. k\<lparr>acqs := (acqs k)(0 := int q), acqscope := (acqscope k)(0 := scope m), acqc := 1\<rparr>) s"
  have m: "is_op m ACQ" "topid m = jia_pid s" "msg_lock m = int l" "frompid m = q" using assms(1) by (simp_all add: request_msg_def)
  have h: "home_of s (int l)" "lock_at s (int l) = Inr l" using assms(2,3) by (simp_all add: home_of_def lock_at_def)
  have run: "acqserver m s = grantlock l q (scope m) ?s"
    using m h assms(4) by (simp add: acqserver_def Let_def grant_first_acq_def upd_lock_def Maxhosts_def)
  have c: "concat (wtntp (locks ?s l)) = []" using assms(7) by (simp add: upd_lock_def newwtnt_def)
  have i: "mbuf_inv ?s" "0 < mcount ?s" "l < 2 ^ 31" using assms(2,5,6) by (simp_all add: mbuf_inv_def upd_lock_def Maxlocks_def)
  obtain g b where "grantlock l q (scope m) ?s = Inr (?s\<lparr>mbuf := b, outq := outq ?s @ [g]\<rparr>)" "is_op g ACQGRANT" "topid g = q"
    "msg_lock g = int l" "payload g = itob (word_of_nat l)"
    using grantlock_run [OF i, of q "scope m"] unfolding c by auto
  then show ?thesis unfolding run by (intro exI [of _ g] exI [of _ b]) (simp add: upd_lock_def)
qed

lemma acqgrantserver_empty:
  assumes "is_op g ACQGRANT" "topid g = jia_pid s" "msg_lock g = int l" "payload g = itob (word_of_nat l)" "l < Maxlocks"
  shows "acqgrantserver g s = Inr (upd_lock l (\<lambda>k. k\<lparr>myscope := scope g\<rparr>) s\<lparr>acqwait := 0\<rparr>)"
  using invalidate_entries [of g "word_of_nat l" "[]" s] assms by (simp add: acqgrantserver_def lock_at_def)


lemma duo_asks:
  "\<exists>m b. request_msg ACQ 0 1 0 m \<and> (sys_step mc 2)\<^sup>*\<^sup>* (duo ld (duo_host 0) (duo_host 1) Running [] [])
     (duo ld (duo_host 0) (duo_host 1\<lparr>acqwait := 1, mbuf := b, outq := []\<rparr>) (AtLockGrant 0) [m] [])"
proof -
  let ?s = "duo_host 0" and ?t = "duo_host 1"
  note d = duo_host_fields
  note idle = idle_interval [where s = ?t, OF d(1-3)]
  have "lock_begin 0 ?t = Inr ?t"
    by (simp add: lock_begin_def idle d(9,10) Maxlocks_def hidelock_def del: One_nat_def)
  from duo_steps(1) [OF user_step.Lock [OF this]]
  have r1: "sys_step mc 2 (duo ld ?s ?t Running [] []) (duo ld ?s ?t (AtLockDiffs 0) [] [])" .
  have "mbuf_inv (?t\<lparr>acqwait := 1\<rparr>)" "0 < mcount (?t\<lparr>acqwait := 1\<rparr>)" "0 < Maxlocks"
    using d(4,5) [of 1] by (simp_all add: mbuf_inv_def Maxlocks_def)
  from acquire_run [OF this] obtain m b where m:
    "lock_ask 0 ?t = Inr (?t\<lparr>acqwait := 1, mbuf := b, outq := [m]\<rparr>)" "request_msg ACQ 0 1 0 m"
    by (auto simp: lock_ask_def d)
  let ?t1 = "?t\<lparr>acqwait := 1, mbuf := b, outq := [m]\<rparr>"
  have "diffwait ?t = 0" by (simp add: duo_host_def init_msg_buffer_def Let_def initsyn_def static_host_def)
  from duo_steps(1) [OF user_step.LockAsk [OF this m(1)]]
  have r2: "sys_step mc 2 (duo ld ?s ?t (AtLockDiffs 0) [] []) (duo ld ?s ?t1 (AtLockGrant 0) [] [])" .
  let ?t2 = "?t1\<lparr>outq := []\<rparr>"
  have m': "topid m = 0" "is_op m ACQ" using m(2) by (simp_all add: request_msg_def)
  have r3: "sys_step mc 2 (duo ld ?s ?t1 (AtLockGrant 0) [] []) (duo ld ?s ?t2 (AtLockGrant 0) [m] [])"
    using duo_steps(2) [of ?t1 m "[]" mc ld ?s "AtLockGrant 0" "[]" "[]"] m'(1) by simp
  have "(sys_step mc 2)\<^sup>*\<^sup>* (duo ld ?s ?t Running [] []) (duo ld ?s ?t2 (AtLockGrant 0) [m] [])"
    by (rule converse_rtranclp_into_rtranclp, rule r1, rule converse_rtranclp_into_rtranclp, rule r2,
        rule r_into_rtranclp, rule r3)
  then show ?thesis using m(2) by (intro exI [of _ m] exI [of _ b]) simp
qed

lemma duo_run:
  "\<exists>s t. (sys_step mc 2)\<^sup>*\<^sup>* (duo ld (duo_host 0) (duo_host 1) Running [] []) (duo ld s t Running [] []) \<and>
     held t = {0} \<and> held s = {}"
proof -
  let ?s = "duo_host 0" and ?t = "duo_host 1"
  note d = duo_host_fields
  obtain m b where m: "request_msg ACQ 0 1 0 m" and r: "(sys_step mc 2)\<^sup>*\<^sup>* (duo ld ?s ?t Running [] [])
      (duo ld ?s (?t\<lparr>acqwait := 1, mbuf := b, outq := []\<rparr>) (AtLockGrant 0) [m] [])"
    using duo_asks by blast
  let ?t2 = "?t\<lparr>acqwait := 1, mbuf := b, outq := []\<rparr>"
  have m': "is_op m ACQ" using m by (simp add: request_msg_def)
  obtain g b' where g: "acqserver m ?s = Inr (upd_lock 0 (\<lambda>k. k\<lparr>acqs := (acqs k)(0 := int 1),
      acqscope := (acqscope k)(0 := scope m), acqc := 1\<rparr>) ?s\<lparr>mbuf := b', outq := [g]\<rparr>)"
    "is_op g ACQGRANT" "topid g = 1" "msg_lock g = int 0" "payload g = itob (word_of_nat 0)"
    using acqserver_first [of 0 1 ?s m] m d by (auto simp: Maxlocks_def)
  let ?s1 = "upd_lock 0 (\<lambda>k. k\<lparr>acqs := (acqs k)(0 := int 1),
      acqscope := (acqscope k)(0 := scope m), acqc := 1\<rparr>) ?s\<lparr>mbuf := b', outq := [g]\<rparr>"
  from duo_steps(4) [OF g(1) m']
  have r4: "sys_step mc 2 (duo ld ?s ?t2 (AtLockGrant 0) [m] []) (duo ld ?s1 ?t2 (AtLockGrant 0) [] [])" .
  let ?s2 = "?s1\<lparr>outq := []\<rparr>"
  have r5: "sys_step mc 2 (duo ld ?s1 ?t2 (AtLockGrant 0) [] []) (duo ld ?s2 ?t2 (AtLockGrant 0) [] [g])"
    using duo_steps(3) [of ?s1 g "[]" mc ld ?t2 "AtLockGrant 0" "[]" "[]"] g(3) by simp
  let ?t3 = "upd_lock 0 (\<lambda>k. k\<lparr>myscope := scope g\<rparr>) ?t2\<lparr>acqwait := 0\<rparr>"
  have "acqgrantserver g ?t2 = Inr ?t3"
    by (rule acqgrantserver_empty) (use g d in \<open>simp_all add: Maxlocks_def\<close>)
  from duo_steps(5) [OF this g(2)]
  have r6: "sys_step mc 2 (duo ld ?s2 ?t2 (AtLockGrant 0) [] [g]) (duo ld ?s2 ?t3 (AtLockGrant 0) [] [])" .
  have idle3: "startinterval ACQ ?t3 = Inr ?t3"
    by (rule idle_interval) (use d(1-3) [of 1] in \<open>simp_all add: upd_lock_def home_pages_def\<close>)
  let ?t4 = "?t3\<lparr>stackptr := 1, lockstack := (lockstack ?t3)(1 := (lockstack ?t3 1)\<lparr>lockid := 0\<rparr>)\<rparr>"
  have "lock_enter 0 ?t3 = Inr ?t4"
    unfolding lock_enter_def idle3 using d(9) [of 1]
    by (simp add: pushstack_def top_at_def Let_def upd_lock_def Maxstacksize_def)
  from duo_steps(1) [OF user_step.LockEnter [OF _ this]]
  have r7: "sys_step mc 2 (duo ld ?s2 ?t3 (AtLockGrant 0) [] []) (duo ld ?s2 ?t4 Running [] [])" by simp
  have "held ?t4 = {0}" "held ?s2 = {}" using d(9) by (simp_all add: held_def upd_lock_def)
  moreover have "(sys_step mc 2)\<^sup>*\<^sup>* (duo ld ?s ?t Running [] []) (duo ld ?s2 ?t4 Running [] [])"
    using r r4 r5 r6 r7 by (meson rtranclp.rtrancl_into_rtrancl)
  ultimately show ?thesis by blast
qed


section \<open>Refinement and mutual exclusion\<close>

text \<open>
  C1: The processes implement the protocol of locks. In every run of the whole system that starts
  with fresh processes, under any interleaving of the programs' threads, the server threads and the
  deliveries of the network, and whatever else the processes do, fault on pages, send diffs, wait at
  barriers and condition variables, allocate or exchange messages, the state of each lock, that is,
  its manager's queue, its messages on the way and where its clients are, is one that the protocol
  reaches from the free lock.
\<close>

theorem system_refines_protocol:
  assumes "sys_start n S" "(sys_step mc n)\<^sup>*\<^sup>* S T" "l < Maxlocks"
  shows "lock_step\<^sup>*\<^sup>* lock_free (lock_view n l T)"
  using sys_run_refines [OF assms(2) sys_start_inv [OF assms(1)] assms(3)]
  by (simp only: sys_start_view [OF assms(1,3)])

text \<open>
  C2: Mutual exclusion of the system. In every run of the whole system two processes never hold the
  same lock, where a process holds a lock from the end of its \<open>jia_lock\<close> until its \<open>jia_unlock\<close> has
  sent the release.
\<close>

theorem system_mutual_exclusion:
  assumes "sys_start n S" "(sys_step mc n)\<^sup>*\<^sup>* S T" "l < Maxlocks" "p < n" "q < n"
    "l \<in> held (host_of T p)" "l \<in> held (host_of T q)"
  shows "p = q"
  by (rule sys_exclusion [OF assms])

lemma system_refines_protocol_witness:
  "\<forall>ld mc. \<exists>T. (sys_step mc 2)\<^sup>*\<^sup>* (duo ld (duo_host 0) (duo_host 1) Running [] []) T \<and>
     client (lock_view 2 0 T) 1 = Holds \<and> lock_step\<^sup>*\<^sup>* lock_free (lock_view 2 0 T)"
proof (intro allI)
  fix ld mc
  obtain s t where r: "(sys_step mc 2)\<^sup>*\<^sup>* (duo ld (duo_host 0) (duo_host 1) Running [] []) (duo ld s t Running [] [])"
    "held t = {0}" using duo_run by blast
  have l: "0 < Maxlocks" by (simp add: Maxlocks_def)
  have "client (lock_view 2 0 (duo ld s t Running [] [])) 1 = Holds"
    using client_view [of 1 2 0 "duo ld s t Running [] []"] r(2) by (simp add: client_of_def del: One_nat_def)
  then show "\<exists>T. (sys_step mc 2)\<^sup>*\<^sup>* (duo ld (duo_host 0) (duo_host 1) Running [] []) T \<and>
     client (lock_view 2 0 T) 1 = Holds \<and> lock_step\<^sup>*\<^sup>* lock_free (lock_view 2 0 T)"
    using r(1) system_refines_protocol [OF duo_start r(1) l] by blast
qed

lemma system_mutual_exclusion_witness:
  "\<forall>ld mc. \<exists>T. (sys_step mc 2)\<^sup>*\<^sup>* (duo ld (duo_host 0) (duo_host 1) Running [] []) T \<and>
     {q. q < 2 \<and> 0 \<in> held (host_of T q)} = {1}"
proof (intro allI)
  fix ld mc
  obtain s t where r: "(sys_step mc 2)\<^sup>*\<^sup>* (duo ld (duo_host 0) (duo_host 1) Running [] []) (duo ld s t Running [] [])"
    "held t = {0}" using duo_run by blast
  let ?T = "duo ld s t Running [] []"
  have l: "0 < Maxlocks" by (simp add: Maxlocks_def)
  have t: "0 \<in> held (host_of ?T 1)" using r(2) by (simp del: One_nat_def)
  have "q = 1" if "q < 2" "0 \<in> held (host_of ?T q)" for q
    by (rule system_mutual_exclusion [OF duo_start r(1) l that(1) _ that(2) t]) simp
  then have "{q. q < 2 \<and> 0 \<in> held (host_of ?T q)} = {1}" using t by (auto simp del: One_nat_def)
  then show "\<exists>T. (sys_step mc 2)\<^sup>*\<^sup>* (duo ld (duo_host 0) (duo_host 1) Running [] []) T \<and>
     {q. q < 2 \<and> 0 \<in> held (host_of T q)} = {1}"
    using r(1) by blast
qed


text \<open>
  C3: The servers of locks get past their own assertions and array bounds. In every run of the whole
  system, when a message of a lock is the next that a process handles from another: \<open>acqserver\<close>
  enters a request at the end of the queue, which has room, and goes on to grant the lock if the
  queue was empty, and returns otherwise; \<open>relserver\<close> finds the sender at the head of the queue,
  records its notices, takes it off and goes on to grant the lock to the next, if there is one; a
  grant comes to a thread that waits for just this lock, and \<open>acqgrantserver\<close> ends the wait after
  the invalidation. So the program can stop in them only where the grant is sent
  (\<open>grantlock\<close>, see the finding on \<open>syn.c:393\<close>), the notices are recorded or the pages invalidated.
\<close>

theorem lock_assertions_hold:
  assumes "sys_start n S" "(sys_step mc n)\<^sup>*\<^sup>* S T" "p < n" "q < n" "chan T q p = m # ms" "lock_op m" "s = host_of T p"
  shows "\<exists>l<Maxlocks. msg_lock m = int l \<and>
    (is_op m ACQ \<and> msg_handle mc rnds m = on_host (acqserver m) \<and> length (lock_queue l s) < Maxhosts \<and>
       acqserver m s =
         (let k = length (lock_queue l s);
              t = upd_lock l (\<lambda>j. j\<lparr>acqs := (acqs j)(k := int q), acqscope := (acqscope j)(k := scope m), acqc := acqc j + 1\<rparr>) s
          in if lock_queue l s = [] then grantlock l q (scope m) t else Inr t) \<or>
     is_op m REL \<and> msg_handle mc rnds m = on_host (relserver m) \<and> (\<exists>qs. lock_queue l s = q # qs \<and>
       relserver m s =
         bindE (recordwtnts m (if myscope (locks s hidelock) < scope m then s\<lparr>noclearlocks := 1\<rparr> else s)) (\<lambda>t.
           let u = upd_lock l (\<lambda>j. j\<lparr>lscope := lscope j + 1,
                  acqs := (\<lambda>i. if i < length qs then acqs j (i + 1) else acqs j i),
                  acqscope := (\<lambda>i. if i < length qs then acqscope j (i + 1) else acqscope j i), acqc := int (length qs)\<rparr>) t
           in case qs of [] \<Rightarrow> Inr u | h # _ \<Rightarrow> grantlock l h (acqscope (locks t l) 1) u)) \<or>
     is_op m ACQGRANT \<and> msg_handle mc rnds m = on_host (acqgrantserver m) \<and> threads T p = AtLockGrant l \<and> acqwait s \<noteq> 0 \<and>
       acqgrantserver m s = bindE (invalidate m s) (\<lambda>t. Inr (upd_lock l (\<lambda>j. j\<lparr>myscope := scope m\<rparr>) t\<lparr>acqwait := 0\<rparr>)))"
proof -
  have i: "sys_inv n T" by (rule sys_run_inv [OF assms(2) sys_start_inv [OF assms(1)]])
  have n: "n \<le> Maxhosts" using assms(1) by (simp add: sys_start_def)
  have s: "jia_pid s = p" "diff_slots s" using i assms(3,7) by (simp_all add: sys_inv_def proc_ok_def)
  from i n assms(3-6) show ?thesis
  proof (cases rule: sys_next_message)
    case (request l)
    note r = request [folded assms(7)]
    have m: "msg_lock m = int l" "is_op m ACQ" using request(2) by (simp_all add: request_msg_def)
    from acqserver_at_room [OF _ r(1,3-5), of q m] msg_handle_lock(1) [OF m(2)] r(1,2,5) m show ?thesis unfolding s by blast
  next
    case (release l qs)
    note r = release [folded assms(7)]
    have m: "msg_lock m = int l" "is_op m REL" using release(2) by (simp_all add: request_msg_def)
    from relserver_at_head [OF s(2) _ r(1,3,5,4,6), of m] msg_handle_lock(3) [OF m(2)] r(1,2,5) m show ?thesis unfolding s by blast
  next
    case (grant l)
    note r = grant [folded assms(7)]
    have m: "msg_lock m = int l" "is_op m ACQGRANT" using grant(2) by (simp_all add: grant_msg_def)
    from acqgrantserver_at_waiting [OF _ r(1), of s m] msg_handle_lock(2) [OF m(2)] r m show ?thesis unfolding s by blast
  qed
qed

lemma lock_assertions_hold_witness:
  "\<forall>ld mc. \<exists>T m. (sys_step mc 2)\<^sup>*\<^sup>* (duo ld (duo_host 0) (duo_host 1) Running [] []) T \<and> chan T 1 0 = [m] \<and>
     is_op m ACQ \<and> (\<exists>l. msg_lock m = int l \<and> length (lock_queue l (host_of T 0)) < Maxhosts)"
proof (intro allI)
  fix ld mc
  obtain m b where m: "request_msg ACQ 0 1 0 m" and r: "(sys_step mc 2)\<^sup>*\<^sup>* (duo ld (duo_host 0) (duo_host 1) Running [] [])
      (duo ld (duo_host 0) (duo_host 1\<lparr>acqwait := 1, mbuf := b, outq := []\<rparr>) (AtLockGrant 0) [m] [])"
    using duo_asks by blast
  have "lock_op m" "is_op m ACQ" "\<not> is_op m REL" "\<not> is_op m ACQGRANT"
    using request_msg_is(6) [OF m] m by (simp_all add: request_msg_def is_op_def)
  then show "\<exists>T m. (sys_step mc 2)\<^sup>*\<^sup>* (duo ld (duo_host 0) (duo_host 1) Running [] []) T \<and> chan T 1 0 = [m] \<and>
     is_op m ACQ \<and> (\<exists>l. msg_lock m = int l \<and> length (lock_queue l (host_of T 0)) < Maxhosts)"
    using r lock_assertions_hold [OF duo_start r, of 0 1 m "[]", OF _ _ _ _ refl] duo_fields(4) by fastforce
qed

end
