(* ===== verification/Barproto.thy ===== *)
theory Barproto
  imports Prelude
begin

text \<open>
  What the barrier promises, without messages, trees and memory: the protocol between \<open>n\<close> hosts and
  the manager of the barrier. A host is away, has come and waits, or has been freed but not gone on.
  Its coming travels to the manager, who counts; when the last has come, he sends everyone leave.
\<close>

section \<open>The protocol\<close>

datatype bar_stage = Away | Waiting | Freed

text \<open>\<open>came\<close> and \<open>gone\<close> count how often a host has come to the barrier and gone on from it.\<close>

record bar_state =
  coming :: nat
  counted :: nat
  leave :: "nat \<Rightarrow> nat"
  stage :: "nat \<Rightarrow> bar_stage"
  came :: "nat \<Rightarrow> nat"
  gone :: "nat \<Rightarrow> nat"

definition arrive :: "nat \<Rightarrow> bar_state \<Rightarrow> bar_state" where
  "arrive p a = a\<lparr>stage := (stage a)(p := Waiting), came := (came a)(p := came a p + 1), coming := coming a + 1\<rparr>"

text \<open>The manager takes the coming of a host, of the last one at the end.\<close>

definition count :: "nat \<Rightarrow> bar_state \<Rightarrow> bar_state" where
  "count n a = (if counted a + 1 = n
     then a\<lparr>coming := coming a - 1, counted := 0, leave := \<lambda>p. if p < n then leave a p + 1 else leave a p\<rparr>
     else a\<lparr>coming := coming a - 1, counted := counted a + 1\<rparr>)"

definition free :: "nat \<Rightarrow> bar_state \<Rightarrow> bar_state" where
  "free p a = a\<lparr>leave := (leave a)(p := leave a p - 1), stage := (stage a)(p := Freed)\<rparr>"

definition go_on :: "nat \<Rightarrow> bar_state \<Rightarrow> bar_state" where
  "go_on p a = a\<lparr>stage := (stage a)(p := Away), gone := (gone a)(p := gone a p + 1)\<rparr>"

inductive bar_step :: "nat \<Rightarrow> bar_state \<Rightarrow> bar_state \<Rightarrow> bool" for n where
  Arrive: "p < n \<Longrightarrow> stage a p = Away \<Longrightarrow> bar_step n a (arrive p a)"
| Count: "0 < coming a \<Longrightarrow> bar_step n a (count n a)"
| Free: "p < n \<Longrightarrow> 0 < leave a p \<Longrightarrow> bar_step n a (free p a)"
| Go: "p < n \<Longrightarrow> stage a p = Freed \<Longrightarrow> bar_step n a (go_on p a)"

inductive_cases bar_stepE: "bar_step n a b"

definition bar_open :: "bar_state" where
  "bar_open = \<lparr>coming = 0, counted = 0, leave = (\<lambda>_. 0), stage = (\<lambda>_. Away), came = (\<lambda>_. 0), gone = (\<lambda>_. 0)\<rparr>"

section \<open>Nobody goes on before all have come\<close>

text \<open>Where a host is while barrier number \<open>e\<close> is the last that was opened.\<close>

fun turn_ok :: "nat \<Rightarrow> bar_stage \<Rightarrow> nat \<Rightarrow> nat \<Rightarrow> nat \<Rightarrow> bool" where
  "turn_ok e Away l c g \<longleftrightarrow> l = 0 \<and> c = e \<and> g = e"
| "turn_ok e Waiting l c g \<longleftrightarrow> c = g + 1 \<and> (c = e + 1 \<and> l = 0 \<or> c = e \<and> l = 1)"
| "turn_ok e Freed l c g \<longleftrightarrow> l = 0 \<and> c = e \<and> e = g + 1"

definition came_to :: "nat \<Rightarrow> nat \<Rightarrow> bar_state \<Rightarrow> nat set" where
  "came_to n e a = {p. p < n \<and> came a p = e}"

definition bar_ok_at :: "nat \<Rightarrow> nat \<Rightarrow> bar_state \<Rightarrow> bool" where
  "bar_ok_at n e a \<longleftrightarrow> counted a < n \<and> counted a + coming a = card (came_to n (e + 1) a) \<and>
     (\<forall>p<n. turn_ok e (stage a p) (leave a p) (came a p) (gone a p))"

definition bar_ok :: "nat \<Rightarrow> bar_state \<Rightarrow> bool" where
  "bar_ok n a \<longleftrightarrow> (\<exists>e. bar_ok_at n e a)"

lemma finite_came_to [simp]: "finite (came_to n e a)"
  by (simp add: came_to_def)

lemma card_came_to: "card (came_to n e a) \<le> n"
  using card_mono [of "{..<n}" "came_to n e a"] by (auto simp: came_to_def)

lemma all_came: "n \<le> card (came_to n e a) \<Longrightarrow> p < n \<Longrightarrow> came a p = e"
  using card_subset_eq [of "{..<n}" "came_to n e a"] card_came_to [of n e a] by (auto simp: came_to_def)

lemma turn_okD:
  "turn_ok e Away l c g \<Longrightarrow> c = e" "turn_ok e s l c g \<Longrightarrow> 0 < l \<Longrightarrow> s = Waiting \<and> c = e \<and> l = 1 \<and> c = g + 1"
  "turn_ok e s l (e + 1) g \<Longrightarrow> s = Waiting \<and> l = 0 \<and> g = e"
  by (cases s; auto)+

lemma bar_open_ok: "0 < n \<Longrightarrow> bar_ok n bar_open"
  by (auto simp: bar_ok_def bar_ok_at_def bar_open_def came_to_def intro!: exI [of _ 0])

lemma bar_ok_arrive:
  assumes "bar_ok_at n e a" "p < n" "stage a p = Away"
  shows "bar_ok_at n e (arrive p a)"
proof -
  have "came a p = e" using assms turn_okD(1) [of e] by (auto simp: bar_ok_at_def)
  then have "came_to n (e + 1) (arrive p a) = insert p (came_to n (e + 1) a)" "p \<notin> came_to n (e + 1) a"
    using assms(2) by (auto simp: came_to_def arrive_def)
  moreover have "turn_ok e Away (leave a p) (came a p) (gone a p)" using assms by (auto simp: bar_ok_at_def)
  ultimately show ?thesis using assms(1) by (auto simp: bar_ok_at_def) (auto simp: arrive_def)
qed

lemma bar_ok_count:
  assumes "bar_ok_at n e a" "0 < coming a"
  shows "bar_ok_at n (if counted a + 1 = n then e + 1 else e) (count n a)"
proof (cases "counted a + 1 = n")
  case False
  have "came_to n (e + 1) (count n a) = came_to n (e + 1) a" using False by (simp add: came_to_def count_def)
  then show ?thesis using assms False by (auto simp: bar_ok_at_def) (auto simp: count_def)
next
  case True
  have c: "counted a + coming a = card (came_to n (e + 1) a)" using assms(1) by (simp add: bar_ok_at_def)
  then have one: "coming a = 1" using card_came_to [of n "e + 1" a] assms(2) True by linarith
  have all: "came a p = e + 1" if "p < n" for p by (rule all_came [OF _ that]) (use c one True in simp)
  then have "turn_ok e (stage a p) (leave a p) (e + 1) (gone a p)" if "p < n" for p
    using assms(1) that unfolding bar_ok_at_def by metis
  then have w: "stage a p = Waiting" "leave a p = 0" "gone a p = e" if "p < n" for p
    using turn_okD(3) that by blast+
  have "came_to n (e + 1 + 1) (count n a) = {}" using all True by (auto simp: came_to_def count_def)
  then show ?thesis using True one all w by (simp add: bar_ok_at_def count_def)
qed

lemma bar_ok_free:
  assumes "bar_ok_at n e a" "p < n" "0 < leave a p"
  shows "bar_ok_at n e (free p a)"
proof -
  have "turn_ok e (stage a p) (leave a p) (came a p) (gone a p)" using assms(1,2) by (simp add: bar_ok_at_def)
  note w = turn_okD(2) [OF this assms(3)]
  have "came_to n (e + 1) (free p a) = came_to n (e + 1) a" by (simp add: came_to_def free_def)
  then show ?thesis using assms w by (auto simp: bar_ok_at_def) (auto simp: free_def)
qed

lemma bar_ok_go_on:
  assumes "bar_ok_at n e a" "p < n" "stage a p = Freed"
  shows "bar_ok_at n e (go_on p a)"
proof -
  have "turn_ok e Freed (leave a p) (came a p) (gone a p)" using assms by (auto simp: bar_ok_at_def)
  moreover have "came_to n (e + 1) (go_on p a) = came_to n (e + 1) a" by (simp add: came_to_def go_on_def)
  ultimately show ?thesis using assms by (auto simp: bar_ok_at_def) (auto simp: go_on_def)
qed

lemma bar_ok_step: "bar_step n a b \<Longrightarrow> bar_ok n a \<Longrightarrow> bar_ok n b"
  unfolding bar_ok_def
  by (erule bar_stepE) (use bar_ok_arrive bar_ok_count bar_ok_free bar_ok_go_on in metis)+

lemma bar_ok_reachable: "(bar_step n)\<^sup>*\<^sup>* bar_open a \<Longrightarrow> 0 < n \<Longrightarrow> bar_ok n a"
  by (induction rule: rtranclp_induct) (auto intro: bar_open_ok bar_ok_step)

lemma bar_ok_phases:
  assumes "bar_ok n a" "p < n" "q < n"
  shows "gone a p \<le> came a q" "came a q \<le> gone a p + 2"
proof -
  obtain e where "turn_ok e (stage a p) (leave a p) (came a p) (gone a p)"
    "turn_ok e (stage a q) (leave a q) (came a q) (gone a q)"
    using assms by (auto simp: bar_ok_def bar_ok_at_def)
  then show "gone a p \<le> came a q" "came a q \<le> gone a p + 2" by (cases "stage a p"; cases "stage a q"; auto)+
qed

lemma bar_ok_leave:
  assumes "bar_ok n a" "p < n" "0 < leave a p"
  shows "stage a p = Waiting" "leave a p = 1"
  using assms turn_okD(2) by (auto simp: bar_ok_def bar_ok_at_def)

lemma bar_ok_counted: "bar_ok n a \<Longrightarrow> counted a < n"
  by (auto simp: bar_ok_def bar_ok_at_def)

end
