(* ===== verification/Barmsgs.thy ===== *)
theory Barmsgs
  imports Lockmsgs Barproto
begin

text \<open>
  Which operations touch the barrier, and how: every handler and every part of a call of the program
  is either unseen, that is, it leaves the count of the barrier and the flag that the program waits for,
  and sends no message of a barrier, or its effect is one step of the protocol.
\<close>

section \<open>Messages of barriers\<close>

definition bar_op :: "jia_msg \<Rightarrow> bool" where
  "bar_op m \<longleftrightarrow> op m mod BCAST \<in> {op_num BARR, op_num BARRGRANT}"

definition bar_acts :: "host \<Rightarrow> jia_msg list \<Rightarrow> host \<Rightarrow> bool" where
  "bar_acts s gs t \<longleftrightarrow> jia_pid t = jia_pid s \<and> hostc t = hostc s \<and> diff_slots t \<and>
     (\<exists>ms. outq t = outq s @ ms \<and> filter bar_op ms = gs)"

definition unseen :: "host \<Rightarrow> host \<Rightarrow> bool" where
  "unseen s t \<longleftrightarrow> bar_acts s [] t \<and> barrwait t = barrwait s \<and> acqc (locks t hidelock) = acqc (locks s hidelock)"

lemma unseen_refl: "diff_slots s \<Longrightarrow> unseen s s"
  by (auto simp: unseen_def bar_acts_def)

lemma bar_acts_trans: "bar_acts s gs t \<Longrightarrow> bar_acts t hs u \<Longrightarrow> bar_acts s (gs @ hs) u"
  by (auto simp: bar_acts_def)

interpretation bv: bar_quiet "unseen s" "{n. n mod BCAST \<notin> {op_num BARR, op_num BARRGRANT}}" for s
proof
  let ?ops = "{n. n mod BCAST \<notin> {op_num BARR, op_num BARRGRANT}}"
  fix t u m
  show "unseen s u" if "unseen s t" "same_sync t u" "outq u = outq t" "diff_slots u"
    using that by (auto simp: unseen_def bar_acts_def same_sync_def)
  show "diff_slots t" if "unseen s t" using that by (simp add: unseen_def bar_acts_def)
  show "unseen s (t\<lparr>outq := outq t @ [m]\<rparr>)" if "unseen s t" "op m \<in> ?ops"
  proof -
    have "\<not> bar_op m" using that(2) by (simp add: bar_op_def)
    moreover have "diff_slots (t\<lparr>outq := outq t @ [m]\<rparr>)" using that(1) by (simp add: unseen_def bar_acts_def diff_slots_def)
    ultimately show ?thesis using that(1) by (auto simp: unseen_def bar_acts_def)
  qed
  show "op_num x \<in> ?ops" if "x \<in> {DIFF, DIFFGRANT, GETP, GETPGRANT, INVLD, WTNT}" for x
    using that by (auto simp: BCAST_def)
  show "(n \<in> ?ops) = (n + BCAST \<in> ?ops)" for n by simp
  show "unseen s (t\<lparr>waitwait := i\<rparr>)" "unseen s (t\<lparr>waitcounter := i\<rparr>)" "unseen s (t\<lparr>acqwait := i\<rparr>)"
    "unseen s (t\<lparr>stackptr := i, lockstack := k\<rparr>)" if "unseen s t" for i k
    using that by (simp_all add: unseen_def bar_acts_def diff_slots_def)
  show "unseen s (upd_lock l f t)" if "l < Maxlocks" "unseen s t" for l f
    using that by (simp add: unseen_def bar_acts_def diff_slots_def upd_lock_def hidelock_def)
  show "op_num x \<in> ?ops" if "x \<notin> {ACQ, ACQGRANT, REL, BARR, BARRGRANT}" for x
    using that by (cases x) (simp_all add: BCAST_def)
  show "op_num ACQ \<in> ?ops" "op_num ACQGRANT \<in> ?ops" "op_num REL \<in> ?ops" by (simp_all add: BCAST_def)
qed

section \<open>The leave that a message brings\<close>

text \<open>The position of a host in the tree, the root of the tree and the levels below a message.\<close>

definition tree_pos :: "nat \<Rightarrow> nat \<Rightarrow> nat \<Rightarrow> nat" where
  "tree_pos n r p = (p + n - r) mod n"

definition tree_root :: "jia_msg \<Rightarrow> nat" where
  "tree_root m = unat (drop_bit 16 (temp m) AND 0xffff)"

definition tree_levels :: "jia_msg \<Rightarrow> nat" where
  "tree_levels m = unat (temp m AND 0xffff)"

text \<open>A message of the tree is for all hosts below its addressee.\<close>

definition leave_for :: "nat \<Rightarrow> nat \<Rightarrow> jia_msg \<Rightarrow> bool" where
  "leave_for n p m \<longleftrightarrow> is_op m BARRGRANT \<and> topid m = p \<or> op m = op_num BARRGRANT + BCAST \<and>
     (let a = tree_pos n (tree_root m) (topid m); b = tree_pos n (tree_root m) p in a \<le> b \<and> b < a + 2 ^ tree_levels m)"

definition leave_ok :: "nat \<Rightarrow> jia_msg \<Rightarrow> bool" where
  "leave_ok n m \<longleftrightarrow> topid m < n \<and> names_lock hidelock m \<and> (is_op m BARRGRANT \<or> op m = op_num BARRGRANT + BCAST \<and> tree_root m < n \<and> 0 < tree_levels m)"

lemma tree_pos_back:
  assumes "p < n" "r < n"
  shows "(tree_pos n r p + r) mod n = p" "tree_pos n r ((p + r) mod n) = p" "tree_pos n r p < n"
proof -
  show "(tree_pos n r p + r) mod n = p" using assms by (simp add: tree_pos_def mod_simps)
  show "tree_pos n r ((p + r) mod n) = p"
  proof (cases "p + r < n")
    case False
    then have "(p + r) mod n = p + r - n" using assms by (simp add: mod_if)
    then show ?thesis using False assms by (simp add: tree_pos_def)
  qed (use assms in \<open>simp add: tree_pos_def\<close>)
  show "tree_pos n r p < n" using assms by (simp add: tree_pos_def)
qed

lemma tree_pos_int:
  assumes "p < n" "r < n"
  shows "(if 0 \<le> int p - int r then int p - int r else int p - int r + int n) = int (tree_pos n r p)"
  using assms by (auto simp: tree_pos_def mod_if)

lemma tree_pos_eq: "p < n \<Longrightarrow> q < n \<Longrightarrow> r < n \<Longrightarrow> (tree_pos n r p = tree_pos n r q) = (p = q)"
  by (metis tree_pos_back(1))

lemma bcast_step_leaves:
  assumes "bcast_step (topid m) n m = Inr (m', ms)" "op m = op_num BARRGRANT + BCAST" "topid m < n" "tree_root m < n" "n < 65536"
    "names_lock hidelock m"
  shows "\<forall>x\<in>set ms. leave_ok n x \<and> bar_op x" "p < n \<Longrightarrow> length (filter (leave_for n p) ms) = (if leave_for n p m then 1 else 0)"
proof -
  define r where "r = tree_root m"
  define a where "a = tree_pos n r (topid m)"
  note r = r_def [symmetric]
  obtain l where l: "tree_levels m = Suc l"
    using assms(1) by (cases "tree_levels m") (auto simp: bcast_step_def tree_levels_def)
  have "tree_levels m \<le> unat (0xffff :: u32)"
    unfolding tree_levels_def by (simp only: word_le_nat_alt [symmetric] word_and_le1)
  then have l16: "l < 65536" using l by simp
  have an: "a < n" "r < n" using tree_pos_back(3) assms(3,4) by (simp_all add: a_def r_def)
  note pos = tree_pos_int [OF assms(3,4), folded r_def, folded a_def]
  define c where "c = (\<lambda>q. m\<lparr>op := (if l = 0 then op_num BARRGRANT else op_num BARRGRANT + BCAST), temp := bcast_temp r l,
    frompid := topid m, topid := (q + r) mod n\<rparr>)"
  have c2: "int a + 2 ^ l < int n \<longleftrightarrow> a + 2 ^ l < n"
    by (metis of_nat_add of_nat_less_iff of_nat_numeral of_nat_power)
  have "int a + 2 ^ l + int r = int (a + 2 ^ l + r)" by simp
  then have md: "nat ((int a + 2 ^ l + int r) mod int n) = (a + 2 ^ l + r) mod n"
    "nat ((int a + int r) mod int n) = (a + r) mod n"
    by (simp_all only: of_nat_add [symmetric] zmod_int [symmetric] nat_int)
  have ms: "ms = (if a + 2 ^ l < n then [c (a + 2 ^ l)] else []) @ [c a]"
    using assms(1,2) unfolding bcast_step_def Let_def tree_root_def [symmetric] tree_levels_def [symmetric] l r diff_Suc_1 pos
      c2 md c_def by (auto simp: BCAST_def split: if_splits)
  have f: "tree_levels (c q) = l" "tree_root (c q) = r" for q
    using bcast_temp_fields [of r l] an(2) assms(5) l16 by (auto simp: c_def tree_levels_def tree_root_def)
  have ok: "leave_ok n (c q) \<and> bar_op (c q)" for q
    using an f [of q] assms(6) by (simp add: leave_ok_def bar_op_def c_def is_op_def BCAST_def)
  then show "\<forall>x\<in>set ms. leave_ok n x \<and> bar_op x" unfolding ms by auto
  show "length (filter (leave_for n p) ms) = (if leave_for n p m then 1 else 0)" if p: "p < n"
  proof -
    define b where "b = tree_pos n r p"
    have b: "b < n" using tree_pos_back(3) [OF p an(2)] by (simp add: b_def)
    have child: "leave_for n p (c q) \<longleftrightarrow> q \<le> b \<and> b < q + 2 ^ l" if q: "q < n" for q
    proof (cases "l = 0")
      case True
      have "(q + r) mod n = p \<longleftrightarrow> q = b" using tree_pos_back [OF p an(2)] tree_pos_back [OF q an(2)] by (auto simp: b_def)
      then show ?thesis using True by (auto simp: leave_for_def c_def is_op_def BCAST_def)
    next
      case False
      have "tree_pos n r (topid (c q)) = q" using tree_pos_back(2) [OF q an(2)] by (simp add: c_def)
      moreover have "op (c q) = op_num BARRGRANT + BCAST" "\<not> is_op (c q) BARRGRANT"
        using False by (simp_all add: c_def is_op_def BCAST_def)
      ultimately show ?thesis by (simp add: leave_for_def f Let_def b_def)
    qed
    have "leave_for n p m \<longleftrightarrow> a \<le> b \<and> b < a + 2 ^ Suc l"
      using assms(2) l by (simp add: leave_for_def is_op_def BCAST_def Let_def a_def b_def r_def)
    then show ?thesis unfolding ms using child [OF an(1)] child [of "a + 2 ^ l"] b by (auto simp: mult_2)
  qed
qed

section \<open>Sending everyone leave\<close>

interpretation dv: quiet diff_slots UNIV
  by unfold_locales (auto simp: diff_slots_def)

lemma broadcast_leaves:
  assumes "is_op (slot_msg (mbuf s ! k)) BARRGRANT" "k < length (mbuf s)" "jia_pid s < hostc s" "hostc s \<le> Maxhosts"
    "broadcast k s = Inr t" "names_lock hidelock (slot_msg (mbuf s ! k))"
  shows "\<exists>b ms. t = s\<lparr>mbuf := b, outq := outq s @ ms\<rparr> \<and> (\<forall>x\<in>set ms. leave_ok (hostc s) x \<and> bar_op x) \<and>
    (\<forall>p<hostc s. length (filter (leave_for (hostc s) p) ms) = 1)"
proof (cases "B_CAST s = OFF")
  case True
  let ?m = "slot_msg (mbuf s ! k)" and ?n = "hostc s"
  let ?ms = "map (\<lambda>h. ?m\<lparr>topid := h\<rparr>) [0..<?n]"
  obtain b where b: "t = s\<lparr>mbuf := b, outq := outq s @ ?ms\<rparr>"
    using send_to_each [OF assms(2), of "[0..<?n]"] assms(5) broadcast_send_to [OF True] by auto
  have "leave_for ?n p (?m\<lparr>topid := h\<rparr>) \<longleftrightarrow> h = p" for p h
    using assms(1) by (auto simp: leave_for_def is_op_def BCAST_def)
  then have "filter (leave_for ?n p) ?ms = filter (\<lambda>m. topid m = p) ?ms" for p
    by (intro filter_cong) auto
  then have one: "length (filter (leave_for ?n p) ?ms) = 1" if "p < ?n" for p
    using that by (simp add: one_each)
  have "leave_ok ?n x \<and> bar_op x" if "x \<in> set ?ms" for x
    using that assms(1,6) by (auto simp: leave_ok_def bar_op_def is_op_def BCAST_def)
  then show ?thesis using b one by blast
next
  case False
  let ?n = "hostc s" and ?L = "if hostc s = 1 then 1 else bcast_level (hostc s) 0"
  let ?m = "(slot_msg (mbuf s ! k))\<lparr>op := op_num BARRGRANT + BCAST, temp := bcast_temp (jia_pid s) ?L\<rparr>"
  let ?x = "?m\<lparr>topid := jia_pid s\<rparr>"
  have m: "op (slot_msg (mbuf s ! k)) = op_num BARRGRANT" using assms(1) by (simp add: is_op_def)
  obtain m' ms where st: "bcast_step (jia_pid s) ?n ?m = Inr (m', ms)" and t: "t = set_slot k m' (s\<lparr>outq := outq s @ ms\<rparr>)"
    using False assms(5) unfolding broadcast_def bsendmsg_def bcastserver_def m by (auto simp del: op_num.simps)
  have b4: "bcast_level ?n 0 \<le> 4" using bcast_level_le [of ?n 4 0] assms(4) by (simp add: Maxhosts_def)
  have f: "tree_root ?x = jia_pid s" "tree_levels ?x = ?L"
    using bcast_temp_fields [of "jia_pid s" ?L] b4 assms(3,4) by (simp_all add: tree_root_def tree_levels_def Maxhosts_def)
  have st': "bcast_step (topid ?x) ?n ?x = Inr (m', ms)" using st by (simp add: bcast_step_topid)
  have sz: "topid ?x < ?n" "tree_root ?x < ?n" "?n < 65536" using assms(3,4) unfolding f by (simp_all add: Maxhosts_def)
  have "op ?x = op_num BARRGRANT + BCAST" "names_lock hidelock ?x" using assms(6) by simp_all
  note leaves = bcast_step_leaves [OF st' this(1) sz this(2)]
  have L: "?n \<le> 2 ^ ?L" using bcast_level_bound [of ?n 0] by simp
  have "leave_for ?n p ?x" if "p < ?n" for p
  proof -
    have "tree_pos ?n (jia_pid s) (jia_pid s) = 0" using assms(3) by (simp add: tree_pos_def)
    moreover have "tree_pos ?n (jia_pid s) p < 2 ^ ?L"
      using tree_pos_back(3) [OF that assms(3)] L by linarith
    ultimately show ?thesis unfolding leave_for_def f by simp
  qed
  then have "\<forall>p<?n. length (filter (leave_for ?n p) ms) = 1" using leaves(2) by simp
  moreover have "t = s\<lparr>mbuf := (mbuf s)[k := (mbuf s ! k)\<lparr>slot_msg := m'\<rparr>], outq := outq s @ ms\<rparr>"
    by (simp add: t set_slot_def)
  ultimately show ?thesis using leaves(1) by blast
qed

lemma grantbarr_acts:
  assumes "diff_slots s" "jia_pid s < hostc s" "hostc s \<le> Maxhosts" "grantbarr hidelock s = Inr t"
  shows "\<exists>gs. bar_acts s gs t \<and> barrwait t = barrwait s \<and> acqc (locks t hidelock) = acqc (locks s hidelock) \<and>
    (\<forall>x\<in>set gs. leave_ok (hostc s) x) \<and> (\<forall>p<hostc s. length (filter (leave_for (hostc s) p) gs) = 1)"
proof -
  let ?J = "\<lambda>k t. unseen s t \<and> mine k t"
  let ?hdr = "\<lambda>m. m\<lparr>frompid := jia_pid s, topid := jia_pid s, scope := lscope (locks s hidelock)\<rparr>"
  let ?Q = "\<lambda>t. \<exists>gs. bar_acts s gs t \<and> barrwait t = barrwait s \<and> acqc (locks t hidelock) = acqc (locks s hidelock) \<and>
    (\<forall>x\<in>set gs. leave_ok (hostc s) x) \<and> (\<forall>p<hostc s. length (filter (leave_for (hostc s) p) gs) = 1)"
  have last: "ensures (\<lambda>t. ?Q (freemsg_unlock k t)) (broadcast k u)"
    if u: "?J k u" "names_lock hidelock (slot_msg (mbuf u ! k))" "is_op (slot_msg (mbuf u ! k)) BARRGRANT" for k u
    unfolding ensures_def
  proof (intro allI impI)
    fix t assume t: "broadcast k u = Inr t"
    have n: "hostc u = hostc s" "jia_pid u = jia_pid s" using u(1) by (simp_all add: unseen_def bar_acts_def)
    have "jia_pid u < hostc u" "hostc u \<le> Maxhosts" "k < length (mbuf u)" using assms n u(1) by (simp_all add: mine_def)
    from broadcast_leaves [OF u(3) this(3,1,2) t u(2)] obtain b ms where ms: "t = u\<lparr>mbuf := b, outq := outq u @ ms\<rparr>"
      "\<forall>x\<in>set ms. leave_ok (hostc s) x \<and> bar_op x" "\<forall>p<hostc s. length (filter (leave_for (hostc s) p) ms) = 1"
      unfolding n by blast
    have "diff_slots t \<and> mine k t"
      using ensuresD [OF dv.broadcast_quiet t] u(1) by (simp add: unseen_def bar_acts_def)
    then have d: "diff_slots (freemsg_unlock k t)" by simp
    have "filter bar_op ms = ms" using ms(2) by simp
    then have "bar_acts s ms (freemsg_unlock k t)"
      using d u(1) ms(1) by (auto simp: unseen_def bar_acts_def freemsg_unlock_def)
    then show "?Q (freemsg_unlock k t)"
      using u(1) ms by (intro exI [of _ ms]) (auto simp: unseen_def freemsg_unlock_def)
  qed
  show ?thesis
  proof (rule ensuresD [where Q = ?Q, OF _ assms(4)])
    have part: "ensures (\<lambda>t'. unseen s t' \<and> mine k t' \<and> names_lock hidelock (slot_msg (mbuf t' ! k))) (broadcast k t)"
      if "unseen s t" "mine k t" "names_lock hidelock (slot_msg (mbuf t ! k))" "op (slot_msg (mbuf t ! k)) \<in> {n. n mod BCAST \<notin> {op_num BARR, op_num BARRGRANT}}" for k t
    proof -
      have "k < length (mbuf t)" using that(2) by (simp add: mine_def)
      then show ?thesis using ensuresD [OF bv.broadcast_quiet [OF that(1,2,4)]] broadcast_names [OF _ _ that(3)] by (auto simp: ensures_def)
    qed
    have hide: "hidelock < 2147483648" by (simp add: hidelock_def Maxlocks_def)
    show "ensures ?Q (grantbarr hidelock s)"
      unfolding grantbarr_def
      by (rule bv.send_notices_last [where H = "names_lock hidelock", OF unseen_refl [OF assms(1)] appendbarrwtnts_names part])
        (use last in \<open>auto intro!: names_lock_first simp: hide BCAST_def simp del: One_nat_def of_nat_numeral\<close>)
  qed
qed

section \<open>The servers and the call\<close>

lemma barrserver_acts:
  assumes "diff_slots s" "jia_pid s < hostc s" "hostc s \<le> Maxhosts" "barrserver m s = Inr t"
  shows "hidelock mod hostc s = jia_pid s" "is_op m BARR"
    "\<exists>gs. bar_acts s gs t \<and> barrwait t = barrwait s \<and> (if acqc (locks s hidelock) + 1 = int (hostc s)
       then acqc (locks t hidelock) = 0 \<and> (\<forall>x\<in>set gs. leave_ok (hostc s) x) \<and>
         (\<forall>p<hostc s. length (filter (leave_for (hostc s) p) gs) = 1)
       else acqc (locks t hidelock) = acqc (locks s hidelock) + 1 \<and> gs = [])"
proof -
  obtain u where u: "is_op m BARR" "home_of s (int hidelock)" "recordwtnts m s = Inr u"
    "(let v = upd_lock hidelock (\<lambda>k. k\<lparr>acqc := acqc k + 1\<rparr>) u in if acqc (locks v hidelock) = int (hostc v)
        then bindE (grantbarr hidelock (upd_lock hidelock (\<lambda>k. k\<lparr>lscope := lscope k + 1\<rparr>) v)) (\<lambda>s.
             bindE (freewtntspace (wtntp (locks s hidelock))) (\<lambda>w.
             Inr (upd_lock hidelock (\<lambda>k. k\<lparr>acqc := 0, wtntp := w\<rparr>) s)))
        else Inr v) = Inr t"
    using assms(4) by (auto simp: barrserver_def)
  show "hidelock mod hostc s = jia_pid s" using u(2) by (simp add: home_of_def)
  show "is_op m BARR" by (rule u(1))
  have su: "unseen s u" by (rule ensuresD [OF bv.recordwtnts_quiet [OF unseen_refl [OF assms(1)]] u(3)])
  let ?v = "upd_lock hidelock (\<lambda>k. k\<lparr>acqc := acqc k + 1\<rparr>) u"
  let ?w = "upd_lock hidelock (\<lambda>k. k\<lparr>lscope := lscope k + 1\<rparr>) ?v"
  have n: "hostc u = hostc s" "jia_pid u = jia_pid s" "barrwait u = barrwait s" "acqc (locks u hidelock) = acqc (locks s hidelock)"
    using su by (simp_all add: unseen_def bar_acts_def)
  have v: "bar_acts s [] ?v" "bar_acts s [] ?w" using su by (auto simp: unseen_def bar_acts_def upd_lock_def diff_slots_def)
  show "\<exists>gs. bar_acts s gs t \<and> barrwait t = barrwait s \<and> (if acqc (locks s hidelock) + 1 = int (hostc s)
       then acqc (locks t hidelock) = 0 \<and> (\<forall>x\<in>set gs. leave_ok (hostc s) x) \<and>
         (\<forall>p<hostc s. length (filter (leave_for (hostc s) p) gs) = 1)
       else acqc (locks t hidelock) = acqc (locks s hidelock) + 1 \<and> gs = [])"
  proof (cases "acqc (locks s hidelock) + 1 = int (hostc s)")
    case False
    then have "t = ?v" using u(4) n by (simp add: upd_lock_def Let_def)
    then show ?thesis using False v(1) n by (auto simp: upd_lock_def)
  next
    case True
    then obtain x w where x: "grantbarr hidelock ?w = Inr x" "t = upd_lock hidelock (\<lambda>k. k\<lparr>acqc := 0, wtntp := w\<rparr>) x"
      using u(4) n by (auto simp: upd_lock_def Let_def)
    have wn: "diff_slots ?w" "jia_pid ?w = jia_pid s" "hostc ?w = hostc s" "barrwait ?w = barrwait s"
      using v(2) n by (simp_all add: bar_acts_def upd_lock_def)
    obtain gs where g: "bar_acts ?w gs x" "barrwait x = barrwait s" "\<forall>y\<in>set gs. leave_ok (hostc s) y"
      "\<forall>p<hostc s. length (filter (leave_for (hostc s) p) gs) = 1"
      using grantbarr_acts [OF wn(1) _ _ x(1)] assms(2,3) unfolding wn(2-4) by blast
    have "bar_acts s gs x" using bar_acts_trans [OF v(2) g(1)] by simp
    then have "bar_acts s gs t" by (simp add: x(2) bar_acts_def upd_lock_def diff_slots_def)
    then show ?thesis using True g by (auto simp: x(2) upd_lock_def)
  qed
qed

lemma barrgrantserver_acts:
  assumes "diff_slots s" "barrgrantserver m s = Inr t"
  shows "bar_acts s [] t" "barrwait t = 0" "acqc (locks t hidelock) = acqc (locks s hidelock)"
proof -
  note i = unseen_refl [OF assms(1)]
  obtain x y z l where x: "(if noclearlocks s = 0 then clearlocks s else Inr s) = Inr x" "invalidate m x = Inr y"
    "(if H_MIG y = ON then migarrangehome y else Inr y) = Inr z"
    "t = upd_lock l (\<lambda>k. k\<lparr>myscope := scope m\<rparr>) z\<lparr>barrwait := 0, noclearlocks := 0\<rparr>"
    using assms(2) by (auto simp: barrgrantserver_def)
  have "unseen s x" using x(1) i ensuresD [OF bv.clearlocks_quiet [OF i, where Q = "unseen s"]] by (auto split: if_splits)
  then have y: "unseen s y" by (rule ensuresD [OF bv.invalidate_quiet x(2)])
  then have "unseen s z" using x(3) ensuresD [OF bv.migarrangehome_quiet [OF y, where Q = "unseen s"]] by (auto split: if_splits)
  then show "bar_acts s [] t" "barrwait t = 0" "acqc (locks t hidelock) = acqc (locks s hidelock)"
    unfolding x(4) by (auto simp: unseen_def bar_acts_def upd_lock_def diff_slots_def)
qed

text \<open>A message of the tree is passed on.\<close>

lemma bar_relay_acts:
  assumes "diff_slots s" "other_msg m s = Inr t" "op m = op_num BARRGRANT + BCAST" "topid m = jia_pid s"
    "jia_pid s < hostc s" "hostc s \<le> Maxhosts" "leave_ok (hostc s) m"
  shows "\<exists>gs. bar_acts s gs t \<and> barrwait t = barrwait s \<and> acqc (locks t hidelock) = acqc (locks s hidelock) \<and>
    (\<forall>x\<in>set gs. leave_ok (hostc s) x) \<and>
    (\<forall>p<hostc s. length (filter (leave_for (hostc s) p) gs) = (if leave_for (hostc s) p m then 1 else 0))"
proof -
  obtain m' ms where st: "bcast_step (topid m) (hostc s) m = Inr (m', ms)" and t: "t = s\<lparr>outq := outq s @ ms\<rparr>"
    using assms(2-4) by (auto simp: other_msg_def bcastserver_def split: if_splits)
  have "topid m < hostc s" "tree_root m < hostc s" "hostc s < 65536" "names_lock hidelock m"
    using assms(3-7) by (auto simp: leave_ok_def is_op_def BCAST_def Maxhosts_def)
  note l = bcast_step_leaves [OF st assms(3) this]
  have "filter bar_op ms = ms" using l(1) by simp
  then have "bar_acts s ms t" using assms(1) by (simp add: t bar_acts_def diff_slots_def)
  then show ?thesis using l by (intro exI [of _ ms]) (simp add: t)
qed

lemma barrier_send_acts:
  assumes "diff_slots s" "barrier_send s = Inr t" "stackptr s = 0" "lockid (lockstack s 0) = hidelock"
  shows "\<exists>g. request_msg BARR hidelock (jia_pid s) (hidelock mod hostc s) g \<and> bar_acts s [g] t \<and> barrwait t = 1 \<and>
    acqc (locks t hidelock) = acqc (locks s hidelock)"
proof -
  obtain u v k w where u: "(if H_MIG s = ON then migcheckcache s else Inr s) = Inr u" "sendwtnts BARR (u\<lparr>barrwait := 1\<rparr>) = Inr v"
    "t = set_top_wtnt k w v"
    using assms(2) by (auto simp: barrier_send_def)
  note i = unseen_refl [OF assms(1)] silent_refl [OF assms(1)]
  have su: "unseen s u" "silent s u"
    using u(1) i ensuresD [OF bv.migcheckcache_quiet [OF i(1), where Q = "unseen s"]]
      ensuresD [OF lv.migcheckcache_quiet [OF i(2), where Q = "silent s"]] by (auto split: if_splits)
  let ?u = "u\<lparr>barrwait := 1\<rparr>"
  have d: "diff_slots ?u" using su(1) by (simp add: unseen_def bar_acts_def diff_slots_def)
  have n: "stackptr ?u = 0" "lockid (lockstack ?u 0) = hidelock" "jia_pid ?u = jia_pid s" "hostc ?u = hostc s"
    "acqc (locks ?u hidelock) = acqc (locks s hidelock)"
    using su assms(3,4) by (simp_all add: silent_def same_stack_def unseen_def bar_acts_def)
  let ?G = "\<lambda>t. \<exists>g. request_msg BARR hidelock (jia_pid s) (hidelock mod hostc s) g \<and> bar_acts ?u [g] t \<and> barrwait t = 1 \<and>
    acqc (locks t hidelock) = acqc (locks s hidelock)"
  have sent: "ensures ?G (send_notices appendstackwtnts send_slot WTNT BARR
      (\<lambda>m. m\<lparr>frompid := jia_pid s, topid := hidelock mod hostc s, scope := myscope (locks ?u hidelock)\<rparr>)
      hidelock (swtntp (lockstack ?u 0)) ?u)"
  proof (rule bv.send_notices_emits [where f = "jia_pid s" and d = "hidelock mod hostc s", OF unseen_refl [OF d]])
    show "ensures (\<lambda>(m', w'). headed (jia_pid s) (hidelock mod hostc s) (int hidelock) m' \<and> op m' = op m) (appendstackwtnts m w)"
      if "headed (jia_pid s) (hidelock mod hostc s) (int hidelock) m" for m w by (rule append_lists_headed(3) [OF that])
    fix x g t assume g: "unseen ?u x" "headed (jia_pid s) (hidelock mod hostc s) (int hidelock) g" "is_op g BARR" "emits g x t"
    have "bar_op g" using g(3) by (simp add: bar_op_def is_op_def BCAST_def)
    then show "?G t" using g n(5)
      by (intro exI [of _ g]) (auto simp: request_msg_def headed_def unseen_def bar_acts_def emits_def same_sync_def)
  qed (use bv.quiet_ops in \<open>auto simp: BCAST_def Maxlocks_def hidelock_def\<close>)
  have "send_notices appendstackwtnts send_slot WTNT BARR
      (\<lambda>m. m\<lparr>frompid := jia_pid s, topid := hidelock mod hostc s, scope := myscope (locks ?u hidelock)\<rparr>)
      hidelock (swtntp (lockstack ?u 0)) ?u = Inr v"
    using u(2) n(1-4) by (simp add: sendwtnts_def top_at_def Let_def Maxstacksize_def)
  with sent have "?G v" by (rule ensuresD)
  then obtain g where g: "request_msg BARR hidelock (jia_pid s) (hidelock mod hostc s) g" "bar_acts ?u [g] v" "barrwait v = 1"
    "acqc (locks v hidelock) = acqc (locks s hidelock)"
    by blast
  have "bar_acts s [g] v" using su(1) g(2) by (auto simp: unseen_def bar_acts_def)
  then show ?thesis using g unfolding u(3)
    by (intro exI [of _ g]) (auto simp: bar_acts_def set_top_wtnt_def diff_slots_def)
qed

section \<open>The other handlers\<close>

lemma unseen_handlers:
  assumes "diff_slots s" "\<not> bar_op m" "lock_op m \<longrightarrow> (\<exists>l<Maxlocks. msg_lock m = int l)"
  shows "h \<in> {diffserver, diffgrantserver, getpserver, getpgrantserver rnds, invserver, wtntserver, acqgrantserver,
      waitserver, waitgrantserver, setcvserver, resetcvserver, waitcvserver, cvgrantserver, other_msg} \<Longrightarrow>
    ensures (unseen s) (h m s)"
    "is_op m ACQ \<Longrightarrow> ensures (unseen s) (acqserver m s)" "is_op m REL \<Longrightarrow> ensures (unseen s) (relserver m s)"
proof -
  note i = unseen_refl [OF assms(1)]
  have o: "op m \<in> {n. n mod BCAST \<notin> {op_num BARR, op_num BARRGRANT}}"
    using assms(2) by (simp add: bar_op_def)
  show "h \<in> {diffserver, diffgrantserver, getpserver, getpgrantserver rnds, invserver, wtntserver, acqgrantserver,
      waitserver, waitgrantserver, setcvserver, resetcvserver, waitcvserver, cvgrantserver, other_msg} \<Longrightarrow>
    ensures (unseen s) (h m s)"
    using bv.diffserver_quiet [OF i] bv.diffgrantserver_quiet [OF i] bv.getpserver_quiet [OF i]
      bv.getpgrantserver_quiet [OF i] bv.invserver_quiet [OF i] bv.wtntserver_quiet [OF i] bv.acqgrantserver_quiet [OF i]
      bv.waitserver_quiet [OF i] bv.waitgrantserver_quiet [OF i] bv.cv_servers_quiet [OF i] bv.other_msg_quiet [OF i o]
    by (elim insertE emptyE) simp_all
  show "is_op m ACQ \<Longrightarrow> ensures (unseen s) (acqserver m s)" "is_op m REL \<Longrightarrow> ensures (unseen s) (relserver m s)"
    using assms(3) bv.lock_servers_quiet [OF i] lock_op_is by blast+
qed

lemma on_host_ensures: "ensures (R (p_host p)) (h (p_host p)) \<Longrightarrow> ensures (\<lambda>q. R (p_host p) (p_host q)) (on_host h p)"
  by (auto simp: on_host_def ensures_def)

lemma msg_handle_unseen:
  assumes "diff_slots (p_host p)" "\<not> bar_op m" "lock_op m \<longrightarrow> (\<exists>l<Maxlocks. msg_lock m = int l)"
  shows "ensures (\<lambda>q. unseen (p_host p) (p_host q)) (msg_handle mc rnds m p)"
proof -
  have n: "op_of_num (op m) \<noteq> Some BARR" "op_of_num (op m) \<noteq> Some BARRGRANT"
    using assms(2) by (auto simp: bar_op_def op_of_num_def op_table_def BCAST_def nth_Cons split: if_splits nat.splits)
  note i = unseen_refl [OF assms(1)]
  note h = on_host_ensures [of unseen, OF unseen_handlers(1) [OF assms, where rnds = rnds]]
  have a: "op_of_num (op m) = Some ACQ \<Longrightarrow> is_op m ACQ" "op_of_num (op m) = Some REL \<Longrightarrow> is_op m REL"
    by (auto simp: is_op_def op_of_num_def op_table_def nth_Cons split: if_splits nat.splits)
  note lk = on_host_ensures [of unseen p "acqserver m", OF unseen_handlers(2) [OF assms]]
    on_host_ensures [of unseen p "relserver m", OF unseen_handlers(3) [OF assms]]
  have l: "ensures (\<lambda>q. unseen (p_host p) (p_host q)) (on_loads k p)"
    if "ensures (\<lambda>t. unseen (p_host p) (snd t)) (k (p_loads p, p_host p))" for k
    using that by (auto simp: on_loads_def ensures_def)
  have s: "ensures (\<lambda>q. unseen (p_host p) (p_host q)) (on_stats k p)"
    if "ensures (\<lambda>t. unseen (p_host p) (snd t)) (k (p_stats p, p_host p))" for k
    using that by (auto simp: on_stats_def ensures_def)
  have k: "ensures (\<lambda>q. unseen (p_host p) (p_host q)) (on_packets k p)" for k
    by (auto simp: on_packets_def ensures_def i)
  have j: "ensures (\<lambda>q. unseen (p_host p) (p_host q)) (on_host (jiaexitserver m) p)"
    by (simp add: on_host_def jiaexitserver_def)
  show ?thesis
  proof (cases "op_of_num (op m)")
    case None
    then show ?thesis by (simp add: msg_handle_def) (rule h, simp_all)
  next
    case (Some x)
    then show ?thesis using n a
      by (cases x) (simp_all add: msg_handle_def j k l s lk bv.loadserver_quiet [OF i] bv.loadgrantserver_quiet [OF i]
        bv.statserver_quiet [OF i] bv.statgrantserver_quiet [OF i], (rule h, simp_all)+)
  qed
qed

section \<open>The program's thread\<close>

text \<open>A step of the thread comes to the barrier, goes on from it, or is elsewhere.\<close>

definition bar_comes :: "thread \<times> host \<Rightarrow> thread \<times> host \<Rightarrow> bool" where
  "bar_comes x y \<longleftrightarrow> fst x = AtBarrDiffs \<and> fst y = AtBarrGrant \<and> barrwait (snd y) = 1 \<and>
     acqc (locks (snd y) hidelock) = acqc (locks (snd x) hidelock) \<and>
     (\<exists>g. request_msg BARR hidelock (jia_pid (snd x)) (hidelock mod hostc (snd x)) g \<and> bar_acts (snd x) [g] (snd y))"

definition bar_goes :: "thread \<times> host \<Rightarrow> thread \<times> host \<Rightarrow> bool" where
  "bar_goes x y \<longleftrightarrow> fst x = AtBarrGrant \<and> fst y \<noteq> AtBarrGrant \<and> barrwait (snd x) = 0 \<and> unseen (snd x) (snd y)"

definition bar_away :: "thread \<times> host \<Rightarrow> thread \<times> host \<Rightarrow> bool" where
  "bar_away x y \<longleftrightarrow> fst x \<noteq> AtBarrGrant \<and> fst y \<noteq> AtBarrGrant \<and> unseen (snd x) (snd y)"

lemma user_step_bar:
  assumes "user_step (k, s) (k', t)" "diff_slots s" "stack_ok s" "thread_ok k s"
  shows "bar_comes (k, s) (k', t) \<or> bar_goes (k, s) (k', t) \<or> bar_away (k, s) (k', t)"
proof -
  note i = unseen_refl [OF assms(2)]
  have away: ?thesis if "unseen s t" "k \<noteq> AtBarrGrant" "k' \<noteq> AtBarrGrant"
    using that by (simp add: bar_away_def)
  have goes: ?thesis if "unseen s t" "k = AtBarrGrant" "k' \<noteq> AtBarrGrant" "barrwait s = 0"
    using that by (simp add: bar_goes_def)
  have flag: "unseen s (s\<lparr>cvwait := x\<rparr>)" "unseen s (s\<lparr>vmem := v\<rparr>)" for x v
    using i by (simp_all add: unseen_def bar_acts_def diff_slots_def)
  from assms(1) show ?thesis
  proof cases
    case (Write v)
    show ?thesis by (rule away) (use Write flag in auto)
  next
    case (Fault rnd c a r)
    have "unseen s t" by (rule ensuresD [OF bv.fault_request_quiet [OF i, where Q = "\<lambda>x. unseen s (snd x)"] Fault(3), simplified])
    then show ?thesis by (rule away) (use Fault in \<open>auto split: option.splits\<close>)
  next
    case (Resume c a j)
    have "unseen s t" by (rule ensuresD [OF bv.fault_resume_quiet [OF i] Resume(3)])
    then show ?thesis by (rule away) (use Resume in auto)
  next
    case (Lock l)
    show ?thesis by (rule away [OF ensuresD [OF bv.lock_parts_quiet(1) [OF i] Lock(3)]]) (use Lock in auto)
  next
    case (LockAsk l)
    show ?thesis by (rule away [OF ensuresD [OF bv.lock_parts_quiet(2) [OF i] LockAsk(4)]]) (use LockAsk in auto)
  next
    case (LockEnter l)
    show ?thesis by (rule away [OF ensuresD [OF bv.lock_parts_quiet(3) [OF i] LockEnter(4)]]) (use LockEnter in auto)
  next
    case (Unlock l)
    show ?thesis by (rule away [OF ensuresD [OF bv.lock_parts_quiet(4) [OF i] Unlock(3)]]) (use Unlock in auto)
  next
    case (UnlockEnd l)
    show ?thesis by (rule away [OF ensuresD [OF bv.unlock_end_quiet [OF i] UnlockEnd(4)]]) (use UnlockEnd in auto)
  next
    case Barrier
    show ?thesis by (rule away [OF ensuresD [OF bv.barrier_begin_quiet [OF i] Barrier(3)]]) (use Barrier in auto)
  next
    case BarrierSend
    then have "bar_comes (k, s) (k', t)" using barrier_send_acts [OF assms(2) BarrierSend(4)] assms(3,4)
      by (auto simp: bar_comes_def stack_ok_def)
    then show ?thesis by simp
  next
    case BarrierEnd
    have "unseen s t" by (rule ensuresD [OF bv.startinterval_quiet [OF i] BarrierEnd(5)])
    then show ?thesis by (rule goes) (use BarrierEnd in auto)
  next
    case BarrierWait
    show ?thesis by (rule goes [OF ensuresD [OF bv.wait_send_quiet [OF i] BarrierWait(6)]]) (use BarrierWait in auto)
  next
    case BarrierWaited
    have "unseen s t" by (rule ensuresD [OF bv.startinterval_quiet [OF i] BarrierWaited(4)])
    then show ?thesis by (rule away) (use BarrierWaited in auto)
  next
    case Wait
    show ?thesis by (rule away [OF ensuresD [OF bv.wait_send_quiet [OF i] Wait(3)]]) (use Wait in auto)
  next
    case Waited
    show ?thesis by (rule away) (use Waited i in auto)
  next
    case (SetCv x c)
    show ?thesis by (rule away [OF ensuresD [OF bv.cv_send_quiet [OF _ i] SetCv(4)]]) (use SetCv in auto)
  next
    case (WaitCv c)
    show ?thesis by (rule away [OF ensuresD [OF bv.cv_send_quiet [OF _ flag(1)] WaitCv(3)]]) (use WaitCv in auto)
  next
    case WaitedCv
    show ?thesis by (rule away) (use WaitedCv i in auto)
  next
    case (SendMsg buf p tag)
    show ?thesis by (rule away [OF ensuresD [OF bv.jia_send_quiet [OF i] SendMsg(3)]]) (use SendMsg in auto)
  next
    case (Bcast buf r)
    show ?thesis by (rule away [OF ensuresD [OF bv.bcast_send_quiet [OF i] Bcast(3)]]) (use Bcast in auto)
  next
    case (Alloc n bs j h a)
    have "unseen s t" by (rule ensuresD [OF bv.jia_alloc4_quiet [OF i] Alloc(3), simplified])
    then show ?thesis by (rule away) (use Alloc in auto)
  qed
qed

lemma proc_step_bar:
  assumes "proc_step mc (k, P) (k', P')" "diff_slots (p_host P)" "stack_ok (p_host P)" "thread_ok k (p_host P)"
  shows "bar_comes (k, p_host P) (k', p_host P') \<or> bar_goes (k, p_host P) (k', p_host P') \<or> bar_away (k, p_host P) (k', p_host P')"
proof -
  note i = unseen_refl [OF assms(2)]
  have away: ?thesis if "unseen (p_host P) (p_host P')" "k \<noteq> AtBarrGrant" "k' \<noteq> AtBarrGrant"
    using that by (simp add: bar_away_def)
  from assms(1) show ?thesis
  proof cases
    case (OnHost s)
    then show ?thesis using user_step_bar [OF _ assms(2-4), of k' s] by simp
  next
    case (Balance now ld s)
    have "unseen (p_host P) s" by (rule ensuresD [OF bv.load_stat_send_quiet(1) [OF i] Balance(5), simplified])
    then show ?thesis using Balance by (intro away) auto
  next
    case (Config junk d v ld s)
    have "unseen (p_host P) s" by (rule ensuresD [OF bv.jia_config_quiet [OF i] Config(4), simplified])
    then show ?thesis using Config by (intro away) auto
  next
    case (Report st s)
    have "unseen (p_host P) s" by (rule ensuresD [OF bv.load_stat_send_quiet(2) [OF i] Report(4), simplified])
    then show ?thesis using Report by (intro away) auto
  qed (rule away; use i in auto)+
qed

end
