(* ===== verification/Barsys.thy ===== *)
theory Barsys
  imports Locksys Barmsgs
begin

text \<open>
  The barrier of the whole system: its messages on the way, in the queues and channels of all
  processes, and the runs of the system with a count of how often each process has come to the barrier
  and gone on from it. Each run follows the protocol of \<open>Barproto\<close>.
\<close>

section \<open>Messages on their way\<close>

definition in_flight :: "(jia_msg \<Rightarrow> bool) \<Rightarrow> nat \<Rightarrow> 'f system \<Rightarrow> nat" where
  "in_flight P n S = (\<Sum>j<n. length (filter P (outq (host_of S j))) + (\<Sum>h<n. length (filter P (chan S j h))))"

lemma sum_change:
  fixes f g :: "nat \<Rightarrow> nat"
  assumes "p < n" "\<And>j. j \<noteq> p \<Longrightarrow> g j = f j"
  shows "sum g {..<n} + f p = sum f {..<n} + g p"
proof -
  have "sum g ({..<n} - {p}) = sum f ({..<n} - {p})" by (rule sum.cong) (use assms(2) in auto)
  then show ?thesis using sum.remove [of "{..<n}" p f] sum.remove [of "{..<n}" p g] assms(1) by simp
qed

lemma in_flight_change:
  assumes "host_change p k t S S'" "bar_acts (host_of S p) gs t" "p < n" "\<And>m. P m \<Longrightarrow> bar_op m"
  shows "in_flight P n S' = in_flight P n S + length (filter P gs)"
proof -
  obtain ms where ms: "outq t = outq (host_of S p) @ ms" "gs = filter bar_op ms" using assms(2) by (auto simp: bar_acts_def)
  have gs: "filter P gs = filter P ms" unfolding ms(2) filter_filter by (rule filter_cong) (use assms(4) in auto)
  let ?f = "\<lambda>S j. length (filter P (outq (host_of S j))) + (\<Sum>h<n. length (filter P (chan S j h)))"
  have "sum (?f S') {..<n} + ?f S p = sum (?f S) {..<n} + ?f S' p"
    by (rule sum_change [OF assms(3)]) (use assms(1) in \<open>simp add: host_change_def\<close>)
  then show ?thesis using assms(1) ms(1) by (simp add: in_flight_def host_change_def gs)
qed

lemma in_flight_take:
  assumes "chan S q p = m # ms" "p < n" "q < n"
  shows "in_flight P n S = in_flight P n (set_chan q p ms S) + (if P m then 1 else 0)"
proof -
  let ?S = "set_chan q p ms S"
  let ?c = "\<lambda>S h. length (filter P (chan S q h))"
  let ?f = "\<lambda>S j. length (filter P (outq (host_of S j))) + (\<Sum>h<n. length (filter P (chan S j h)))"
  have c: "sum (?c ?S) {..<n} + ?c S p = sum (?c S) {..<n} + ?c ?S p"
    by (rule sum_change [OF assms(2)]) (simp add: set_chan_def)
  have "sum (?f ?S) {..<n} + ?f S q = sum (?f S) {..<n} + ?f ?S q"
    by (rule sum_change [OF assms(3)]) (simp add: set_chan_def)
  then show ?thesis using c assms(1) by (simp add: in_flight_def set_chan_def split: if_splits)
qed

lemma in_flight_send:
  assumes "outq (host_of S p) = m # ms" "p < n" "P m \<Longrightarrow> topid m < n"
    "S' = set_chan p (topid m) (chan S p (topid m) @ [m]) (set_host_of p ((host_of S p)\<lparr>outq := ms\<rparr>) S)"
  shows "in_flight P n S' = in_flight P n S"
proof -
  let ?c = "\<lambda>S h. length (filter P (chan S p h))"
  let ?f = "\<lambda>S j. length (filter P (outq (host_of S j))) + (\<Sum>h<n. length (filter P (chan S j h)))"
  have e: "chan S' j h = (if j = p \<and> h = topid m then chan S p h @ [m] else chan S j h)"
    "host_of S' j = (if j = p then (host_of S p)\<lparr>outq := ms\<rparr> else host_of S j)" for j h
  proof -
    show "chan S' j h = (if j = p \<and> h = topid m then chan S p h @ [m] else chan S j h)"
      unfolding assms(4) by (cases "j = p"; cases "h = topid m"; simp add: set_chan_def set_host_of_def)
    show "host_of S' j = (if j = p then (host_of S p)\<lparr>outq := ms\<rparr> else host_of S j)"
      unfolding assms(4) by (cases "j = p"; simp add: set_chan_def set_host_of_def)
  qed
  have c: "sum (?c S') {..<n} = sum (?c S) {..<n} + (if P m then 1 else 0)"
  proof (cases "topid m < n")
    case True
    have "sum (?c S') {..<n} + ?c S (topid m) = sum (?c S) {..<n} + ?c S' (topid m)"
      by (rule sum_change [OF True]) (simp add: e)
    moreover have "?c S' (topid m) = ?c S (topid m) + (if P m then 1 else 0)" by (simp add: e)
    ultimately show ?thesis by linarith
  next
    case False
    have "sum (?c S') {..<n} = sum (?c S) {..<n}" by (rule sum.cong) (use False in \<open>auto simp: e\<close>)
    then show ?thesis using False assms(3) by auto
  qed
  have "sum (?f S') {..<n} + ?f S p = sum (?f S) {..<n} + ?f S' p"
    by (rule sum_change [OF assms(2)]) (simp add: e)
  moreover have "length (filter P (outq (host_of S p))) = length (filter P (outq (host_of S' p))) + (if P m then 1 else 0)"
    using assms(1) by (simp add: e)
  ultimately show ?thesis using c unfolding in_flight_def by linarith
qed

section \<open>The protocol of the barrier in the system\<close>

definition stage_of :: "thread \<Rightarrow> host \<Rightarrow> bar_stage" where
  "stage_of k s = (if k = AtBarrGrant then if barrwait s = 0 then Freed else Waiting else Away)"

definition bar_view :: "nat \<Rightarrow> 'f system \<Rightarrow> (nat \<Rightarrow> nat) \<Rightarrow> (nat \<Rightarrow> nat) \<Rightarrow> bar_state" where
  "bar_view n S c g = \<lparr>coming = in_flight (\<lambda>m. is_op m BARR) n S,
     counted = nat (acqc (locks (host_of S (hidelock mod n)) hidelock)),
     leave = (\<lambda>p. if p < n then in_flight (leave_for n p) n S else 0),
     stage = (\<lambda>p. if p < n then stage_of (threads S p) (host_of S p) else Away), came = c, gone = g\<rparr>"

definition bar_msg_ok :: "nat \<Rightarrow> nat \<Rightarrow> jia_msg \<Rightarrow> bool" where
  "bar_msg_ok n p m \<longleftrightarrow> request_msg BARR hidelock p (hidelock mod n) m \<or> leave_ok n m"

definition bar_proc_ok :: "nat \<Rightarrow> 'f system \<Rightarrow> nat \<Rightarrow> bool" where
  "bar_proc_ok n S p \<longleftrightarrow> 0 \<le> acqc (locks (host_of S p) hidelock) \<and>
     (\<forall>m\<in>set (outq (host_of S p)). bar_op m \<longrightarrow> bar_msg_ok n p m) \<and>
     (\<forall>h<n. \<forall>m\<in>set (chan S p h). topid m = h \<and> (bar_op m \<longrightarrow> bar_msg_ok n p m))"

lemma bar_op_is: "is_op m BARR \<Longrightarrow> bar_op m" "leave_for n p m \<Longrightarrow> bar_op m" "leave_ok n m \<Longrightarrow> bar_op m"
  by (auto simp: bar_op_def is_op_def leave_for_def leave_ok_def BCAST_def)

lemma request_barr:
  assumes "request_msg BARR l p q m"
  shows "is_op m BARR" "bar_op m" "topid m = q" "msg_lock m = int l" "\<not> leave_for n h m"
  using assms by (auto simp: request_msg_def bar_op_def is_op_def leave_for_def BCAST_def)

lemma leave_ok_is: "leave_ok n m \<Longrightarrow> \<not> is_op m BARR" "leave_ok n m \<Longrightarrow> topid m < n"
  by (auto simp: leave_ok_def is_op_def BCAST_def)

lemma bar_proc_change:
  assumes "host_change p k t S S'" "bar_acts (host_of S p) gs t" "\<forall>j<n. bar_proc_ok n S j" "j < n"
    "\<forall>g\<in>set gs. bar_msg_ok n p g" "0 \<le> acqc (locks t hidelock)"
  shows "bar_proc_ok n S' j"
proof -
  obtain ms where ms: "outq t = outq (host_of S p) @ ms" "gs = filter bar_op ms" using assms(2) by (auto simp: bar_acts_def)
  have "\<forall>g\<in>set ms. bar_op g \<longrightarrow> bar_msg_ok n p g" using assms(5) by (simp add: ms(2))
  then show ?thesis
    using assms(1,3,4,6) ms(1) by (cases "j = p") (auto simp: bar_proc_ok_def host_change_def)
qed

lemma bar_proc_take:
  assumes "chan S q p = m # ms" "\<forall>j<n. bar_proc_ok n S j" "j < n"
  shows "bar_proc_ok n (set_chan q p ms S) j"
  using assms by (cases "j = q") (auto simp: bar_proc_ok_def set_chan_def)

lemma bar_view_change:
  assumes "host_change p k t S S'" "bar_acts (host_of S p) gs t" "p < n" "V = bar_view n S c g"
  shows "bar_view n S' c' g' = \<lparr>coming = coming V + length (filter (\<lambda>m. is_op m BARR) gs),
     counted = (if hidelock mod n = p then nat (acqc (locks t hidelock)) else counted V),
     leave = (\<lambda>h. if h < n then leave V h + length (filter (leave_for n h) gs) else 0),
     stage = (stage V)(p := stage_of k t), came = c', gone = g'\<rparr>"
proof -
  have f: "in_flight (\<lambda>m. is_op m BARR) n S' = in_flight (\<lambda>m. is_op m BARR) n S + length (filter (\<lambda>m. is_op m BARR) gs)"
    "in_flight (leave_for n h) n S' = in_flight (leave_for n h) n S + length (filter (leave_for n h) gs)" for h
    by (rule in_flight_change [OF assms(1-3)]; rule bar_op_is; assumption)+
  show ?thesis
    using assms(1,3) unfolding bar_view_def assms(4) f by (auto simp: host_change_def fun_eq_iff)
qed

lemma bar_view_take:
  assumes "chan S q p = m # ms" "p < n" "q < n" "V = bar_view n S c g"
  shows "bar_view n (set_chan q p ms S) c g = V\<lparr>coming := (if is_op m BARR then coming V - 1 else coming V),
     leave := \<lambda>h. if h < n \<and> leave_for n h m then leave V h - 1 else leave V h\<rparr>"
    "is_op m BARR \<Longrightarrow> 0 < coming V" "h < n \<Longrightarrow> leave_for n h m \<Longrightarrow> 0 < leave V h"
  unfolding assms(4) bar_view_def using in_flight_take [OF assms(1-3)] by (auto simp: fun_eq_iff)

section \<open>Steps\<close>

text \<open>A thread comes to the barrier when its message is sent, and goes on from it when it stops waiting.\<close>

definition comes :: "'f system \<Rightarrow> 'f system \<Rightarrow> nat \<Rightarrow> bool" where
  "comes S S' p \<longleftrightarrow> threads S p = AtBarrDiffs \<and> threads S' p = AtBarrGrant"

definition goes :: "'f system \<Rightarrow> 'f system \<Rightarrow> nat \<Rightarrow> bool" where
  "goes S S' p \<longleftrightarrow> threads S p = AtBarrGrant \<and> threads S' p \<noteq> AtBarrGrant"

definition tally :: "(nat \<Rightarrow> bool) \<Rightarrow> (nat \<Rightarrow> nat) \<Rightarrow> nat \<Rightarrow> nat" where
  "tally e c p = (if e p then c p + 1 else c p)"

inductive bar_run :: "'f machine \<Rightarrow> nat \<Rightarrow> 'f system \<Rightarrow> 'f system \<Rightarrow> (nat \<Rightarrow> nat) \<Rightarrow> (nat \<Rightarrow> nat) \<Rightarrow> bool" for mc n S where
  Begin: "bar_run mc n S S (\<lambda>_. 0) (\<lambda>_. 0)"
| Go: "bar_run mc n S T c g \<Longrightarrow> sys_step mc n T U \<Longrightarrow> bar_run mc n S U (tally (comes T U) c) (tally (goes T U) g)"

lemma bar_run_exists: "(sys_step mc n)\<^sup>*\<^sup>* S T \<Longrightarrow> \<exists>c g. bar_run mc n S T c g"
  by (induction rule: rtranclp_induct) (auto intro: bar_run.intros)

lemma bar_run_sys: "bar_run mc n S T c g \<Longrightarrow> (sys_step mc n)\<^sup>*\<^sup>* S T"
  by (induction rule: bar_run.induct) auto

lemma moves:
  assumes "threads S' = (threads S)(p := k)"
  shows "tally (comes S S') c = (if threads S p = AtBarrDiffs \<and> k = AtBarrGrant then c(p := c p + 1) else c)"
    "tally (goes S S') g = (if threads S p = AtBarrGrant \<and> k \<noteq> AtBarrGrant then g(p := g p + 1) else g)"
  using assms by (auto simp: fun_eq_iff tally_def comes_def goes_def)

lemma no_moves:
  assumes "threads S' = threads S"
  shows "tally (comes S S') c = c" "tally (goes S S') c = c"
  using assms by (auto simp: fun_eq_iff tally_def comes_def goes_def)

text \<open>A step keeps the messages well-formed and is a step of the protocol or not seen by it.\<close>

definition bar_follows :: "nat \<Rightarrow> 'f system \<Rightarrow> 'f system \<Rightarrow> (nat \<Rightarrow> nat) \<Rightarrow> (nat \<Rightarrow> nat) \<Rightarrow> bool" where
  "bar_follows n S S' c g \<longleftrightarrow> (\<forall>j<n. bar_proc_ok n S' j) \<and>
     (let a = bar_view n S c g; b = bar_view n S' (tally (comes S S') c) (tally (goes S S') g) in b = a \<or> bar_step n a b)"

definition bar_inv :: "nat \<Rightarrow> 'f system \<Rightarrow> (nat \<Rightarrow> nat) \<Rightarrow> (nat \<Rightarrow> nat) \<Rightarrow> bool" where
  "bar_inv n S c g \<longleftrightarrow> 1 < n \<and> n \<le> Maxhosts \<and> sys_inv n S \<and> (\<forall>j<n. bar_proc_ok n S j) \<and> bar_ok n (bar_view n S c g)"

lemma bar_inv_host:
  assumes "bar_inv n S c g" "p < n"
  shows "jia_pid (host_of S p) = p" "hostc (host_of S p) = n" "diff_slots (host_of S p)" "stack_ok (host_of S p)"
    "thread_ok (threads S p) (host_of S p)" "0 \<le> acqc (locks (host_of S p) hidelock)" "n \<le> Maxhosts"
    "\<forall>j<n. bar_proc_ok n S j" "bar_ok n (bar_view n S c g)"
  using assms by (auto simp: bar_inv_def sys_inv_def proc_ok_def bar_proc_ok_def)

lemma bar_send_follows:
  assumes "bar_inv n S c g" "p < n" "outq (host_of S p) = m # ms"
    "S' = set_chan p (topid m) (chan S p (topid m) @ [m]) (set_host_of p ((host_of S p)\<lparr>outq := ms\<rparr>) S)"
  shows "bar_follows n S S' c g"
proof -
  have h: "host_of S' j = (if j = p then (host_of S p)\<lparr>outq := ms\<rparr> else host_of S j)" "threads S' = threads S" for j
    unfolding assms(4) by (simp_all add: set_chan_def set_host_of_def)
  have ch: "chan S' j h = (if j = p \<and> h = topid m then chan S p h @ [m] else chan S j h)" for j h
    unfolding assms(4) by (simp add: set_chan_def set_host_of_def)
  have ok: "\<forall>j<n. bar_proc_ok n S j" "0 < n" using assms(1) by (auto simp: bar_inv_def)
  then have m: "bar_op m \<longrightarrow> bar_msg_ok n p m" using assms(2,3) by (simp add: bar_proc_ok_def)
  then have t: "topid m < n" if "bar_op m"
    using that ok(2) request_barr(3) [of hidelock p "hidelock mod n" m] leave_ok_is(2) [of n m] by (auto simp: bar_msg_ok_def)
  have f: "in_flight P n S' = in_flight P n S" if "P m \<longrightarrow> bar_op m" for P
    by (rule in_flight_send [where P = P, OF assms(3,2) _ assms(4)]) (use t that in blast)
  have "bar_proc_ok n S' j" if "j < n" for j
  proof -
    have j: "bar_proc_ok n S j" using ok(1) that by simp
    have "\<forall>x\<in>set (chan S' j i). topid x = i \<and> (bar_op x \<longrightarrow> bar_msg_ok n j x)" if "i < n" for i
    proof
      fix x assume "x \<in> set (chan S' j i)"
      then have "x \<in> set (chan S j i) \<or> x = m \<and> j = p \<and> topid m = i" unfolding ch by (simp split: if_splits) blast
      moreover have "\<forall>x\<in>set (chan S j i). topid x = i \<and> (bar_op x \<longrightarrow> bar_msg_ok n j x)"
        using j that by (simp add: bar_proc_ok_def)
      ultimately show "topid x = i \<and> (bar_op x \<longrightarrow> bar_msg_ok n j x)" using m by blast
    qed
    moreover have "\<forall>x\<in>set (outq (host_of S' j)). bar_op x \<longrightarrow> bar_msg_ok n j x"
      using j assms(3) by (cases "j = p") (simp_all add: bar_proc_ok_def h(1))
    moreover have "0 \<le> acqc (locks (host_of S' j) hidelock)"
      using j by (cases "j = p") (simp_all add: bar_proc_ok_def h(1))
    ultimately show ?thesis by (simp add: bar_proc_ok_def)
  qed
  moreover have "in_flight (\<lambda>m. is_op m BARR) n S' = in_flight (\<lambda>m. is_op m BARR) n S"
    "in_flight (leave_for n i) n S' = in_flight (leave_for n i) n S" for i
    by (rule f, use bar_op_is in blast)+
  then have "bar_view n S' c g = bar_view n S c g"
    by (simp add: bar_view_def h stage_of_def fun_eq_iff)
  ultimately show ?thesis by (simp add: bar_follows_def no_moves [OF h(2)])
qed

lemma bar_thread_follows:
  assumes "bar_inv n S c g" "p < n" "proc_step mc (threads S p, procs S p) (k, P)" "host_change p k (p_host P) S S'"
  shows "bar_follows n S S' c g"
proof -
  let ?s = "host_of S p" and ?t = "p_host P" and ?k = "threads S p"
  note p = bar_inv_host [OF assms(1,2)]
  have tr: "threads S' = (threads S)(p := k)" using assms(4) by (simp add: host_change_def)
  note change = bar_view_change [OF assms(4) _ assms(2) refl [of "bar_view n S c g"]] and keep = bar_proc_change [OF assms(4) _ p(8)]
  have st: "stage (bar_view n S c g) p = stage_of ?k ?s" using assms(2) by (simp add: bar_view_def)
  have view: "bar_view n S' c' g' = (bar_view n S c g)\<lparr>coming := coming (bar_view n S c g) + length gs,
      stage := (stage (bar_view n S c g))(p := stage_of k ?t), came := c', gone := g'\<rparr>"
    if "bar_acts ?s gs ?t" "acqc (locks ?t hidelock) = acqc (locks ?s hidelock)" "\<forall>x\<in>set gs. is_op x BARR" for gs c' g'
  proof -
    have "filter (\<lambda>m. is_op m BARR) gs = gs" "filter (leave_for n h) gs = []" for h
      using that(3) by (auto simp: filter_id_conv filter_empty_conv leave_for_def is_op_def BCAST_def)
    then show ?thesis unfolding change [OF that(1)] using that(2) by (auto simp: bar_view_def fun_eq_iff)
  qed
  from proc_step_bar [OF assms(3) p(3-5)] consider "bar_comes (?k, ?s) (k, ?t)" | "bar_goes (?k, ?s) (k, ?t)"
    | "bar_away (?k, ?s) (k, ?t)" by blast
  then show ?thesis
  proof cases
    case 1
    then obtain x where x: "request_msg BARR hidelock p (hidelock mod n) x" "bar_acts ?s [x] ?t" "?k = AtBarrDiffs" "k = AtBarrGrant"
      "barrwait ?t = 1" "acqc (locks ?t hidelock) = acqc (locks ?s hidelock)"
      using p(1,2) by (auto simp: bar_comes_def)
    have "tally (comes S S') c = c(p := c p + 1)" "tally (goes S S') g = g"
      using x(3,4) moves [OF tr] by simp_all
    then have "bar_view n S' (tally (comes S S') c) (tally (goes S S') g) = arrive p (bar_view n S c g)"
      using view [OF x(2,6)] request_barr(1) [OF x(1)] x(4,5) by (simp add: arrive_def stage_of_def) (simp add: bar_view_def)
    moreover have "stage (bar_view n S c g) p = Away" using st x(3) by (simp add: stage_of_def)
    moreover have "bar_proc_ok n S' j" if "j < n" for j
      by (rule keep [OF x(2) that]) (use x(1,6) p(6) in \<open>simp_all add: bar_msg_ok_def\<close>)
    ultimately show ?thesis using bar_step.Arrive [OF assms(2)] by (simp add: bar_follows_def Let_def)
  next
    case 2
    then have x: "bar_acts ?s [] ?t" "?k = AtBarrGrant" "k \<noteq> AtBarrGrant" "barrwait ?s = 0"
      "acqc (locks ?t hidelock) = acqc (locks ?s hidelock)" by (auto simp: bar_goes_def unseen_def)
    have "tally (comes S S') c = c" "tally (goes S S') g = g(p := g p + 1)"
      using x(2,3) moves [OF tr] by simp_all
    then have "bar_view n S' (tally (comes S S') c) (tally (goes S S') g) = go_on p (bar_view n S c g)"
      using view [OF x(1,5)] x(3) by (simp add: go_on_def stage_of_def) (simp add: bar_view_def)
    moreover have "stage (bar_view n S c g) p = Freed" using st x(2,4) by (simp add: stage_of_def)
    moreover have "bar_proc_ok n S' j" if "j < n" for j
      by (rule keep [OF x(1) that]) (use x(5) p(6) in simp_all)
    ultimately show ?thesis using bar_step.Go [OF assms(2)] by (simp add: bar_follows_def Let_def)
  next
    case 3
    then have x: "bar_acts ?s [] ?t" "?k \<noteq> AtBarrGrant" "k \<noteq> AtBarrGrant"
      "acqc (locks ?t hidelock) = acqc (locks ?s hidelock)" by (auto simp: bar_away_def unseen_def)
    have "tally (comes S S') c = c" "tally (goes S S') g = g"
      using x(2,3) moves [OF tr] by simp_all
    moreover have "stage_of k ?t = stage (bar_view n S c g) p" using st x(2,3) by (simp add: stage_of_def)
    ultimately have "bar_view n S' (tally (comes S S') c) (tally (goes S S') g) = bar_view n S c g"
      using view [OF x(1,4)] by simp (simp add: bar_view_def)
    moreover have "bar_proc_ok n S' j" if "j < n" for j
      by (rule keep [OF x(1) that]) (use x(4) p(6) in simp_all)
    ultimately show ?thesis by (simp add: bar_follows_def Let_def)
  qed
qed


text \<open>A message is handled.\<close>

lemma msg_handle_bar:
  "is_op m BARR \<Longrightarrow> msg_handle mc rnds m = on_host (barrserver m)"
  "is_op m BARRGRANT \<Longrightarrow> msg_handle mc rnds m = on_host (barrgrantserver m)"
  "op m = op_num BARRGRANT + BCAST \<Longrightarrow> msg_handle mc rnds m = on_host (other_msg m)"
  by (simp_all add: msg_handle_def is_op_def op_of_num_def op_table_def BCAST_def)

lemma no_barr: "\<forall>x\<in>set gs. leave_ok n x \<Longrightarrow> filter (\<lambda>m. is_op m BARR) gs = []"
  by (auto simp: filter_empty_conv leave_ok_is)

lemma stage_grant: "stage_of k s = Waiting \<longleftrightarrow> k = AtBarrGrant \<and> barrwait s \<noteq> 0"
  by (simp add: stage_of_def)

text \<open>What the cases have in common: the host \<open>t\<close> after the message, and the view of it.\<close>

lemma bar_serve_by:
  assumes "bar_inv n S c g" "p < n" "q < n" "chan S q p = m # ms"
    "host_change p (threads S p) t (set_chan q p ms S) S'" "bar_acts (host_of S p) gs t"
    "\<forall>x\<in>set gs. leave_ok n x" "0 \<le> acqc (locks t hidelock)"
    "V = bar_view n S c g" "b = \<lparr>coming = (if is_op m BARR then coming V - 1 else coming V),
     counted = (if hidelock mod n = p then nat (acqc (locks t hidelock)) else counted V),
     leave = (\<lambda>h. if h < n then (if leave_for n h m then leave V h - 1 else leave V h) + length (filter (leave_for n h) gs) else 0),
     stage = (stage V)(p := stage_of (threads S p) t), came = c, gone = g\<rparr>" "b = V \<or> bar_step n V b"
  shows "bar_follows n S S' c g"
proof -
  note p = bar_inv_host [OF assms(1,2)]
  have a: "bar_acts (host_of (set_chan q p ms S) p) gs t" using assms(6) by simp
  have tr: "threads S' = threads S" using assms(5) by (simp add: host_change_def)
  note take = bar_view_take(1) [OF assms(4,2,3) assms(9)]
  have "bar_view n S' c g = b"
    unfolding bar_view_change [OF assms(5) a assms(2) refl [of "bar_view n (set_chan q p ms S) c g"]] take assms(10) no_barr [OF assms(7)]
    by (simp add: fun_eq_iff)
  moreover have "bar_proc_ok n S' j" if "j < n" for j
    by (rule bar_proc_change [OF assms(5) a _ that _ assms(8)])
      (use bar_proc_take [OF assms(4) p(8)] assms(7) in \<open>auto simp: bar_msg_ok_def\<close>)
  ultimately show ?thesis using assms(9,11) by (simp add: bar_follows_def no_moves [OF tr])
qed

lemma bar_serve_same:
  assumes "bar_inv n S c g" "p < n" "q < n" "chan S q p = m # ms"
    "host_change p (threads S p) t (set_chan q p ms S) S'" "bar_acts (host_of S p) gs t"
    "\<forall>x\<in>set gs. leave_ok n x" "acqc (locks t hidelock) = acqc (locks (host_of S p) hidelock)" "barrwait t = barrwait (host_of S p)"
    "\<not> is_op m BARR" "\<forall>h<n. length (filter (leave_for n h) gs) = (if leave_for n h m then 1 else 0)"
  shows "bar_follows n S S' c g"
proof (rule bar_serve_by [OF assms(1-7) _ refl refl])
  show "0 \<le> acqc (locks t hidelock)" using bar_inv_host(6) [OF assms(1,2)] assms(8) by simp
  let ?V = "bar_view n S c g"
  have "(if leave_for n h m then leave ?V h - 1 else leave ?V h) + length (filter (leave_for n h) gs) = leave ?V h" if "h < n" for h
    using bar_view_take(3) [OF assms(4,2,3) refl [of ?V] that] assms(11) that by auto
  then have l: "(\<lambda>h. if h < n then (if leave_for n h m then leave ?V h - 1 else leave ?V h) + length (filter (leave_for n h) gs) else 0) =
      leave ?V" by (auto simp: bar_view_def fun_eq_iff)
  show "\<lparr>coming = (if is_op m BARR then coming ?V - 1 else coming ?V),
     counted = (if hidelock mod n = p then nat (acqc (locks t hidelock)) else counted ?V),
     leave = (\<lambda>h. if h < n then (if leave_for n h m then leave ?V h - 1 else leave ?V h) + length (filter (leave_for n h) gs) else 0),
     stage = (stage ?V)(p := stage_of (threads S p) t), came = c, gone = g\<rparr> = ?V \<or> bar_step n ?V \<lparr>coming = (if is_op m BARR then coming ?V - 1 else coming ?V),
     counted = (if hidelock mod n = p then nat (acqc (locks t hidelock)) else counted ?V),
     leave = (\<lambda>h. if h < n then (if leave_for n h m then leave ?V h - 1 else leave ?V h) + length (filter (leave_for n h) gs) else 0),
     stage = (stage ?V)(p := stage_of (threads S p) t), came = c, gone = g\<rparr>"
    unfolding l using assms(2,8-10) by (auto simp: bar_view_def stage_of_def fun_eq_iff)
qed

lemma bar_serve_count:
  assumes "bar_inv n S c g" "p < n" "q < n" "chan S q p = m # ms" "barrserver m (host_of S p) = Inr t"
    "host_change p (threads S p) t (set_chan q p ms S) S'"
  shows "bar_follows n S S' c g"
proof -
  note p = bar_inv_host [OF assms(1,2)]
  let ?s = "host_of S p" and ?V = "bar_view n S c g"
  have pn: "jia_pid ?s < hostc ?s" "hostc ?s \<le> Maxhosts" using p(1,2,7) assms(2) by simp_all
  note srv = barrserver_acts [OF p(3) pn assms(5), unfolded p(1,2)]
  obtain gs where gs: "bar_acts ?s gs t" "barrwait t = barrwait ?s" "if acqc (locks ?s hidelock) + 1 = int n
       then acqc (locks t hidelock) = 0 \<and> (\<forall>x\<in>set gs. leave_ok n x) \<and> (\<forall>p<n. length (filter (leave_for n p) gs) = 1)
       else acqc (locks t hidelock) = acqc (locks ?s hidelock) + 1 \<and> gs = []"
    using srv(3) by blast
  have cn: "counted ?V = nat (acqc (locks ?s hidelock))" using srv(1) by (simp add: bar_view_def)
  have last: "counted ?V + 1 = n \<longleftrightarrow> acqc (locks ?s hidelock) + 1 = int n" using p(6) cn by linarith
  have nl: "\<not> leave_for n h m" for h using srv(2) by (auto simp: leave_for_def is_op_def BCAST_def)
  have st: "stage_of (threads S p) t = stage ?V p" using gs(2) assms(2) by (simp add: bar_view_def stage_of_def)
  have l0: "leave ?V h = 0" if "\<not> h < n" for h using that by (simp add: bar_view_def)
  have cg: "came ?V = c" "gone ?V = g" by (simp_all add: bar_view_def)
  show ?thesis
  proof (rule bar_serve_by [OF assms(1-4,6) gs(1) _ _ refl refl], goal_cases)
    case 1
    show ?case using gs(3) by (auto split: if_splits)
  next
    case 2
    show ?case using gs(3) p(6) by (auto split: if_splits)
  next
    case 3
    have "0 < coming ?V" by (rule bar_view_take(2) [OF assms(4,2,3) refl srv(2)])
    moreover have "\<lparr>coming = (if is_op m BARR then coming ?V - 1 else coming ?V),
     counted = (if hidelock mod n = p then nat (acqc (locks t hidelock)) else counted ?V),
     leave = (\<lambda>h. if h < n then (if leave_for n h m then leave ?V h - 1 else leave ?V h) + length (filter (leave_for n h) gs) else 0),
     stage = (stage ?V)(p := stage_of (threads S p) t), came = c, gone = g\<rparr> = count n ?V"
    proof (cases "counted ?V + 1 = n")
      case True
      then show ?thesis using gs(3) last nl srv(1,2) st l0 cg
        by (intro bar_state.equality) (auto simp: count_def fun_eq_iff)
    next
      case False
      then show ?thesis using gs(3) last nl srv(1,2) st l0 cg cn p(6)
        by (intro bar_state.equality) (auto simp: count_def fun_eq_iff nat_add_distrib)
    qed
    ultimately show ?case using bar_step.Count by metis
  qed
qed

lemma bar_grant_waits:
  assumes "bar_inv n S c g" "p < n" "q < n" "chan S q p = m # ms" "is_op m BARRGRANT" "topid m = p"
  shows "0 < leave (bar_view n S c g) p" "threads S p = AtBarrGrant" "barrwait (host_of S p) \<noteq> 0"
proof -
  have "leave_for n p m" using assms(5,6) by (simp add: leave_for_def)
  then show pos: "0 < leave (bar_view n S c g) p" by (rule bar_view_take(3) [OF assms(4,2,3) refl assms(2)])
  have "stage (bar_view n S c g) p = Waiting" by (rule bar_ok_leave(1) [OF bar_inv_host(9) [OF assms(1,2)] assms(2) pos])
  then show "threads S p = AtBarrGrant" "barrwait (host_of S p) \<noteq> 0" using assms(2) by (simp_all add: bar_view_def stage_grant)
qed

lemma bar_serve_free:
  assumes "bar_inv n S c g" "p < n" "q < n" "chan S q p = m # ms" "barrgrantserver m (host_of S p) = Inr t"
    "host_change p (threads S p) t (set_chan q p ms S) S'" "is_op m BARRGRANT" "topid m = p"
  shows "bar_follows n S S' c g"
proof -
  note p = bar_inv_host [OF assms(1,2)]
  let ?s = "host_of S p" and ?V = "bar_view n S c g"
  note g = barrgrantserver_acts [OF p(3) assms(5)]
  have lf: "leave_for n h m \<longleftrightarrow> h = p" for h using assms(7,8) by (auto simp: leave_for_def is_op_def BCAST_def)
  have m: "\<not> is_op m BARR" using assms(7) by (simp add: is_op_def)
  note w = bar_grant_waits [OF assms(1-4,7,8)]
  have l0: "leave ?V h = 0" if "\<not> h < n" for h using that by (simp add: bar_view_def)
  have st: "stage_of (threads S p) t = Freed" using w(2) g(2) by (simp add: stage_of_def)
  have cn: "hidelock mod n = p \<Longrightarrow> nat (acqc (locks t hidelock)) = counted ?V" using g(3) by (simp add: bar_view_def)
  have cg: "came ?V = c" "gone ?V = g" by (simp_all add: bar_view_def)
  show "bar_follows n S S' c g"
  proof (rule bar_serve_by [OF assms(1-4,6) g(1) _ _ refl refl], goal_cases)
    case 2
    show ?case using g(3) p(6) by simp
  next
    case 3
    have "\<lparr>coming = (if is_op m BARR then coming ?V - 1 else coming ?V),
     counted = (if hidelock mod n = p then nat (acqc (locks t hidelock)) else counted ?V),
     leave = (\<lambda>h. if h < n then (if leave_for n h m then leave ?V h - 1 else leave ?V h) + length (filter (leave_for n h) []) else 0),
     stage = (stage ?V)(p := stage_of (threads S p) t), came = c, gone = g\<rparr> = free p ?V"
      using lf m st cn l0 assms(2) cg by (intro bar_state.equality) (auto simp: free_def fun_eq_iff)
    then show ?case using bar_step.Free [where p = p and a = ?V and n = n] assms(2) w(1) by simp
  qed simp
qed


lemma bar_serve_follows:
  assumes "bar_inv n S c g" "p < n" "q < n" "chan S q p = m # ms" "msg_handle mc rnds m (procs S p) = Inr P"
    "S' = set_chan q p ms (S\<lparr>procs := (procs S)(p := P)\<rparr>)"
  shows "bar_follows n S S' c g"
proof -
  note p = bar_inv_host [OF assms(1,2)]
  let ?s = "host_of S p" and ?t = "p_host P"
  have h: "host_change p (threads S p) ?t (set_chan q p ms S) S'"
    by (simp add: assms(6) host_change_def set_chan_def)
  have b: "f ?s = Inr ?t" if "msg_handle mc rnds m = on_host f" for f
    using assms(5) that by (auto simp: on_host_def)
  have mq: "topid m = p" "bar_op m \<longrightarrow> bar_msg_ok n q m"
    using p(8) assms(2-4) by (auto simp: bar_proc_ok_def)
  show ?thesis
  proof (cases "bar_op m")
    case False
    have "lock_op m \<longrightarrow> (\<exists>l<Maxlocks. msg_lock m = int l)"
      using way_ok_take [OF assms(4), of n] assms(1,3)
      by (auto simp: bar_inv_def sys_inv_def way_ok_def request_msg_def grant_msg_def)
    then have "unseen ?s ?t" by (rule ensuresD [OF msg_handle_unseen [OF p(3) False] assms(5)])
    moreover have "\<not> is_op m BARR" "\<not> leave_for n i m" for i using False bar_op_is by blast+
    ultimately show ?thesis
      by (intro bar_serve_same [OF assms(1-4) h, of "[]"]) (simp_all add: unseen_def)
  next
    case True
    then consider "is_op m BARR" | "is_op m BARRGRANT" | "op m = op_num BARRGRANT + BCAST" "leave_ok n m"
      using mq(2) request_barr(1) by (auto simp: bar_msg_ok_def leave_ok_def)
    then show ?thesis
    proof cases
      case 1
      show ?thesis by (rule bar_serve_count [OF assms(1-4) b [OF msg_handle_bar(1) [OF 1]] h])
    next
      case 2
      show ?thesis by (rule bar_serve_free [OF assms(1-4) b [OF msg_handle_bar(2) [OF 2]] h 2 mq(1)])
    next
      case 3
      have o: "topid m = jia_pid ?s" "jia_pid ?s < hostc ?s" "hostc ?s \<le> Maxhosts" "leave_ok (hostc ?s) m"
        using p(1,2,7) assms(2) mq(1) 3(2) by simp_all
      from bar_relay_acts [OF p(3) b [OF msg_handle_bar(3) [OF 3(1)]] 3(1) o, unfolded p(2)]
      obtain gs where gs: "bar_acts ?s gs ?t" "barrwait ?t = barrwait ?s" "acqc (locks ?t hidelock) = acqc (locks ?s hidelock)"
        "\<forall>x\<in>set gs. leave_ok n x" "\<forall>p<n. length (filter (leave_for n p) gs) = (if leave_for n p m then 1 else 0)" by blast
      have "\<not> is_op m BARR" using 3(1) by (simp add: is_op_def BCAST_def)
      then show ?thesis by (rule bar_serve_same [OF assms(1-4) h gs(1,4,3,2) _ gs(5)])
    qed
  qed
qed

lemma bar_step_follows:
  assumes "sys_step mc n S S'" "bar_inv n S c g"
  shows "bar_follows n S S' c g"
  using assms(1)
proof cases
  case (Send p m ms)
  show ?thesis by (rule bar_send_follows [OF assms(2) Send(2,3,1)])
next
  case (Serve p q m ms rnds P)
  show ?thesis by (rule bar_serve_follows [OF assms(2) Serve(2-5,1)])
next
  case (Thread p k P)
  have "host_change p k (p_host P) S S'" by (auto simp: Thread(1) host_change_def)
  then show ?thesis by (rule bar_thread_follows [OF assms(2) Thread(2,3)])
qed

section \<open>Runs\<close>

lemma sys_start_bar:
  assumes "sys_start n S"
  shows "bar_view n S (\<lambda>_. 0) (\<lambda>_. 0) = bar_open" "bar_inv n S (\<lambda>_. 0) (\<lambda>_. 0)"
proof -
  have p: "threads S p = Running" "fresh_host n p (host_of S p)" "chan S p q = []" if "p < n" for p q
    using assms that by (auto simp: sys_start_def)
  have n: "1 < n" "n \<le> Maxhosts" using assms by (simp_all add: sys_start_def)
  then have c: "acqc (locks (host_of S p) hidelock) = 0" "outq (host_of S p) = []" if "p < n" for p
    using p(2) [OF that] by (simp_all add: fresh_host_def hidelock_def)
  have "in_flight P n S = 0" for P using p(3) c(2) by (simp add: in_flight_def)
  then show v: "bar_view n S (\<lambda>_. 0) (\<lambda>_. 0) = bar_open"
    using n p(1) c(1) [of "hidelock mod n"] by (auto simp: bar_view_def bar_open_def stage_of_def fun_eq_iff)
  have "bar_proc_ok n S j" if "j < n" for j using p(3) [OF that] c [OF that] by (simp add: bar_proc_ok_def)
  then show "bar_inv n S (\<lambda>_. 0) (\<lambda>_. 0)"
    using n sys_start_inv [OF assms] bar_open_ok [of n] by (simp add: bar_inv_def v)
qed

lemma bar_run_inv:
  assumes "bar_run mc n S T c g" "sys_start n S"
  shows "bar_inv n T c g \<and> (bar_step n)\<^sup>*\<^sup>* bar_open (bar_view n T c g)"
  using assms(1)
proof induction
  case Begin
  then show ?case using sys_start_bar [OF assms(2)] by simp
next
  case (Go T c g U)
  then have f: "bar_follows n T U c g" and i: "bar_inv n T c g" using bar_step_follows by blast+
  let ?a = "bar_view n T c g" and ?b = "bar_view n U (tally (comes T U) c) (tally (goes T U) g)"
  have "?b = ?a \<or> bar_step n ?a ?b" using f by (simp add: bar_follows_def Let_def)
  moreover have "sys_inv n U" using sys_step_follows [OF Go(2)] follows_inv i by (auto simp: bar_inv_def)
  ultimately show ?case using Go(3) f i bar_ok_step
    by (auto simp: bar_inv_def bar_follows_def Let_def intro: rtranclp.rtrancl_into_rtrancl)
qed

lemma bar_run_phases:
  assumes "bar_run mc n S T c g" "sys_start n S" "p < n" "q < n"
  shows "g p \<le> c q" "c q \<le> g p + 2"
proof -
  have "bar_ok n (bar_view n T c g)" using bar_run_inv [OF assms(1,2)] by (simp add: bar_inv_def)
  from bar_ok_phases [OF this assms(3,4)] show "g p \<le> c q" "c q \<le> g p + 2" by (simp_all add: bar_view_def)
qed

section \<open>What the servers do with the next message\<close>

text \<open>The message that a process takes next from another, and the process that takes it.\<close>

lemma bar_next_message:
  assumes "bar_inv n S c g" "p < n" "q < n" "chan S q p = m # ms" "bar_op m"
  obtains (come) "request_msg BARR hidelock q p m" "home_of (host_of S p) (int hidelock)"
      "acqc (locks (host_of S p) hidelock) < int n"
    | (leave) "is_op m BARRGRANT" "topid m = p" "names_lock hidelock m" "threads S p = AtBarrGrant" "barrwait (host_of S p) \<noteq> 0"
    | (relay) "op m = op_num BARRGRANT + BCAST" "leave_ok n m" "topid m = p"
proof -
  note p = bar_inv_host [OF assms(1,2)]
  have mq: "topid m = p" "bar_msg_ok n q m" using p(8) assms(2-5) by (auto simp: bar_proc_ok_def)
  then consider "request_msg BARR hidelock q (hidelock mod n) m" | "is_op m BARRGRANT" "names_lock hidelock m"
    | "op m = op_num BARRGRANT + BCAST" "leave_ok n m"
    by (auto simp: bar_msg_ok_def leave_ok_def)
  then show thesis
  proof cases
    case 1
    note r = request_barr [OF 1]
    have "counted (bar_view n S c g) < n" by (rule bar_ok_counted [OF p(9)])
    then have "acqc (locks (host_of S p) hidelock) < int n" using r(3) mq(1) p(6) by (simp add: bar_view_def nat_less_iff)
    then show thesis using come 1 r p(1,2) mq(1) by (simp add: home_of_def)
  next
    case 2
    then show thesis using leave bar_grant_waits(2,3) [OF assms(1-4) 2(1) mq(1)] mq(1) by simp
  next
    case 3
    then show thesis using relay mq(1) by simp
  qed
qed

text \<open>The servers at such messages.\<close>

lemma barrserver_at_come:
  assumes "diff_slots s" "request_msg BARR hidelock q (jia_pid s) m" "home_of s (int hidelock)"
  shows "barrserver m s = bindE (recordwtnts m s) (\<lambda>t.
    let u = upd_lock hidelock (\<lambda>k. k\<lparr>acqc := acqc k + 1\<rparr>) t
    in if acqc (locks s hidelock) + 1 = int (hostc s)
       then bindE (grantbarr hidelock (upd_lock hidelock (\<lambda>k. k\<lparr>lscope := lscope k + 1\<rparr>) u)) (\<lambda>v.
            bindE (freewtntspace (wtntp (locks v hidelock))) (\<lambda>w. Inr (upd_lock hidelock (\<lambda>k. k\<lparr>acqc := 0, wtntp := w\<rparr>) v)))
       else Inr u)"
proof -
  have m: "is_op m BARR" "topid m = jia_pid s" "msg_lock m = int hidelock" using assms(2) by (simp_all add: request_msg_def)
  show ?thesis
  proof (cases "recordwtnts m s")
    case (Inl e)
    then show ?thesis using assms(3) unfolding barrserver_def m(3) by (simp add: m(1,2))
  next
    case (Inr t)
    have "unseen s t" by (rule ensuresD [OF bv.recordwtnts_quiet [OF unseen_refl [OF assms(1)]] Inr])
    then have "acqc (locks t hidelock) = acqc (locks s hidelock)" "hostc t = hostc s" by (simp_all add: unseen_def bar_acts_def)
    then have "acqc (locks (upd_lock hidelock (\<lambda>k. k\<lparr>acqc := acqc k + 1\<rparr>) t) hidelock) = acqc (locks s hidelock) + 1"
      "hostc (upd_lock hidelock (\<lambda>k. k\<lparr>acqc := acqc k + 1\<rparr>) t) = hostc s" by (simp_all add: upd_lock_def)
    then show ?thesis using Inr assms(3) unfolding barrserver_def m(3) by (simp add: m(1,2) Let_def)
  qed
qed

lemma barrgrantserver_at_waiting:
  assumes "is_op m BARRGRANT" "topid m = jia_pid s" "names_lock hidelock m"
  shows "barrgrantserver m s = bindE (if noclearlocks s = 0 then clearlocks s else Inr s) (\<lambda>t.
    bindE (invalidate m t) (\<lambda>u. bindE (if H_MIG u = ON then migarrangehome u else Inr u) (\<lambda>v.
    Inr (upd_lock hidelock (\<lambda>k. k\<lparr>myscope := scope m\<rparr>) v\<lparr>barrwait := 0, noclearlocks := 0\<rparr>))))"
proof -
  have "lock_at v (msg_lock m) = Inr hidelock" for v using assms(3) by (simp add: names_lock_def lock_at_def hidelock_def)
  then show ?thesis using assms(1,2) by (simp add: barrgrantserver_def)
qed

lemma other_msg_at_relay:
  assumes "op m = op_num BARRGRANT + BCAST" "leave_ok (hostc s) m" "topid m = jia_pid s" "hostc s \<le> Maxhosts"
  shows "\<exists>ms. other_msg m s = Inr (s\<lparr>outq := outq s @ ms\<rparr>) \<and> (\<forall>x\<in>set ms. leave_ok (hostc s) x) \<and>
    (\<forall>h<hostc s. length (filter (leave_for (hostc s) h) ms) = (if leave_for (hostc s) h m then 1 else 0))"
proof -
  have o: "topid m < hostc s" "tree_root m < hostc s" "hostc s < 65536" "names_lock hidelock m" "0 < tree_levels m"
    using assms by (auto simp: leave_ok_def is_op_def BCAST_def Maxhosts_def)
  obtain m' ms where st: "bcast_step (topid m) (hostc s) m = Inr (m', ms)"
    using o(5) unfolding bcast_step_def tree_levels_def by (simp add: Let_def)
  note l = bcast_step_leaves [OF st assms(1) o(1-4)]
  have "other_msg m s = Inr (s\<lparr>outq := outq s @ ms\<rparr>)"
    using st assms(1,3) by (simp add: other_msg_def bcastserver_def BCAST_def)
  then show ?thesis using l by blast
qed

section \<open>A barrier that two processes pass\<close>

definition pair :: "u32 loads \<Rightarrow> (nat \<Rightarrow> host) \<Rightarrow> (nat \<Rightarrow> thread) \<Rightarrow> (nat \<Rightarrow> nat \<Rightarrow> jia_msg list) \<Rightarrow> u32 system" where
  "pair ld s k ch = \<lparr>procs = (\<lambda>p. (static_proc [] ld)\<lparr>p_host := s p\<rparr>), threads = k, chan = ch\<rparr>"

lemma pair_fields [simp]: "host_of (pair ld s k ch) p = s p" "threads (pair ld s k ch) = k" "chan (pair ld s k ch) = ch"
  by (simp_all add: pair_def)

lemma pair_upd:
  "(pair ld s k ch)\<lparr>procs := (procs (pair ld s k ch))(p := (procs (pair ld s k ch) p)\<lparr>p_host := t\<rparr>)\<rparr> = pair ld (s(p := t)) k ch"
  "(pair ld s k ch)\<lparr>threads := k'\<rparr> = pair ld s k' ch" "set_chan q p ms (pair ld s k ch) = pair ld s k (ch(q := (ch q)(p := ms)))"
  by (auto simp: pair_def set_chan_def fun_eq_iff)

lemma pair_thread:
  assumes "bar_run mc n S (pair ld s k ch) c g" "p < n" "user_step (k p, s p) (k', t)"
  shows "bar_run mc n S (pair ld (s(p := t)) (k(p := k')) ch)
    (if k p = AtBarrDiffs \<and> k' = AtBarrGrant then c(p := c p + 1) else c)
    (if k p = AtBarrGrant \<and> k' \<noteq> AtBarrGrant then g(p := g p + 1) else g)"
proof -
  let ?S = "pair ld s k ch" and ?T = "pair ld (s(p := t)) (k(p := k')) ch"
  have "proc_step mc (threads ?S p, procs ?S p) (k', (procs ?S p)\<lparr>p_host := t\<rparr>)"
    by (rule proc_step.OnHost) (use assms(3) in simp)
  moreover have "?S\<lparr>threads := (threads ?S)(p := k'), procs := (procs ?S)(p := (procs ?S p)\<lparr>p_host := t\<rparr>)\<rparr> = ?T"
    by (simp add: pair_def fun_eq_iff)
  ultimately have "sys_step mc n ?S ?T" using sys_step.Thread [OF assms(2)] by metis
  from bar_run.Go [OF assms(1) this] show ?thesis using moves [of ?T ?S p k'] by simp
qed

lemma pair_send:
  assumes "bar_run mc n S (pair ld s k ch) c g" "p < n" "outq (s p) = m # ms"
  shows "bar_run mc n S (pair ld (s(p := (s p)\<lparr>outq := ms\<rparr>)) k (ch(p := (ch p)(topid m := ch p (topid m) @ [m])))) c g"
proof -
  let ?S = "pair ld s k ch"
  have "sys_step mc n ?S (pair ld (s(p := (s p)\<lparr>outq := ms\<rparr>)) k (ch(p := (ch p)(topid m := ch p (topid m) @ [m]))))"
    using sys_step.Send [OF assms(2), of ?S m ms mc] assms(3) by (simp add: set_host_of_def pair_upd)
  from bar_run.Go [OF assms(1) this] show ?thesis by (simp add: no_moves)
qed

lemma pair_serve:
  assumes "bar_run mc n S (pair ld s k ch) c g" "p < n" "q < n" "ch q p = m # ms"
    "msg_handle mc rnds m = on_host f" "f (s p) = Inr t"
  shows "bar_run mc n S (pair ld (s(p := t)) k (ch(q := (ch q)(p := ms)))) c g"
proof -
  let ?S = "pair ld s k ch"
  have "msg_handle mc rnds m (procs ?S p) = Inr ((procs ?S p)\<lparr>p_host := t\<rparr>)"
    using assms(5,6) by (simp add: on_host_def)
  from sys_step.Serve [OF assms(2,3) _ this, of ms] have "sys_step mc n ?S (pair ld (s(p := t)) k (ch(q := (ch q)(p := ms))))"
    using assms(4) by (simp add: pair_upd)
  from bar_run.Go [OF assms(1) this] show ?thesis by (simp add: no_moves)
qed

text \<open>A host that has written nothing.\<close>

definition idle :: "nat \<Rightarrow> host \<Rightarrow> bool" where
  "idle p s \<longleftrightarrow> jia_pid s = p \<and> hostc s = 2 \<and> diffmsg s = Map.empty \<and> home_pages s = 0 \<and> (\<forall>i. c_wtnt (cache s i) = 0) \<and>
     mbuf_inv s \<and> 0 < mcount s \<and> stackptr s = 0 \<and> lockid (lockstack s 0) = hidelock \<and> swtntp (lockstack s 0) = newwtnt \<and>
     diffwait s = 0 \<and> H_MIG s = OFF \<and> B_CAST s = OFF \<and> own_locks_ok s \<and> (p = 0 \<longrightarrow> wtntp (locks s hidelock) = newwtnt)"

lemma idle_outq [simp]: "idle p (s\<lparr>outq := x\<rparr>) = idle p s"
  by (simp add: idle_def mbuf_inv_def home_pages_def own_locks_ok_def)

lemma duo_idle: "idle p (duo_host p)"
  by (auto simp: idle_def duo_host_fields)
    (simp_all add: duo_host_def init_msg_buffer_def Let_def initsyn_def static_host_def Maxstacksize_def hidelock_def
      own_locks_ok_def newwtnt_def WNULL_def Maxlocks_def)

definition bare :: "jia_msg \<Rightarrow> bool" where
  "bare m \<longleftrightarrow> payload m = itob (word_of_nat hidelock)"

lemma bare_lock: "bare m \<Longrightarrow> msg_lock m = int hidelock" "bare m \<Longrightarrow> record_offsets m = []"
proof -
  assume b: "bare m"
  then show "msg_lock m = int hidelock"
    using msg_lock_payload [of m hidelock "[]"] by (simp add: bare_def hidelock_def Maxlocks_def)
  have "length (payload m) = 4" using b by (simp add: bare_def)
  then show "record_offsets m = []" by (simp add: record_offsets_def payload_def msg_consts)
qed

lemma send_empty:
  assumes "mbuf_inv s" "0 < mcount s" "l < 2 ^ 31" "\<forall>m. size m = 4 \<longrightarrow> app m w = Inr (m, WNULL)"
    "\<forall>m. frompid (hdr m) = f \<and> topid (hdr m) = d"
  shows "\<exists>m b. send_notices app send_slot mo lo hdr l w s = Inr (s\<lparr>mbuf := b, outq := outq s @ [m]\<rparr>) \<and>
    request_msg lo l f d m \<and> payload m = itob (word_of_nat l) \<and> free_slots b = mcount s"
proof -
  obtain k s1 where lk: "freemsg_lock s = Inr (k, s1)" using freemsg_lock_total assms(1,2) by blast
  note u = freemsg_lock_inv [OF lk assms(1)]
  obtain c b where s1: "s1 = s\<lparr>mcount := c, mbuf := b\<rparr>"
    using lk by (auto simp: freemsg_lock_def split: if_splits option.splits)
  let ?m0 = "(hdr (slot_msg (mbuf s1 ! k)))\<lparr>size := 0\<rparr>"
  obtain m1 where m1: "appendmsg ?m0 (itob (word_of_nat l)) = Inr m1" "extends ?m0 (itob (word_of_nat l)) m1"
    using appendmsg_extends [of ?m0 "itob (word_of_nat l)"] by (auto simp: Maxmsgsize_eq)
  have m2: "app m1 w = Inr (m1, WNULL)" using m1(2) assms(4) by (simp add: extends_def)
  let ?m = "m1\<lparr>op := op_num lo\<rparr>"
  let ?s2 = "move_msg_to_outqueue k (set_slot k ?m (set_slot k m1 s1))"
  let ?s3 = "freemsg_unlock k ?s2"
  have k: "k < length (mbuf s1)" by (rule u(2))
  have run: "send_notices app send_slot mo lo hdr l w s = Inr ?s3"
    using lk m1(1) m2 k by (simp add: send_notices_def send_rest.simps send_slot_def)
  have "mbuf_inv ?s2" using set_slot_inv [OF set_slot_inv [OF u(1) k], of k] k by (simp add: mbuf_inv_def)
  then have inv: "mbuf_inv ?s3" by (rule freemsg_unlock_inv) (use u in simp_all)
  have eq: "?s3 = s\<lparr>mbuf := mbuf ?s3, outq := outq s @ [?m]\<rparr>"
    using u(4) k by (simp add: freemsg_unlock_def move_msg_to_outqueue_def set_slot_def s1)
  have cnt: "mcount ?s3 = mcount s"
    using u(4) by (simp add: freemsg_unlock_def move_msg_to_outqueue_def set_slot_def)
  have "payload (m\<lparr>size := 0\<rparr>) = []" for m by (simp add: payload_def)
  then have "payload m1 = itob (word_of_nat l)" using m1(2) by (simp only: extends_def append_Nil)
  then have pay: "payload ?m = itob (word_of_nat l) @ []" by (simp add: payload_def)
  have "frompid ?m = f \<and> topid ?m = d" using m1(2) assms(5) by (simp add: extends_def)
  then have "request_msg lo l f d ?m" "payload ?m = itob (word_of_nat l)"
    using msg_lock_payload [OF pay assms(3)] pay by (simp_all add: request_msg_def is_op_def)
  then show ?thesis using run eq inv cnt by (intro exI [of _ ?m] exI [of _ "mbuf ?s3"]) (simp add: mbuf_inv_def)
qed

text \<open>What an idle host does at a barrier.\<close>

lemma idle_interval_barr: "idle p s \<Longrightarrow> endinterval_send BARR s = Inr s" "idle p s \<Longrightarrow> startinterval BARR s = Inr s"
  using idle_interval [of s BARR] by (simp_all add: idle_def)

lemma idle_come:
  assumes "idle p s"
  shows "barrier_begin s = Inr s" "\<exists>m t. barrier_send s = Inr t \<and> request_msg BARR hidelock p 0 m \<and> bare m \<and>
    outq t = outq s @ [m] \<and> idle p t \<and> barrwait t = 1 \<and> acqc (locks t hidelock) = acqc (locks s hidelock)"
proof -
  show "barrier_begin s = Inr s"
    using idle_interval_barr(1) [OF assms] assms by (simp add: barrier_begin_def idle_def)
  let ?s = "s\<lparr>barrwait := 1\<rparr>"
  have h: "mbuf_inv ?s" "0 < mcount ?s" "hidelock < 2 ^ 31"
    using assms by (simp_all add: idle_def mbuf_inv_def hidelock_def Maxlocks_def)
  have a: "\<forall>m. size m = 4 \<longrightarrow> appendstackwtnts m newwtnt = Inr (m, WNULL)"
    by (simp add: appendstackwtnts_def newwtnt_def WNULL_def Maxmsgsize_eq)
  let ?hdr = "\<lambda>m. m\<lparr>frompid := p, topid := 0, scope := myscope (locks ?s hidelock)\<rparr>"
  obtain m b where m: "send_notices appendstackwtnts send_slot WTNT BARR ?hdr hidelock newwtnt ?s =
      Inr (?s\<lparr>mbuf := b, outq := outq ?s @ [m]\<rparr>)" "request_msg BARR hidelock p 0 m" "bare m" "free_slots b = mcount ?s"
    using send_empty [where app = appendstackwtnts and w = newwtnt and hdr = ?hdr and f = p and d = 0 and mo = WTNT and lo = BARR, OF h a]
    by (auto simp: bare_def)
  let ?t = "?s\<lparr>mbuf := b, outq := outq ?s @ [m]\<rparr>"
  have "sendwtnts BARR ?s = Inr ?t"
    using assms m(1) by (simp add: sendwtnts_def top_at_def idle_def Let_def Maxstacksize_def hidelock_def Maxlocks_def)
  then have run: "barrier_send s = Inr (set_top_wtnt 0 newwtnt ?t)"
    using assms by (simp add: barrier_send_def idle_def top_at_def Maxstacksize_def freewtntspace_def newwtnt_def)
  have "idle p (set_top_wtnt 0 newwtnt ?t)"
    using assms m(4) by (auto simp: idle_def set_top_wtnt_def mbuf_inv_def home_pages_def own_locks_ok_def)
  then show "\<exists>m t. barrier_send s = Inr t \<and> request_msg BARR hidelock p 0 m \<and> bare m \<and>
    outq t = outq s @ [m] \<and> idle p t \<and> barrwait t = 1 \<and> acqc (locks t hidelock) = acqc (locks s hidelock)"
    using run m(2,3) by (intro exI [of _ m] exI [of _ "set_top_wtnt 0 newwtnt ?t"]) (simp add: set_top_wtnt_def)
qed

lemma idle_count:
  assumes "idle 0 s" "request_msg BARR hidelock p 0 m" "bare m"
  shows "acqc (locks s hidelock) = 0 \<Longrightarrow> \<exists>t. barrserver m s = Inr t \<and> idle 0 t \<and> outq t = outq s \<and> acqc (locks t hidelock) = 1"
    "acqc (locks s hidelock) = 1 \<Longrightarrow> \<exists>t g. barrserver m s = Inr t \<and> idle 0 t \<and>
       outq t = outq s @ [g\<lparr>topid := 0\<rparr>, g\<lparr>topid := 1\<rparr>] \<and> is_op g BARRGRANT \<and> bare g"
proof -
  let ?one = "\<lambda>k. k\<lparr>acqc := acqc k + 1\<rparr>"
  note i = assms(1) [unfolded idle_def]
  have h: "home_of s (int hidelock)" using i by (simp add: home_of_def hidelock_def Maxlocks_def)
  have "sint (msg_int m 0) = int hidelock" using bare_lock(1) [OF assms(3)] by (simp add: msg_lock_def)
  then have rec: "recordwtnts m s = Inr s"
    using bare_lock(2) [OF assms(3)] by (simp add: recordwtnts_def lock_at_def hidelock_def)
  have srv: "barrserver m s = (let s = upd_lock hidelock ?one s
     in if acqc (locks s hidelock) = int (hostc s)
        then bindE (grantbarr hidelock (upd_lock hidelock (\<lambda>k. k\<lparr>lscope := lscope k + 1\<rparr>) s)) (\<lambda>s.
             bindE (freewtntspace (wtntp (locks s hidelock))) (\<lambda>w.
             Inr (upd_lock hidelock (\<lambda>k. k\<lparr>acqc := 0, wtntp := w\<rparr>) s)))
        else Inr s)"
    using assms(2) i h rec by (simp add: barrserver_def request_msg_def)
  show "\<exists>t. barrserver m s = Inr t \<and> idle 0 t \<and> outq t = outq s \<and> acqc (locks t hidelock) = 1" if "acqc (locks s hidelock) = 0"
  proof -
    have "barrserver m s = Inr (upd_lock hidelock ?one s)" using that i by (simp add: srv Let_def upd_lock_def)
    moreover have "idle 0 (upd_lock hidelock ?one s)"
      using i by (auto simp: idle_def upd_lock_def mbuf_inv_def home_pages_def own_locks_ok_def)
    ultimately show ?thesis using that by (simp add: upd_lock_def)
  qed
  show "\<exists>t g. barrserver m s = Inr t \<and> idle 0 t \<and> outq t = outq s @ [g\<lparr>topid := 0\<rparr>, g\<lparr>topid := 1\<rparr>] \<and> is_op g BARRGRANT \<and> bare g"
    if a: "acqc (locks s hidelock) = 1"
  proof -
    let ?u = "upd_lock hidelock (\<lambda>k. k\<lparr>lscope := lscope k + 1\<rparr>) (upd_lock hidelock ?one s)"
    have u: "mbuf_inv ?u" "0 < mcount ?u" "hidelock < 2 ^ 31" "B_CAST ?u = OFF" "length (concat (wtntp (locks ?u hidelock))) \<le> 2555"
      using i by (simp_all add: upd_lock_def mbuf_inv_def newwtnt_def) (simp add: hidelock_def Maxlocks_def)
    obtain g b where g: "grantbarr hidelock ?u = Inr (?u\<lparr>mbuf := b, outq := outq ?u @ map (\<lambda>h. g\<lparr>topid := h\<rparr>) [0..<hostc ?u]\<rparr>)"
      "mbuf_inv (?u\<lparr>mbuf := b, outq := outq ?u @ map (\<lambda>h. g\<lparr>topid := h\<rparr>) [0..<hostc ?u]\<rparr>)" "is_op g BARRGRANT"
      "payload g = itob (word_of_nat hidelock) @ concat (map notice_bytes (concat (wtntp (locks ?u hidelock))))"
      using grantbarr_run [OF u] by blast
    have two: "map f [0..<hostc ?u] = [f 0, f 1]" for f :: "nat \<Rightarrow> jia_msg" using i by (simp add: upd_lock_def numeral_2_eq_2)
    let ?v = "?u\<lparr>mbuf := b, outq := outq s @ [g\<lparr>topid := 0\<rparr>, g\<lparr>topid := 1\<rparr>]\<rparr>"
    have v: "grantbarr hidelock ?u = Inr ?v" "free_slots b = mcount s"
      using g(1,2) unfolding two by (simp_all add: upd_lock_def mbuf_inv_def)
    have fr: "freewtntspace (wtntp (locks ?v hidelock)) = Inr newwtnt"
      using i by (simp add: upd_lock_def freewtntspace_def newwtnt_def)
    let ?t = "upd_lock hidelock (\<lambda>k. k\<lparr>acqc := 0, wtntp := newwtnt\<rparr>) ?v"
    have "acqc (locks (upd_lock hidelock ?one s) hidelock) = int (hostc (upd_lock hidelock ?one s))"
      using a i by (simp add: upd_lock_def)
    then have "barrserver m s = Inr ?t" using v(1) fr by (simp add: srv Let_def)
    moreover have "idle 0 ?t"
      using i v(2) by (auto simp: idle_def upd_lock_def mbuf_inv_def home_pages_def own_locks_ok_def newwtnt_def WNULL_def)
    moreover have "bare g" using g(4) i by (simp add: bare_def upd_lock_def newwtnt_def)
    ultimately show ?thesis using g(3) by (intro exI [of _ ?t] exI [of _ g]) (simp add: upd_lock_def)
  qed
qed

lemma idle_free:
  assumes "idle p s" "p < 2" "is_op m BARRGRANT" "topid m = p" "bare m"
  shows "\<exists>t. barrgrantserver m s = Inr t \<and> outq t = outq s \<and> barrwait t = 0 \<and> H_MIG t = OFF \<and> startinterval BARR t = Inr t"
proof -
  note i = assms(1) [unfolded idle_def]
  have "\<exists>ls. clearlocks s = Inr (s\<lparr>locks := ls\<rparr>)" using clearlocks_run [of s] i assms(2) by auto
  then obtain ls where ls: "(if noclearlocks s = 0 then clearlocks s else Inr s) = Inr (s\<lparr>locks := ls\<rparr>)"
    by (cases "noclearlocks s = 0") (auto intro: that [of "locks s"])
  have inv: "invalidate m (s\<lparr>locks := ls\<rparr>) = Inr (s\<lparr>locks := ls\<rparr>)"
    using invalidate_entries [of m "word_of_nat hidelock" "[]"] assms(5) by (simp add: bare_def)
  let ?t = "upd_lock hidelock (\<lambda>k. k\<lparr>myscope := scope m\<rparr>) (s\<lparr>locks := ls\<rparr>)\<lparr>barrwait := 0, noclearlocks := 0\<rparr>"
  have "barrgrantserver m s = Inr ?t"
    using assms(3,4) i ls(1) inv bare_lock(1) [OF assms(5)] by (simp add: barrgrantserver_def lock_at_def hidelock_def)
  moreover have "startinterval BARR ?t = Inr ?t"
  proof (rule idle_interval(2))
    have "home_pages ?t = home_pages s" by (simp add: home_pages_def upd_lock_def)
    then show "home_pages ?t = 0" using i by simp
  qed (use i in \<open>simp_all add: upd_lock_def\<close>)
  ultimately show ?thesis using i by (simp add: upd_lock_def)
qed


lemma pair_come:
  assumes "bar_run mc 2 S (pair ld s k ch) c g" "p < 2" "k p = Running" "idle p (s p)" "outq (s p) = []"
  shows "\<exists>m t. bar_run mc 2 S (pair ld (s(p := t)) (k(p := AtBarrGrant)) (ch(p := (ch p)(0 := ch p 0 @ [m])))) (c(p := c p + 1)) g \<and>
    request_msg BARR hidelock p 0 m \<and> bare m \<and> idle p t \<and> outq t = [] \<and> barrwait t = 1 \<and> acqc (locks t hidelock) = acqc (locks (s p) hidelock)"
proof -
  obtain m t where m: "barrier_send (s p) = Inr t" "request_msg BARR hidelock p 0 m" "bare m" "outq t = [m]" "idle p t" "barrwait t = 1"
    "acqc (locks t hidelock) = acqc (locks (s p) hidelock)" using idle_come(2) [OF assms(4)] assms(5) by auto
  have "diffwait (s p) = 0" using assms(4) by (simp add: idle_def)
  note u = user_step.Barrier [OF idle_come(1) [OF assms(4)]] user_step.BarrierSend [OF this m(1)]
  have r: "bar_run mc 2 S (pair ld s (k(p := AtBarrDiffs)) ch) c g"
    using pair_thread [OF assms(1,2), of AtBarrDiffs "s p"] u(1) assms(3) by simp
  have "bar_run mc 2 S (pair ld (s(p := t)) (k(p := AtBarrGrant)) ch) (c(p := c p + 1)) g"
    using pair_thread [OF r assms(2), of AtBarrGrant t] u(2) by simp
  from pair_send [OF this assms(2), of m "[]"] have "bar_run mc 2 S (pair ld (s(p := t\<lparr>outq := []\<rparr>)) (k(p := AtBarrGrant))
      (ch(p := (ch p)(0 := ch p 0 @ [m])))) (c(p := c p + 1)) g"
    using m(2,4) by (simp add: request_msg_def)
  then show ?thesis using m(2,3,5-7) by (intro exI [of _ m] exI [of _ "t\<lparr>outq := []\<rparr>"]) simp
qed

lemma pair_go:
  assumes "bar_run mc 2 S (pair ld s k ch) c g" "p < 2" "k p = AtBarrGrant" "barrwait (s p) = 0" "H_MIG (s p) = OFF"
    "startinterval BARR (s p) = Inr (s p)"
  shows "bar_run mc 2 S (pair ld s (k(p := Running)) ch) c (g(p := g p + 1))"
proof -
  have "\<not> (H_MIG (s p) = ON \<and> W_VEC (s p) = ON)" using assms(5) by simp
  from user_step.BarrierEnd [OF assms(4) this assms(6)] show ?thesis
    using pair_thread [OF assms(1,2), of Running "s p"] assms(3) by simp
qed

definition duo_system :: "u32 loads \<Rightarrow> u32 system" where
  "duo_system ld = pair ld duo_host (\<lambda>_. Running) (\<lambda>_ _. [])"

lemma duo_system_start: "sys_start 2 (duo_system ld)"
  by (auto simp: sys_start_def duo_system_def fresh_host_def duo_host_fields diff_slots_def less_2_cases_iff Maxhosts_def)

lemma pair_all_come:
  "\<exists>s k m0 m1. bar_run mc 2 (duo_system ld) (pair ld s k (\<lambda>p q. if q = 0 then if p = 0 then [m0] else if p = 1 then [m1] else [] else []))
     (\<lambda>p. if p < 2 then 1 else 0) (\<lambda>_. 0) \<and> k 0 = AtBarrGrant \<and> k 1 = AtBarrGrant \<and> (\<forall>p<2. idle p (s p) \<and> outq (s p) = [] \<and> barrwait (s p) = 1) \<and>
     acqc (locks (s 0) hidelock) = 0 \<and> request_msg BARR hidelock 0 0 m0 \<and> request_msg BARR hidelock 1 0 m1 \<and> bare m0 \<and> bare m1"
proof -
  have q: "outq (duo_host p) = []" "acqc (locks (duo_host p) hidelock) = 0" for p
    by (simp_all add: duo_host_fields hidelock_def)
  have r0: "bar_run mc 2 (duo_system ld) (pair ld duo_host (\<lambda>_. Running) (\<lambda>_ _. [])) (\<lambda>_. 0) (\<lambda>_. 0)"
    using bar_run.Begin [of mc 2 "duo_system ld"] by (simp only: duo_system_def)
  have two: "(1 :: nat) < 2" "(0 :: nat) < 2" by simp_all
  let ?k1 = "((\<lambda>_. Running)(1 := AtBarrGrant)) :: nat \<Rightarrow> thread" and ?c1 = "((\<lambda>_. 0)(1 := 0 + 1)) :: nat \<Rightarrow> nat"
  obtain m1 t1 where r1: "bar_run mc 2 (duo_system ld) (pair ld (duo_host(1 := t1)) ?k1
      ((\<lambda>_ _. [])(1 := (\<lambda>_. [])(0 := [] @ [m1])))) ?c1 (\<lambda>_. 0)"
    "request_msg BARR hidelock 1 0 m1" "bare m1" "idle 1 t1" "outq t1 = []" "barrwait t1 = 1"
    using pair_come [OF r0 two(1) refl duo_idle q(1)] by blast
  let ?s1 = "duo_host(1 := t1)" and ?ch1 = "((\<lambda>_ _. [])(1 := (\<lambda>_. [])(0 := [] @ [m1]))) :: nat \<Rightarrow> nat \<Rightarrow> jia_msg list"
  have p0: "?k1 0 = Running" "idle 0 (?s1 0)" "outq (?s1 0) = []" "acqc (locks (?s1 0) hidelock) = 0"
    using duo_idle q by simp_all
  obtain m0 t0 where r2: "bar_run mc 2 (duo_system ld) (pair ld (?s1(0 := t0)) (?k1(0 := AtBarrGrant))
      (?ch1(0 := (?ch1 0)(0 := ?ch1 0 0 @ [m0])))) (?c1(0 := ?c1 0 + 1)) (\<lambda>_. 0)"
    "request_msg BARR hidelock 0 0 m0" "bare m0" "idle 0 t0" "outq t0 = []" "acqc (locks t0 hidelock) = 0" "barrwait t0 = 1"
    using pair_come [OF r1(1) two(2) p0(1-3)] unfolding p0(4) by blast
  have e: "?ch1(0 := (?ch1 0)(0 := ?ch1 0 0 @ [m0])) =
      (\<lambda>p q. if q = 0 then if p = 0 then [m0] else if p = 1 then [m1] else [] else [])"
    "?c1(0 := ?c1 0 + 1) = (\<lambda>p. if p < 2 then 1 else 0)" by (auto simp: fun_eq_iff less_2_cases_iff)
  have "(?k1(0 := AtBarrGrant)) 0 = AtBarrGrant" "(?k1(0 := AtBarrGrant)) 1 = AtBarrGrant"
    "\<forall>p<2. idle p ((?s1(0 := t0)) p) \<and> outq ((?s1(0 := t0)) p) = [] \<and> barrwait ((?s1(0 := t0)) p) = 1" "acqc (locks ((?s1(0 := t0)) 0) hidelock) = 0"
    using r1(4-6) r2(4-7) by (auto simp: less_2_cases_iff)
  then show ?thesis using r2(1) [unfolded e] r1(2,3) r2(2,3) by blast
qed

lemma pair_all_go:
  "\<exists>T. bar_run mc 2 (duo_system ld) T (\<lambda>p. if p < 2 then 1 else 0) (\<lambda>p. if p < 2 then 1 else 0) \<and> threads T 0 = Running \<and> threads T 1 = Running"
proof -
  have two: "(1 :: nat) < 2" "(0 :: nat) < 2" by simp_all
  let ?c = "(\<lambda>p. if p < 2 then 1 else 0) :: nat \<Rightarrow> nat"
  obtain s k m0 m1 where r0: "bar_run mc 2 (duo_system ld)
      (pair ld s k (\<lambda>p q. if q = 0 then if p = 0 then [m0] else if p = 1 then [m1] else [] else [])) ?c (\<lambda>_. 0)"
    and k: "k 0 = AtBarrGrant" "k 1 = AtBarrGrant" and i: "\<forall>p<2. idle p (s p) \<and> outq (s p) = [] \<and> barrwait (s p) = 1" "acqc (locks (s 0) hidelock) = 0"
    and m: "request_msg BARR hidelock 0 0 m0" "request_msg BARR hidelock 1 0 m1" "bare m0" "bare m1"
    using pair_all_come by blast
  define ch0 where "ch0 = (\<lambda>p q. if q = (0 :: nat) then if p = (0 :: nat) then [m0] else if p = 1 then [m1] else [] else [])"
  note r0 = r0 [folded ch0_def]
  have i0: "idle 0 (s 0)" "outq (s 0) = []" "idle 1 (s 1)" "outq (s 1) = []" using i(1) two by (blast+)
  have b: "is_op m0 BARR" "is_op m1 BARR" using m by (simp_all add: request_msg_def)
  obtain t where t: "barrserver m1 (s 0) = Inr t" "idle 0 t" "outq t = []" "acqc (locks t hidelock) = 1"
    using idle_count(1) [OF i0(1) m(2,4) i(2)] i0(2) by auto
  define s1 ch1 where d1: "s1 = s(0 := t)" "ch1 = ch0(1 := (ch0 1)(0 := []))"
  have "ch0 1 0 = [m1]" by (simp add: ch0_def)
  from pair_serve [OF r0 two(2,1) this msg_handle_bar(1) [OF b(2)] t(1)]
  have r1: "bar_run mc 2 (duo_system ld) (pair ld s1 k ch1) ?c (\<lambda>_. 0)" by (simp only: d1)
  obtain u g where u: "barrserver m0 t = Inr u" "idle 0 u" "outq u = [g\<lparr>topid := 0\<rparr>, g\<lparr>topid := 1\<rparr>]" "is_op g BARRGRANT" "bare g"
    using idle_count(2) [OF t(2) m(1,3) t(4)] t(3) by auto
  let ?g0 = "g\<lparr>topid := 0\<rparr>" and ?g1 = "g\<lparr>topid := 1\<rparr>"
  define s2 ch2 where d2: "s2 = s1(0 := u)" "ch2 = ch1(0 := (ch1 0)(0 := []))"
  have "ch1 0 0 = [m0]" "barrserver m0 (s1 0) = Inr u" using u(1) by (simp_all add: d1 ch0_def)
  from pair_serve [OF r1 two(2,2) this(1) msg_handle_bar(1) [OF b(1)] this(2)]
  have r2: "bar_run mc 2 (duo_system ld) (pair ld s2 k ch2) ?c (\<lambda>_. 0)" by (simp only: d2)
  have c2: "ch2 0 0 = []" "ch2 0 1 = []" by (simp_all add: d2 d1 ch0_def)
  define s3 ch3 where d3: "s3 = s2(0 := (s2 0)\<lparr>outq := [?g1]\<rparr>)" "ch3 = ch2(0 := (ch2 0)(topid ?g0 := ch2 0 (topid ?g0) @ [?g0]))"
  have "outq (s2 0) = [?g0, ?g1]" using u(3) by (simp add: d2)
  from pair_send [OF r2 two(2) this] have r3: "bar_run mc 2 (duo_system ld) (pair ld s3 k ch3) ?c (\<lambda>_. 0)" by (simp only: d3)
  define s4 ch4 where d4: "s4 = s3(0 := (s3 0)\<lparr>outq := []\<rparr>)" "ch4 = ch3(0 := (ch3 0)(topid ?g1 := ch3 0 (topid ?g1) @ [?g1]))"
  have "outq (s3 0) = [?g1]" by (simp add: d3)
  from pair_send [OF r3 two(2) this] have r4: "bar_run mc 2 (duo_system ld) (pair ld s4 k ch4) ?c (\<lambda>_. 0)" by (simp only: d4)
  have g: "is_op ?g0 BARRGRANT" "is_op ?g1 BARRGRANT" "bare ?g0" "bare ?g1" "topid ?g0 = 0" "topid ?g1 = 1"
    using u(4,5) by (simp_all add: is_op_def bare_def payload_def)
  have s4: "idle 0 (s4 0)" "idle 1 (s4 1)" "ch4 0 0 = [?g0]" "ch4 0 1 = [?g1]"
    using u(2) i0(3) c2 by (simp_all add: d1 d2(1) d3 d4)
  obtain v where v: "barrgrantserver ?g0 (s4 0) = Inr v" "barrwait v = 0" "H_MIG v = OFF" "startinterval BARR v = Inr v"
    using idle_free [OF s4(1) two(2) g(1,5,3)] by blast
  define s5 ch5 where d5: "s5 = s4(0 := v)" "ch5 = ch4(0 := (ch4 0)(0 := []))"
  from pair_serve [OF r4 two(2,2) s4(3) msg_handle_bar(2) [OF g(1)] v(1)]
  have r5: "bar_run mc 2 (duo_system ld) (pair ld s5 k ch5) ?c (\<lambda>_. 0)" by (simp only: d5)
  obtain w where w: "barrgrantserver ?g1 (s4 1) = Inr w" "barrwait w = 0" "H_MIG w = OFF" "startinterval BARR w = Inr w"
    using idle_free [OF s4(2) two(1) g(2,6,4)] by blast
  define s6 ch6 where d6: "s6 = s5(1 := w)" "ch6 = ch5(0 := (ch5 0)(1 := []))"
  have "ch5 0 1 = [?g1]" "barrgrantserver ?g1 (s5 1) = Inr w" using s4(4) w(1) by (simp_all add: d5)
  from pair_serve [OF r5 two(1,2) this(1) msg_handle_bar(2) [OF g(2)] this(2)]
  have r6: "bar_run mc 2 (duo_system ld) (pair ld s6 k ch6) ?c (\<lambda>_. 0)" by (simp only: d6)
  have s6: "s6 0 = v" "s6 1 = w" by (simp_all add: d6 d5)
  define k1 g1 where dk: "k1 = k(0 := Running)" "g1 = ((\<lambda>_. 0)(0 := 0 + 1) :: nat \<Rightarrow> nat)"
  have r7: "bar_run mc 2 (duo_system ld) (pair ld s6 k1 ch6) ?c g1"
    unfolding dk by (rule pair_go [OF r6 two(2) k(1)]) (simp_all only: s6 v)
  have k1: "k1 1 = AtBarrGrant" using k(2) by (simp add: dk)
  have r8: "bar_run mc 2 (duo_system ld) (pair ld s6 (k1(1 := Running)) ch6) ?c (g1(1 := g1 1 + 1))"
    by (rule pair_go [OF r7 two(1) k1]) (simp_all only: s6 w)
  have "g1(1 := g1 1 + 1) = ?c" by (auto simp: dk fun_eq_iff less_2_cases_iff)
  then show ?thesis using r8 by (intro exI [of _ "pair ld s6 (k1(1 := Running)) ch6"]) (simp add: dk)
qed

section \<open>Refinement and the phases of a program\<close>

text \<open>
  C4: A barrier separates the phases of the program. In every run of the whole system, under any
  interleaving and with any other calls between, a process has gone on from at most as many barriers as
  any other process has come to, whether the leave is sent to each host or passed down the tree; and no
  process is ahead by more than two comings.
\<close>

theorem system_barrier_phases:
  assumes "sys_start n S" "bar_run mc n S T c g" "p < n" "q < n"
  shows "g p \<le> c q \<and> c q \<le> g p + 2"
  using bar_run_phases [OF assms(2,1,3,4)] by (rule conjI)

lemma system_barrier_phases_witness:
  "\<forall>ld mc. \<exists>T c g. bar_run mc 2 (duo_system ld) T c g \<and> g 1 = 1 \<and> 1 \<le> c 0 \<and> threads T 1 = Running"
proof (intro allI)
  fix ld mc
  obtain T where T: "bar_run mc 2 (duo_system ld) T (\<lambda>p. if p < 2 then 1 else 0) (\<lambda>p. if p < 2 then 1 else 0)"
    "threads T 1 = Running" using pair_all_go by blast
  let ?o = "(\<lambda>p. if p < 2 then 1 else 0) :: nat \<Rightarrow> nat"
  have "?o 1 \<le> ?o 0" using system_barrier_phases [OF duo_system_start T(1), of 1 0] by simp
  moreover have "?o 1 = 1" by simp
  ultimately have "bar_run mc 2 (duo_system ld) T ?o ?o \<and> ?o 1 = 1 \<and> 1 \<le> ?o 0 \<and> threads T 1 = Running"
    using T by simp
  then show "\<exists>T c g. bar_run mc 2 (duo_system ld) T c g \<and> g 1 = 1 \<and> 1 \<le> c 0 \<and> threads T 1 = Running" by blast
qed

text \<open>
  C5: The processes implement the protocol of the barrier. In every run of the whole system the count
  of the manager, the messages on their way and where the processes are, together with how often each
  has come and gone on, are what the protocol reaches from the open barrier.
\<close>

theorem system_refines_barrier:
  assumes "sys_start n S" "bar_run mc n S T c g"
  shows "(bar_step n)\<^sup>*\<^sup>* bar_open (bar_view n T c g)"
  using bar_run_inv [OF assms(2,1)] by (rule conjunct2)

lemma system_refines_barrier_witness:
  "\<forall>ld mc. \<exists>T c g. bar_run mc 2 (duo_system ld) T c g \<and> c 0 = 1 \<and> g 0 = 1 \<and> (bar_step 2)\<^sup>*\<^sup>* bar_open (bar_view 2 T c g)"
proof (intro allI)
  fix ld mc
  let ?o = "(\<lambda>p. if p < 2 then 1 else 0) :: nat \<Rightarrow> nat"
  obtain T where T: "bar_run mc 2 (duo_system ld) T ?o ?o" using pair_all_go by blast
  have "?o 0 = 1" by simp
  then show "\<exists>T c g. bar_run mc 2 (duo_system ld) T c g \<and> c 0 = 1 \<and> g 0 = 1 \<and> (bar_step 2)\<^sup>*\<^sup>* bar_open (bar_view 2 T c g)"
    using T system_refines_barrier [OF duo_system_start T] by blast
qed

text \<open>
  C6: The servers of the barrier get past their own assertions and array bounds. In every run of the
  whole system, when a message of a barrier is the next that a process handles from another:
  \<open>barrserver\<close>, whose count is below the number of hosts, records the notices and counts the sender,
  and opens the barrier if it is the last and returns otherwise; a leave comes to a process that waits
  for it, and \<open>barrgrantserver\<close> ends the wait after it has cleared the notices and invalidated the
  pages; and one that is to be passed on is, without an error, to each host below exactly once. So the
  program can stop in them only where notices are recorded or cleared, the leaves are filled, pages
  are invalidated or migrated.
\<close>

theorem barrier_assertions_hold:
  assumes "sys_start n S" "bar_run mc n S T c g" "p < n" "q < n" "chan T q p = m # ms" "bar_op m" "s = host_of T p"
  shows "is_op m BARR \<and> msg_handle mc rnds m = on_host (barrserver m) \<and>
      0 \<le> acqc (locks s hidelock) \<and> acqc (locks s hidelock) < int n \<and>
      barrserver m s = bindE (recordwtnts m s) (\<lambda>t.
        let u = upd_lock hidelock (\<lambda>k. k\<lparr>acqc := acqc k + 1\<rparr>) t
        in if acqc (locks s hidelock) + 1 = int n
           then bindE (grantbarr hidelock (upd_lock hidelock (\<lambda>k. k\<lparr>lscope := lscope k + 1\<rparr>) u)) (\<lambda>v.
                bindE (freewtntspace (wtntp (locks v hidelock))) (\<lambda>w. Inr (upd_lock hidelock (\<lambda>k. k\<lparr>acqc := 0, wtntp := w\<rparr>) v)))
           else Inr u) \<or>
    is_op m BARRGRANT \<and> msg_handle mc rnds m = on_host (barrgrantserver m) \<and> threads T p = AtBarrGrant \<and> barrwait s \<noteq> 0 \<and>
      barrgrantserver m s = bindE (if noclearlocks s = 0 then clearlocks s else Inr s) (\<lambda>t.
        bindE (invalidate m t) (\<lambda>u. bindE (if H_MIG u = ON then migarrangehome u else Inr u) (\<lambda>v.
        Inr (upd_lock hidelock (\<lambda>k. k\<lparr>myscope := scope m\<rparr>) v\<lparr>barrwait := 0, noclearlocks := 0\<rparr>)))) \<or>
    op m = op_num BARRGRANT + BCAST \<and> msg_handle mc rnds m = on_host (other_msg m) \<and>
      (\<exists>ms. other_msg m s = Inr (s\<lparr>outq := outq s @ ms\<rparr>) \<and>
        (\<forall>h<n. length (filter (leave_for n h) ms) = (if leave_for n h m then 1 else 0)))"
proof -
  have i: "bar_inv n T c g" using bar_run_inv [OF assms(2,1)] by blast
  note p = bar_inv_host [OF i assms(3), folded assms(7)]
  from i assms(3-6) show ?thesis
  proof (cases rule: bar_next_message)
    case come
    note r = come [folded assms(7)]
    have "is_op m BARR" using r(1) by (simp add: request_msg_def)
    moreover from barrserver_at_come [OF p(3) _ r(2), of q m] r(1) p(1,2) have "barrserver m s = bindE (recordwtnts m s) (\<lambda>t.
        let u = upd_lock hidelock (\<lambda>k. k\<lparr>acqc := acqc k + 1\<rparr>) t
        in if acqc (locks s hidelock) + 1 = int n
           then bindE (grantbarr hidelock (upd_lock hidelock (\<lambda>k. k\<lparr>lscope := lscope k + 1\<rparr>) u)) (\<lambda>v.
                bindE (freewtntspace (wtntp (locks v hidelock))) (\<lambda>w. Inr (upd_lock hidelock (\<lambda>k. k\<lparr>acqc := 0, wtntp := w\<rparr>) v)))
           else Inr u)" by simp
    ultimately show ?thesis using msg_handle_bar(1) [of m mc rnds] r(3) p(6) by blast
  next
    case leave
    note r = leave [folded assms(7)]
    have "topid m = jia_pid s" using r(2) p(1) by simp
    from barrgrantserver_at_waiting [OF r(1) this r(3)] msg_handle_bar(2) [OF r(1)] r show ?thesis by blast
  next
    case relay
    note r = relay [folded assms(7)]
    have "leave_ok (hostc s) m" "topid m = jia_pid s" "hostc s \<le> Maxhosts" using r p by simp_all
    from other_msg_at_relay [OF r(1) this] msg_handle_bar(3) [OF r(1)] r(1) p(2) show ?thesis by blast
  qed
qed

lemma barrier_assertions_hold_witness:
  "\<forall>ld mc. \<exists>T c g m. bar_run mc 2 (duo_system ld) T c g \<and> chan T 1 0 = [m] \<and> is_op m BARR \<and>
     0 \<le> acqc (locks (host_of T 0) hidelock) \<and> acqc (locks (host_of T 0) hidelock) < int 2"
proof (intro allI)
  fix ld mc
  obtain s k m0 m1 where r: "bar_run mc 2 (duo_system ld)
      (pair ld s k (\<lambda>p q. if q = 0 then if p = 0 then [m0] else if p = 1 then [m1] else [] else [])) (\<lambda>p. if p < 2 then 1 else 0) (\<lambda>_. 0)"
    and m: "request_msg BARR hidelock 1 0 m1" using pair_all_come by blast
  let ?T = "pair ld s k (\<lambda>p q. if q = 0 then if p = 0 then [m0] else if p = 1 then [m1] else [] else [])"
  have "chan ?T 1 0 = [m1]" by simp
  moreover have "\<not> is_op m1 BARRGRANT" "op m1 \<noteq> op_num BARRGRANT + BCAST"
    using request_barr(1) [OF m] by (simp_all add: is_op_def BCAST_def)
  moreover note barrier_assertions_hold [OF duo_system_start r _ _ calculation(1) request_barr(2) [OF m] refl]
  ultimately have "0 \<le> acqc (locks (host_of ?T 0) hidelock) \<and> acqc (locks (host_of ?T 0) hidelock) < int 2" by simp
  moreover note \<open>chan ?T 1 0 = [m1]\<close>
  ultimately show "\<exists>T c g m. bar_run mc 2 (duo_system ld) T c g \<and> chan T 1 0 = [m] \<and> is_op m BARR \<and>
     0 \<le> acqc (locks (host_of T 0) hidelock) \<and> acqc (locks (host_of T 0) hidelock) < int 2"
    using r request_barr(1) [OF m] by blast
qed

end
